(* ===== verification/Prelude.thy ===== *)
theory Prelude
imports Main "HOL-Library.Word" "HOL-Library.Monad_Syntax"
begin

text \<open>Types, automation and lemmas shared by every component.

A C object that a pointer points into is a list of its cells from the pointer
to the end of the object: reading past the end is the value \<open>None\<close>.  A C
string is such a list of characters with a NUL in it.  Plain \<open>char\<close> is signed
with the compiler the PROM is built with, so \<open>schar\<close> reads a character as a
number between -128 and 127.\<close>

type_synonym u8 = "8 word"
type_synonym u16 = "16 word"
type_synonym u32 = "32 word"
type_synonym u64 = "64 word"

named_theorems cstr_simps \<open>runs of the string routines on NUL-terminated strings\<close>
named_theorems class_simps \<open>character classes as ranges\<close>
named_theorems dw_simps \<open>double words as 64-bit words\<close>

abbreviation NUL :: char where
  "NUL \<equiv> CHR 0x00"

abbreviation nulfree :: "string \<Rightarrow> bool" where
  "nulfree s \<equiv> NUL \<notin> set s"

definition cstr :: "string \<Rightarrow> string" where
  "cstr s = s @ [NUL]"

definition str_of :: "string \<Rightarrow> string" where
  "str_of m = takeWhile (\<lambda>c. c \<noteq> NUL) m"

definition schar :: "char \<Rightarrow> int" where
  "schar c = (let n = of_char c in if n < 128 then n else n - 256)"

definition char_of_int :: "int \<Rightarrow> char" where
  "char_of_int i = char_of (nat (i mod 256))"

text \<open>Reading and writing one cell of an object.\<close>

definition rd :: "'a list \<Rightarrow> nat \<Rightarrow> 'a option" where
  "rd xs i = (if i < length xs then Some (xs ! i) else None)"

definition wr :: "'a list \<Rightarrow> nat \<Rightarrow> 'a \<Rightarrow> 'a list option" where
  "wr xs i v = (if i < length xs then Some (xs[i := v]) else None)"

section \<open>Characters as signed numbers\<close>

lemma of_char_range: "0 \<le> (of_char c :: int)" "(of_char c :: int) < 256"
proof -
  have "(of_char c :: int) = int (of_char c)"
    by (simp add: of_nat_of_char)
  then show "0 \<le> (of_char c :: int)" "(of_char c :: int) < 256"
    using nat_of_char_less_256 [of c] by linarith+
qed

lemma schar_mod [simp]: "schar c mod 256 = of_char c"
  using of_char_range [of c] by (auto simp: schar_def Let_def mod_pos_pos_trivial)

lemma schar_inj [simp]: "schar a = schar b \<longleftrightarrow> a = b"
proof
  assume "schar a = schar b"
  then have "(of_char a :: int) = of_char b"
    by (metis schar_mod)
  then show "a = b"
    by simp
qed simp

lemma schar_NUL [simp]: "schar NUL = 0"
  by (simp add: schar_def)

lemma schar_0 [simp]: "schar c = 0 \<longleftrightarrow> c = NUL"
  using schar_inj [of c NUL] by simp

lemma schar_pos: "\<not> schar c < 0 \<Longrightarrow> c \<noteq> NUL \<Longrightarrow> 0 < schar c"
  using schar_0 [of c] by linarith

lemma schar_bounds: "- 128 \<le> schar c" "schar c < 128"
  using of_char_range [of c] by (auto simp: schar_def Let_def)

lemma char_of_int_schar [simp]: "char_of_int (schar c) = c"
proof -
  have "nat (of_char c) = (of_char c :: nat)"
    by (metis nat_int of_nat_of_char)
  then show ?thesis
    by (simp add: char_of_int_def)
qed

lemma schar_char_of: "n < 128 \<Longrightarrow> schar (char_of (n :: nat)) = int n"
proof -
  assume n: "n < 128"
  have "(of_char (char_of n) :: int) = int (of_char (char_of n))"
    by (simp only: of_nat_of_char)
  with n show ?thesis
    by (simp add: schar_def)
qed

lemma char_of_eq: "n < 256 \<Longrightarrow> char_of (n :: nat) = c \<longleftrightarrow> n = of_char c"
  by (metis of_char_of char_of_char mod_less)

section \<open>NUL-terminated strings\<close>

lemma str_of_term [simp]: "nulfree s \<Longrightarrow> str_of (s @ NUL # r) = s"
  by (induction s) (auto simp: str_of_def)

lemma str_of_nulfree [simp]: "nulfree (str_of m)"
  by (auto simp: str_of_def dest: set_takeWhileD)

lemma str_of_cstr [simp]: "nulfree s \<Longrightarrow> str_of (cstr s) = s"
  using str_of_term [of s "[]"] by (simp add: cstr_def)

lemma str_of_Cons: "str_of (c # m) = (if c = NUL then [] else c # str_of m)"
  by (simp add: str_of_def)

lemma cstr_inj [simp]: "cstr a = cstr b \<longleftrightarrow> a = b"
  by (simp add: cstr_def)

lemma cstr_neq_Nil [simp]: "cstr a \<noteq> []"
  by (simp add: cstr_def)

lemma terminated_split:
  assumes "NUL \<in> set m"
  obtains r where "m = str_of m @ NUL # r"
proof -
  have "m = takeWhile (\<lambda>c. c \<noteq> NUL) m @ dropWhile (\<lambda>c. c \<noteq> NUL) m"
    by simp
  moreover have "dropWhile (\<lambda>c. c \<noteq> NUL) m \<noteq> []"
    using assms by (simp add: dropWhile_eq_Nil_conv)
  moreover have "hd (dropWhile (\<lambda>c. c \<noteq> NUL) m) = NUL"
    using hd_dropWhile [OF calculation(2)] by simp
  ultimately show thesis
    using that by (metis list.collapse str_of_def)
qed

section \<open>Cells\<close>

lemma rd_Some [simp]: "rd xs i = Some v \<longleftrightarrow> i < length xs \<and> xs ! i = v"
  by (auto simp: rd_def)

lemma wr_Some [simp]: "wr xs i v = Some ys \<longleftrightarrow> i < length xs \<and> ys = xs[i := v]"
  by (auto simp: wr_def)

lemma rd_None [simp]: "rd xs i = None \<longleftrightarrow> length xs \<le> i"
  by (auto simp: rd_def)

lemma wr_None [simp]: "wr xs i v = None \<longleftrightarrow> length xs \<le> i"
  by (auto simp: wr_def)

section \<open>Machine integers\<close>

lemma unat_lt_32: "unat (x :: u32) < 2 ^ 32"
  using unsigned_less [of x, where ?'a = nat] by simp

lemma unat_of_nat_32: "n < 2 ^ 32 \<Longrightarrow> unat (of_nat n :: u32) = n"
  by (simp add: unat_of_nat take_bit_nat_eq_self)

lemma unat_of_nat_64: "n < 2 ^ 64 \<Longrightarrow> unat (of_nat n :: u64) = n"
  by (simp add: unat_of_nat take_bit_nat_eq_self)

lemma sint_of_nat_32: "n < 2 ^ 31 \<Longrightarrow> sint (of_nat n :: u32) = int n"
  by (simp add: sint_uint uint_word_of_int_eq signed_take_bit_int_eq_self take_bit_nat_eq_self
      unsigned_of_nat)

end
