(* ===== verification/Ctype.thy ===== *)
theory Ctype
imports Prelude
begin

unbundle bit_operations_syntax

text \<open>Character classes: \<open>__ctype\<close> of \<open>src/libsc/lib/ctype.c\<close>, the macros of
\<open>include/ctype.h\<close> over it, and \<open>tolower\<close> of \<open>src/libsc/lib/strcasecmp.c\<close>.  The
table is written as the runs of equal entries of the initialiser; the macros
index it with the operand converted to \<open>unsigned char\<close>, plus one.\<close>

definition c_U :: u8 where "c_U = 0x01"
definition c_L :: u8 where "c_L = 0x02"
definition c_N :: u8 where "c_N = 0x04"
definition c_S :: u8 where "c_S = 0x08"
definition c_P :: u8 where "c_P = 0x10"
definition c_C :: u8 where "c_C = 0x20"
definition c_B :: u8 where "c_B = 0x40"
definition c_X :: u8 where "c_X = 0x80"

definition ctype_runs :: "(nat \<times> u8) list" where
  "ctype_runs =
     [(1, 0), (9, c_C), (5, c_S OR c_C), (18, c_C),
      (1, c_S OR c_B), (15, c_P),
      (10, c_N OR c_X), (7, c_P),
      (6, c_U OR c_X), (20, c_U), (6, c_P),
      (6, c_L OR c_X), (20, c_L), (4, c_P), (1, c_C),
      (32, c_C),
      (1, c_B), (31, c_P),
      (32, c_U), (32, c_L)]"

definition ctype_tab :: "u8 list" where
  "ctype_tab = concat (map (\<lambda>(k, v). replicate k v) ctype_runs)"

text \<open>The second half of the table: the conversion of the other case.\<close>

definition ctype_conv :: "nat list" where
  "ctype_conv =
     [0..<65] @ [97..<123] @ [91..<97] @ [65..<91] @ [123..<192]
     @ [224..<247] @ [215] @ [248..<255] @ [223]
     @ [192..<215] @ [247] @ [216..<223] @ [255]"

definition ctype_is :: "u8 \<Rightarrow> int \<Rightarrow> bool" where
  "ctype_is m c \<longleftrightarrow> ctype_tab ! (nat (c mod 256) + 1) AND m \<noteq> 0"

definition isalpha :: "int \<Rightarrow> bool" where "isalpha c = ctype_is (c_U OR c_L) c"
definition isupper :: "int \<Rightarrow> bool" where "isupper c = ctype_is c_U c"
definition islower :: "int \<Rightarrow> bool" where "islower c = ctype_is c_L c"
definition isdigit :: "int \<Rightarrow> bool" where "isdigit c = ctype_is c_N c"
definition isxdigit :: "int \<Rightarrow> bool" where "isxdigit c = ctype_is c_X c"
definition isalnum :: "int \<Rightarrow> bool" where "isalnum c = ctype_is (c_U OR c_L OR c_N) c"
definition isspace :: "int \<Rightarrow> bool" where "isspace c = ctype_is c_S c"
definition ispunct :: "int \<Rightarrow> bool" where "ispunct c = ctype_is c_P c"
definition isprint :: "int \<Rightarrow> bool" where
  "isprint c = ctype_is (c_P OR c_U OR c_L OR c_N OR c_B) c"
definition isgraph :: "int \<Rightarrow> bool" where
  "isgraph c = ctype_is (c_P OR c_U OR c_L OR c_N) c"
definition iscntrl :: "int \<Rightarrow> bool" where "iscntrl c = ctype_is c_C c"

definition to_lower :: "int \<Rightarrow> int" where
  "to_lower c = c - schar CHR ''A'' + schar CHR ''a''"

definition to_upper :: "int \<Rightarrow> int" where
  "to_upper c = c - schar CHR ''a'' + schar CHR ''A''"

definition tolower :: "int \<Rightarrow> int" where
  "tolower c = (if isupper c then to_lower c else c)"

definition toupper :: "int \<Rightarrow> int" where
  "toupper c = (if islower c then to_upper c else c)"

section \<open>The classes as ranges\<close>

lemmas mask_defs = c_U_def c_L_def c_N_def c_S_def c_P_def c_C_def c_B_def c_X_def

text \<open>Reading a table given by its runs, the running start of the run as an
argument, so that no subtraction is left in a lookup.\<close>

fun run_at :: "nat \<Rightarrow> (nat \<times> 'a) list \<Rightarrow> nat \<Rightarrow> 'a" where
  "run_at s [] i = undefined"
| "run_at s ((k, v) # rs) i = (if i < s + k then v else run_at (s + k) rs i)"

lemma concat_runs_nth:
  "i < sum_list (map fst rs) \<Longrightarrow>
   concat (map (\<lambda>(k, v). replicate k v) rs) ! i = run_at s rs (s + i)"
proof (induction rs arbitrary: i s)
  case (Cons r rs)
  show ?case
  proof (cases "i < fst r")
    case False
    then have "concat (map (\<lambda>(k, v). replicate k v) rs) ! (i - fst r) =
        run_at (s + fst r) rs ((s + fst r) + (i - fst r))"
      using Cons.prems by (intro Cons.IH) auto
    with False show ?thesis
      by (cases r) (simp add: nth_append)
  qed (cases r, simp add: nth_append)
qed simp

lemma sum_ctype_runs: "sum_list (map fst ctype_runs) = 257"
  by (simp add: ctype_runs_def)

lemma run_at_map:
  "s \<le> i \<Longrightarrow> i < s + sum_list (map fst rs) \<Longrightarrow>
   f (run_at s rs i) = run_at s (map (\<lambda>(k, v). (k, f v)) rs) i"
  by (induction rs arbitrary: s) (auto simp: add.assoc)

lemma ctype_is_runs:
  assumes "n = nat (c mod 256)"
  shows "ctype_is m c \<longleftrightarrow>
    run_at 0 (map (\<lambda>(k, v). (k, v AND m \<noteq> 0)) ctype_runs) (Suc n)"
proof -
  have "Suc n < 257"
    using assms pos_mod_bound [of 256 c] by linarith
  then show ?thesis
    using concat_runs_nth [of "Suc n" ctype_runs 0]
      run_at_map [of 0 "Suc n" ctype_runs "\<lambda>v. v AND m \<noteq> 0"]
    by (simp add: ctype_is_def ctype_tab_def sum_ctype_runs assms)
qed

lemma isdigit_iff [class_simps]: "isdigit c \<longleftrightarrow> 48 \<le> c mod 256 \<and> c mod 256 \<le> 57"
proof -
  define n where "n = nat (c mod 256)"
  have "n < 256" "int n = c mod 256"
    by (auto simp: n_def nat_less_iff)
  moreover have "isdigit c \<longleftrightarrow> 48 \<le> n \<and> n \<le> 57" if "n < 256"
    unfolding isdigit_def ctype_is_runs [OF n_def] using that
    by (auto simp: ctype_runs_def mask_defs)
  ultimately show ?thesis
    by (simp flip: \<open>int n = c mod 256\<close>)
qed

lemma isupper_iff [class_simps]: "isupper c \<longleftrightarrow> 65 \<le> c mod 256 \<and> c mod 256 \<le> 90 \<or> 192 \<le> c mod 256 \<and> c mod 256 \<le> 223"
proof -
  define n where "n = nat (c mod 256)"
  have "n < 256" "int n = c mod 256"
    by (auto simp: n_def nat_less_iff)
  moreover have "isupper c \<longleftrightarrow> 65 \<le> n \<and> n \<le> 90 \<or> 192 \<le> n \<and> n \<le> 223" if "n < 256"
    unfolding isupper_def ctype_is_runs [OF n_def] using that
    by (auto simp: ctype_runs_def mask_defs)
  ultimately show ?thesis
    by (simp flip: \<open>int n = c mod 256\<close>)
qed

lemma islower_iff [class_simps]: "islower c \<longleftrightarrow> 97 \<le> c mod 256 \<and> c mod 256 \<le> 122 \<or> 224 \<le> c mod 256 \<and> c mod 256 \<le> 255"
proof -
  define n where "n = nat (c mod 256)"
  have "n < 256" "int n = c mod 256"
    by (auto simp: n_def nat_less_iff)
  moreover have "islower c \<longleftrightarrow> 97 \<le> n \<and> n \<le> 122 \<or> 224 \<le> n \<and> n \<le> 255" if "n < 256"
    unfolding islower_def ctype_is_runs [OF n_def] using that
    by (auto simp: ctype_runs_def mask_defs)
  ultimately show ?thesis
    by (simp flip: \<open>int n = c mod 256\<close>)
qed

lemma isalpha_iff [class_simps]: "isalpha c \<longleftrightarrow> 65 \<le> c mod 256 \<and> c mod 256 \<le> 90 \<or> 97 \<le> c mod 256 \<and> c mod 256 \<le> 122 \<or> 192 \<le> c mod 256 \<and> c mod 256 \<le> 255"
proof -
  define n where "n = nat (c mod 256)"
  have "n < 256" "int n = c mod 256"
    by (auto simp: n_def nat_less_iff)
  moreover have "isalpha c \<longleftrightarrow> 65 \<le> n \<and> n \<le> 90 \<or> 97 \<le> n \<and> n \<le> 122 \<or> 192 \<le> n \<and> n \<le> 255" if "n < 256"
    unfolding isalpha_def ctype_is_runs [OF n_def] using that
    by (auto simp: ctype_runs_def mask_defs)
  ultimately show ?thesis
    by (simp flip: \<open>int n = c mod 256\<close>)
qed

lemma isxdigit_iff [class_simps]: "isxdigit c \<longleftrightarrow> 48 \<le> c mod 256 \<and> c mod 256 \<le> 57 \<or> 65 \<le> c mod 256 \<and> c mod 256 \<le> 70 \<or> 97 \<le> c mod 256 \<and> c mod 256 \<le> 102"
proof -
  define n where "n = nat (c mod 256)"
  have "n < 256" "int n = c mod 256"
    by (auto simp: n_def nat_less_iff)
  moreover have "isxdigit c \<longleftrightarrow> 48 \<le> n \<and> n \<le> 57 \<or> 65 \<le> n \<and> n \<le> 70 \<or> 97 \<le> n \<and> n \<le> 102" if "n < 256"
    unfolding isxdigit_def ctype_is_runs [OF n_def] using that
    by (auto simp: ctype_runs_def mask_defs)
  ultimately show ?thesis
    by (simp flip: \<open>int n = c mod 256\<close>)
qed

lemma isalnum_iff [class_simps]: "isalnum c \<longleftrightarrow> 48 \<le> c mod 256 \<and> c mod 256 \<le> 57 \<or> 65 \<le> c mod 256 \<and> c mod 256 \<le> 90 \<or> 97 \<le> c mod 256 \<and> c mod 256 \<le> 122 \<or> 192 \<le> c mod 256 \<and> c mod 256 \<le> 255"
proof -
  define n where "n = nat (c mod 256)"
  have "n < 256" "int n = c mod 256"
    by (auto simp: n_def nat_less_iff)
  moreover have "isalnum c \<longleftrightarrow> 48 \<le> n \<and> n \<le> 57 \<or> 65 \<le> n \<and> n \<le> 90 \<or> 97 \<le> n \<and> n \<le> 122 \<or> 192 \<le> n \<and> n \<le> 255" if "n < 256"
    unfolding isalnum_def ctype_is_runs [OF n_def] using that
    by (auto simp: ctype_runs_def mask_defs)
  ultimately show ?thesis
    by (simp flip: \<open>int n = c mod 256\<close>)
qed

lemma isspace_iff [class_simps]: "isspace c \<longleftrightarrow> 9 \<le> c mod 256 \<and> c mod 256 \<le> 13 \<or> c mod 256 = 32"
proof -
  define n where "n = nat (c mod 256)"
  have "n < 256" "int n = c mod 256"
    by (auto simp: n_def nat_less_iff)
  moreover have "isspace c \<longleftrightarrow> 9 \<le> n \<and> n \<le> 13 \<or> n = 32" if "n < 256"
    unfolding isspace_def ctype_is_runs [OF n_def] using that
    by (auto simp: ctype_runs_def mask_defs)
  ultimately show ?thesis
    by (simp flip: \<open>int n = c mod 256\<close>)
qed

end
