(* ===== verification/Cstrings.thy ===== *)
theory Cstrings
imports Ctype "HOL-Library.Sublist"
begin

text \<open>The string routines of \<open>src/libsc/lib/strstuff.c\<close>, \<open>strnstuff.c\<close> and
\<open>strcasecmp.c\<close>.

A pointer argument is the list of characters from the pointer to the end of its
object; a pointer result is such a list again, or, for a routine that writes,
the cells of the destination after the call.  \<open>None\<close> is an access outside the
object.  Source and destination are different objects.  A \<open>size_t\<close> that the code
copies into an \<open>int\<close> is read with \<open>sint\<close>.\<close>

section \<open>Definitions\<close>

subsection \<open>strstuff.c\<close>

fun strcpy :: "string \<Rightarrow> string \<Rightarrow> string option" where
  "strcpy (x # d) (c # s) =
    (if c = NUL then Some (NUL # d)
     else do { d' \<leftarrow> strcpy d s; Some (c # d') })"
| "strcpy _ _ = None"

fun strcat :: "string \<Rightarrow> string \<Rightarrow> string option" where
  "strcat [] s = None"
| "strcat (x # d) s =
    (if x = NUL then strcpy (x # d) s
     else do { d' \<leftarrow> strcat d s; Some (x # d') })"

fun strcmp :: "string \<Rightarrow> string \<Rightarrow> int option" where
  "strcmp (a # s1) (b # s2) =
    (if a = b then if a = NUL then Some 0 else strcmp s1 s2
     else Some (schar a - schar b))"
| "strcmp _ _ = None"

fun strlen :: "string \<Rightarrow> nat option" where
  "strlen [] = None"
| "strlen (c # s) =
    (if c = NUL then Some 0 else do { n \<leftarrow> strlen s; Some (Suc n) })"

text \<open>The inner loop of \<open>strstr\<close>: \<open>p\<close> is what \<open>++s2\<close> will read next, \<open>s\<close> what
\<open>s1++\<close> will; the value is the last character read from the pattern.\<close>

fun strstr_inner :: "string \<Rightarrow> string \<Rightarrow> char option" where
  "strstr_inner (c # p) (x # s) =
    (if c = x \<and> c \<noteq> NUL then strstr_inner p s else Some c)"
| "strstr_inner _ _ = None"

fun strstr_outer :: "char \<Rightarrow> string \<Rightarrow> string \<Rightarrow> string option option" where
  "strstr_outer c0 p [] = None"
| "strstr_outer c0 p (x # s) =
    (if x = NUL then Some None
     else if x = c0 then
       do { c \<leftarrow> strstr_inner p s;
            if c = NUL then Some (Some (x # s)) else strstr_outer c0 p s }
     else strstr_outer c0 p s)"

definition strstr :: "string \<Rightarrow> string option \<Rightarrow> string option option" where
  "strstr instr1 instr2 =
    (case instr2 of
       None \<Rightarrow> Some (Some instr1)
     | Some [] \<Rightarrow> None
     | Some (c0 # p) \<Rightarrow>
         if c0 = NUL then Some (Some instr1) else strstr_outer c0 p instr1)"

fun strchr :: "string \<Rightarrow> int \<Rightarrow> string option option" where
  "strchr [] c = None"
| "strchr (d # s) c =
    (if d = NUL then Some None
     else if schar d = c then Some (Some (d # s)) else strchr s c)"

subsection \<open>strnstuff.c\<close>

fun strncmp_loop :: "int \<Rightarrow> string \<Rightarrow> string \<Rightarrow> int option" where
  "strncmp_loop n s1 s2 =
    (if n - 1 < 0 then Some 0
     else case (s1, s2) of
       (a # r1, b # r2) \<Rightarrow>
         (if a = b then if a = NUL then Some 0 else strncmp_loop (n - 1) r1 r2
          else Some (schar a - schar b))
     | _ \<Rightarrow> None)"

definition strncmp :: "string \<Rightarrow> string \<Rightarrow> u32 \<Rightarrow> int option" where
  "strncmp s1 s2 sn = strncmp_loop (sint sn) s1 s2"

text \<open>\<open>strncpy_loop\<close> has \<open>n - i\<close> for its count, \<open>pad\<close> is the inner \<open>while\<close>.\<close>

fun pad :: "string \<Rightarrow> nat \<Rightarrow> string option" where
  "pad d 0 = Some d"
| "pad [] (Suc n) = None"
| "pad (x # d) (Suc n) = do { d' \<leftarrow> pad d n; Some (NUL # d') }"

fun strncpy_loop :: "string \<Rightarrow> string \<Rightarrow> nat \<Rightarrow> string option" where
  "strncpy_loop d s 0 = Some d"
| "strncpy_loop (x # d) (c # s) (Suc n) =
    (if c = NUL then do { d' \<leftarrow> pad d n; Some (NUL # d') }
     else do { d' \<leftarrow> strncpy_loop d s n; Some (c # d') })"
| "strncpy_loop _ _ (Suc n) = None"

definition strncpy :: "string \<Rightarrow> string \<Rightarrow> u32 \<Rightarrow> string option" where
  "strncpy s1 s2 sn = strncpy_loop s1 s2 (nat (sint sn))"

fun strncat_copy :: "string \<Rightarrow> string \<Rightarrow> int \<Rightarrow> string option" where
  "strncat_copy (x # d) (c # s) n =
    (if c = NUL then Some (NUL # d)
     else if n - 1 < 0 then Some (NUL # d)
     else do { d' \<leftarrow> strncat_copy d s (n - 1); Some (c # d') })"
| "strncat_copy _ _ n = None"

fun strncat_loop :: "string \<Rightarrow> string \<Rightarrow> int \<Rightarrow> string option" where
  "strncat_loop [] s n = None"
| "strncat_loop (x # d) s n =
    (if x = NUL then strncat_copy (x # d) s n
     else do { d' \<leftarrow> strncat_loop d s n; Some (x # d') })"

definition strncat :: "string \<Rightarrow> string \<Rightarrow> u32 \<Rightarrow> string option" where
  "strncat s1 s2 sn = strncat_loop s1 s2 (sint sn)"

fun index :: "string \<Rightarrow> int \<Rightarrow> string option option" where
  "index [] c = None"
| "index (d # sp) c =
    (if schar d = c then Some (Some (d # sp))
     else if d \<noteq> NUL then index sp c else Some None)"

fun rindex_loop :: "string \<Rightarrow> int \<Rightarrow> string option \<Rightarrow> string option option" where
  "rindex_loop [] c cp = None"
| "rindex_loop (d # sp) c cp =
    (let cp' = (if schar d = c then Some (d # sp) else cp)
     in if d \<noteq> NUL then rindex_loop sp c cp' else Some cp')"

definition rindex :: "string \<Rightarrow> int \<Rightarrow> string option option" where
  "rindex sp c = rindex_loop sp c None"

subsection \<open>strcasecmp.c\<close>

fun strcasecmp :: "string \<Rightarrow> string \<Rightarrow> int option" where
  "strcasecmp (a # s1) (b # s2) =
    (if tolower (schar a) = tolower (schar b)
     then if a = NUL then Some 0 else strcasecmp s1 s2
     else Some (tolower (schar a) - tolower (schar b)))"
| "strcasecmp _ _ = None"

fun strncasecmp_loop :: "int \<Rightarrow> string \<Rightarrow> string \<Rightarrow> int option" where
  "strncasecmp_loop n s1 s2 =
    (if n - 1 < 0 then Some 0
     else case (s1, s2) of
       (a # r1, b # r2) \<Rightarrow>
         (if tolower (schar a) = tolower (schar b)
          then if a = NUL then Some 0 else strncasecmp_loop (n - 1) r1 r2
          else Some (tolower (schar a) - tolower (schar b)))
     | _ \<Rightarrow> None)"

definition strncasecmp :: "string \<Rightarrow> string \<Rightarrow> u32 \<Rightarrow> int option" where
  "strncasecmp s1 s2 un = strncasecmp_loop (sint un) s1 s2"

declare strncmp_loop.simps [simp del] strncasecmp_loop.simps [simp del]

section \<open>Runs on NUL-terminated strings\<close>

lemma strlen_term [cstr_simps]: "nulfree s \<Longrightarrow> strlen (s @ NUL # r) = Some (length s)"
  by (induction s) auto

lemma strlen_cstr [cstr_simps]: "nulfree s \<Longrightarrow> strlen (cstr s) = Some (length s)"
  by (simp add: cstr_def strlen_term)

lemma strcpy_term [cstr_simps]:
  "nulfree s \<Longrightarrow> strcpy d (s @ NUL # r) =
    (if length s < length d then Some (s @ NUL # drop (Suc (length s)) d) else None)"
proof (induction s arbitrary: d)
  case (Cons c s)
  then show ?case by (cases d) auto
qed (case_tac d, auto)

lemma strcat_term [cstr_simps]:
  "nulfree a \<Longrightarrow> nulfree s \<Longrightarrow> strcat (a @ NUL # d) (s @ NUL # r) =
    (if length s \<le> length d then Some (a @ s @ NUL # drop (length s) d) else None)"
  by (induction a) (auto simp: strcpy_term)

lemma strcmp_term:
  "nulfree a \<Longrightarrow> nulfree b \<Longrightarrow>
   \<exists>v. strcmp (a @ NUL # r) (b @ NUL # r') = Some v \<and>
       (v = 0 \<longleftrightarrow> a = b) \<and>
       (v < 0 \<longleftrightarrow> ord_class.lexordp (map schar (cstr a)) (map schar (cstr b)))"
proof (induction a arbitrary: b)
  case Nil
  then show ?case by (cases b) (auto simp: cstr_def schar_pos)
next
  case (Cons x a)
  then show ?case
  proof (cases b)
    case (Cons y b')
    with Cons.prems Cons.IH [of b'] show ?thesis
      by (cases rule: linorder_cases [of "schar x" "schar y"]) (auto simp: cstr_def)
  qed (auto simp: cstr_def)
qed

lemma strcmp_eq [cstr_simps]:
  "nulfree a \<Longrightarrow> nulfree b \<Longrightarrow> strcmp (cstr a) (cstr b) = Some 0 \<longleftrightarrow> a = b"
  using strcmp_term [of a b "[]" "[]"] by (auto simp: cstr_def)

lemma strncmp_prefix:
  "nulfree a \<Longrightarrow> nulfree b \<Longrightarrow> 0 \<le> n \<Longrightarrow>
   \<exists>v. strncmp_loop n (a @ NUL # r) (b @ NUL # r') = Some v \<and>
       (v = 0 \<longleftrightarrow> take (nat n) a = take (nat n) b)"
proof (induction a arbitrary: b n)
  case Nil
  then show ?case
    by (subst strncmp_loop.simps) (cases b, auto simp: take_Cons' nat_le_iff)
next
  case (Cons x a)
  show ?case
  proof (cases "n = 0")
    case False
    then have n: "nat n = Suc (nat (n - 1))" "0 \<le> n - 1"
      using Cons.prems by auto
    show ?thesis
    proof (cases b)
      case Nil
      then show ?thesis
        using Cons.prems n by (subst strncmp_loop.simps) auto
    next
      case (Cons y b')
      then show ?thesis
        using Cons.prems n Cons.IH [of b' "n - 1"]
        by (subst strncmp_loop.simps) auto
    qed
  qed (subst strncmp_loop.simps, simp)
qed

lemma pad_eq: "pad d n = (if n \<le> length d then Some (replicate n NUL @ drop n d) else None)"
  by (induction d n rule: pad.induct) auto

lemma strncpy_loop_term:
  "nulfree s \<Longrightarrow> strncpy_loop d (s @ NUL # r) n =
    (if n \<le> length d
     then Some (take n (s @ replicate (n - length s) NUL) @ drop n d) else None)"
proof (induction s arbitrary: d n)
  case Nil
  then show ?case by (cases n; cases d) (auto simp: pad_eq)
next
  case (Cons c s)
  then show ?case by (cases n; cases d) auto
qed

lemma strncat_copy_term:
  "nulfree s \<Longrightarrow> 0 \<le> n \<Longrightarrow> strncat_copy d (s @ NUL # r) n =
    (if min (nat n) (length s) < length d
     then Some (take (nat n) s @ NUL # drop (Suc (min (nat n) (length s))) d) else None)"
proof (induction s arbitrary: d n)
  case Nil
  then show ?case by (cases d) auto
next
  case (Cons c s)
  show ?case
  proof (cases d)
    case d: (Cons x d')
    show ?thesis
    proof (cases "n = 0")
      case False
      then have "nat n = Suc (nat (n - 1))" "0 \<le> n - 1"
        using Cons.prems by auto
      then show ?thesis
        using Cons.prems Cons.IH [of "n - 1" d'] d by auto
    qed (use Cons.prems d in auto)
  qed simp
qed

section \<open>strstr finds the first occurrence\<close>

definition find_sub :: "string \<Rightarrow> string \<Rightarrow> nat option" where
  "find_sub p h = List.find (\<lambda>k. prefix p (drop k h)) [0..<Suc (length h)]"

lemma find_sub_Nil: "find_sub p [] = (if p = [] then Some 0 else None)"
  by (simp add: find_sub_def)

lemma find_sub_Cons:
  "find_sub p (x # h) = (if prefix p (x # h) then Some 0 else map_option Suc (find_sub p h))"
proof -
  have "[0..<Suc (length (x # h))] = 0 # map Suc [0..<Suc (length h)]"
    unfolding map_Suc_upt by (subst upt_conv_Cons) auto
  moreover have "List.find P (map Suc xs) = map_option Suc (List.find (P \<circ> Suc) xs)" for P xs
    by (induction xs) auto
  ultimately show ?thesis
    unfolding find_sub_def by (simp only: List.find.simps) (simp add: comp_def)
qed

lemma strstr_inner_term:
  "nulfree p \<Longrightarrow> nulfree s \<Longrightarrow>
   \<exists>c. strstr_inner (p @ NUL # r') (s @ NUL # r) = Some c \<and> (c = NUL \<longleftrightarrow> prefix p s)"
proof (induction p arbitrary: s)
  case Nil
  then show ?case by (cases s) auto
next
  case (Cons a p)
  then show ?case by (cases s) auto
qed

lemma strstr_outer_term:
  "nulfree h \<Longrightarrow> nulfree p \<Longrightarrow> c \<noteq> NUL \<Longrightarrow>
   strstr_outer c (p @ NUL # r') (h @ NUL # r) =
     Some (map_option (\<lambda>k. drop k (h @ NUL # r)) (find_sub (c # p) h))"
proof (induction h)
  case Nil
  then show ?case by (simp add: find_sub_Nil)
next
  case (Cons x h)
  obtain v where "strstr_inner (p @ NUL # r') (h @ NUL # r) = Some v" "v = NUL \<longleftrightarrow> prefix p h"
    using strstr_inner_term [of p h r' r] Cons.prems by auto
  with Cons show ?case
    by (auto simp: find_sub_Cons option.map_comp comp_def)
qed

section \<open>Case-insensitive comparison\<close>

definition fold_case :: "string \<Rightarrow> int list" where
  "fold_case s = map (\<lambda>c. tolower (schar c)) s"

lemma tolower_NUL [simp]: "tolower 0 = 0"
  by (simp add: tolower_def isupper_iff)

lemma tolower_0: "tolower (schar c) = 0 \<longleftrightarrow> c = NUL"
proof -
  have "of_char c = (224 :: int)" if "schar c = - 32"
    using that schar_mod [of c] by (simp del: schar_mod)
  then have "schar c \<noteq> - 32" if "isupper (schar c)"
    using that by (auto simp: isupper_iff)
  then show ?thesis
    by (auto simp: tolower_def to_lower_def isupper_iff schar_def [of "CHR ''A''"] schar_def [of "CHR ''a''"])
qed

lemma strcasecmp_term:
  "nulfree a \<Longrightarrow> nulfree b \<Longrightarrow>
   \<exists>v. strcasecmp (a @ NUL # r) (b @ NUL # r') = Some v \<and> (v = 0 \<longleftrightarrow> fold_case a = fold_case b)"
proof (induction a arbitrary: b)
  case Nil
  then show ?case by (cases b) (auto simp: fold_case_def tolower_0)
next
  case (Cons x a)
  then show ?case
  proof (cases b)
    case (Cons y b')
    with Cons.prems Cons.IH [of b'] show ?thesis
      by (auto simp: fold_case_def)
  qed (auto simp: fold_case_def tolower_0)
qed

lemma strcasecmp_eq [cstr_simps]:
  "nulfree a \<Longrightarrow> nulfree b \<Longrightarrow>
   strcasecmp (cstr a) (cstr b) = Some 0 \<longleftrightarrow> fold_case a = fold_case b"
  using strcasecmp_term [of a b "[]" "[]"] by (auto simp: cstr_def)

section \<open>Properties\<close>

text \<open>C37: \<open>strstr\<close> on terminated strings stays inside both and points at the first
occurrence of the pattern, or is null when there is none.\<close>

theorem strstr_first_occurrence:
  assumes "nulfree h" "nulfree p"
  shows "strstr (h @ NUL # r) (Some (p @ NUL # r')) =
    Some (map_option (\<lambda>k. drop k (h @ NUL # r)) (find_sub p h))"
proof (cases p)
  case Nil
  then show ?thesis
    by (cases h) (simp_all add: strstr_def find_sub_Nil find_sub_Cons)
next
  case (Cons c p')
  with assms show ?thesis
    by (auto simp: strstr_def strstr_outer_term)
qed

theorem strstr_first_occurrence_witness:
  "strstr (''aabaabb'' @ NUL # []) (Some (''aabb'' @ NUL # [])) = Some (Some (cstr ''aabb''))"
proof -
  have "find_sub ''aabb'' ''aabaabb'' = Some 3"
    by code_simp
  then show ?thesis
    using strstr_first_occurrence [of "''aabaabb''" "''aabb''" "[]" "[]"]
    by (simp add: cstr_def eval_nat_numeral)
qed

text \<open>\<open>strcmp\<close> on terminated strings is zero for equal strings only and negative
exactly when the first is before the second in the order of signed characters;
\<open>strcasecmp\<close> is zero exactly for strings that agree after \<open>tolower\<close>.\<close>

theorem comparisons_correct:
  assumes "nulfree a" "nulfree b"
  shows "(\<exists>v. strcmp (a @ NUL # r) (b @ NUL # r') = Some v \<and>
       (v = 0 \<longleftrightarrow> a = b) \<and>
       (v < 0 \<longleftrightarrow> ord_class.lexordp (map schar (cstr a)) (map schar (cstr b)))) \<and>
    (\<exists>v. strcasecmp (a @ NUL # r) (b @ NUL # r') = Some v \<and>
       (v = 0 \<longleftrightarrow> fold_case a = fold_case b))"
  using strcmp_term [OF assms] strcasecmp_term [OF assms] by blast

theorem comparisons_correct_witness:
  "\<exists>v. strcmp (''ab'' @ NUL # []) (''aB'' @ NUL # []) = Some v \<and> v \<noteq> 0"
  using comparisons_correct [of "''ab''" "''aB''" "[]" "[]"] by auto

text \<open>the bounded copies.  \<open>strncpy\<close> fills exactly \<open>n\<close> cells with the string and
its padding, unterminated when the string has \<open>n\<close> characters or more; \<open>strncat\<close>
appends at most \<open>n\<close> characters and always a terminator; both stay inside the
destination when that much room is there, and leave it otherwise.\<close>

theorem bounded_copies:
  assumes "nulfree s" "nulfree a" "0 \<le> sint n"
  shows "strncpy d (s @ NUL # r) n =
      (if nat (sint n) \<le> length d
       then Some (take (nat (sint n)) (s @ replicate (nat (sint n) - length s) NUL) @
                  drop (nat (sint n)) d)
       else None) \<and>
    strncat (a @ NUL # d) (s @ NUL # r) n =
      (if min (nat (sint n)) (length s) \<le> length d
       then Some (a @ take (nat (sint n)) s @ NUL # drop (min (nat (sint n)) (length s)) d)
       else None)"
proof -
  have "strncat_loop (a @ NUL # d) (s @ NUL # r) (sint n) =
      (if min (nat (sint n)) (length s) \<le> length d
       then Some (a @ take (nat (sint n)) s @ NUL # drop (min (nat (sint n)) (length s)) d)
       else None)"
    using assms(2) by (induction a) (auto simp: strncat_copy_term [OF assms(1,3)])
  then show ?thesis
    using strncpy_loop_term [OF assms(1)] by (simp add: strncpy_def strncat_def)
qed

theorem bounded_copies_witness:
  "strncpy ''xxxx'' (''abc'' @ NUL # []) 2 = Some ''abxx'' \<and>
   strncat (''a'' @ NUL # ''xyz'') (''bcd'' @ NUL # []) 2 = Some (''abc'' @ NUL # ''z'')"
proof -
  have "sint (2 :: u32) = 2"
    by code_simp
  then show ?thesis
    using bounded_copies [of "''abc''" "''a''" 2 "''xxxx''" "[]"]
      bounded_copies [of "''bcd''" "''a''" 2 "''xyz''" "[]"]
    by (simp add: eval_nat_numeral)
qed

end
