(* ===== verification/Atob.thy ===== *)
theory Atob
imports Cstrings "HOL-Library.Signed_Division"
begin

text \<open>Number conversion: \<open>src/libsc/lib/atob.c\<close>, \<open>atobu.c\<close> and \<open>btoa.c\<close>.

\<open>atob\<close> and \<open>atob_L\<close> are the same code at two widths, so their digit loop is one
function over the width of the result word.  The result is the pointer the code
returns, the number it stores, and whether it printed the overflow warning.  A
null pointer is \<open>None\<close> of the argument.\<close>

section \<open>Definitions\<close>

definition digit :: "char \<Rightarrow> u32" where
  "digit c0 =
    (let c = schar c0 in
     if isdigit c then of_int (c - schar CHR ''0'')
     else if isalpha c then
       (let c = (if isupper c then schar (char_of_int (to_lower c)) else c)
        in of_int (c - schar CHR ''a'' + 10))
     else 999999)"

definition xdigit :: "char \<Rightarrow> bool \<Rightarrow> u32" where
  "xdigit c0 hex =
    (let c = schar c0 in
     if isdigit c then of_int (c - schar CHR ''0'')
     else if hex \<and> c \<ge> schar CHR ''a'' \<and> c \<le> schar CHR ''f'' then
       of_int (c - schar CHR ''a'' + 10)
     else if hex \<and> c \<ge> schar CHR ''A'' \<and> c \<le> schar CHR ''F'' then
       of_int (c - schar CHR ''A'' + 10)
     else 999999)"

fun skip_space :: "string \<Rightarrow> string option" where
  "skip_space [] = None"
| "skip_space (c # s) = (if isspace (schar c) then skip_space s else Some (c # s))"

fun skip_minus :: "string \<Rightarrow> bool \<Rightarrow> (string \<times> bool) option" where
  "skip_minus [] m = None"
| "skip_minus (c # s) m =
    (if c = CHR ''-'' then skip_minus s (\<not> m) else Some (c # s, m))"

fun get_base :: "string \<Rightarrow> (u32 \<times> string) option" where
  "get_base [] = None"
| "get_base (c # s) =
    (if c = CHR ''0'' then
       (case s of
          [] \<Rightarrow> None
        | d # s' \<Rightarrow>
            if d = CHR ''X'' \<or> d = CHR ''x'' then Some (16, s')
            else if d = CHR ''B'' \<or> d = CHR ''b'' then Some (2, s')
            else Some (8, s))
     else Some (10, c # s))"

fun atob_digits ::
  "u32 \<Rightarrow> string \<Rightarrow> 'w::len word \<Rightarrow> bool \<Rightarrow> (string \<times> 'w word \<times> bool) option" where
  "atob_digits base [] v ovf = None"
| "atob_digits base (c # s) v ovf =
    (let d = xdigit c (base = 16) in
     if d < base then
       (let ovf = (ovf \<or> v > (- 1) div ucast base);
            v = v * ucast base;
            ovf = (ovf \<or> v > (- 1) - ucast d)
        in atob_digits base s (v + ucast d) ovf)
     else Some (c # s, v, ovf))"

definition atob_at :: "'w::len word \<Rightarrow> string option \<Rightarrow> (string option \<times> 'w word \<times> bool) option" where
  "atob_at min_value cp =
    (case cp of
       None \<Rightarrow> Some (None, 0, False)
     | Some s \<Rightarrow> do {
         s \<leftarrow> skip_space s;
         (s, minus) \<leftarrow> skip_minus s False;
         (base, s) \<leftarrow> get_base s;
         (s, v, ovf) \<leftarrow> atob_digits base s 0 False;
         let warned = (ovf \<or> v = min_value \<and> minus);
         Some (Some s, if minus then - v else v, warned) })"

definition atob :: "string option \<Rightarrow> (string option \<times> u32 \<times> bool) option" where
  "atob cp = atob_at 0x80000000 cp"

definition atob_L :: "string option \<Rightarrow> (string option \<times> u64 \<times> bool) option" where
  "atob_L cp = atob_at 0x8000000000000000 cp"

definition atob_ptr :: "string option \<Rightarrow> (string option \<times> u32 \<times> bool) option" where
  "atob_ptr cp = atob cp"

definition atoi :: "string option \<Rightarrow> u32 option" where
  "atoi cp = do { (_, x, _) \<leftarrow> atob cp; Some x }"

text \<open>\<open>atohex\<close> and \<open>atohex_L\<close> paste the digits behind \<open>0x\<close> in an array of the
caller's stack frame, whose first contents is \<open>ca\<close>.\<close>

definition has_0x :: "string \<Rightarrow> bool option" where
  "has_0x a = do {
     x \<leftarrow> strncmp a (cstr ''0x'') 2;
     if x = 0 then Some True
     else do { y \<leftarrow> strncmp a (cstr ''0X'') 2; Some (y = 0) } }"

definition paste_0x :: "string \<Rightarrow> string \<Rightarrow> string option" where
  "paste_0x ca a = do { ca \<leftarrow> strcpy ca (cstr ''0x''); strcat ca a }"

definition atohex :: "string \<Rightarrow> string \<Rightarrow> u32 option" where
  "atohex ca a = do {
     pre \<leftarrow> has_0x a;
     if pre then do { (_, h, _) \<leftarrow> atob (Some a); Some h }
     else do { ca \<leftarrow> paste_0x (take 16 ca) a; (_, h, _) \<leftarrow> atob (Some ca); Some h } }"

definition atohex_L :: "string \<Rightarrow> string \<Rightarrow> u64 option" where
  "atohex_L ca a = do {
     pre \<leftarrow> has_0x a;
     if pre then do { (_, h, _) \<leftarrow> atob_L (Some a); Some h }
     else do { ca \<leftarrow> paste_0x (take 32 ca) a; (_, h, _) \<leftarrow> atob_L (Some ca); Some h } }"

definition atohex_ptr :: "string \<Rightarrow> string \<Rightarrow> u32 option" where
  "atohex_ptr ca a = atohex ca a"

subsection \<open>atobu.c\<close>

text \<open>The suffix of a size: the pointer past it and the scaled number.\<close>

definition unit_scale :: "string option \<Rightarrow> 'w::len word \<Rightarrow> (string \<times> 'w word) option" where
  "unit_scale cp n =
    (case cp of
       Some (c # s) \<Rightarrow>
         (if c = CHR ''k'' \<or> c = CHR ''K'' then Some (s, n * 0x400)
          else if c = CHR ''m'' \<or> c = CHR ''M'' then Some (s, n * 0x100000)
          else if c = CHR ''p'' \<or> c = CHR ''P'' then Some (s, n * 4096)
          else Some (c # s, n))
     | _ \<Rightarrow> None)"

definition atobu :: "string option \<Rightarrow> (string \<times> u32) option" where
  "atobu cp = do { (cp, n, _) \<leftarrow> atob cp; unit_scale cp n }"

definition atobu_L :: "string option \<Rightarrow> (string \<times> u64) option" where
  "atobu_L cp = do { (cp, n, _) \<leftarrow> atob_L cp; unit_scale cp n }"

definition atobu_ptr :: "string option \<Rightarrow> (string \<times> u32) option" where
  "atobu_ptr cp = atobu cp"

subsection \<open>strtoull\<close>

definition DIGIT :: "int \<Rightarrow> int" where
  "DIGIT x =
    (if isdigit x then x - schar CHR ''0''
     else if islower x then x + 10 - schar CHR ''a''
     else x + 10 - schar CHR ''A'')"

fun strtoull_digits :: "int \<Rightarrow> string \<Rightarrow> u64 \<Rightarrow> (string \<times> u64) option" where
  "strtoull_digits base [] v = None"
| "strtoull_digits base (c # s) v =
    (if isalnum (schar c) \<and> DIGIT (schar c) < base
     then strtoull_digits base s (v * of_int base + of_int (DIGIT (schar c)))
     else Some (c # s, v))"

text \<open>Spaces and sign; \<open>base == 0\<close> resolved from the first characters; the skip of
\<open>0x\<close> and \<open>0b\<close>.  The text \<open>s\<close> starts with the character the code has in \<open>c\<close>.\<close>

definition strtoull_sign :: "string \<Rightarrow> (string \<times> bool) option" where
  "strtoull_sign s = do {
     c \<leftarrow> rd s 0;
     if isalnum (schar c) then Some (s, False)
     else do {
       s \<leftarrow> skip_space s;
       c \<leftarrow> rd s 0;
       if c = CHR ''-'' then Some (tl s, True)
       else if c = CHR ''+'' then Some (tl s, False)
       else Some (s, False) } }"

definition strtoull_base :: "string \<Rightarrow> int \<Rightarrow> int option" where
  "strtoull_base s base = do {
     c \<leftarrow> rd s 0;
     if base \<noteq> 0 then Some base
     else if c \<noteq> CHR ''0'' then Some 10
     else do {
       x \<leftarrow> rd s 1;
       Some (if x = CHR ''x'' \<or> x = CHR ''X'' then 16
             else if x = CHR ''b'' \<or> x = CHR ''B'' then 2 else 8) } }"

definition strtoull_skip :: "string \<Rightarrow> int \<Rightarrow> string option" where
  "strtoull_skip s base = do {
     c \<leftarrow> rd s 0;
     s \<leftarrow> (if base = 16 \<and> c = CHR ''0'' then do {
            x \<leftarrow> rd s 1;
            if x = CHR ''x'' \<or> x = CHR ''X'' then do {
              y \<leftarrow> rd s 2;
              Some (if isxdigit (schar y) then drop 2 s else s) }
            else Some s }
          else Some s);
     c \<leftarrow> rd s 0;
     if base = 2 \<and> c = CHR ''0'' then do {
       x \<leftarrow> rd s 1;
       if x = CHR ''b'' \<or> x = CHR ''B'' then do {
         y \<leftarrow> rd s 2;
         Some (if y = CHR ''0'' \<or> y = CHR ''1'' then drop 2 s else s) }
       else Some s }
     else Some s }"

definition strtoull :: "string \<Rightarrow> int \<Rightarrow> (string \<times> u64) option" where
  "strtoull str base0 = do {
     (s, neg) \<leftarrow> strtoull_sign str;
     base \<leftarrow> strtoull_base s base0;
     c \<leftarrow> rd s 0;
     if \<not> isalnum (schar c) \<or> DIGIT (schar c) \<ge> base then Some (str, 0)
     else do {
       s \<leftarrow> strtoull_skip s base;
       c \<leftarrow> rd s 0;
       (s, v) \<leftarrow> strtoull_digits base (tl s) (of_int (DIGIT (schar c)));
       Some (s, if neg then - v else v) } }"

subsection \<open>btoa.c\<close>

text \<open>\<open>btoa_loop buff cp v\<close> writes the digits of \<open>v\<close> downwards from index \<open>cp\<close> and
returns the index of the last one written.\<close>

function btoa_loop :: "string \<Rightarrow> nat \<Rightarrow> int \<Rightarrow> (string \<times> nat) option" where
  "btoa_loop buff cp v = do {
     buff \<leftarrow> wr buff cp (char_of_int (schar CHR ''0'' + v smod 10));
     (let v = v sdiv 10 in
      if v = 0 then Some (buff, cp)
      else if cp = 0 then None
      else btoa_loop buff (cp - 1) v) }"
  by pat_completeness auto
termination
  by (relation "measure (\<lambda>(_, cp, _). cp)") auto

declare btoa_loop.simps [simp del]

definition btoa :: "string \<Rightarrow> u32 \<Rightarrow> (string \<times> string) option" where
  "btoa buff val = do {
     let minus = (sint val < 0);
     let v = (if minus then sint (- val) else sint val);
     buff \<leftarrow> wr buff 15 NUL;
     (buff, cp) \<leftarrow> btoa_loop buff 14 v;
     if minus then
       (if cp = 0 then None
        else do { buff \<leftarrow> wr buff (cp - 1) (CHR ''-''); Some (buff, drop (cp - 1) buff) })
     else Some (buff, drop cp buff) }"

section \<open>The digit loop computes the number and detects overflow exactly\<close>

fun num_val :: "u32 \<Rightarrow> string \<Rightarrow> nat \<Rightarrow> nat" where
  "num_val base [] v = v"
| "num_val base (c # s) v = num_val base s (v * unat base + unat (xdigit c (base = 16)))"

definition digits_of :: "u32 \<Rightarrow> string \<Rightarrow> bool" where
  "digits_of base ds \<longleftrightarrow> (\<forall>c\<in>set ds. xdigit c (base = 16) < base)"

definition stops :: "u32 \<Rightarrow> string \<Rightarrow> bool" where
  "stops base m \<longleftrightarrow> (case m of [] \<Rightarrow> False | c # _ \<Rightarrow> \<not> xdigit c (base = 16) < base)"

lemma digits_of_simps [simp]:
  "digits_of base []"
  "digits_of base (c # ds) \<longleftrightarrow> xdigit c (base = 16) < base \<and> digits_of base ds"
  by (auto simp: digits_of_def)

lemma unat_max: "unat (- 1 :: 'w::len word) = 2 ^ LENGTH('w) - 1"
  by (simp add: unsigned_minus_1_eq_mask mask_eq_exp_minus_1)

lemma mul_overflow_iff:
  fixes V b :: nat
  assumes "0 < b"
  shows "(2 ^ w - 1) div b < V \<longleftrightarrow> 2 ^ w \<le> V * b"
proof -
  have "2 ^ w - 1 < V * b \<longleftrightarrow> 2 ^ w \<le> V * b"
    using Suc_le_eq [of "2 ^ w - 1" "V * b"] by simp
  with assms show ?thesis
    by (simp add: div_less_iff_less_mult)
qed

lemma digit_step:
  fixes v b d :: "'w::len word"
  assumes v: "v = of_nat V" and b: "0 < b"
  shows "(2 ^ LENGTH('w) \<le> V \<or> v > (- 1) div b \<or> v * b > (- 1) - d) \<longleftrightarrow>
    2 ^ LENGTH('w) \<le> V * unat b + unat d"
proof (cases "2 ^ LENGTH('w) \<le> V")
  case True
  have "V * 1 \<le> V * unat b"
    using b by (intro mult_le_mono2) (simp add: word_less_nat_alt Suc_le_eq)
  then have "V \<le> V * unat b + unat d"
    by (metis mult_1_right trans_le_add1)
  with True have "2 ^ LENGTH('w) \<le> V * unat b + unat d"
    by (rule order_trans)
  with True show ?thesis
    by simp
next
  case False
  have b': "0 < unat b"
    using b by (simp add: word_less_nat_alt)
  have V: "unat v = V"
    using False v by (simp add: unat_of_nat take_bit_nat_eq_self)
  have 1: "v > (- 1) div b \<longleftrightarrow> 2 ^ LENGTH('w) \<le> V * unat b"
    using V mul_overflow_iff [OF b', of "LENGTH('w)" V]
    by (simp add: word_less_nat_alt unat_div unat_max)
  show ?thesis
  proof (cases "2 ^ LENGTH('w) \<le> V * unat b")
    case False
    then have "unat (v * b) = V * unat b"
      using V by (simp add: unat_mult_lem [THEN iffD1])
    moreover have "unat d \<le> unat (- 1 :: 'w word)"
      using unsigned_less [of d, where ?'a = nat] unfolding unat_max by linarith
    then have "unat ((- 1) - d) = 2 ^ LENGTH('w) - 1 - unat d"
      by (simp only: unat_sub_if' if_True unat_max)
    ultimately have "v * b > (- 1) - d \<longleftrightarrow> 2 ^ LENGTH('w) - 1 - unat d < V * unat b"
      by (simp only: word_less_nat_alt)
    also have "\<dots> \<longleftrightarrow> 2 ^ LENGTH('w) \<le> V * unat b + unat d"
      using unsigned_less [of d, where ?'a = nat] by linarith
    finally have "v * b > (- 1) - d \<longleftrightarrow> 2 ^ LENGTH('w) \<le> V * unat b + unat d" .
    with 1 False \<open>\<not> 2 ^ LENGTH('w) \<le> V\<close> show ?thesis
      by simp
  qed (use 1 in auto)
qed

lemma atob_digits_run:
  assumes b: "0 < base" "unat base < 2 ^ LENGTH('w::len)"
  shows "digits_of base ds \<Longrightarrow> stops base m \<Longrightarrow>
    atob_digits base (ds @ m) (of_nat V :: 'w word) (2 ^ LENGTH('w) \<le> V) =
      Some (m, of_nat (num_val base ds V), 2 ^ LENGTH('w) \<le> num_val base ds V)"
proof (induction ds arbitrary: V)
  case Nil
  then show ?case
    by (cases m) (auto simp: stops_def)
next
  case (Cons c ds)
  let ?d = "xdigit c (base = 16)"
  let ?b = "ucast base :: 'w word"
  have d: "?d < base"
    using Cons.prems by simp
  have ub: "unat ?b = unat base" "0 < ?b"
    using b by (auto simp: take_bit_nat_eq_self word_less_nat_alt unsigned_ucast_eq)
  have ud: "unat (ucast ?d :: 'w word) = unat ?d"
    using d b by (simp add: unsigned_ucast_eq take_bit_nat_eq_self word_less_nat_alt)
  have "of_nat V * ?b + ucast ?d = of_nat (V * unat base + unat ?d)"
    by (simp add: ub(1) [symmetric] ud [symmetric] del: ub ud)
  then show ?case
    using d Cons.IH [of "V * unat base + unat ?d"] Cons.prems
      digit_step [OF refl ub(2), of V "ucast ?d"]
    by (simp add: Let_def ub ud disj_assoc)
qed

section \<open>The scan around the digits\<close>

definition blanks :: "string \<Rightarrow> bool" where
  "blanks sp \<longleftrightarrow> (\<forall>c\<in>set sp. isspace (schar c))"

text \<open>The text \<open>pre @ t\<close> is a number of the given base with prefix \<open>pre\<close>.\<close>

definition prefixed :: "u32 \<Rightarrow> string \<Rightarrow> string \<Rightarrow> bool" where
  "prefixed base pre t \<longleftrightarrow>
     base = 16 \<and> pre \<in> {''0x'', ''0X''} \<or>
     base = 2 \<and> pre \<in> {''0b'', ''0B''} \<or>
     base = 8 \<and> pre = ''0'' \<and> t \<noteq> [] \<and> hd t \<notin> set ''xXbB'' \<or>
     base = 10 \<and> pre = '''' \<and> t \<noteq> [] \<and> hd t \<in> set ''123456789''"

lemma blank_codes: "(9::int) \<le> n \<and> n \<le> 13 \<or> n = 32 \<longleftrightarrow> n = 9 \<or> n = 10 \<or> n = 11 \<or> n = 12 \<or> n = 13 \<or> n = 32"
  by presburger
lemma isspace_char:
  "isspace (schar c) \<longleftrightarrow> c \<in> set [CHR 0x09, CHR 0x0A, CHR 0x0B, CHR 0x0C, CHR 0x0D, CHR '' '']"
proof -
  have "isspace (schar c) \<longleftrightarrow> of_char c \<in> (of_char ` set [CHR 0x09, CHR 0x0A, CHR 0x0B, CHR 0x0C, CHR 0x0D, CHR '' ''] :: int set)"
    using blank_codes [of "of_char c"] by (simp add: isspace_iff)
  also have "\<dots> \<longleftrightarrow> c \<in> set [CHR 0x09, CHR 0x0A, CHR 0x0B, CHR 0x0C, CHR 0x0D, CHR '' '']"
    by (rule inj_image_mem_iff [OF inj_of_char])
  finally show ?thesis .
qed

lemma skip_space_run:
  "blanks sp \<Longrightarrow> skip_space (sp @ s) = skip_space s"
  by (induction sp) (auto simp: blanks_def)

lemma skip_minus_run:
  "s \<noteq> [] \<Longrightarrow> hd s \<noteq> CHR ''-'' \<Longrightarrow>
   skip_minus (replicate k CHR ''-'' @ s) m = Some (s, if odd k then \<not> m else m)"
  by (induction k arbitrary: m) (auto simp: neq_Nil_conv)

lemma prefixed_run:
  "prefixed base pre t \<Longrightarrow> get_base (pre @ t) = Some (base, t)"
  by (cases t) (auto simp: prefixed_def)

lemma prefixed_hd:
  "prefixed base pre t \<Longrightarrow> pre @ t \<noteq> [] \<and> hd (pre @ t) \<in> set ''0123456789''"
  by (auto simp: prefixed_def neq_Nil_conv)

lemma prefixed_base: "prefixed base pre t \<Longrightarrow> 0 < base \<and> unat base \<le> 16"
  by (auto simp: prefixed_def)

lemma skip_space_stop:
  "s \<noteq> [] \<Longrightarrow> hd s \<in> set ''-0123456789'' \<Longrightarrow> skip_space s = Some s"
  by (auto simp: neq_Nil_conv isspace_char)

lemma atob_at_run:
  assumes w: "5 \<le> LENGTH('w::len)" and M: "M < 2 ^ LENGTH('w)"
    and sp: "blanks sp" and pre: "prefixed base pre (ds @ m)"
    and ds: "digits_of base ds" "stops base m"
  defines "N \<equiv> num_val base ds 0"
  shows "atob_at (of_nat M :: 'w word) (Some (sp @ replicate k CHR ''-'' @ pre @ ds @ m)) =
    Some (Some m, if odd k then - of_nat N else of_nat N,
          2 ^ LENGTH('w) \<le> N \<or> N = M \<and> odd k)"
proof -
  let ?t = "pre @ ds @ m"
  have t: "?t \<noteq> []" "hd ?t \<in> set ''0123456789''"
    using prefixed_hd [OF pre] by auto
  have 1: "skip_space (replicate k CHR ''-'' @ ?t) = Some (replicate k CHR ''-'' @ ?t)"
    using t by (intro skip_space_stop) (cases k; auto)+
  have 2: "skip_minus (replicate k CHR ''-'' @ ?t) False = Some (?t, odd k)"
    using skip_minus_run [of ?t k False] t by auto
  have "16 < (2 :: nat) ^ LENGTH('w)"
    using power_increasing [OF w, of "2 :: nat"] by simp
  then have b: "0 < base" "unat base < 2 ^ LENGTH('w)"
    using prefixed_base [OF pre] by auto
  have 3: "atob_digits base (ds @ m) (0 :: 'w word) False = Some (m, of_nat N, 2 ^ LENGTH('w) \<le> N)"
    using atob_digits_run [OF b ds, of 0] by (simp add: N_def)
  have 4: "(2 ^ LENGTH('w) \<le> N \<or> (of_nat N :: 'w word) = of_nat M \<and> odd k) \<longleftrightarrow>
      (2 ^ LENGTH('w) \<le> N \<or> N = M \<and> odd k)"
    using M by (auto simp: word_of_nat_eq_iff take_bit_nat_eq_self)
  show ?thesis
    using 4 by (simp add: atob_at_def skip_space_run [OF sp] 1 2 3 prefixed_run [OF pre] Let_def)
qed

section \<open>The conversion stays inside a terminated string\<close>

lemma not_space_NUL: "\<not> isspace (schar NUL)"
  using isspace_char [of NUL] by simp

lemma skip_space_term: "NUL \<in> set m \<Longrightarrow> \<exists>s. skip_space m = Some s \<and> NUL \<in> set s \<and> suffix s m"
proof (induction m)
  case (Cons c m)
  then show ?case
    using not_space_NUL suffix_ConsI [of _ m c] by (cases "isspace (schar c)") auto
qed simp

lemma skip_minus_term:
  "NUL \<in> set m \<Longrightarrow> \<exists>s b. skip_minus m k = Some (s, b) \<and> NUL \<in> set s \<and> suffix s m"
proof (induction m arbitrary: k)
  case (Cons c m)
  show ?case
  proof (cases "c = CHR ''-''")
    case True
    with Cons.prems obtain s b where "skip_minus m (\<not> k) = Some (s, b)" "NUL \<in> set s" "suffix s m"
      using Cons.IH [of "\<not> k"] by auto
    with True show ?thesis
      by (auto intro: suffix_ConsI)
  qed (use Cons.prems in auto)
qed simp

lemma get_base_term:
  "NUL \<in> set m \<Longrightarrow> \<exists>b s. get_base m = Some (b, s) \<and> NUL \<in> set s \<and> suffix s m \<and> b \<le> 16"
  by (cases m) (auto split: list.splits intro!: suffix_ConsI)

lemma xdigit_NUL [simp]: "xdigit NUL h = 999999"
  by (simp add: xdigit_def isdigit_iff schar_def)

lemma atob_digits_term:
  "NUL \<in> set m \<Longrightarrow> b \<le> 16 \<Longrightarrow>
   \<exists>s v' o'. atob_digits b m v ovf = Some (s, v', o') \<and> NUL \<in> set s \<and> suffix s m"
proof (induction m arbitrary: v ovf)
  case (Cons c m)
  show ?case
  proof (cases "xdigit c (b = 16) < b")
    case True
    with Cons.prems have "c \<noteq> NUL"
      by (auto simp: word_less_nat_alt word_le_nat_alt)
    with Cons.prems have m: "NUL \<in> set m"
      by auto
    show ?thesis
      using Cons.IH [OF m Cons.prems(2)] True
      by (simp add: Let_def) (blast intro: suffix_ConsI)
  qed (use Cons.prems in simp)
qed simp

lemma atob_at_term:
  fixes M :: "'w::len word"
  assumes "NUL \<in> set m"
  shows "\<exists>s v w. atob_at M (Some m) = Some (Some s, v, w) \<and> NUL \<in> set s \<and> suffix s m"
proof -
  obtain s1 where 1: "skip_space m = Some s1" "NUL \<in> set s1" "suffix s1 m"
    using skip_space_term [OF assms] by auto
  obtain s2 k where 2: "skip_minus s1 False = Some (s2, k)" "NUL \<in> set s2" "suffix s2 s1"
    using skip_minus_term [OF 1(2)] by blast
  obtain b s3 where 3: "get_base s2 = Some (b, s3)" "NUL \<in> set s3" "suffix s3 s2" "b \<le> 16"
    using get_base_term [OF 2(2)] by blast
  obtain s4 and v :: "'w word" and w where 4: "atob_digits b s3 0 False = Some (s4, v, w)" "NUL \<in> set s4" "suffix s4 s3"
    using atob_digits_term [OF 3(2,4)] by blast
  have "suffix s4 m"
    using 1(3) 2(3) 3(3) 4(3) by (meson suffix_order.trans)
  then show ?thesis
    using 1(1) 2(1) 3(1) 4(1,2) by (simp add: atob_at_def Let_def)
qed

section \<open>Decimal output\<close>

fun dec :: "nat \<Rightarrow> string" where
  "dec n = (if n < 10 then [char_of (48 + n)] else dec (n div 10) @ [char_of (48 + n mod 10)])"

declare dec.simps [simp del]

lemma length_dec: "n < 10 ^ k \<Longrightarrow> 0 < k \<Longrightarrow> length (dec n) \<le> k"
proof (induction n arbitrary: k rule: dec.induct)
  case (1 n)
  show ?case
  proof (cases "n < 10")
    case False
    then obtain k' where k: "k = Suc k'" "0 < k'"
      using 1(2,3) by (cases k; cases "k - 1") auto
    then have "n div 10 < 10 ^ k'"
      using 1(2) by auto
    then show ?thesis
      using False 1(1) k by (subst dec.simps) auto
  qed (use 1 in \<open>subst dec.simps, simp\<close>)
qed

lemma dec_neq_Nil [simp]: "dec n \<noteq> []"
  by (subst dec.simps) simp

lemma btoa_loop_dec:
  "length (dec n) \<le> Suc cp \<Longrightarrow> cp < length buff \<Longrightarrow>
   btoa_loop buff cp (int n) =
     Some (take (Suc cp - length (dec n)) buff @ dec n @ drop (Suc cp) buff, Suc cp - length (dec n))"
proof (induction n arbitrary: cp buff rule: dec.induct)
  case (1 n)
  have digit: "char_of_int (schar CHR ''0'' + int n smod 10) = char_of (48 + n mod 10)"
    by (simp add: char_of_int_def schar_def signed_modulo_int_def signed_divide_int_def sgn_if zmod_int minus_div_mult_eq_mod nat_mod_distrib nat_add_distrib)
  have q: "int n sdiv 10 = int (n div 10)"
    by (simp add: signed_divide_int_def sgn_if zdiv_int)
  show ?case
  proof (cases "n < 10")
    case True
    then show ?thesis
      using 1(2,3) digit q
      by (subst btoa_loop.simps) (simp add: dec.simps [of n] wr_def Let_def upd_conv_take_nth_drop)
  next
    case False
    then have d: "dec n = dec (n div 10) @ [char_of (48 + n mod 10)]"
      by (subst dec.simps) simp
    have cp: "0 < cp" "length (dec (n div 10)) \<le> Suc (cp - 1)"
      using 1(2) d length_greater_0_conv [of "dec (n div 10)"] by (simp_all del: length_greater_0_conv)
    let ?b = "buff[cp := char_of (48 + n mod 10)]"
    have IH: "btoa_loop ?b (cp - 1) (int (n div 10)) =
        Some (take (Suc (cp - 1) - length (dec (n div 10))) ?b @ dec (n div 10) @ drop (Suc (cp - 1)) ?b,
              Suc (cp - 1) - length (dec (n div 10)))"
      using 1(1) [OF False cp(2), of ?b] 1(3) by simp
    have "drop cp ?b = char_of (48 + n mod 10) # drop (Suc cp) buff"
      using 1(3) by (simp add: upd_conv_take_nth_drop)
    then show ?thesis
      using IH False cp 1(2,3) digit q d
      by (subst btoa_loop.simps) (simp add: wr_def Let_def)
  qed
qed

lemma xdigit_dec: "k < 10 \<Longrightarrow> xdigit (char_of (48 + k :: nat)) h = of_nat k"
  by (simp add: xdigit_def isdigit_iff schar_char_of Let_def schar_def [of "CHR ''0''"])

lemma num_val_append: "num_val b (xs @ ys) v = num_val b ys (num_val b xs v)"
  by (induction xs arbitrary: v) auto

lemma num_val_dec: "num_val 10 (dec n) 0 = n"
proof (induction n rule: dec.induct)
  case (1 n)
  have "k < 10 \<Longrightarrow> unat (of_nat k :: u32) = k" for k
    by (simp add: unat_of_nat_32)
  with 1 show ?case
    by (subst dec.simps) (auto simp: num_val_append xdigit_dec)
qed

lemma digits_dec: "digits_of 10 (dec n)"
proof (induction n rule: dec.induct)
  case (1 n)
  have "k < 10 \<Longrightarrow> (of_nat k :: u32) < 10" for k
    by (simp add: word_less_nat_alt unat_of_nat_32)
  with 1 show ?case
    by (subst dec.simps) (auto simp: digits_of_def xdigit_dec)
qed

lemma hd_dec: "0 < n \<Longrightarrow> hd (dec n) \<in> set ''123456789''"
proof (induction n rule: dec.induct)
  case (1 n)
  show ?case
  proof (cases "n < 10")
    case True
    then have "n \<in> {1, 2, 3, 4, 5, 6, 7, 8, 9}"
      using 1 by auto
    then show ?thesis
      by (subst dec.simps) (auto simp: char_of_eq)
  qed (use 1 in \<open>subst dec.simps, simp\<close>)
qed


lemma btoa_run:
  fixes v :: u32
  assumes "length buff = 16" "sint v \<noteq> - (2 ^ 31)"
  defines "n \<equiv> nat \<bar>sint v\<bar>"
  shows "\<exists>b. btoa buff v = Some (b, (if sint v < 0 then ''-'' else []) @ dec n @ [NUL])"
proof -
  have range: "- (2 ^ 31) \<le> sint v" "sint v < 2 ^ 31"
    using sint_greater_eq [of v] sint_less [of v] by simp_all
  have abs: "(if sint v < 0 then sint (- v) else sint v) = int n"
  proof (cases "sint v < 0")
    case True
    have "sint (- v) = - sint v"
      using range assms(2) by (simp add: sint_word_ariths signed_take_bit_int_eq_self)
    with True show ?thesis
      by (simp add: n_def)
  qed (simp add: n_def)
  have "n < 10 ^ 10"
    using range by (simp add: n_def)
  then have len: "length (dec n) \<le> 10"
    using length_dec [of n 10] by simp
  let ?b = "buff[15 := NUL]"
  have tail: "drop 15 ?b = [NUL]"
    using assms(1) by (simp add: upd_conv_take_nth_drop)
  have loop: "btoa_loop ?b 14 (int n) =
      Some (take (15 - length (dec n)) ?b @ dec n @ [NUL], 15 - length (dec n))"
    using btoa_loop_dec [of n 14 ?b] len assms(1) tail by simp
  let ?c = "take (15 - length (dec n)) ?b"
  have c: "length ?c = 15 - length (dec n)" "0 < 15 - length (dec n)"
    using len assms(1) by auto
  then obtain c' x where c': "?c = c' @ [x]"
    by (metis length_greater_0_conv append_butlast_last_id)
  then have "length c' = 14 - length (dec n)"
    using c by simp
  then show ?thesis
    using loop abs c c' assms(1) len unfolding btoa_def Let_def
    by (cases "sint v < 0") (auto simp: wr_def Let_def list_update_append)
qed

text \<open>Decimal text with an optional sign, and what follows its terminator.\<close>

lemma stops_NUL: "stops 8 (NUL # r)" "stops 10 (NUL # r)" "stops 16 (NUL # r)"
  by (simp_all add: stops_def xdigit_def isdigit_iff Let_def schar_def)

lemma atob_dec:
  assumes "n < 2 ^ 32"
  shows "atob (Some (replicate k CHR ''-'' @ dec n @ NUL # r)) =
    Some (Some (NUL # r), if odd k then - of_nat n else of_nat n, n = 2 ^ 31 \<and> odd k)"
proof (cases "n = 0")
  case True
  then have "prefixed 8 (dec n) ([] @ NUL # r)"
    by (simp add: prefixed_def dec.simps [of 0] char_of_eq)
  from atob_at_run [where 'w = 32, of "2 ^ 31" "[]", OF _ _ _ this _ stops_NUL(1)] True show ?thesis
    by (simp add: blanks_def atob_def)
next
  case False
  then have "prefixed 10 [] (dec n @ NUL # r)"
    using hd_dec [of n] by (simp add: prefixed_def)
  from atob_at_run [where 'w = 32, of "2 ^ 31" "[]", OF _ _ _ this digits_dec stops_NUL(2)] assms show ?thesis
    by (simp add: blanks_def num_val_dec atob_def)
qed

lemma of_nat_abs_sint: "(if sint v < 0 then - of_nat (nat \<bar>sint v\<bar>) else of_nat (nat \<bar>sint v\<bar>)) = v"
  by simp

section \<open>Properties\<close>

text \<open>C34: \<open>atob\<close> and \<open>atob_L\<close> on blanks, minus signs, a base prefix, digits of
that base and a character that ends them: they stop at that character, store
the number of the digits modulo \<open>2^32\<close> or \<open>2^64\<close>, negated under an odd number of
signs, and warn exactly when the digits do not fit the word or the magnitude is
that of the least value under a sign.\<close>

theorem atob_correct:
  assumes "blanks sp" "prefixed base pre (ds @ m)" "digits_of base ds" "stops base m"
  shows "atob (Some (sp @ replicate k CHR ''-'' @ pre @ ds @ m)) =
      Some (Some m, if odd k then - of_nat (num_val base ds 0) else of_nat (num_val base ds 0),
            2 ^ 32 \<le> num_val base ds 0 \<or> num_val base ds 0 = 2 ^ 31 \<and> odd k) \<and>
    atob_L (Some (sp @ replicate k CHR ''-'' @ pre @ ds @ m)) =
      Some (Some m, if odd k then - of_nat (num_val base ds 0) else of_nat (num_val base ds 0),
            2 ^ 64 \<le> num_val base ds 0 \<or> num_val base ds 0 = 2 ^ 63 \<and> odd k)"
  using atob_at_run [where 'w = 32, of "2 ^ 31", OF _ _ assms]
    atob_at_run [where 'w = 64, of "2 ^ 63", OF _ _ assms]
  unfolding atob_def atob_L_def by simp

lemma witness_digits: "num_val 16 ''FFffffff1'' 0 = 0xFFFFFFFF1"
  by (simp add: xdigit_def isdigit_iff schar_def)

theorem atob_correct_witness:
  "atob (Some '' --0xFFffffff1z'') = Some (Some ''z'', 0xFFFFFFF1, True) \<and>
   atob_L (Some '' --0xFFffffff1z'') = Some (Some ''z'', 0xFFFFFFFF1, False)"
proof -
  have "blanks '' ''" "prefixed 16 ''0x'' (''FFffffff1'' @ ''z'')"
    "digits_of 16 ''FFffffff1''" "stops 16 ''z''"
    by code_simp+
  moreover have "replicate 2 CHR ''-'' = ''--''"
    by (simp add: numeral_2_eq_2)
  ultimately show ?thesis
    using atob_correct [of "'' ''" 16 "''0x''" "''FFffffff1''" "''z''" 2]
    unfolding witness_digits by simp
qed

text \<open>on any terminated text, \<open>atob\<close> and \<open>atob_L\<close> return, never read past the
terminator, and leave the pointer on a terminated tail of the text.\<close>

theorem atob_within_string:
  assumes "NUL \<in> set m"
  shows "\<exists>s v w s' v' w'. atob (Some m) = Some (Some s, v, w) \<and> NUL \<in> set s \<and> suffix s m \<and>
    atob_L (Some m) = Some (Some s', v', w') \<and> NUL \<in> set s' \<and> suffix s' m"
  using atob_at_term [OF assms, of "0x80000000 :: u32"]
    atob_at_term [OF assms, of "0x8000000000000000 :: u64"]
  unfolding atob_def atob_L_def by blast

theorem atob_within_string_witness:
  "\<exists>s v w s' v' w'. atob (Some (cstr ''--'')) = Some (Some s, v, w) \<and> NUL \<in> set s \<and>
    suffix s (cstr ''--'') \<and>
    atob_L (Some (cstr ''--'')) = Some (Some s', v', w') \<and> NUL \<in> set s' \<and> suffix s' (cstr ''--'')"
  by (rule atob_within_string) (simp add: cstr_def)

text \<open>C38: reading back the text that \<open>btoa\<close> writes into its 16-byte array gives the
number, without a warning, for every \<open>int\<close> but the least one.\<close>

theorem btoa_atob:
  assumes "length buff = 16" "sint (v :: u32) \<noteq> - (2 ^ 31)"
  shows "\<exists>b s. btoa buff v = Some (b, s) \<and> atob (Some s) = Some (Some [NUL], v, False)"
proof -
  define n where "n = nat \<bar>sint v\<bar>"
  define k where "k = (if sint v < 0 then 1 else 0 :: nat)"
  obtain b where b: "btoa buff v = Some (b, replicate k CHR ''-'' @ dec n @ [NUL])"
    using btoa_run [OF assms] unfolding n_def k_def by (auto split: if_splits)
  have n: "n < 2 ^ 31"
    using sint_greater_eq [of v] sint_less [of v] assms(2) by (simp add: n_def)
  have "(if odd k then - of_nat n else of_nat n) = v"
    using of_nat_abs_sint [of v] by (simp add: k_def n_def)
  then show ?thesis
    using b n atob_dec [of n k "[]"] by simp
qed

theorem btoa_atob_witness:
  "\<exists>b s. btoa (replicate 16 NUL) (- 120) = Some (b, s) \<and> atob (Some s) = Some (Some [NUL], - 120, False)"
  by (rule btoa_atob; code_simp)

lemma has_0x_cstr:
  assumes "nulfree a"
  shows "has_0x (cstr a) = Some (take 2 a = ''0x'' \<or> take 2 a = ''0X'')"
proof -
  have two: "sint (2 :: u32) = 2"
    by code_simp
  obtain x y where
    "strncmp_loop 2 (a @ [NUL]) (''0x'' @ [NUL]) = Some x" "x = 0 \<longleftrightarrow> take 2 a = ''0x''"
    "strncmp_loop 2 (a @ [NUL]) (''0X'' @ [NUL]) = Some y" "y = 0 \<longleftrightarrow> take 2 a = ''0X''"
    using strncmp_prefix [of a "''0x''" 2 "[]" "[]"] strncmp_prefix [of a "''0X''" 2 "[]" "[]"] assms
    by auto
  then show ?thesis
    by (simp add: has_0x_def strncmp_def two cstr_def)
qed

lemma paste_0x_cstr:
  assumes "nulfree a" "3 \<le> length ca"
  shows "paste_0x ca (cstr a) =
    (if length a \<le> length ca - 3
     then Some (''0x'' @ a @ NUL # drop (length a) (drop 3 ca)) else None)"
  using strcpy_term [of "''0x''" ca "[]"] strcat_term [of "''0x''" a "drop 3 ca" "[]"] assms
  by (simp add: paste_0x_def cstr_def eval_nat_numeral)

text \<open>\<open>atohex\<close> and \<open>atohex_L\<close> paste text that has no \<open>0x\<close> of its own into a stack
array of 16 or 32 bytes without looking at its length; the copy leaves the array
exactly for texts of more than 13 or 29 characters.\<close>

theorem atohex_overrun_iff:
  assumes "nulfree a" "length ca = 32"
  shows "(atohex ca (cstr a) = None \<longleftrightarrow>
      take 2 a \<notin> {''0x'', ''0X''} \<and> 13 < length a) \<and>
    (atohex_L ca (cstr a) = None \<longleftrightarrow>
      take 2 a \<notin> {''0x'', ''0X''} \<and> 29 < length a)"
proof -
  have t: "\<exists>s v w. atob_at M (Some m) = Some (Some s, v, w)" if "NUL \<in> set m" for m and M :: "'w::len word"
    using atob_at_term [OF that, of M] by blast
  have c: "NUL \<in> set (cstr a)"
    by (simp add: cstr_def)
  note p = paste_0x_cstr [OF assms(1), of "take 16 ca"] paste_0x_cstr [OF assms(1), of ca]
  show ?thesis
    using t [OF c, of "0x80000000 :: u32"] t [OF c, of "0x8000000000000000 :: u64"]
      t [of "''0x'' @ a @ NUL # drop (length a) (drop 3 (take 16 ca))" "0x80000000 :: u32"]
      t [of "''0x'' @ a @ NUL # drop (length a) (drop 3 ca)" "0x8000000000000000 :: u64"] assms(2)
    unfolding atohex_def atohex_L_def has_0x_cstr [OF assms(1)] atob_def atob_L_def
    by (auto simp: p split: option.splits)
qed

theorem atohex_overrun_iff_witness:
  "atohex (replicate 32 NUL) (cstr ''12345678901234'') = None \<and>
   atohex_L (replicate 32 NUL) (cstr ''12345678901234'') \<noteq> None"
  using atohex_overrun_iff [of "''12345678901234''" "replicate 32 NUL"] by simp

text \<open>three edges of the conversions.  \<open>atob\<close> warns for the least \<open>int\<close>, which it
stores correctly, and not for the number below, which it stores as the greatest
\<open>int\<close>; \<open>btoa\<close> of the least \<open>int\<close> writes characters below the digits; \<open>strtoull\<close>
takes the letter 0xE9 of the class table as a digit of value -110.\<close>

theorem conversion_edges:
  "atob (Some (cstr ''-2147483648'')) = Some (Some [NUL], 0x80000000, True) \<and>
   atob (Some (cstr ''-2147483649'')) = Some (Some [NUL], 0x7FFFFFFF, False) \<and>
   (\<exists>b. btoa (replicate 16 NUL) 0x80000000 = Some (b, cstr ''-./,),(-*,('')) \<and>
   strtoull [CHR 0xE9, NUL] 10 = Some ([NUL], - 110)"
proof -
  have "map_option snd (btoa (replicate 16 NUL) 0x80000000) = Some (cstr ''-./,),(-*,('')"
    by code_simp
  moreover have "atob (Some (cstr ''-2147483648'')) = Some (Some [NUL], 0x80000000, True)"
    by code_simp
  moreover have "atob (Some (cstr ''-2147483649'')) = Some (Some [NUL], 0x7FFFFFFF, False)"
    by code_simp
  moreover have "strtoull [CHR 0xE9, NUL] 10 = Some ([NUL], - 110)"
    by code_simp
  ultimately show ?thesis
    by auto
qed

end
