(* ===== verification/Stringlist.thy ===== *)
theory Stringlist
imports Cstrings
begin

text \<open>String lists: \<open>src/libsc/lib/stringlist.c\<close> and \<open>include/stringlist.h\<close>, the
store behind the environment and the argument vector.

A list is the record of the code: 64 string pointers, a byte array of 1280
bytes, the free pointer into it and the count.  Pointers into the array are
offsets.  An operation is \<open>None\<close> when it reads or writes outside an array or
follows a null pointer; \<open>-1\<close> and \<open>0\<close> are the codes the code returns.  Messages to
the console are left out.\<close>

section \<open>Definitions\<close>

definition MAXSTRINGS :: nat where "MAXSTRINGS = 64"
definition STRINGBYTES :: nat where "STRINGBYTES = MAXSTRINGS * 20"
definition MAXRETNAME :: nat where "MAXRETNAME = 80"

record string_list =
  strptrs :: "nat option list"
  strbuf :: string
  strp :: nat
  strcnt :: nat

text \<open>The memory from a string pointer on, and a string routine run on the memory
from the free pointer on.\<close>

definition str_at :: "string_list \<Rightarrow> nat \<Rightarrow> string" where
  "str_at sl off = drop off (strbuf sl)"

definition at_strp :: "(string \<Rightarrow> string option) \<Rightarrow> string_list \<Rightarrow> string_list option" where
  "at_strp f sl = do {
     d \<leftarrow> f (drop (strp sl) (strbuf sl));
     Some (sl\<lparr>strbuf := take (strp sl) (strbuf sl) @ d\<rparr>) }"

definition init_str :: "string_list \<Rightarrow> string_list option" where
  "init_str slp = do {
     ps \<leftarrow> wr (strptrs slp) 0 None;
     Some (slp\<lparr>strp := 0, strcnt := 0, strptrs := ps\<rparr>) }"

text \<open>The end of every routine that adds: \<open>slp->strptrs[slp->strcnt++] = slp->strp;
slp->strptrs[slp->strcnt] = 0\<close>, the copy, and the free pointer.\<close>

definition push_ptr :: "string_list \<Rightarrow> string_list option" where
  "push_ptr slp = do {
     ps \<leftarrow> wr (strptrs slp) (strcnt slp) (Some (strp slp));
     ps \<leftarrow> wr ps (strcnt slp + 1) None;
     Some (slp\<lparr>strptrs := ps, strcnt := strcnt slp + 1\<rparr>) }"

definition fits :: "nat \<Rightarrow> string_list \<Rightarrow> bool" where
  "fits len slp \<longleftrightarrow> \<not> strp slp + len \<ge> STRINGBYTES"

text \<open>\<open>new_str1\<close> with the collector it calls when the array is full.\<close>

definition new_str1_with ::
  "(string_list \<Rightarrow> string_list option) \<Rightarrow> string \<Rightarrow> string_list \<Rightarrow> (int \<times> string_list) option" where
  "new_str1_with gc s slp =
    (if strcnt slp \<ge> MAXSTRINGS - 1 then Some (- 1, slp)
     else do {
       n \<leftarrow> strlen s;
       let len = n + 1;
       slp \<leftarrow> (if fits len slp then Some slp else gc slp);
       if \<not> fits len slp then Some (- 1, slp)
       else do {
         slp \<leftarrow> push_ptr slp;
         slp \<leftarrow> at_strp (\<lambda>d. strcpy d s) slp;
         Some (0, slp\<lparr>strp := strp slp + len\<rparr>) } })"

text \<open>The two loops of \<open>garbage_collect\<close>: \<open>for (np = from; *np; np++) new_str1(*np, to)\<close>.\<close>

fun copy_strs ::
  "(string_list \<Rightarrow> string_list option) \<Rightarrow> nat option list \<Rightarrow> string \<Rightarrow> string_list \<Rightarrow> string_list option" where
  "copy_strs gc [] buf to = None"
| "copy_strs gc (None # ps) buf to = Some to"
| "copy_strs gc (Some off # ps) buf to = do {
     (_, to) \<leftarrow> new_str1_with gc (drop off buf) to;
     copy_strs gc ps buf to }"

text \<open>The temporary list on the stack; nothing reads what \<open>init_str\<close> leaves unset.\<close>

definition stack_list :: string_list where
  "stack_list = \<lparr>strptrs = replicate MAXSTRINGS None, strbuf = replicate STRINGBYTES NUL,
                 strp = 0, strcnt = 0\<rparr>"

text \<open>\<open>garbage_collect\<close> and \<open>new_str1\<close> call each other; the argument bounds the
depth of the calls.  Two levels are enough for every well-formed list.\<close>

primrec collect :: "nat \<Rightarrow> string_list \<Rightarrow> string_list option" where
  "collect 0 slp = None"
| "collect (Suc k) slp = do {
     tmp \<leftarrow> init_str stack_list;
     tmp \<leftarrow> copy_strs (collect k) (strptrs slp) (strbuf slp) tmp;
     slp \<leftarrow> init_str slp;
     copy_strs (collect k) (strptrs tmp) (strbuf tmp) slp }"

definition garbage_collect :: "string_list \<Rightarrow> string_list option" where
  "garbage_collect slp = collect 2 slp"

definition new_str1 :: "string \<Rightarrow> string_list \<Rightarrow> (int \<times> string_list) option" where
  "new_str1 s slp = new_str1_with garbage_collect s slp"

definition new_str2 :: "string \<Rightarrow> string \<Rightarrow> string_list \<Rightarrow> (int \<times> string_list) option" where
  "new_str2 name value slp =
    (if strcnt slp \<ge> MAXSTRINGS - 1 then Some (- 1, slp)
     else do {
       n \<leftarrow> strlen name;
       v \<leftarrow> strlen value;
       let len = n + v + 2;
       slp \<leftarrow> (if fits len slp then Some slp else garbage_collect slp);
       if \<not> fits len slp then Some (- 1, slp)
       else do {
         slp \<leftarrow> push_ptr slp;
         slp \<leftarrow> at_strp (\<lambda>d. strcpy d name) slp;
         slp \<leftarrow> at_strp (\<lambda>d. strcat d (cstr ''='')) slp;
         slp \<leftarrow> at_strp (\<lambda>d. strcat d value) slp;
         Some (0, slp\<lparr>strp := strp slp + len\<rparr>) } })"

definition set_str :: "string \<Rightarrow> int \<Rightarrow> string_list \<Rightarrow> (int \<times> string_list) option" where
  "set_str s strindex slp =
    (if strindex \<ge> int (strcnt slp) then Some (- 1, slp)
     else do {
       n \<leftarrow> strlen s;
       let len = n + 1;
       slp \<leftarrow> (if fits len slp then Some slp else garbage_collect slp);
       if \<not> fits len slp then Some (- 1, slp)
       else if strindex < 0 then None
       else do {
         ps \<leftarrow> wr (strptrs slp) (nat strindex) (Some (strp slp));
         slp \<leftarrow> at_strp (\<lambda>d. strcpy d s) (slp\<lparr>strptrs := ps\<rparr>);
         Some (0, slp\<lparr>strp := strp slp + len\<rparr>) } })"

text \<open>The search loops run \<open>np\<close> from the first pointer to \<open>strptrs[strcnt]\<close>.\<close>

fun scan :: "(string \<Rightarrow> bool option) \<Rightarrow> string_list \<Rightarrow> nat list \<Rightarrow> nat option option" where
  "scan hit sl [] = Some None"
| "scan hit sl (i # is) = do {
     p \<leftarrow> rd (strptrs sl) i;
     off \<leftarrow> p;
     b \<leftarrow> hit (str_at sl off);
     if b then Some (Some i) else scan hit sl is }"

definition names :: "string \<Rightarrow> nat \<Rightarrow> string \<Rightarrow> bool option" where
  "names name namelen e = do {
     v \<leftarrow> strncasecmp e name (of_nat namelen);
     if v = 0 then do { c \<leftarrow> rd e namelen; Some (c = CHR ''='') } else Some False }"

definition find_str :: "string \<Rightarrow> string_list \<Rightarrow> string option option" where
  "find_str name slp = do {
     namelen \<leftarrow> strlen name;
     i \<leftarrow> scan (names name namelen) slp [0..<strcnt slp];
     (case i of
        None \<Rightarrow> Some None
      | Some i \<Rightarrow> do { p \<leftarrow> rd (strptrs slp) i; off \<leftarrow> p; Some (Some (str_at slp off)) }) }"

text \<open>\<open>while (*np = *(np+1)) np++\<close> from index \<open>i\<close>.\<close>

function shift_down :: "nat option list \<Rightarrow> nat \<Rightarrow> nat option list option" where
  "shift_down ps i = do {
     p \<leftarrow> rd ps (i + 1);
     ps' \<leftarrow> wr ps i p;
     if p = None then Some ps' else shift_down ps' (i + 1) }"
  by pat_completeness auto
termination
  by (relation "measure (\<lambda>(ps, i). length ps - i)") auto

declare shift_down.simps [simp del]

text \<open>\<open>_delete_str\<close>: the second result is what it left in \<open>oldname\<close>, an array of
\<open>MAXRETNAME\<close> bytes, when it was given one.\<close>

definition names_rev :: "string \<Rightarrow> nat \<Rightarrow> string \<Rightarrow> bool option" where
  "names_rev name namelen e = do {
     v \<leftarrow> strncasecmp name e (of_nat namelen);
     if v = 0 then do { c \<leftarrow> rd e namelen; Some (c = CHR ''='') } else Some False }"

definition delete_old ::
  "string \<Rightarrow> string_list \<Rightarrow> string option \<Rightarrow> (string option \<times> string_list) option" where
  "delete_old name slp oldname = do {
     namelen \<leftarrow> strlen name;
     i \<leftarrow> scan (names_rev name namelen) slp [0..<strcnt slp];
     (case i of
        None \<Rightarrow> Some (oldname, slp)
      | Some i \<Rightarrow> do {
          p \<leftarrow> rd (strptrs slp) i;
          off \<leftarrow> p;
          oldname \<leftarrow> (case oldname of
              None \<Rightarrow> Some None
            | Some old \<Rightarrow>
                if namelen < MAXRETNAME - 1 then do {
                  old \<leftarrow> strncpy old (str_at slp off) (of_nat namelen);
                  old \<leftarrow> wr old namelen NUL;
                  Some (Some old) }
                else Some (Some old));
          ps \<leftarrow> shift_down (strptrs slp) i;
          Some (oldname, slp\<lparr>strptrs := ps, strcnt := strcnt slp - 1\<rparr>) }) }"

definition delete_str :: "string \<Rightarrow> string_list \<Rightarrow> string_list option" where
  "delete_str name slp = do { (_, slp) \<leftarrow> delete_old name slp None; Some slp }"

text \<open>\<open>buf\<close> is the array of the stack frame of \<open>replace_str\<close> before the call.\<close>

definition replace_str :: "string \<Rightarrow> string \<Rightarrow> string \<Rightarrow> string_list \<Rightarrow> string_list option" where
  "replace_str buf name value slp = do {
     buf \<leftarrow> wr (take MAXRETNAME buf) 0 NUL;
     (buf', slp) \<leftarrow> delete_old name slp (Some buf);
     buf \<leftarrow> buf';
     c \<leftarrow> rd buf 0;
     (_, slp) \<leftarrow> new_str2 (if c \<noteq> NUL then buf else name) value slp;
     Some slp }"

definition delete_strnum :: "int \<Rightarrow> string_list \<Rightarrow> (int \<times> string_list) option" where
  "delete_strnum num slp =
    (if num < 0 \<or> num \<ge> int (strcnt slp) then Some (1, slp)
     else do {
       ps \<leftarrow> shift_down (strptrs slp) (nat num);
       Some (0, slp\<lparr>strptrs := ps\<rparr>) })"

text \<open>The vector given to \<open>_copystrings\<close> is a null pointer or a list of strings
ending at its null entry.\<close>

fun copy_args :: "string list \<Rightarrow> string_list \<Rightarrow> string_list option" where
  "copy_args [] slp = Some slp"
| "copy_args (w # ws) slp = do { (_, slp) \<leftarrow> new_str1 w slp; copy_args ws slp }"

definition copystrings :: "string list option \<Rightarrow> string_list \<Rightarrow> string_list option" where
  "copystrings wp slp = do {
     slp \<leftarrow> init_str slp;
     copy_args (case wp of None \<Rightarrow> [] | Some ws \<Rightarrow> ws) slp }"

section \<open>The strings of a list and the invariant\<close>

definition live :: "string_list \<Rightarrow> nat list" where
  "live sl = map the (take (strcnt sl) (strptrs sl))"

definition strings :: "string_list \<Rightarrow> string list" where
  "strings sl = map (\<lambda>off. str_of (str_at sl off)) (live sl)"

definition bytes :: "string list \<Rightarrow> nat" where
  "bytes xs = sum_list (map (\<lambda>s. length s + 1) xs)"

text \<open>A string that ends before the free pointer.\<close>

definition ended :: "string \<Rightarrow> nat \<Rightarrow> nat \<Rightarrow> bool" where
  "ended buf lim off \<longleftrightarrow> NUL \<in> set (take (lim - off) (drop off buf))"

definition wf_list :: "string_list \<Rightarrow> bool" where
  "wf_list sl \<longleftrightarrow>
     length (strptrs sl) = MAXSTRINGS \<and> length (strbuf sl) = STRINGBYTES \<and>
     strcnt sl < MAXSTRINGS \<and> strptrs sl ! strcnt sl = None \<and>
     take (strcnt sl) (strptrs sl) = map Some (live sl) \<and>
     list_all (ended (strbuf sl) (strp sl)) (live sl) \<and>
     strp sl < STRINGBYTES \<and> bytes (strings sl) \<le> strp sl"

lemma bytes_simps [simp]:
  "bytes [] = 0" "bytes (s # xs) = length s + 1 + bytes xs" "bytes (xs @ ys) = bytes xs + bytes ys"
  by (simp_all add: bytes_def)

lemma length_live: "wf_list sl \<Longrightarrow> length (live sl) = strcnt sl"
  by (simp add: live_def wf_list_def)

lemma length_strings: "wf_list sl \<Longrightarrow> length (strings sl) = strcnt sl"
  by (simp add: strings_def length_live)

lemma wf_ptrs:
  assumes "wf_list sl"
  obtains rest where "strptrs sl = map Some (live sl) @ None # rest"
    "length rest = MAXSTRINGS - 1 - strcnt sl"
proof
  have "strptrs sl = take (strcnt sl) (strptrs sl) @ strptrs sl ! strcnt sl # drop (Suc (strcnt sl)) (strptrs sl)"
    using assms by (intro id_take_nth_drop) (simp add: wf_list_def)
  then show "strptrs sl = map Some (live sl) @ None # drop (Suc (strcnt sl)) (strptrs sl)"
    using assms by (simp add: wf_list_def)
qed (use assms in \<open>simp add: wf_list_def\<close>)

lemma str_of_prefix: "NUL \<in> set xs \<Longrightarrow> str_of (xs @ ys) = str_of xs"
  by (induction xs) (auto simp: str_of_def)

lemma ended_stable:
  assumes e: "ended buf lim off" and eq: "take lim buf' = take lim buf" and le: "lim \<le> lim'"
  shows "ended buf' lim' off" "str_of (drop off buf') = str_of (drop off buf)"
proof -
  have t: "take (lim - off) (drop off b) = drop off (take lim b)" for b :: string
    by (simp add: drop_take)
  have N: "NUL \<in> set (drop off (take lim buf))"
    using e by (simp add: ended_def t)
  have s: "drop off b = drop off (take lim b) @ drop (lim - off) (drop off b)" for b :: string
    by (metis append_take_drop_id t)
  show "str_of (drop off buf') = str_of (drop off buf)"
    using N by (metis eq s str_of_prefix)
  have "set (take (lim - off) (drop off buf')) \<subseteq> set (take (lim' - off) (drop off buf'))"
    using le by (intro set_take_subset_set_take) simp
  with N eq show "ended buf' lim' off"
    unfolding ended_def t [of buf'] by auto
qed

lemma ended_split:
  assumes "ended buf lim off"
  obtains r where "drop off buf = str_of (drop off buf) @ NUL # r"
proof -
  have "NUL \<in> set (drop off buf)"
    using assms by (auto simp: ended_def dest: in_set_takeD)
  then show thesis
    using that terminated_split by blast
qed

lemma wf_list_le: "wf_list sl \<Longrightarrow> strp sl \<le> length (strbuf sl)"
  by (simp add: wf_list_def)

text \<open>The common end of the routines that add a string.\<close>

lemma append_string:
  assumes wf: "wf_list sl" and cnt: "strcnt sl < MAXSTRINGS - 1" and s: "nulfree s"
    and room: "strp sl + length s + 1 < STRINGBYTES"
  defines "ps \<equiv> (strptrs sl)[strcnt sl := Some (strp sl), strcnt sl + 1 := None]"
  defines "sl' \<equiv> sl\<lparr>strptrs := ps, strcnt := strcnt sl + 1,
    strbuf := take (strp sl) (strbuf sl) @ s @ NUL # drop (strp sl + length s + 1) (strbuf sl),
    strp := strp sl + length s + 1\<rparr>"
  shows "wf_list sl'" "strings sl' = strings sl @ [s]" "push_ptr sl = Some (sl\<lparr>strptrs := ps, strcnt := strcnt sl + 1\<rparr>)"
    "strp sl' = strp sl + length s + 1"
proof -
  let ?n = "strcnt sl" and ?lim = "strp sl"
  have len: "length (strptrs sl) = MAXSTRINGS" "length (strbuf sl) = STRINGBYTES" "?lim < STRINGBYTES"
    using wf by (auto simp: wf_list_def)
  have n: "?n + 1 < length (strptrs sl)"
    using cnt len by simp
  have take_ps: "take (Suc ?n) ps = take ?n (strptrs sl) @ [Some ?lim]"
    using n by (simp add: ps_def take_Suc_conv_app_nth)
  have live': "live sl' = live sl @ [?lim]"
    using take_ps by (simp add: live_def sl'_def)
  have buf: "take ?lim (strbuf sl') = take ?lim (strbuf sl)"
    "drop ?lim (strbuf sl') = s @ NUL # drop (?lim + length s + 1) (strbuf sl)"
    using len by (simp_all add: sl'_def)
  have old: "ended (strbuf sl') (strp sl') off \<and> str_of (drop off (strbuf sl')) = str_of (drop off (strbuf sl))"
    if "off \<in> set (live sl)" for off
  proof -
    have "ended (strbuf sl) ?lim off"
      using wf that by (auto simp: wf_list_def list_all_iff)
    moreover have "?lim \<le> strp sl'"
      by (simp add: sl'_def)
    ultimately show ?thesis
      using ended_stable [OF _ buf(1)] by blast
  qed
  have new: "ended (strbuf sl') (strp sl') ?lim" "str_of (drop ?lim (strbuf sl')) = s"
  proof -
    show "ended (strbuf sl') (strp sl') ?lim"
      unfolding ended_def buf(2) by (simp add: sl'_def)
    show "str_of (drop ?lim (strbuf sl')) = s"
      unfolding buf(2) using s by (rule str_of_term)
  qed
  show strs: "strings sl' = strings sl @ [s]"
    using old new by (simp add: strings_def live' str_at_def)
  show "push_ptr sl = Some (sl\<lparr>strptrs := ps, strcnt := ?n + 1\<rparr>)"
    using n by (simp add: push_ptr_def ps_def wr_def)
  show "strp sl' = ?lim + length s + 1"
    by (simp add: sl'_def)
  have "strptrs sl' ! strcnt sl' = None"
    using n by (simp add: sl'_def ps_def)
  moreover have "take (strcnt sl') (strptrs sl') = map Some (live sl')"
    using take_ps wf unfolding live' by (simp add: sl'_def wf_list_def)
  moreover have "list_all (ended (strbuf sl') (strp sl')) (live sl')"
    unfolding live' using old new by (simp add: list_all_iff)
  moreover have "bytes (strings sl') \<le> strp sl'"
    unfolding strs using wf by (simp add: sl'_def wf_list_def)
  ultimately show "wf_list sl'"
    using len cnt room by (simp add: wf_list_def) (simp add: sl'_def ps_def)
qed

lemma new_str1_room:
  assumes wf: "wf_list sl" and cnt: "strcnt sl < MAXSTRINGS - 1" and s: "nulfree s"
    and room: "strp sl + length s + 1 < STRINGBYTES"
  shows "\<exists>sl'. (\<forall>gc. new_str1_with gc (s @ NUL # r) sl = Some (0, sl')) \<and> wf_list sl' \<and>
    strings sl' = strings sl @ [s] \<and> strp sl' = strp sl + length s + 1"
proof -
  have "length s < length (strbuf sl) - strp sl"
    using room wf by (simp add: wf_list_def)
  then show ?thesis
    using append_string [OF assms] assms
    by (simp add: new_str1_with_def strlen_term fits_def at_strp_def strcpy_term Let_def add_ac)
qed


section \<open>Collection keeps the strings and compacts them\<close>

lemma init_str_wf:
  assumes "length (strptrs sl) = MAXSTRINGS" "length (strbuf sl) = STRINGBYTES"
  shows "\<exists>sl'. init_str sl = Some sl' \<and> wf_list sl' \<and> strings sl' = [] \<and> strp sl' = 0 \<and> strcnt sl' = 0"
  using assms by (simp add: init_str_def wr_def wf_list_def live_def strings_def MAXSTRINGS_def STRINGBYTES_def)

lemma copy_strs_run:
  assumes "list_all (ended buf lim) offs"
    and "wf_list to" "strcnt to + length offs < MAXSTRINGS"
    and "strp to + bytes (map (\<lambda>off. str_of (drop off buf)) offs) < STRINGBYTES"
  shows "\<exists>to'. (\<forall>gc. copy_strs gc (map Some offs @ None # rest) buf to = Some to') \<and> wf_list to' \<and>
    strings to' = strings to @ map (\<lambda>off. str_of (drop off buf)) offs \<and>
    strp to' = strp to + bytes (map (\<lambda>off. str_of (drop off buf)) offs)"
  using assms
proof (induction offs arbitrary: to)
  case (Cons off offs)
  let ?s = "str_of (drop off buf)"
  have "ended buf lim off"
    using Cons.prems(1) by simp
  then obtain r where r: "drop off buf = ?s @ NUL # r"
    by (rule ended_split)
  have c: "strcnt to < MAXSTRINGS - 1"
    using Cons.prems(3) by (simp add: less_diff_conv)
  obtain to1 where to1: "\<forall>gc. new_str1_with gc (?s @ NUL # r) to = Some (0, to1)" "wf_list to1"
    "strings to1 = strings to @ [?s]" "strp to1 = strp to + length ?s + 1"
    using new_str1_room [OF Cons.prems(2) c, of ?s r] Cons.prems(4) by auto
  have "strcnt to1 = strcnt to + 1"
    using to1(2,3) Cons.prems(2) length_strings by (metis length_append_singleton Suc_eq_plus1)
  then obtain to' where "\<forall>gc. copy_strs gc (map Some offs @ None # rest) buf to1 = Some to'" "wf_list to'"
    "strings to' = strings to1 @ map (\<lambda>off. str_of (drop off buf)) offs"
    "strp to' = strp to1 + bytes (map (\<lambda>off. str_of (drop off buf)) offs)"
    using Cons.IH [of to1] Cons.prems to1 by auto
  then show ?case
    using to1 r by simp
qed simp

lemma wf_copy:
  assumes "wf_list sl" "wf_list to" "strings to = []" "strp to = 0" "strcnt to = 0"
  shows "\<exists>to'. (\<forall>gc. copy_strs gc (strptrs sl) (strbuf sl) to = Some to') \<and> wf_list to' \<and>
    strings to' = strings sl \<and> strp to' = bytes (strings sl)"
proof -
  obtain rest where "strptrs sl = map Some (live sl) @ None # rest"
    using wf_ptrs [OF assms(1)] by blast
  moreover have "list_all (ended (strbuf sl) (strp sl)) (live sl)"
    using assms(1) by (simp add: wf_list_def)
  ultimately show ?thesis
    using copy_strs_run [of "strbuf sl" "strp sl" "live sl" to] length_live [OF assms(1)] assms
    by (auto simp: wf_list_def strings_def str_at_def)
qed

lemma collect_wf:
  assumes "wf_list sl"
  shows "\<exists>sl'. (\<forall>k. collect (Suc k) sl = Some sl') \<and> wf_list sl' \<and> strings sl' = strings sl \<and>
    strp sl' = bytes (strings sl)"
proof -
  obtain t0 where t0: "init_str stack_list = Some t0" "wf_list t0" "strings t0 = []" "strp t0 = 0" "strcnt t0 = 0"
    using init_str_wf [of stack_list] by (auto simp: stack_list_def)
  obtain t1 where t1: "\<forall>gc. copy_strs gc (strptrs sl) (strbuf sl) t0 = Some t1" "wf_list t1"
    "strings t1 = strings sl"
    using wf_copy [OF assms t0(2-5)] by blast
  obtain s0 where s0: "init_str sl = Some s0" "wf_list s0" "strings s0 = []" "strp s0 = 0" "strcnt s0 = 0"
    using init_str_wf [of sl] assms by (auto simp: wf_list_def)
  obtain s1 where "\<forall>gc. copy_strs gc (strptrs t1) (strbuf t1) s0 = Some s1" "wf_list s1"
    "strings s1 = strings t1" "strp s1 = bytes (strings t1)"
    using wf_copy [OF t1(2) s0(2-5)] by blast
  with t0 t1 s0 show ?thesis
    by simp
qed

lemma garbage_collect_wf:
  assumes "wf_list sl"
  shows "\<exists>sl'. garbage_collect sl = Some sl' \<and> wf_list sl' \<and> strings sl' = strings sl \<and>
    strcnt sl' = strcnt sl \<and> strp sl' = bytes (strings sl)"
  using collect_wf [OF assms] length_strings assms
  unfolding garbage_collect_def numeral_2_eq_2 by (metis One_nat_def)

text \<open>Making room: after it, a string of \<open>len\<close> bytes fits exactly when the strings
themselves leave that much.\<close>

lemma make_room:
  assumes "wf_list sl"
  shows "\<exists>sl'. (if fits len sl then Some sl else garbage_collect sl) = Some sl' \<and> wf_list sl' \<and>
    strings sl' = strings sl \<and> strcnt sl' = strcnt sl \<and>
    (fits len sl' \<longleftrightarrow> bytes (strings sl) + len < STRINGBYTES)"
proof (cases "fits len sl")
  case True
  then show ?thesis
    using assms by (auto simp: fits_def wf_list_def)
next
  case False
  then show ?thesis
    using garbage_collect_wf [OF assms] by (auto simp: fits_def not_le)
qed

section \<open>The abstract list\<close>

definition holds :: "string list \<Rightarrow> string \<Rightarrow> bool" where
  "holds xs s \<longleftrightarrow> length xs < MAXSTRINGS - 1 \<and> bytes xs + length s + 1 < STRINGBYTES"

definition spec_add :: "string \<Rightarrow> string list \<Rightarrow> int \<times> string list" where
  "spec_add s xs = (if holds xs s then (0, xs @ [s]) else (- 1, xs))"

lemma new_str1_spec:
  assumes wf: "wf_list sl" and s: "nulfree s"
  shows "\<exists>c sl'. new_str1 (s @ NUL # r) sl = Some (c, sl') \<and> wf_list sl' \<and>
    (c, strings sl') = spec_add s (strings sl)"
proof (cases "strcnt sl < MAXSTRINGS - 1")
  case True
  obtain sl1 where sl1: "(if fits (length s + 1) sl then Some sl else garbage_collect sl) = Some sl1"
    "wf_list sl1" "strings sl1 = strings sl" "strcnt sl1 = strcnt sl"
    "fits (length s + 1) sl1 \<longleftrightarrow> bytes (strings sl) + (length s + 1) < STRINGBYTES"
    using make_room [OF wf] by blast
  have ls: "length (strings sl) = strcnt sl"
    by (rule length_strings [OF wf])
  have eq: "new_str1 (s @ NUL # r) sl =
    (if \<not> fits (length s + 1) sl1 then Some (- 1, sl1)
     else new_str1_with garbage_collect (s @ NUL # r) sl1)"
    using True sl1 s by (simp add: new_str1_def new_str1_with_def strlen_term Let_def)
  show ?thesis
  proof (cases "fits (length s + 1) sl1")
    case fit: True
    then have "strp sl1 + length s + 1 < STRINGBYTES"
      by (simp add: fits_def)
    then show ?thesis
      using new_str1_room [OF sl1(2) _ s, of r] fit eq True sl1 ls
      by (auto simp: spec_add_def holds_def)
  next
    case False
    then show ?thesis
      using eq sl1 ls by (auto simp: spec_add_def holds_def)
  qed
next
  case False
  then show ?thesis
    using wf length_strings [OF wf] by (simp add: new_str1_def new_str1_with_def spec_add_def holds_def)
qed

lemma new_str2_room:
  assumes wf: "wf_list sl" and cnt: "strcnt sl < MAXSTRINGS - 1" and s: "nulfree n" "nulfree v"
    and fit: "fits (length n + length v + 2) sl"
  shows "\<exists>sl'. new_str2 (n @ NUL # r) (v @ NUL # r') sl = Some (0, sl') \<and> wf_list sl' \<and>
    strings sl' = strings sl @ [n @ ''='' @ v]"
proof -
  let ?d = "drop (strp sl) (strbuf sl)"
  have room: "strp sl + length (n @ ''='' @ v) + 1 < STRINGBYTES"
    using fit by (simp add: fits_def)
  have len: "length n + length v + 2 < length ?d"
    using room wf by (simp add: wf_list_def)
  have top: "strp sl \<le> length (strbuf sl)"
    using wf by (rule wf_list_le)
  have 1: "strcpy ?d (n @ NUL # r) = Some (n @ NUL # drop (Suc (length n)) ?d)"
    using len s by (simp add: strcpy_term)
  have 2: "strcat (n @ NUL # drop (Suc (length n)) ?d) (cstr ''='') =
      Some ((n @ ''='') @ NUL # drop (Suc (Suc (length n))) ?d)"
    using strcat_term [of n "''=''" "drop (Suc (length n)) ?d" "[]"] len s by (simp add: cstr_def)
  have 3: "strcat ((n @ ''='') @ NUL # drop (Suc (Suc (length n))) ?d) (v @ NUL # r') =
      Some ((n @ ''='') @ v @ NUL # drop (length v) (drop (Suc (Suc (length n))) ?d))"
    using strcat_term [of "n @ ''=''" v "drop (Suc (Suc (length n))) ?d" r'] len s by simp
  note ap = append_string [OF wf cnt _ room]
  show ?thesis
    using ap s fit cnt top 1 2 3
    by (simp add: new_str2_def strlen_term at_strp_def Let_def add_ac)
qed

lemma new_str2_spec:
  assumes wf: "wf_list sl" and s: "nulfree n" "nulfree v"
  shows "\<exists>c sl'. new_str2 (n @ NUL # r) (v @ NUL # r') sl = Some (c, sl') \<and> wf_list sl' \<and>
    (c, strings sl') = spec_add (n @ ''='' @ v) (strings sl)"
proof (cases "strcnt sl < MAXSTRINGS - 1")
  case True
  let ?len = "length n + length v + 2"
  obtain sl1 where sl1: "(if fits ?len sl then Some sl else garbage_collect sl) = Some sl1"
    "wf_list sl1" "strings sl1 = strings sl" "strcnt sl1 = strcnt sl"
    "fits ?len sl1 \<longleftrightarrow> bytes (strings sl) + ?len < STRINGBYTES"
    using make_room [OF wf] by blast
  have ls: "length (strings sl) = strcnt sl"
    by (rule length_strings [OF wf])
  have eq: "new_str2 (n @ NUL # r) (v @ NUL # r') sl =
    (if \<not> fits ?len sl1 then Some (- 1, sl1) else new_str2 (n @ NUL # r) (v @ NUL # r') sl1)"
    using True sl1 s unfolding new_str2_def by (simp add: strlen_term Let_def)
  show ?thesis
  proof (cases "fits ?len sl1")
    case fit: True
    then show ?thesis
      using new_str2_room [OF sl1(2) _ s, of r r'] eq True sl1 ls
      by (auto simp: spec_add_def holds_def)
  next
    case False
    then show ?thesis
      using eq sl1 ls by (auto simp: spec_add_def holds_def)
  qed
next
  case False
  then show ?thesis
    using wf length_strings [OF wf] by (simp add: new_str2_def spec_add_def holds_def)
qed

section \<open>Searching\<close>

text \<open>Entry \<open>e\<close> is a setting of variable \<open>name\<close>.\<close>

definition is_var :: "string \<Rightarrow> string \<Rightarrow> bool" where
  "is_var name e \<longleftrightarrow> length name < length e \<and>
     fold_case (take (length name) e) = fold_case name \<and> e ! length name = CHR ''=''"

definition spec_delete :: "string \<Rightarrow> string list \<Rightarrow> string list" where
  "spec_delete name xs =
     takeWhile (\<lambda>e. \<not> is_var name e) xs @ tl (dropWhile (\<lambda>e. \<not> is_var name e) xs)"

definition old_name :: "string \<Rightarrow> string list \<Rightarrow> string" where
  "old_name name xs =
    (case List.find (is_var name) xs of
       None \<Rightarrow> name
     | Some e \<Rightarrow> if length name < MAXRETNAME - 1 then take (length name) e else name)"

definition spec_replace :: "string \<Rightarrow> string \<Rightarrow> string list \<Rightarrow> string list" where
  "spec_replace name value xs =
     snd (spec_add (old_name name xs @ ''='' @ value) (spec_delete name xs))"

lemma fold_case_simps [simp]:
  "fold_case [] = []" "fold_case (c # s) = tolower (schar c) # fold_case s"
  "length (fold_case s) = length s"
  by (simp_all add: fold_case_def)

lemma strncasecmp_run:
  "nulfree a \<Longrightarrow> nulfree b \<Longrightarrow> 0 \<le> n \<Longrightarrow>
   \<exists>v. strncasecmp_loop n (a @ NUL # r) (b @ NUL # r') = Some v \<and>
       (v = 0 \<longleftrightarrow> fold_case (take (nat n) a) = fold_case (take (nat n) b))"
proof (induction a arbitrary: b n)
  case Nil
  then show ?case
    by (subst strncasecmp_loop.simps) (cases b, auto simp: take_Cons' nat_le_iff tolower_0)
next
  case (Cons x a)
  show ?case
  proof (cases "n = 0")
    case False
    then have n: "nat n = Suc (nat (n - 1))" "0 \<le> n - 1"
      using Cons.prems by auto
    show ?thesis
    proof (cases b)
      case Nil
      then show ?thesis
        using Cons.prems n by (subst strncasecmp_loop.simps) (auto simp: tolower_0)
    next
      case (Cons y b')
      then show ?thesis
        using Cons.prems n Cons.IH [of b' "n - 1"]
        by (subst strncasecmp_loop.simps) auto
    qed
  qed (subst strncasecmp_loop.simps, simp)
qed

lemma names_run:
  assumes "nulfree name" "nulfree e" "length name < 2 ^ 31"
  shows "names (name @ NUL # r) (length name) (e @ NUL # r') = Some (is_var name e)"
    "names_rev (name @ NUL # r) (length name) (e @ NUL # r') = Some (is_var name e)"
proof -
  let ?n = "length name"
  obtain v w where
    v: "strncasecmp (e @ NUL # r') (name @ NUL # r) (of_nat ?n) = Some v"
       "v = 0 \<longleftrightarrow> fold_case (take ?n e) = fold_case name" and
    w: "strncasecmp (name @ NUL # r) (e @ NUL # r') (of_nat ?n) = Some w"
       "w = 0 \<longleftrightarrow> fold_case (take ?n e) = fold_case name"
    using strncasecmp_run [OF assms(2,1), of "int ?n" r' r]
      strncasecmp_run [OF assms(1,2), of "int ?n" r r']
    unfolding strncasecmp_def sint_of_nat_32 [OF assms(3)] by auto
  have "?n \<le> length e" if "fold_case (take ?n e) = fold_case name"
    using arg_cong [OF that, of length] by simp
  then have c: "fold_case (take ?n e) = fold_case name \<Longrightarrow>
      (rd (e @ NUL # r') ?n \<bind> (\<lambda>c. Some (c = CHR ''=''))) = Some (?n < length e \<and> e ! ?n = CHR ''='')"
    by (auto simp: rd_def nth_append)
  show "names (name @ NUL # r) ?n (e @ NUL # r') = Some (is_var name e)"
    using v c by (auto simp: names_def is_var_def)
  show "names_rev (name @ NUL # r) ?n (e @ NUL # r') = Some (is_var name e)"
    using w c by (auto simp: names_rev_def is_var_def)
qed

lemma wf_entry:
  assumes "wf_list sl" "i < strcnt sl"
  obtains off r where "strptrs sl ! i = Some off" "i < length (strptrs sl)"
    "str_at sl off = strings sl ! i @ NUL # r" "nulfree (strings sl ! i)"
proof -
  obtain rest where ps: "strptrs sl = map Some (live sl) @ None # rest"
    using wf_ptrs [OF assms(1)] by blast
  have i: "i < length (live sl)"
    using assms length_live by simp
  then have "ended (strbuf sl) (strp sl) (live sl ! i)"
    using assms(1) by (simp add: wf_list_def list_all_length)
  then obtain r where "drop (live sl ! i) (strbuf sl) = str_of (drop (live sl ! i) (strbuf sl)) @ NUL # r"
    by (rule ended_split)
  then show thesis
    using that [of "live sl ! i" r] ps i by (simp add: nth_append strings_def str_at_def)
qed

lemma nulfree_strings: "wf_list sl \<Longrightarrow> x \<in> set (strings sl) \<Longrightarrow> nulfree x"
  by (auto simp: strings_def)

lemma scan_run:
  assumes wf: "wf_list sl" and hit: "\<And>e r. nulfree e \<Longrightarrow> hit (e @ NUL # r) = Some (P e)"
  shows "set is \<subseteq> {..<strcnt sl} \<Longrightarrow>
    scan hit sl is = Some (List.find (\<lambda>i. P (strings sl ! i)) is)"
proof (induction "is")
  case (Cons i "is")
  then have "i < strcnt sl"
    by simp
  then obtain off r where "strptrs sl ! i = Some off" "i < length (strptrs sl)"
    "str_at sl off = strings sl ! i @ NUL # r" "nulfree (strings sl ! i)"
    using wf_entry [OF wf] by blast
  then show ?case
    using Cons by (simp add: rd_def hit)
qed simp

lemma find_index:
  "List.find (\<lambda>i. P (xs ! i)) [0..<length xs] = None \<longleftrightarrow> List.find P xs = None"
  "List.find (\<lambda>i. P (xs ! i)) [0..<length xs] = Some i \<Longrightarrow>
    i < length xs \<and> List.find P xs = Some (xs ! i) \<and>
    takeWhile (\<lambda>x. \<not> P x) xs = take i xs \<and> dropWhile (\<lambda>x. \<not> P x) xs = drop i xs"
proof -
  show "List.find (\<lambda>i. P (xs ! i)) [0..<length xs] = None \<longleftrightarrow> List.find P xs = None"
    by (auto simp: find_None_iff in_set_conv_nth)
  assume "List.find (\<lambda>i. P (xs ! i)) [0..<length xs] = Some i"
  then have i: "i < length xs" "P (xs ! i)" "\<forall>j<i. \<not> P (xs ! j)"
    by (auto simp: find_Some_iff)
  then have "xs = take i xs @ xs ! i # drop (Suc i) xs"
    by (intro id_take_nth_drop)
  moreover have "\<forall>x\<in>set (take i xs). \<not> P x"
    using i by (auto simp: in_set_conv_nth)
  ultimately have "List.find P xs = Some (xs ! i)" "takeWhile (\<lambda>x. \<not> P x) xs = take i xs"
    using i
    by (auto simp: find_Some_iff intro!: exI [of _ i] takeWhile_eq_take_P_nth)
  moreover have "dropWhile (\<lambda>x. \<not> P x) xs = drop i xs"
    using calculation(2) i(1) by (metis append_take_drop_id append_same_eq same_append_eq takeWhile_dropWhile_id)
  ultimately show "i < length xs \<and> List.find P xs = Some (xs ! i) \<and>
    takeWhile (\<lambda>x. \<not> P x) xs = take i xs \<and> dropWhile (\<lambda>x. \<not> P x) xs = drop i xs"
    using i(1) by simp
qed

section \<open>The operations against the abstract list\<close>

lemma find_str_spec:
  assumes wf: "wf_list sl" and name: "nulfree name" "length name < 2 ^ 31"
  shows "\<exists>p. find_str (name @ NUL # r) sl = Some p \<and>
    map_option str_of p = List.find (is_var name) (strings sl) \<and>
    (\<forall>m. p = Some m \<longrightarrow> NUL \<in> set m)"
proof -
  have s: "scan (names (name @ NUL # r) (length name)) sl [0..<strcnt sl] =
      Some (List.find (\<lambda>i. is_var name (strings sl ! i)) [0..<length (strings sl)])"
    using scan_run [OF wf, of "names (name @ NUL # r) (length name)" "is_var name" "[0..<strcnt sl]"]
      names_run(1) [OF name(1) _ name(2)]
    by (simp add: length_strings [OF wf] atLeast0LessThan)
  show ?thesis
  proof (cases "List.find (\<lambda>i. is_var name (strings sl ! i)) [0..<length (strings sl)]")
    case None
    then show ?thesis
      using s find_index(1) [of "is_var name" "strings sl"] by (simp add: find_str_def strlen_term name)
  next
    case (Some i)
    then have i: "i < strcnt sl" "List.find (is_var name) (strings sl) = Some (strings sl ! i)"
      using find_index(2) [OF Some] length_strings [OF wf] by auto
    obtain off r' where "strptrs sl ! i = Some off" "i < length (strptrs sl)"
      "str_at sl off = strings sl ! i @ NUL # r'" "nulfree (strings sl ! i)"
      using wf_entry [OF wf i(1)] by blast
    then show ?thesis
      using s Some i(2) by (simp add: find_str_def strlen_term name rd_def)
  qed
qed

lemma shift_down_run:
  "shift_down (xs @ x # map Some ys @ None # rest) (length xs) =
     Some (xs @ map Some ys @ None # None # rest)"
proof (induction ys arbitrary: xs x)
  case Nil
  then show ?case
    by (subst shift_down.simps) (simp add: rd_def wr_def nth_append)
next
  case (Cons y ys)
  have "shift_down ((xs @ [Some y]) @ Some y # map Some ys @ None # rest) (length (xs @ [Some y])) =
      Some ((xs @ [Some y]) @ map Some ys @ None # None # rest)"
    by (rule Cons.IH)
  then show ?case
    by (subst shift_down.simps) (simp add: rd_def wr_def nth_append)
qed

text \<open>Removing the pointer at index \<open>i\<close> and lowering the count.\<close>

lemma remove_entry:
  assumes wf: "wf_list sl" and i: "i < strcnt sl"
  shows "\<exists>ps. shift_down (strptrs sl) i = Some ps \<and> length ps = MAXSTRINGS \<and>
    ps ! (strcnt sl - 1) = None \<and>
    wf_list (sl\<lparr>strptrs := ps, strcnt := strcnt sl - 1\<rparr>) \<and>
    strings (sl\<lparr>strptrs := ps, strcnt := strcnt sl - 1\<rparr>) = take i (strings sl) @ drop (Suc i) (strings sl)"
proof -
  obtain rest where ps: "strptrs sl = map Some (live sl) @ None # rest"
    using wf_ptrs [OF wf] by blast
  let ?os = "live sl"
  have n: "length ?os = strcnt sl"
    by (rule length_live [OF wf])
  let ?ps = "map Some (take i ?os @ drop (Suc i) ?os) @ None # None # rest"
  let ?sl = "sl\<lparr>strptrs := ?ps, strcnt := strcnt sl - 1\<rparr>"
  have "?os = take i ?os @ ?os ! i # drop (Suc i) ?os"
    using i n by (intro id_take_nth_drop) simp
  then have "strptrs sl = map Some (take i ?os) @ Some (?os ! i) # map Some (drop (Suc i) ?os) @ None # rest"
    unfolding ps by (metis append.assoc append_Cons list.simps(9) map_append)
  then have sd: "shift_down (strptrs sl) i = Some ?ps"
    using shift_down_run [of "map Some (take i ?os)" "Some (?os ! i)" "drop (Suc i) ?os" rest] i n
    by simp
  have live': "live ?sl = take i ?os @ drop (Suc i) ?os"
    using i n by (simp add: live_def)
  have strs: "strings ?sl = take i (strings sl) @ drop (Suc i) (strings sl)"
    unfolding strings_def live' by (simp add: take_map drop_map str_at_def)
  have "bytes (strings sl) = bytes (take i (strings sl)) + bytes (drop i (strings sl))"
    by (metis append_take_drop_id bytes_simps(3))
  moreover have "bytes (drop (Suc i) (strings sl)) \<le> bytes (drop i (strings sl))"
    using i length_strings [OF wf] by (subst Cons_nth_drop_Suc [symmetric]) auto
  ultimately have b: "bytes (strings ?sl) \<le> strp sl"
    unfolding strs using wf by (simp add: wf_list_def)
  have "length ?ps = MAXSTRINGS"
    using wf ps i n by (simp add: wf_list_def)
  moreover have "?ps ! (strcnt sl - 1) = None"
    using i n by (simp add: nth_append)
  moreover have "wf_list ?sl"
    using wf b i n \<open>length ?ps = MAXSTRINGS\<close> unfolding wf_list_def live'
    by (auto simp: nth_append list_all_iff dest: in_set_takeD in_set_dropD)
  ultimately show ?thesis
    using sd strs by blast
qed

lemma spec_delete_index:
  assumes "List.find (\<lambda>i. is_var name (xs ! i)) [0..<length xs] = Some i"
  shows "spec_delete name xs = take i xs @ drop (Suc i) xs"
  using find_index(2) [OF assms] by (simp add: spec_delete_def tl_drop drop_Suc)

lemma spec_delete_absent:
  assumes "List.find (is_var name) xs = None"
  shows "spec_delete name xs = xs"
proof -
  have "\<forall>x\<in>set xs. \<not> is_var name x"
    using assms by (auto simp: find_None_iff)
  then have "takeWhile (\<lambda>e. \<not> is_var name e) xs = xs"
    by (simp add: takeWhile_eq_all_conv)
  moreover have "dropWhile (\<lambda>e. \<not> is_var name e) xs = []"
    using \<open>\<forall>x\<in>set xs. \<not> is_var name x\<close> by (simp add: dropWhile_eq_Nil_conv)
  ultimately show ?thesis
    unfolding spec_delete_def by (simp only: list.sel append_Nil2)
qed

text \<open>What \<open>_delete_str\<close> leaves in the caller's array.\<close>

definition saved_name :: "string \<Rightarrow> string list \<Rightarrow> string \<Rightarrow> string" where
  "saved_name name xs old =
    (case List.find (is_var name) xs of
       None \<Rightarrow> old
     | Some e \<Rightarrow> if length name < MAXRETNAME - 1
         then take (length name) e @ NUL # drop (Suc (length name)) old else old)"

lemma delete_old_spec:
  assumes wf: "wf_list sl" and name: "nulfree name" "length name < 2 ^ 31"
    and old: "\<And>b. old = Some b \<Longrightarrow> length b = MAXRETNAME"
  shows "\<exists>sl'. delete_old (name @ NUL # r) sl old =
      Some (map_option (saved_name name (strings sl)) old, sl') \<and> wf_list sl' \<and>
    strings sl' = spec_delete name (strings sl)"
proof -
  have s: "scan (names_rev (name @ NUL # r) (length name)) sl [0..<strcnt sl] =
      Some (List.find (\<lambda>i. is_var name (strings sl ! i)) [0..<length (strings sl)])"
    using scan_run [OF wf, of "names_rev (name @ NUL # r) (length name)" "is_var name" "[0..<strcnt sl]"]
      names_run(2) [OF name(1) _ name(2)]
    by (simp add: length_strings [OF wf] atLeast0LessThan)
  show ?thesis
  proof (cases "List.find (\<lambda>i. is_var name (strings sl ! i)) [0..<length (strings sl)]")
    case None
    then have "List.find (is_var name) (strings sl) = None"
      using find_index(1) [of "is_var name" "strings sl"] by simp
    with None show ?thesis
      using s wf
      by (cases old) (simp_all add: delete_old_def strlen_term name saved_name_def spec_delete_absent)
  next
    case (Some i)
    then have i: "i < strcnt sl" "List.find (is_var name) (strings sl) = Some (strings sl ! i)"
      using find_index(2) [OF Some] length_strings [OF wf] by auto
    let ?e = "strings sl ! i" and ?n = "length name"
    have e: "is_var name ?e"
      using i(2) by (auto simp: find_Some_iff)
    then have le: "?n \<le> length ?e"
      by (simp add: is_var_def)
    obtain off r' where off: "strptrs sl ! i = Some off" "i < length (strptrs sl)"
      "str_at sl off = ?e @ NUL # r'" "nulfree ?e"
      using wf_entry [OF wf i(1)] by blast
    have cp: "strncpy b (?e @ NUL # r') (of_nat ?n) = Some (take ?n ?e @ drop ?n b)"
      if "length b = MAXRETNAME" "?n < MAXRETNAME - 1" for b
      using strncpy_loop_term [OF off(4), of b r' ?n] that le name(2)
      by (simp add: strncpy_def sint_of_nat_32)
    have wr: "wr (take ?n ?e @ drop ?n b) ?n NUL = Some (take ?n ?e @ NUL # drop (Suc ?n) b)"
      if "length b = MAXRETNAME" "?n < MAXRETNAME - 1" for b
    proof -
      have "drop ?n b = b ! ?n # drop (Suc ?n) b"
        using that by (intro Cons_nth_drop_Suc [symmetric]) simp
      then show ?thesis
        using that le by (simp add: wr_def list_update_append)
    qed
    obtain ps where ps: "shift_down (strptrs sl) i = Some ps"
      "wf_list (sl\<lparr>strptrs := ps, strcnt := strcnt sl - 1\<rparr>)"
      "strings (sl\<lparr>strptrs := ps, strcnt := strcnt sl - 1\<rparr>) = spec_delete name (strings sl)"
      using remove_entry [OF wf i(1)] spec_delete_index [OF Some] by auto
    show ?thesis
    proof (cases old)
      case None
      then show ?thesis
        using s Some off ps by (simp add: delete_old_def strlen_term name rd_def)
    next
      case b: (Some b)
      then show ?thesis
        using s Some off ps cp [of b] wr [of b] old [of b] i(2)
        by (simp add: delete_old_def strlen_term name rd_def saved_name_def del: wr_Some)
    qed
  qed
qed

lemma replace_str_spec:
  assumes wf: "wf_list sl" and name: "nulfree name" "length name < 2 ^ 31" and v: "nulfree value"
    and buf: "MAXRETNAME \<le> length buf"
  shows "\<exists>sl'. replace_str buf (name @ NUL # r) (value @ NUL # r') sl = Some sl' \<and> wf_list sl' \<and>
    strings sl' = spec_replace name value (strings sl)"
proof -
  define b where "b = (take MAXRETNAME buf)[0 := NUL]"
  have b: "wr (take MAXRETNAME buf) 0 NUL = Some b" "length b = MAXRETNAME" "b = NUL # tl b"
    using buf by (auto simp: b_def wr_def MAXRETNAME_def neq_Nil_conv split: list.splits)
       (cases buf; simp)
  obtain sl1 where sl1: "delete_old (name @ NUL # r) sl (Some b) =
      Some (Some (saved_name name (strings sl) b), sl1)" "wf_list sl1"
    "strings sl1 = spec_delete name (strings sl)"
    using delete_old_spec [OF wf name, of "Some b" r] b(2) by auto
  obtain t where bt: "b = NUL # t"
    using b(3) by blast
  let ?nm = "old_name name (strings sl)" and ?sv = "saved_name name (strings sl) b"
  have "\<exists>c q. rd ?sv 0 = Some c \<and> (if c \<noteq> NUL then ?sv else name @ NUL # r) = ?nm @ NUL # q \<and> nulfree ?nm"
  proof (cases "List.find (is_var name) (strings sl)")
    case None
    then show ?thesis
      using name(1) by (simp add: old_name_def saved_name_def bt rd_def)
  next
    case (Some e)
    then have e: "e \<in> set (strings sl)" "is_var name e"
      by (auto simp: find_Some_iff)
    then have ne: "nulfree e" "length name \<le> length e"
      using nulfree_strings [OF wf] by (auto simp: is_var_def)
    show ?thesis
    proof (cases "length name < MAXRETNAME - 1")
      case True
      have nm: "?nm = take (length name) e" "?sv = take (length name) e @ NUL # drop (Suc (length name)) b"
        using Some True by (simp_all add: old_name_def saved_name_def)
      have "nulfree ?nm"
        using ne(1) nm by (auto dest: in_set_takeD)
      moreover have "\<exists>c q. rd ?sv 0 = Some c \<and> (if c \<noteq> NUL then ?sv else name @ NUL # r) = ?nm @ NUL # q"
      proof (cases "take (length name) e")
        case Nil
        then have "name = []"
          using ne(2) by (cases e) auto
        then show ?thesis
          unfolding nm by (simp add: rd_def)
      next
        case (Cons y ys)
        then have "y \<noteq> NUL"
          using ne(1) by (metis in_set_takeD list.set_intros(1))
        with Cons show ?thesis
          unfolding nm by (simp add: rd_def)
      qed
      ultimately show ?thesis
        by blast
    next
      case False
      with Some name(1) show ?thesis
        by (simp add: old_name_def saved_name_def bt rd_def)
    qed
  qed
  then obtain c q where cq: "rd ?sv 0 = Some c" "(if c \<noteq> NUL then ?sv else name @ NUL # r) = ?nm @ NUL # q"
    "nulfree ?nm"
    by blast
  obtain x sl2 where n2: "new_str2 (?nm @ NUL # q) (value @ NUL # r') sl1 = Some (x, sl2)" "wf_list sl2"
    "(x, strings sl2) = spec_add (?nm @ ''='' @ value) (strings sl1)"
    using new_str2_spec [OF sl1(2) cq(3) v] by blast
  have "replace_str buf (name @ NUL # r) (value @ NUL # r') sl = Some sl2"
    by (simp only: replace_str_def b(1) sl1(1) cq(1,2) n2(1) bind.bind_lunit prod.case)
  moreover have "strings sl2 = spec_replace name value (strings sl)"
    using n2(3) sl1(3) by (metis snd_conv spec_replace_def)
  ultimately show ?thesis
    using n2(2) by blast
qed

lemma set_str_spec:
  assumes wf: "wf_list sl" and i: "0 \<le> i" "i < int (strcnt sl)" and s: "nulfree s"
  shows "\<exists>c sl'. set_str (s @ NUL # r) i sl = Some (c, sl') \<and> wf_list sl' \<and>
    (if bytes (strings sl) + length s + 1 < STRINGBYTES
     then c = 0 \<and> strings sl' = (strings sl)[nat i := s]
     else c = - 1 \<and> strings sl' = strings sl)"
proof -
  obtain sl1 where sl1: "(if fits (length s + 1) sl then Some sl else garbage_collect sl) = Some sl1"
    "wf_list sl1" "strings sl1 = strings sl" "strcnt sl1 = strcnt sl"
    "fits (length s + 1) sl1 \<longleftrightarrow> bytes (strings sl) + (length s + 1) < STRINGBYTES"
    using make_room [OF wf] by blast
  let ?n = "strp sl1" and ?k = "nat i"
  have k: "?k < strcnt sl1" "?k < length (strptrs sl1)"
    using i sl1(2,4) by (auto simp: wf_list_def)
  define sl2 where "sl2 = sl1\<lparr>strptrs := (strptrs sl1)[?k := Some ?n],
    strbuf := take ?n (strbuf sl1) @ s @ NUL # drop (?n + length s + 1) (strbuf sl1),
    strp := ?n + length s + 1\<rparr>"
  have eq: "set_str (s @ NUL # r) i sl =
    (if \<not> fits (length s + 1) sl1 then Some (- 1, sl1) else Some (0, sl2))"
  proof (cases "fits (length s + 1) sl1")
    case True
    then have "length s < length (strbuf sl1) - ?n"
      using sl1(2) by (simp add: fits_def wf_list_def)
    then have "strcpy (drop ?n (strbuf sl1)) (s @ NUL # r) =
        Some (s @ NUL # drop (Suc (length s)) (drop ?n (strbuf sl1)))"
      using s by (simp add: strcpy_term)
    with True show ?thesis
      using sl1(1) i s k
      by (simp add: set_str_def strlen_term Let_def at_strp_def wr_def sl2_def add_ac)
  next
    case False
    with sl1(1) i s show ?thesis
      by (simp add: set_str_def strlen_term Let_def)
  qed
  have "wf_list sl2 \<and> strings sl2 = (strings sl)[?k := s]" if fit: "fits (length s + 1) sl1"
  proof -
    have room: "?n + length s + 1 < STRINGBYTES"
      using fit by (simp add: fits_def)
    have len: "length (live sl1) = strcnt sl1" "?n < STRINGBYTES" "length (strbuf sl1) = STRINGBYTES"
      using sl1(2) length_live by (auto simp: wf_list_def)
    have live': "live sl2 = (live sl1)[?k := ?n]"
      by (simp add: live_def sl2_def take_update_swap map_update)
    have buf: "take ?n (strbuf sl2) = take ?n (strbuf sl1)"
      "drop ?n (strbuf sl2) = s @ NUL # drop (?n + length s + 1) (strbuf sl1)"
      using len by (simp_all add: sl2_def)
    have le: "?n \<le> strp sl2"
      by (simp add: sl2_def)
    have old: "ended (strbuf sl2) (strp sl2) off \<and> str_of (drop off (strbuf sl2)) = str_of (drop off (strbuf sl1))"
      if "off \<in> set (live sl1)" for off
      using ended_stable [OF _ buf(1) le] sl1(2) that by (auto simp: wf_list_def list_all_iff)
    have new: "ended (strbuf sl2) (strp sl2) ?n" "str_of (drop ?n (strbuf sl2)) = s"
    proof -
      show "ended (strbuf sl2) (strp sl2) ?n"
        unfolding ended_def buf(2) by (simp add: sl2_def)
      show "str_of (drop ?n (strbuf sl2)) = s"
        unfolding buf(2) using s by (rule str_of_term)
    qed
    have "strings sl2 = (strings sl1)[?k := s]"
      unfolding strings_def live' str_at_def map_update new(2)
      using old by (intro arg_cong [of _ _ "\<lambda>x. x[?k := s]"]) auto
    then have strs: "strings sl2 = (strings sl)[?k := s]"
      by (simp add: sl1(3))
    have "bytes (xs[j := s]) \<le> bytes xs + length s + 1" for xs :: "string list" and j
      by (induction xs arbitrary: j) (auto split: nat.splits)
    from this [of "strings sl" ?k] have "bytes (strings sl2) \<le> strp sl2"
      unfolding strs using sl1(2,3) by (simp add: wf_list_def sl2_def)
    moreover have "list_all (ended (strbuf sl2) (strp sl2)) (live sl2)"
      unfolding live' list_all_iff using old new set_update_subset_insert [of "live sl1" ?k ?n] by auto
    moreover have "take (strcnt sl2) (strptrs sl2) = map Some (live sl2)"
      unfolding live' using sl1(2) k by (simp add: sl2_def wf_list_def map_update take_update_swap)
    ultimately have "wf_list sl2"
      using sl1(2) room k len by (simp add: wf_list_def) (simp add: sl2_def)
    with strs show ?thesis
      by simp
  qed
  then show ?thesis
    using eq sl1 by (simp split: if_splits)
qed

text \<open>\<open>delete_strnum\<close> moves the pointers down but keeps the count.\<close>

lemma delete_strnum_run:
  assumes wf: "wf_list sl" and i: "0 \<le> i" "i < int (strcnt sl)"
  shows "\<exists>ps. delete_strnum i sl = Some (0, sl\<lparr>strptrs := ps\<rparr>) \<and>
    ps ! (strcnt sl - 1) = None \<and> length ps = MAXSTRINGS \<and>
    wf_list (sl\<lparr>strptrs := ps, strcnt := strcnt sl - 1\<rparr>) \<and>
    strings (sl\<lparr>strptrs := ps, strcnt := strcnt sl - 1\<rparr>) =
      take (nat i) (strings sl) @ drop (Suc (nat i)) (strings sl)"
proof -
  have "nat i < strcnt sl"
    using i by simp
  from remove_entry [OF wf this] i show ?thesis
    by (auto simp: delete_strnum_def)
qed

lemma scan_append:
  "scan hit sl (xs @ ys) = do { r \<leftarrow> scan hit sl xs; case r of None \<Rightarrow> scan hit sl ys | Some i \<Rightarrow> Some (Some i) }"
proof (induction xs)
  case (Cons x xs)
  then show ?case
    by (cases "rd (strptrs sl) x"; simp del: rd_Some rd_None)
       (auto split: Option.bind_split simp del: rd_Some rd_None)
qed simp

lemma scan_strcnt: "scan hit (sl\<lparr>strcnt := n\<rparr>) is = scan hit sl is"
  by (induction "is") (simp_all add: str_at_def cong: if_cong Option.bind_cong)

section \<open>Properties\<close>

text \<open>collecting garbage keeps every string in its place and leaves the free
pointer right behind their bytes, on every well-formed list; the \<open>new_str1\<close> calls
it makes never collect again, so the depth of the calls is one.\<close>

theorem collection_compacts:
  assumes "wf_list sl"
  shows "\<exists>sl'. garbage_collect sl = Some sl' \<and> collect 1 sl = Some sl' \<and> wf_list sl' \<and>
    strings sl' = strings sl \<and> strp sl' = bytes (strings sl)"
  using collect_wf [OF assms] unfolding garbage_collect_def numeral_2_eq_2 by (metis One_nat_def)

definition sample_list :: string_list where
  "sample_list = \<lparr>strptrs = Some 4 # Some 0 # replicate 62 None,
    strbuf = ''a=1'' @ NUL # ''bc=22'' @ NUL # replicate 1270 NUL, strp = 20, strcnt = 2\<rparr>"

lemma sample_list_facts:
  "wf_list sample_list" "strings sample_list = [''bc=22'', ''a=1'']"
proof -
  show "strings sample_list = [''bc=22'', ''a=1'']"
    by (simp add: strings_def live_def str_at_def sample_list_def str_of_def)
  then have "bytes (strings sample_list) = 10"
    by simp
  then show "wf_list sample_list"
    by (simp add: wf_list_def MAXSTRINGS_def STRINGBYTES_def)
       (simp add: sample_list_def live_def ended_def)
qed

theorem collection_compacts_witness:
  "\<exists>sl'. garbage_collect sample_list = Some sl' \<and> strings sl' = [''bc=22'', ''a=1''] \<and> strp sl' = 10"
  using collection_compacts [OF sample_list_facts(1)] unfolding sample_list_facts(2)
  by (auto simp: numeral_eq_Suc)

text \<open>C15: the operations of a string list refine operations on a list of strings.
Adding appends when there are fewer than 63 strings and their bytes with the new
ones stay below 1280, and otherwise changes nothing and returns -1, however the
array is fragmented; deleting drops the first setting of the name, in any
capitalisation; replacing deletes and adds, under the name as it was stored;
searching finds the first setting.\<close>

theorem string_list_refines:
  assumes "wf_list sl" "nulfree name" "nulfree value" "length name < 2 ^ 31" "80 \<le> length buf"
  shows "(\<exists>c sl'. new_str1 (cstr value) sl = Some (c, sl') \<and> wf_list sl' \<and>
      (c, strings sl') = spec_add value (strings sl)) \<and>
    (\<exists>c sl'. new_str2 (cstr name) (cstr value) sl = Some (c, sl') \<and> wf_list sl' \<and>
      (c, strings sl') = spec_add (name @ ''='' @ value) (strings sl)) \<and>
    (\<exists>sl'. delete_str (cstr name) sl = Some sl' \<and> wf_list sl' \<and>
      strings sl' = spec_delete name (strings sl)) \<and>
    (\<exists>sl'. replace_str buf (cstr name) (cstr value) sl = Some sl' \<and> wf_list sl' \<and>
      strings sl' = spec_replace name value (strings sl)) \<and>
    (\<exists>p. find_str (cstr name) sl = Some p \<and>
      map_option str_of p = List.find (is_var name) (strings sl))"
proof -
  have "\<exists>sl'. delete_str (cstr name) sl = Some sl' \<and> wf_list sl' \<and>
      strings sl' = spec_delete name (strings sl)"
    using delete_old_spec [OF assms(1,2,4), of None "[]"] by (auto simp: delete_str_def cstr_def)
  then show ?thesis
    using new_str1_spec [OF assms(1,3), of "[]"] new_str2_spec [OF assms(1-3), of "[]" "[]"]
      replace_str_spec [OF assms(1,2,4,3), of buf "[]" "[]"] assms(5)
      find_str_spec [OF assms(1,2,4), of "[]"]
    unfolding cstr_def MAXRETNAME_def by blast
qed

theorem string_list_refines_witness:
  "\<exists>sl'. replace_str (replicate 80 NUL) (cstr ''BC'') (cstr ''x'') sample_list = Some sl' \<and>
    wf_list sl' \<and> strings sl' = [''a=1'', ''bc=x'']"
proof -
  have "spec_replace ''BC'' ''x'' [''bc=22'', ''a=1''] = [''a=1'', ''bc=x'']"
    by code_simp
  then show ?thesis
    using string_list_refines [OF sample_list_facts(1), of "''BC''" "''x''" "replicate 80 NUL"]
    unfolding sample_list_facts(2) by auto
qed

text \<open>\<open>set_str\<close> at a valid index replaces that string and no other; it needs room
for the new string beside all the old ones, the one it replaces included.\<close>

theorem set_str_replaces:
  assumes "wf_list sl" "0 \<le> i" "i < int (strcnt sl)" "nulfree s"
  shows "\<exists>c sl'. set_str (cstr s) i sl = Some (c, sl') \<and> wf_list sl' \<and>
    (if bytes (strings sl) + length s + 1 < STRINGBYTES
     then c = 0 \<and> strings sl' = (strings sl)[nat i := s]
     else c = - 1 \<and> strings sl' = strings sl)"
  using set_str_spec [OF assms, of "[]"] by (simp add: cstr_def)

theorem set_str_replaces_witness:
  "\<exists>sl'. set_str (cstr ''zz'') 1 sample_list = Some (0, sl') \<and> strings sl' = [''bc=22'', ''zz'']"
proof -
  have "strcnt sample_list = 2"
    by (simp add: sample_list_def)
  then show ?thesis
    using set_str_replaces [OF sample_list_facts(1), of 1 "''zz''"]
    unfolding sample_list_facts(2) by (auto simp: STRINGBYTES_def MAXSTRINGS_def)
qed

text \<open>\<open>delete_strnum\<close> does not lower the count.  After it the list has a null
pointer below the count, so it is not well-formed, and a search for a name that
none of the remaining strings sets follows that null pointer.\<close>

theorem delete_strnum_breaks_list:
  assumes "wf_list sl" "0 \<le> i" "i < int (strcnt sl)" "nulfree name" "length name < 2 ^ 31"
    "List.find (is_var name) (take (nat i) (strings sl) @ drop (Suc (nat i)) (strings sl)) = None"
  shows "\<exists>sl'. delete_strnum i sl = Some (0, sl') \<and> strcnt sl' = strcnt sl \<and> \<not> wf_list sl' \<and>
    find_str (cstr name) sl' = None"
proof -
  obtain ps where ps: "delete_strnum i sl = Some (0, sl\<lparr>strptrs := ps\<rparr>)" "ps ! (strcnt sl - 1) = None"
    "length ps = MAXSTRINGS" "wf_list (sl\<lparr>strptrs := ps, strcnt := strcnt sl - 1\<rparr>)"
    "strings (sl\<lparr>strptrs := ps, strcnt := strcnt sl - 1\<rparr>) =
      take (nat i) (strings sl) @ drop (Suc (nat i)) (strings sl)"
    using delete_strnum_run [OF assms(1-3)] by blast
  let ?sl = "sl\<lparr>strptrs := ps\<rparr>" and ?sl1 = "sl\<lparr>strptrs := ps, strcnt := strcnt sl - 1\<rparr>"
  let ?n = "strcnt sl - 1" and ?hit = "names (cstr name) (length name)"
  have n: "strcnt sl = Suc ?n" "?n < MAXSTRINGS"
    using assms(1-3) by (auto simp: wf_list_def)
  have "scan ?hit ?sl1 [0..<?n] =
      Some (List.find (\<lambda>j. is_var name (strings ?sl1 ! j)) [0..<length (strings ?sl1)])"
    using scan_run [OF ps(4), of ?hit "is_var name" "[0..<?n]"] names_run(1) [OF assms(4) _ assms(5)]
      length_strings [OF ps(4)]
    by (simp add: atLeast0LessThan cstr_def)
  also have "\<dots> = Some None"
    using find_index(1) [of "is_var name" "strings ?sl1"] assms(6) unfolding ps(5) by simp
  finally have "scan ?hit ?sl [0..<?n] = Some None"
    using scan_strcnt [of ?hit ?n ?sl "[0..<?n]"] by simp
  moreover have "[0..<strcnt sl] = [0..<?n] @ [?n]"
    by (subst n(1)) simp
  ultimately have "scan ?hit ?sl [0..<strcnt sl] = None"
    using scan_append [of ?hit ?sl "[0..<?n]" "[?n]"] n ps(2,3) by (simp add: rd_def)
  then have "find_str (cstr name) ?sl = None"
    using assms(4) by (simp add: find_str_def cstr_simps)
  moreover have "\<not> wf_list ?sl"
  proof
    assume "wf_list ?sl"
    then have "take (Suc ?n) ps ! ?n = map Some (live ?sl) ! ?n" "?n < length (live ?sl)"
      using n(1) length_live [of ?sl] by (auto simp: wf_list_def)
    then show False
      using ps(2) by simp
  qed
  ultimately show ?thesis
    using ps(1) by auto
qed

theorem delete_strnum_breaks_list_witness:
  "\<exists>sl'. delete_strnum 0 sample_list = Some (0, sl') \<and> find_str (cstr ''x'') sl' = None"
proof -
  have "strcnt sample_list = 2" "\<not> is_var ''x'' ''a=1''"
    by (simp add: sample_list_def) code_simp
  then show ?thesis
    using delete_strnum_breaks_list [OF sample_list_facts(1), of 0 "''x''"]
    unfolding sample_list_facts(2) by auto
qed

end
