(* ===== verification/Environ.thy ===== *)
theory Environ
imports Stringlist Atob
begin

text \<open>Environment and argument variables: \<open>src/libsc/lib/getenv.c\<close> and the RAM-only
\<open>src/libsk/ml/env.c\<close>, over the string lists.

The state is the two string lists, whether \<open>environ\<close> points at the first one, and
the C globals that some variables mirror into.  The array that \<open>replace_str\<close> has
on the stack is \<open>stack_buf\<close>; its first contents is never read.\<close>

section \<open>Definitions\<close>

definition ESUCCESS :: int where "ESUCCESS = 0"
definition EACCES :: int where "EACCES = 2"

datatype gvar = V_Debug | V_Verbose | V_udpcksum

record env =
  environ_str :: string_list
  argv_str :: string_list
  environ_set :: bool
  gvars :: "gvar \<Rightarrow> u32"

definition stack_buf :: string where
  "stack_buf = replicate MAXRETNAME NUL"

definition default_env :: "(string \<times> string) list" where
  "default_env =
    [(''console'', ''d''),
     (''AutoLoad'', ''Yes''),
     (''OSLoadPartition'', ''dksc(0,1,0)''),
     (''SystemPartition'', ''dksc(0,1,8)''),
     (''OSLoader'', ''sash''),
     (''OSLoadFilename'', ''/unix.new''),
     (''bootfile'', ''dksc(0,1,0)/unix.new''),
     (''eaddr'', ''08:00:69:aa:bb:cc''),
     (''cpufreq'', ''200''),
     (''dbaud'', ''9600''),
     (''rbaud'', ''9600''),
     (''pagecolor'', ''67''),
     (''nogfxkbd'', ''1''),
     (''diskless'', ''0''),
     (''TimeZone'', ''PST8PDT''),
     (''volume'', ''80'')]"

definition SENV_READONLY :: u32 where "SENV_READONLY = 1"
definition VARIABLE :: u32 where "VARIABLE = 2"

record special =
  sp_name :: string
  sp_value :: "gvar option"
  sp_flags :: u32

definition special_tab :: "special list" where
  "special_tab =
    [\<lparr>sp_name = ''DEBUG'', sp_value = Some V_Debug, sp_flags = VARIABLE\<rparr>,
     \<lparr>sp_name = ''VERBOSE'', sp_value = Some V_Verbose, sp_flags = VARIABLE\<rparr>,
     \<lparr>sp_name = ''_udpcksum'', sp_value = Some V_udpcksum, sp_flags = VARIABLE\<rparr>,
     \<lparr>sp_name = ''gfx'', sp_value = None, sp_flags = SENV_READONLY\<rparr>,
     \<lparr>sp_name = ''cpufreq'', sp_value = None, sp_flags = SENV_READONLY\<rparr>,
     \<lparr>sp_name = ''eaddr'', sp_value = None, sp_flags = SENV_READONLY\<rparr>]"

subsection \<open>env.c\<close>

text \<open>The loop over \<open>special_tab\<close>: the code the function returns early, if it does.
A value is a null pointer or a string; \<open>unset\<close> is a null or empty one.\<close>

fun setenv_special ::
  "special list \<Rightarrow> string \<Rightarrow> string option \<Rightarrow> bool \<Rightarrow> int \<Rightarrow> env \<Rightarrow> (int option \<times> env) option" where
  "setenv_special [] name value unset override e = Some (None, e)"
| "setenv_special (sp # tab) name value unset override e = do {
     d \<leftarrow> strcasecmp name (cstr (sp_name sp));
     if d = 0 then
       (if override \<noteq> 1 \<and> and (sp_flags sp) SENV_READONLY \<noteq> 0 then Some (Some EACCES, e)
        else if and (sp_flags sp) VARIABLE \<noteq> 0 then do {
          g \<leftarrow> sp_value sp;
          if unset then Some (None, e\<lparr>gvars := (gvars e)(g := 0)\<rparr>)
          else do {
            (_, x, _) \<leftarrow> atob value;
            Some (None, e\<lparr>gvars := (gvars e)(g := x)\<rparr>) } }
        else Some (None, e))
     else setenv_special tab name value unset override e }"

definition setenv_at :: "string \<Rightarrow> string option \<Rightarrow> int \<Rightarrow> env \<Rightarrow> (int \<times> env) option" where
  "setenv_at name value override e = do {
     unset \<leftarrow> (case value of None \<Rightarrow> Some True | Some v \<Rightarrow> do { c \<leftarrow> rd v 0; Some (c = NUL) });
     (ret, e) \<leftarrow> setenv_special special_tab name value unset override e;
     (case ret of
        Some c \<Rightarrow> Some (c, e)
      | None \<Rightarrow> do {
          sl \<leftarrow> (if unset then delete_str name (environ_str e)
                else do { v \<leftarrow> value; replace_str stack_buf name v (environ_str e) });
          Some (ESUCCESS, e\<lparr>environ_str := sl\<rparr>) }) }"

definition setenv :: "string \<Rightarrow> string option \<Rightarrow> env \<Rightarrow> (int \<times> env) option" where
  "setenv name value e = setenv_at name value 0 e"

definition syssetenv :: "string \<Rightarrow> string option \<Rightarrow> env \<Rightarrow> (int \<times> env) option" where
  "syssetenv name value e = setenv_at name value 1 e"

fun set_defaults :: "(string \<times> string) list \<Rightarrow> env \<Rightarrow> env option" where
  "set_defaults [] e = Some e"
| "set_defaults ((n, v) # tab) e = do {
     e \<leftarrow> (if v \<noteq> [] then do { (_, e) \<leftarrow> syssetenv (cstr n) (Some (cstr v)) e; Some e } else Some e);
     set_defaults tab e }"

text \<open>\<open>init_consenv\<close>, which both call last, does nothing in this PROM.\<close>

definition init_env :: "env \<Rightarrow> env option" where
  "init_env e = do {
     sl \<leftarrow> init_str (environ_str e);
     e \<leftarrow> set_defaults default_env (e\<lparr>environ_str := sl\<rparr>);
     Some (e\<lparr>environ_set := True\<rparr>) }"

definition resetenv :: "env \<Rightarrow> (int \<times> env) option" where
  "resetenv e = do {
     sl \<leftarrow> init_str (environ_str e);
     e \<leftarrow> set_defaults default_env (e\<lparr>environ_str := sl\<rparr>);
     Some (0, e\<lparr>environ_set := True\<rparr>) }"

definition get_nvram_tab :: "string \<Rightarrow> int \<Rightarrow> string \<times> int" where
  "get_nvram_tab addr n = (addr, 0)"






definition printenv :: "string \<Rightarrow> env \<Rightarrow> string list option" where
  "printenv var e = do {
     cp \<leftarrow> find_str var (environ_str e);
     Some (case cp of Some s \<Rightarrow> [str_of s @ [CHR 0x0A]] | None \<Rightarrow> []) }"

fun printenv_list :: "string list \<Rightarrow> env \<Rightarrow> string list option" where
  "printenv_list [] e = Some []"
| "printenv_list (v # vs) e = do {
     out \<leftarrow> printenv v e; rest \<leftarrow> printenv_list vs e; Some (out @ rest) }"

fun print_all :: "string_list \<Rightarrow> nat list \<Rightarrow> string list option" where
  "print_all sl [] = Some []"
| "print_all sl (i # is) = do {
     p \<leftarrow> rd (strptrs sl) i;
     off \<leftarrow> p;
     rest \<leftarrow> print_all sl is;
     Some ((str_of (str_at sl off) @ [CHR 0x0A]) # rest) }"

definition printenv_cmd :: "int \<Rightarrow> string list \<Rightarrow> env \<Rightarrow> (int \<times> string list) option" where
  "printenv_cmd argc argv e = do {
     out \<leftarrow> (if argc = 1 then print_all (environ_str e) [0..<strcnt (environ_str e)]
            else printenv_list (take (nat (argc - 1)) (tl argv)) e);
     Some (0, out) }"

subsection \<open>getenv.c\<close>

fun nvmatch :: "string \<Rightarrow> string \<Rightarrow> string option option" where
  "nvmatch (a # s1) (b # s2) =
    (if tolower (schar a) = tolower (schar b)
     then if a = CHR ''='' \<or> a = NUL then Some (Some s2) else nvmatch s1 s2
     else if a = NUL \<and> b = CHR ''='' then Some (Some s2)
     else Some None)"
| "nvmatch _ _ = None"

fun getenv_loop :: "string \<Rightarrow> nat option list \<Rightarrow> string \<Rightarrow> string option option" where
  "getenv_loop name [] buf = None"
| "getenv_loop name (None # ps) buf = Some None"
| "getenv_loop name (Some off # ps) buf = do {
     v \<leftarrow> nvmatch name (drop off buf);
     (case v of Some s \<Rightarrow> Some (Some s) | None \<Rightarrow> getenv_loop name ps buf) }"

definition getenv :: "string \<Rightarrow> env \<Rightarrow> string option option" where
  "getenv name e =
    (if environ_set e then getenv_loop name (strptrs (environ_str e)) (strbuf (environ_str e))
     else Some None)"

definition initenv :: "string list option \<Rightarrow> env \<Rightarrow> env option" where
  "initenv envp e = do {
     sl \<leftarrow> copystrings envp (environ_str e);
     Some (e\<lparr>environ_str := sl, environ_set := True\<rparr>) }"

text \<open>The vector of \<open>initargv\<close> has \<open>ac\<close> entries, null ones among them; the new
count is the second result.\<close>

fun initargv_loop :: "nat \<Rightarrow> string option list \<Rightarrow> string_list \<Rightarrow> string_list option" where
  "initargv_loop 0 av sl = Some sl"
| "initargv_loop (Suc ac) av sl = do {
     a \<leftarrow> rd av 0;
     sl \<leftarrow> (case a of None \<Rightarrow> Some sl | Some s \<Rightarrow> do { (_, sl) \<leftarrow> new_str1 s sl; Some sl });
     initargv_loop ac (tl av) sl }"

definition initargv :: "nat \<Rightarrow> string option list \<Rightarrow> env \<Rightarrow> (env \<times> nat) option" where
  "initargv ac av e = do {
     sl \<leftarrow> init_str (argv_str e);
     sl \<leftarrow> initargv_loop ac av sl;
     Some (e\<lparr>argv_str := sl\<rparr>, strcnt sl) }"

fun getargv_loop :: "nat \<Rightarrow> string \<Rightarrow> nat option list \<Rightarrow> string \<Rightarrow> string option option" where
  "getargv_loop 0 name ps buf = Some None"
| "getargv_loop (Suc i) name ps buf =
    (case ps of
       [] \<Rightarrow> None
     | None # _ \<Rightarrow> getargv_loop i name ps buf
     | Some off # ps' \<Rightarrow> do {
         v \<leftarrow> nvmatch name (drop off buf);
         (case v of Some s \<Rightarrow> Some (Some s) | None \<Rightarrow> getargv_loop i name ps' buf) })"

definition getargv :: "string \<Rightarrow> env \<Rightarrow> string option option" where
  "getargv name e =
    getargv_loop (strcnt (argv_str e)) name (strptrs (argv_str e)) (strbuf (argv_str e))"

section \<open>Setting a variable against the abstract list\<close>

definition special_of :: "string \<Rightarrow> special option" where
  "special_of name = List.find (\<lambda>sp. fold_case name = fold_case (sp_name sp)) special_tab"

definition protected :: "string \<Rightarrow> bool" where
  "protected name \<longleftrightarrow> fold_case name \<in> set (map fold_case [''gfx'', ''cpufreq'', ''eaddr''])"

definition mirror_of :: "string \<Rightarrow> gvar option" where
  "mirror_of name =
    (if fold_case name = fold_case ''DEBUG'' then Some V_Debug
     else if fold_case name = fold_case ''VERBOSE'' then Some V_Verbose
     else if fold_case name = fold_case ''_udpcksum'' then Some V_udpcksum else None)"

definition number_of :: "string \<Rightarrow> u32" where
  "number_of value = (case atob (Some (cstr value)) of Some (_, x, _) \<Rightarrow> x | None \<Rightarrow> 0)"

definition mirrored :: "string \<Rightarrow> string \<Rightarrow> (gvar \<Rightarrow> u32) \<Rightarrow> gvar \<Rightarrow> u32" where
  "mirrored name value g =
    (case mirror_of name of
       None \<Rightarrow> g
     | Some v \<Rightarrow> g(v := if value = [] then 0 else number_of value))"

definition spec_setenv :: "string \<Rightarrow> string \<Rightarrow> string list \<Rightarrow> string list" where
  "spec_setenv name value xs =
    (if value = [] then spec_delete name xs else spec_replace name value xs)"

lemma atob_number: "nulfree value \<Longrightarrow> \<exists>s w. atob (Some (cstr value)) = Some (s, number_of value, w)"
  using atob_at_term [of "cstr value" "0x80000000 :: u32"]
  by (auto simp: number_of_def atob_def cstr_def)

lemma folds:
  "fold_case ''DEBUG'' = [100, 101, 98, 117, 103]"
  "fold_case ''VERBOSE'' = [118, 101, 114, 98, 111, 115, 101]"
  "fold_case ''_udpcksum'' = [95, 117, 100, 112, 99, 107, 115, 117, 109]"
  "fold_case ''gfx'' = [103, 102, 120]"
  "fold_case ''cpufreq'' = [99, 112, 117, 102, 114, 101, 113]"
  "fold_case ''eaddr'' = [101, 97, 100, 100, 114]"
  by (simp_all add: tolower_def isupper_iff to_lower_def schar_def)

lemma setenv_special_skip:
  "nulfree name \<Longrightarrow> nulfree (sp_name sp) \<Longrightarrow> fold_case name \<noteq> fold_case (sp_name sp) \<Longrightarrow>
   setenv_special (sp # tab) (cstr name) value u ov e = setenv_special tab (cstr name) value u ov e"
  using strcasecmp_term [of name "sp_name sp" "[]" "[]"] by (auto simp: cstr_def)

lemma setenv_special_hit:
  "nulfree name \<Longrightarrow> nulfree (sp_name sp) \<Longrightarrow> fold_case name = fold_case (sp_name sp) \<Longrightarrow>
   setenv_special (sp # tab) (cstr name) value u ov e =
     (if ov \<noteq> 1 \<and> and (sp_flags sp) SENV_READONLY \<noteq> 0 then Some (Some EACCES, e)
      else if and (sp_flags sp) VARIABLE \<noteq> 0 then do {
        g \<leftarrow> sp_value sp;
        if u then Some (None, e\<lparr>gvars := (gvars e)(g := 0)\<rparr>)
        else do {
          (_, x, _) \<leftarrow> atob value;
          Some (None, e\<lparr>gvars := (gvars e)(g := x)\<rparr>) } }
      else Some (None, e))"
  using strcasecmp_term [of name "sp_name sp" "[]" "[]"] by (auto simp: cstr_def)

lemma setenv_special_run:
  assumes "nulfree name" "nulfree value"
  shows "setenv_special special_tab (cstr name) (Some (cstr value)) (value = []) ov e =
    (if protected name \<and> ov \<noteq> 1 then Some (Some EACCES, e)
     else Some (None, e\<lparr>gvars := mirrored name value (gvars e)\<rparr>))"
proof -
  obtain s w where a: "atob (Some (cstr value)) = Some (s, number_of value, w)"
    using atob_number [OF assms(2)] by blast
  have e: "e\<lparr>gvars := gvars e\<rparr> = e"
    by simp
  note skip = setenv_special_skip [OF assms(1)] and hit = setenv_special_hit [OF assms(1)]
  consider "fold_case name = fold_case ''DEBUG''" | "fold_case name = fold_case ''VERBOSE''"
    | "fold_case name = fold_case ''_udpcksum''" | "fold_case name = fold_case ''gfx''"
    | "fold_case name = fold_case ''cpufreq''" | "fold_case name = fold_case ''eaddr''"
    | "fold_case name \<noteq> fold_case ''DEBUG''" "fold_case name \<noteq> fold_case ''VERBOSE''"
      "fold_case name \<noteq> fold_case ''_udpcksum''" "\<not> protected name"
    unfolding protected_def by fastforce
  then show ?thesis
    unfolding special_tab_def
    by cases (simp_all add: skip hit SENV_READONLY_def VARIABLE_def a e folds protected_def
        mirrored_def mirror_of_def setenv_special.simps(1) del: fold_case_simps setenv_special.simps(2))
qed

lemma setenv_at_spec:
  assumes wf: "wf_list (environ_str e)" and n: "nulfree name" "length name < 2 ^ 31" and v: "nulfree value"
  shows "if protected name \<and> ov \<noteq> 1
    then setenv_at (cstr name) (Some (cstr value)) ov e = Some (EACCES, e)
    else \<exists>sl. setenv_at (cstr name) (Some (cstr value)) ov e =
        Some (ESUCCESS, e\<lparr>gvars := mirrored name value (gvars e), environ_str := sl\<rparr>) \<and>
      wf_list sl \<and> strings sl = spec_setenv name value (strings (environ_str e))"
proof -
  have u: "rd (cstr value) 0 = Some c \<Longrightarrow> (c = NUL) = (value = [])" for c
    using v by (cases "value") (auto simp: cstr_def rd_def)
  obtain c where c: "rd (cstr value) 0 = Some c" "(c = NUL) = (value = [])"
    using u [of "cstr value ! 0"] by (auto simp: rd_def)
  let ?g = "mirrored name value (gvars e)"
  obtain sl1 where sl1: "delete_str (cstr name) (environ_str e) = Some sl1" "wf_list sl1"
    "strings sl1 = spec_delete name (strings (environ_str e))"
    using delete_old_spec [OF wf n, of None "[]"] by (auto simp: delete_str_def cstr_def)
  obtain sl2 where sl2: "replace_str stack_buf (cstr name) (cstr value) (environ_str e) = Some sl2"
    "wf_list sl2" "strings sl2 = spec_replace name value (strings (environ_str e))"
    using replace_str_spec [OF wf n v, of stack_buf "[]" "[]"]
    by (auto simp: cstr_def stack_buf_def)
  show ?thesis
    using setenv_special_run [OF n(1) v, of ov e] c sl1 sl2
    by (cases "value = []") (auto simp: setenv_at_def spec_setenv_def simp del: rd_Some)
qed

section \<open>Looking a variable up\<close>

lemma tolower_eq_sign: "tolower (schar c) = tolower (schar CHR ''='') \<longleftrightarrow> c = CHR ''=''"
proof -
  have "tolower (schar CHR ''='') = 61"
    by (simp add: tolower_def isupper_iff schar_def)
  moreover have "schar c = 61 \<longleftrightarrow> c = CHR ''=''"
    using schar_inj [of c "CHR ''=''"] by (simp add: schar_def [of "CHR ''=''"])
  moreover have "isupper (schar c) \<Longrightarrow> schar c \<noteq> 29"
    using schar_mod [of c] by (auto simp: isupper_iff simp del: schar_mod)
  ultimately show ?thesis
    by (auto simp: tolower_def to_lower_def isupper_iff schar_def [of "CHR ''A''"] schar_def [of "CHR ''a''"])
qed

lemma nvmatch_run:
  "nulfree name \<Longrightarrow> CHR ''='' \<notin> set name \<Longrightarrow> nulfree e \<Longrightarrow>
   nvmatch (name @ NUL # r) (e @ NUL # r') =
     Some (if is_var name e then Some (drop (length name + 1) e @ NUL # r')
           else if fold_case e = fold_case name then Some r' else None)"
proof (induction name arbitrary: e)
  case Nil
  then show ?case
    by (cases e) (auto simp: is_var_def tolower_0)
next
  case (Cons a name)
  show ?case
  proof (cases e)
    case Nil
    then show ?thesis
      using Cons.prems by (auto simp: is_var_def tolower_0)
  next
    case (Cons b e')
    then show ?thesis
      using Cons.IH [of e'] Cons.prems by (auto simp: is_var_def)
  qed
qed

text \<open>Every entry is a setting: it has an equals sign.\<close>

definition settings :: "string list \<Rightarrow> bool" where
  "settings xs \<longleftrightarrow> list_all (\<lambda>e. CHR ''='' \<in> set e) xs"

definition lookup :: "string \<Rightarrow> string list \<Rightarrow> string option" where
  "lookup name xs = map_option (drop (length name + 1)) (List.find (is_var name) xs)"

lemma fold_has_eq:
  "fold_case a = fold_case b \<Longrightarrow> CHR ''='' \<in> set a \<longleftrightarrow> CHR ''='' \<in> set b"
proof (induction a arbitrary: b)
  case (Cons x a)
  then obtain y b' where "b = y # b'" "tolower (schar x) = tolower (schar y)" "fold_case a = fold_case b'"
    by (cases b) auto
  with Cons.IH show ?case
    using tolower_eq_sign [of x] tolower_eq_sign [of y] by auto
qed (auto simp: fold_case_def)

lemma getenv_loop_run:
  assumes name: "nulfree name" "CHR ''='' \<notin> set name"
  shows "list_all (ended buf lim) offs \<Longrightarrow> settings (map (\<lambda>off. str_of (drop off buf)) offs) \<Longrightarrow>
    \<exists>p. getenv_loop (cstr name) (map Some offs @ None # rest) buf = Some p \<and>
      map_option str_of p = lookup name (map (\<lambda>off. str_of (drop off buf)) offs) \<and>
      (\<forall>m. p = Some m \<longrightarrow> NUL \<in> set m)"
proof (induction offs)
  case Nil
  then show ?case
    by (simp add: lookup_def)
next
  case (Cons off offs)
  let ?e = "str_of (drop off buf)"
  have "ended buf lim off"
    using Cons.prems(1) by simp
  then obtain r where r: "drop off buf = ?e @ NUL # r"
    by (rule ended_split)
  have "CHR ''='' \<in> set ?e"
    using Cons.prems(2) by (simp add: settings_def)
  then have ne: "fold_case ?e \<noteq> fold_case name"
    using fold_has_eq name(2) by blast
  have m: "nvmatch (cstr name) (drop off buf) =
      Some (if is_var name ?e then Some (drop (length name + 1) ?e @ NUL # r) else None)"
    using nvmatch_run [OF name, of ?e "[]" r] ne r by (simp add: cstr_def)
  have "nulfree (drop (length name + 1) ?e)"
    using str_of_nulfree [of "drop off buf"] by (auto dest: in_set_dropD simp del: str_of_nulfree)
  then show ?case
    using m Cons by (auto simp: lookup_def settings_def)
qed

lemma getenv_spec:
  assumes wf: "wf_list (environ_str e)" and set: "environ_set e" and st: "settings (strings (environ_str e))"
    and name: "nulfree name" "CHR ''='' \<notin> set name"
  shows "\<exists>p. getenv (cstr name) e = Some p \<and>
    map_option str_of p = lookup name (strings (environ_str e)) \<and>
    (\<forall>m. p = Some m \<longrightarrow> NUL \<in> set m)"
proof -
  obtain rest where "strptrs (environ_str e) = map Some (live (environ_str e)) @ None # rest"
    using wf_ptrs [OF wf] by blast
  then show ?thesis
    using getenv_loop_run [OF name, of "strbuf (environ_str e)" "strp (environ_str e)" "live (environ_str e)" rest]
      wf st set
    by (simp add: getenv_def wf_list_def strings_def str_at_def)
qed

section \<open>Settings with one entry per name\<close>

definition var_key :: "string \<Rightarrow> int list" where
  "var_key e = fold_case (takeWhile (\<lambda>c. c \<noteq> CHR ''='') e)"

definition one_each :: "string list \<Rightarrow> bool" where
  "one_each xs \<longleftrightarrow> settings xs \<and> distinct (map var_key xs)"

definition plain :: "string \<Rightarrow> bool" where
  "plain n \<longleftrightarrow> nulfree n \<and> CHR ''='' \<notin> set n \<and> length n < 2 ^ 31"

lemma is_var_key:
  assumes "CHR ''='' \<notin> set n" "CHR ''='' \<in> set e"
  shows "is_var n e \<longleftrightarrow> var_key e = fold_case n"
  using assms
proof (induction n arbitrary: e)
  case Nil
  then show ?case
    by (cases e) (auto simp: is_var_def var_key_def)
next
  case (Cons a n)
  show ?case
  proof (cases e)
    case (Cons b e')
    show ?thesis
    proof (cases "b = CHR ''=''")
      case True
      then have "tolower (schar a) \<noteq> tolower (schar b)"
        using Cons.prems(1) tolower_eq_sign [of a] by auto
      then show ?thesis
        using True Cons by (auto simp: is_var_def var_key_def)
    next
      case False
      then have "is_var n e' \<longleftrightarrow> var_key e' = fold_case n"
        using Cons.IH [of e'] Cons.prems Cons by auto
      then show ?thesis
        using False Cons by (auto simp: is_var_def var_key_def)
    qed
  qed (use Cons.prems in simp)
qed

lemma find_key:
  assumes "CHR ''='' \<notin> set n" "settings xs"
  shows "List.find (is_var n) xs = List.find (\<lambda>e. var_key e = fold_case n) xs"
  using assms(2)
  by (induction xs) (auto simp: settings_def is_var_key [OF assms(1)])

lemma spec_delete_filter:
  assumes "CHR ''='' \<notin> set n" "one_each xs"
  shows "spec_delete n xs = filter (\<lambda>e. var_key e \<noteq> fold_case n) xs"
  using assms(2)
proof (induction xs)
  case (Cons e xs)
  have "settings (e # xs)" "settings xs" "one_each xs"
    using Cons.prems by (auto simp: one_each_def settings_def)
  then have k: "is_var n e \<longleftrightarrow> var_key e = fold_case n"
    using is_var_key [OF assms(1)] by (simp add: settings_def)
  show ?case
  proof (cases "var_key e = fold_case n")
    case True
    then have "filter (\<lambda>e. var_key e \<noteq> fold_case n) xs = xs"
      using Cons.prems by (auto simp: one_each_def image_iff filter_id_conv)
    then show ?thesis
      using True k by (simp add: spec_delete_def)
  next
    case False
    then show ?thesis
      using k Cons.IH \<open>one_each xs\<close> by (simp add: spec_delete_def)
  qed
qed (simp add: spec_delete_def)

lemma one_each_filter: "one_each xs \<Longrightarrow> one_each (filter P xs)"
  by (auto simp: one_each_def settings_def list_all_iff distinct_map inj_on_def)

lemma old_name_fold:
  assumes "plain n"
  shows "fold_case (old_name n xs) = fold_case n" "CHR ''='' \<notin> set (old_name n xs)"
    "length (old_name n xs) = length n"
proof -
  show *: "fold_case (old_name n xs) = fold_case n"
    by (auto simp: old_name_def find_Some_iff is_var_def split: option.split)
  show "CHR ''='' \<notin> set (old_name n xs)"
    using fold_has_eq [OF *] assms by (simp add: plain_def)
  show "length (old_name n xs) = length n"
    using arg_cong [OF *, of length] by simp
qed

lemma new_setting:
  assumes "plain n"
  shows "var_key (old_name n xs @ ''='' @ v) = fold_case n"
    "CHR ''='' \<in> set (old_name n xs @ ''='' @ v)"
    "drop (length n + 1) (old_name n xs @ ''='' @ v) = v"
proof -
  note o = old_name_fold [OF assms, of xs]
  have "takeWhile (\<lambda>c. c \<noteq> CHR ''='') (old_name n xs) = old_name n xs"
    using o(2) by (auto simp: takeWhile_eq_all_conv)
  then show "var_key (old_name n xs @ ''='' @ v) = fold_case n"
    using o(1) by (simp add: var_key_def takeWhile_tail)
  show "drop (length n + 1) (old_name n xs @ ''='' @ v) = v"
    using o(3) by simp
qed simp

definition accepted :: "string list \<Rightarrow> string \<Rightarrow> string \<Rightarrow> bool" where
  "accepted xs n v \<longleftrightarrow> holds (spec_delete n xs) (old_name n xs @ ''='' @ v)"

lemma replace_accepted:
  assumes "plain n" "one_each xs" "accepted xs n v"
  shows "spec_replace n v xs = filter (\<lambda>e. var_key e \<noteq> fold_case n) xs @ [old_name n xs @ ''='' @ v]"
    "one_each (spec_replace n v xs)"
proof -
  have d: "spec_delete n xs = filter (\<lambda>e. var_key e \<noteq> fold_case n) xs"
    using assms by (intro spec_delete_filter) (auto simp: plain_def)
  show r: "spec_replace n v xs = filter (\<lambda>e. var_key e \<noteq> fold_case n) xs @ [old_name n xs @ ''='' @ v]"
    using assms(3) d by (simp add: spec_replace_def spec_add_def accepted_def)
  show "one_each (spec_replace n v xs)"
    using one_each_filter [OF assms(2)] new_setting [OF assms(1), of xs v]
    unfolding r by (auto simp: one_each_def settings_def)
qed

lemma find_filter: "(\<And>e. P e \<Longrightarrow> Q e) \<Longrightarrow> List.find P (filter Q xs) = List.find P xs"
  by (induction xs) auto

lemma find_append_None: "(\<And>e. e \<in> set xs \<Longrightarrow> \<not> P e) \<Longrightarrow> List.find P (xs @ ys) = List.find P ys"
  by (induction xs) auto

lemma lookup_replace:
  assumes "plain n" "one_each xs" "accepted xs n v" "plain m"
  shows "lookup m (spec_replace n v xs) = (if fold_case m = fold_case n then Some v else lookup m xs)"
proof -
  let ?f = "filter (\<lambda>e. var_key e \<noteq> fold_case n) xs" and ?e = "old_name n xs @ ''='' @ v"
  have m: "CHR ''='' \<notin> set m"
    using assms(4) by (simp add: plain_def)
  have st: "settings xs" "settings (spec_replace n v xs)"
    using assms(2) replace_accepted(2) [OF assms(1-3)] by (auto simp: one_each_def)
  have l: "lookup m ys = map_option (drop (length m + 1)) (List.find (\<lambda>e. var_key e = fold_case m) ys)"
    if "settings ys" for ys
    using find_key [OF m that] by (simp add: lookup_def)
  show ?thesis
  proof (cases "fold_case m = fold_case n")
    case True
    moreover have "length m = length n"
      using arg_cong [OF True, of length] by simp
    moreover have "List.find (\<lambda>e. var_key e = fold_case m) (?f @ [?e]) = Some ?e"
      using True new_setting(1) [OF assms(1), of xs v] by (subst find_append_None) auto
    ultimately show ?thesis
      using l [OF st(2)] new_setting(3) [OF assms(1), of xs v]
      unfolding replace_accepted(1) [OF assms(1-3)] by simp
  next
    case False
    have "List.find (\<lambda>e. var_key e = fold_case m) (ys @ [?e]) = List.find (\<lambda>e. var_key e = fold_case m) ys" for ys
      using False new_setting(1) [OF assms(1), of xs v] by (induction ys) auto
    then have "List.find (\<lambda>e. var_key e = fold_case m) (?f @ [?e]) = List.find (\<lambda>e. var_key e = fold_case m) xs"
      using False find_filter [of "\<lambda>e. var_key e = fold_case m" "\<lambda>e. var_key e \<noteq> fold_case n" xs] by simp
    then show ?thesis
      using False l [OF st(2)] l [OF st(1)] unfolding replace_accepted(1) [OF assms(1-3)] by simp
  qed
qed

lemma lookup_delete:
  assumes "plain n" "one_each xs" "plain m"
  shows "lookup m (spec_delete n xs) = (if fold_case m = fold_case n then None else lookup m xs)"
    "one_each (spec_delete n xs)"
proof -
  have n: "CHR ''='' \<notin> set n" and m: "CHR ''='' \<notin> set m"
    using assms by (auto simp: plain_def)
  show o: "one_each (spec_delete n xs)"
    unfolding spec_delete_filter [OF n assms(2)] by (rule one_each_filter [OF assms(2)])
  have st: "settings xs" "settings (spec_delete n xs)"
    using assms(2) o by (auto simp: one_each_def)
  show "lookup m (spec_delete n xs) = (if fold_case m = fold_case n then None else lookup m xs)"
    using find_filter [of "\<lambda>e. var_key e = fold_case m" "\<lambda>e. var_key e \<noteq> fold_case n" xs]
    unfolding lookup_def find_key [OF m st(1)] find_key [OF m st(2)]
    unfolding spec_delete_filter [OF n assms(2)] by (auto simp: find_None_iff)
qed

section \<open>The environment as a store of variables\<close>

text \<open>What the clients of the environment rely on.\<close>

locale env_store =
  fixes inv :: "'e \<Rightarrow> bool"
    and ok_name :: "string \<Rightarrow> bool"
    and same :: "string \<Rightarrow> string \<Rightarrow> bool"
    and takes :: "'e \<Rightarrow> string \<Rightarrow> string \<Rightarrow> bool"
    and put :: "'e \<Rightarrow> string \<Rightarrow> string \<Rightarrow> 'e option"
    and look :: "'e \<Rightarrow> string \<Rightarrow> string option"
  assumes put_takes: "inv e \<Longrightarrow> ok_name n \<Longrightarrow> takes e n v \<Longrightarrow> \<exists>e'. put e n v = Some e' \<and> inv e'"
    and look_put: "inv e \<Longrightarrow> ok_name n \<Longrightarrow> takes e n v \<Longrightarrow> put e n v = Some e' \<Longrightarrow> ok_name m \<Longrightarrow>
      look e' m = (if same m n then Some v else look e m)"
begin

lemma look_put_put:
  assumes "inv e" "ok_name n" "takes e n v" "put e n v = Some e1" "takes e1 n w" "put e1 n w = Some e2"
    "ok_name m"
  shows "look e2 m = (if same m n then Some w else look e m)"
proof -
  have "inv e1"
    using put_takes [OF assms(1-3)] assms(4) by auto
  then show ?thesis
    using look_put assms by simp
qed

lemma look_put_commute:
  assumes "inv e" "ok_name n" "ok_name k" "\<not> same n k" "ok_name m" "same m n \<Longrightarrow> \<not> same m k"
    and "takes e n v" "put e n v = Some e1" "takes e1 k w" "put e1 k w = Some e2"
    and "takes e k w" "put e k w = Some f1" "takes f1 n v" "put f1 n v = Some f2"
  shows "look e2 m = look f2 m"
proof -
  have "inv e1" "inv f1"
    using put_takes [OF assms(1,2,7)] put_takes [OF assms(1,3,11)] assms(8,12) by auto
  then show ?thesis
    using look_put [OF assms(1,2,7,8,5)] look_put [OF assms(1,3,11,12,5)]
      look_put [OF \<open>inv e1\<close> assms(3,9,10,5)] look_put [OF \<open>inv f1\<close> assms(2,13,14,5)] assms(6)
    by auto
qed

end

definition env_ok :: "env \<Rightarrow> bool" where
  "env_ok e \<longleftrightarrow> wf_list (environ_str e) \<and> environ_set e \<and> one_each (strings (environ_str e))"

definition env_put :: "env \<Rightarrow> string \<Rightarrow> string \<Rightarrow> env option" where
  "env_put e n v = map_option snd (syssetenv (cstr n) (Some (cstr v)) e)"

definition env_look :: "env \<Rightarrow> string \<Rightarrow> string option" where
  "env_look e n = (case getenv (cstr n) e of Some p \<Rightarrow> map_option str_of p | None \<Rightarrow> None)"

definition env_takes :: "env \<Rightarrow> string \<Rightarrow> string \<Rightarrow> bool" where
  "env_takes e n v \<longleftrightarrow> v \<noteq> [] \<and> nulfree v \<and> accepted (strings (environ_str e)) n v"

lemma env_look_lookup:
  "env_ok e \<Longrightarrow> plain n \<Longrightarrow> env_look e n = lookup n (strings (environ_str e))"
  using getenv_spec [of e n] by (auto simp: env_ok_def env_look_def plain_def one_each_def)

lemma setenv_store:
  assumes "env_ok e" "plain n" "env_takes e n v" "ov = 1 \<or> \<not> protected n"
  shows "\<exists>e'. setenv_at (cstr n) (Some (cstr v)) ov e = Some (ESUCCESS, e') \<and> env_ok e' \<and>
    (\<forall>m. plain m \<longrightarrow> env_look e' m = (if fold_case m = fold_case n then Some v else env_look e m))"
proof -
  have w: "wf_list (environ_str e)" "nulfree n" "length n < 2 ^ 31" "nulfree v" "v \<noteq> []"
    "one_each (strings (environ_str e))" "accepted (strings (environ_str e)) n v"
    using assms by (auto simp: env_ok_def plain_def env_takes_def)
  obtain sl where sl: "setenv_at (cstr n) (Some (cstr v)) ov e =
      Some (ESUCCESS, e\<lparr>gvars := mirrored n v (gvars e), environ_str := sl\<rparr>)"
    "wf_list sl" "strings sl = spec_replace n v (strings (environ_str e))"
    using setenv_at_spec [OF w(1-4), of ov] assms(4) w(5) by (auto simp: spec_setenv_def)
  let ?e = "e\<lparr>gvars := mirrored n v (gvars e), environ_str := sl\<rparr>"
  have "env_ok ?e"
    using assms(1) sl replace_accepted(2) [OF assms(2) w(6,7)] by (simp add: env_ok_def)
  moreover have "env_look ?e m = (if fold_case m = fold_case n then Some v else env_look e m)"
    if "plain m" for m
    using env_look_lookup [OF calculation that] env_look_lookup [OF assms(1) that]
      lookup_replace [OF assms(2) w(6,7) that] sl(3) by simp
  ultimately show ?thesis
    using sl(1) by blast
qed

interpretation environment: env_store env_ok plain "\<lambda>m n. fold_case m = fold_case n" env_takes env_put env_look
proof (unfold_locales, goal_cases)
  case (1 e n v)
  then show ?case
    using setenv_store [of e n v 1] by (auto simp: env_put_def syssetenv_def)
next
  case (2 e n v e' m)
  then show ?case
    using setenv_store [of e n v 1] by (auto simp: env_put_def syssetenv_def)
qed

section \<open>The defaults\<close>

lemma set_defaults_run:
  "wf_list (environ_str e) \<Longrightarrow>
   list_all (\<lambda>(n, v). nulfree n \<and> length n < 80 \<and> nulfree v) tab \<Longrightarrow>
   \<exists>e'. set_defaults tab e = Some e' \<and> wf_list (environ_str e') \<and> argv_str e' = argv_str e \<and>
     strings (environ_str e') =
       fold (\<lambda>(n, v) xs. if v \<noteq> [] then spec_setenv n v xs else xs) tab (strings (environ_str e))"
proof (induction tab arbitrary: e)
  case (Cons nv tab)
  obtain n v where nv: "nv = (n, v)"
    by fastforce
  then have p: "nulfree n" "length n < 2 ^ 31" "nulfree v"
    using Cons.prems(2) by auto
  obtain sl where sl: "syssetenv (cstr n) (Some (cstr v)) e =
      Some (ESUCCESS, e\<lparr>gvars := mirrored n v (gvars e), environ_str := sl\<rparr>)"
    "wf_list sl" "strings sl = spec_setenv n v (strings (environ_str e))"
    using setenv_at_spec [OF Cons.prems(1) p, of 1] by (auto simp: syssetenv_def)
  let ?e = "if v = [] then e else e\<lparr>gvars := mirrored n v (gvars e), environ_str := sl\<rparr>"
  have "wf_list (environ_str ?e)" "argv_str ?e = argv_str e"
    using Cons.prems(1) sl(2) by auto
  then obtain e' where "set_defaults tab ?e = Some e'" "wf_list (environ_str e')" "argv_str e' = argv_str e"
    "strings (environ_str e') =
      fold (\<lambda>(n, v) xs. if v \<noteq> [] then spec_setenv n v xs else xs) tab (strings (environ_str ?e))"
    using Cons.IH [of ?e] Cons.prems(2) by auto
  then show ?case
    using sl by (auto simp: nv split: if_splits)
qed simp

lemma find_absent:
  assumes "CHR ''='' \<notin> set n" "settings xs" "fold_case n \<notin> set (map var_key xs)"
  shows "List.find (is_var n) xs = None"
  using assms(3) unfolding find_key [OF assms(1,2)] by (auto simp: find_None_iff image_iff)

lemma fold_defaults:
  assumes "list_all (\<lambda>(n, v). plain n \<and> v \<noteq> []) tab"
    and "distinct (map (\<lambda>(n, v). fold_case n) tab)"
    and "one_each xs" "set (map var_key xs) \<inter> set (map (\<lambda>(n, v). fold_case n) tab) = {}"
    and "length xs + length tab < MAXSTRINGS"
    and "bytes (xs @ map (\<lambda>(n, v). n @ ''='' @ v) tab) < STRINGBYTES"
  shows "fold (\<lambda>(n, v) xs. if v \<noteq> [] then spec_setenv n v xs else xs) tab xs =
      xs @ map (\<lambda>(n, v). n @ ''='' @ v) tab \<and>
    one_each (xs @ map (\<lambda>(n, v). n @ ''='' @ v) tab)"
  using assms
proof (induction tab arbitrary: xs)
  case (Cons nv tab)
  obtain n v where nv: "nv = (n, v)"
    by fastforce
  have p: "plain n" "v \<noteq> []" "CHR ''='' \<notin> set n"
    using Cons.prems(1) nv by (auto simp: plain_def)
  have ab: "List.find (is_var n) xs = None"
    using Cons.prems(3,4) nv by (intro find_absent p(3)) (auto simp: one_each_def)
  have o: "old_name n xs = n" "spec_delete n xs = xs"
    using ab by (simp_all add: old_name_def spec_delete_absent)
  let ?xs = "xs @ [n @ ''='' @ v]"
  have "holds xs (n @ ''='' @ v)"
    using Cons.prems(5,6) nv by (simp add: holds_def)
  then have r: "spec_setenv n v xs = ?xs"
    using p(2) o by (simp add: spec_setenv_def spec_replace_def spec_add_def)
  have key: "var_key (n @ ''='' @ v) = fold_case n" "CHR ''='' \<in> set (n @ ''='' @ v)"
    using new_setting(1) [OF p(1), of xs v] o by auto
  have "one_each ?xs"
    using Cons.prems(3,4) key nv by (auto simp: one_each_def settings_def)
  moreover have "set (map var_key ?xs) \<inter> set (map (\<lambda>(n, v). fold_case n) tab) = {}"
    using Cons.prems(2,4) key nv by auto
  ultimately show ?case
    using Cons.IH [of ?xs] Cons.prems nv r p by simp
qed simp

lemma default_env_facts:
  "list_all (\<lambda>(n, v). plain n \<and> v \<noteq> []) default_env"
  "distinct (map (\<lambda>(n, v). fold_case n) default_env)"
  "bytes (map (\<lambda>(n, v). n @ ''='' @ v) default_env) < STRINGBYTES"
  "length default_env < MAXSTRINGS"
  "list_all (\<lambda>(n, v). nulfree n \<and> length n < 80 \<and> nulfree v) default_env"
proof -
  show "distinct (map (\<lambda>(n, v). fold_case n) default_env)"
    by code_simp
qed (simp_all add: default_env_def plain_def STRINGBYTES_def MAXSTRINGS_def)


lemma init_env_run:
  assumes "wf_list (environ_str e)"
  shows "\<exists>e'. init_env e = Some e' \<and> resetenv e = Some (0, e') \<and> env_ok e' \<and>
    strings (environ_str e') = map (\<lambda>(n, v). n @ ''='' @ v) default_env"
proof -
  obtain sl where sl: "init_str (environ_str e) = Some sl" "wf_list sl" "strings sl = []"
    using init_str_wf [of "environ_str e"] assms by (auto simp: wf_list_def)
  let ?e = "e\<lparr>environ_str := sl\<rparr>"
  obtain e' where e': "set_defaults default_env ?e = Some e'" "wf_list (environ_str e')"
    "strings (environ_str e') =
      fold (\<lambda>(n, v) xs. if v \<noteq> [] then spec_setenv n v xs else xs) default_env []"
    using set_defaults_run [of ?e default_env] sl default_env_facts(5) by auto
  have "one_each []"
    by (simp add: one_each_def settings_def)
  then have "strings (environ_str e') = map (\<lambda>(n, v). n @ ''='' @ v) default_env \<and>
      one_each (strings (environ_str e'))"
    using fold_defaults [OF default_env_facts(1,2), of "[]"] default_env_facts(3,4) e'(3) by simp
  then show ?thesis
    using sl(1) e'(1,2) by (auto simp: init_env_def resetenv_def env_ok_def)
qed

section \<open>Properties\<close>

text \<open>\<open>init_env\<close> and \<open>resetenv\<close> leave exactly the sixteen default settings, in the
order of the table, in a well-formed list with one setting per name, whatever the
list held before.\<close>

theorem init_env_defaults:
  assumes "wf_list (environ_str e)"
  shows "\<exists>e'. init_env e = Some e' \<and> resetenv e = Some (0, e') \<and> env_ok e' \<and>
    strings (environ_str e') = map (\<lambda>(n, v). n @ ''='' @ v) default_env"
  by (rule init_env_run [OF assms])

definition blank_env :: env where
  "blank_env = \<lparr>environ_str = stack_list, argv_str = stack_list, environ_set = False, gvars = (\<lambda>_. 0)\<rparr>"

lemma wf_blank: "wf_list (environ_str blank_env)"
  by (simp add: blank_env_def stack_list_def wf_list_def live_def strings_def
      MAXSTRINGS_def STRINGBYTES_def)

theorem init_env_defaults_witness:
  "\<exists>e'. init_env blank_env = Some e' \<and> env_ok e'"
  using init_env_defaults [OF wf_blank] by blast

text \<open>A sample environment: one setting.\<close>

definition sample_env :: env where
  "sample_env = \<lparr>environ_str = \<lparr>strptrs = Some 0 # replicate 63 None,
      strbuf = ''volume=80'' @ NUL # replicate 1270 NUL, strp = 10, strcnt = 1\<rparr>,
    argv_str = stack_list, environ_set = True, gvars = (\<lambda>_. 0)\<rparr>"

lemma sample_env_facts:
  "env_ok sample_env" "strings (environ_str sample_env) = [''volume=80'']"
proof -
  show s: "strings (environ_str sample_env) = [''volume=80'']"
    by (simp add: strings_def live_def str_at_def sample_env_def str_of_def)
  then have "bytes (strings (environ_str sample_env)) = 10"
    by simp
  then have "wf_list (environ_str sample_env)"
    by (simp add: wf_list_def MAXSTRINGS_def STRINGBYTES_def)
       (simp add: sample_env_def live_def ended_def)
  then show "env_ok sample_env"
    unfolding env_ok_def s by (simp add: sample_env_def one_each_def settings_def)
qed

lemma sample_takes: "env_takes sample_env ''Volume'' ''7''" "env_takes sample_env ''x'' ''7''"
proof -
  have d: "spec_delete ''Volume'' [''volume=80''] = []" "spec_delete ''x'' [''volume=80''] = [''volume=80'']"
    "old_name ''Volume'' [''volume=80''] = ''volume''" "old_name ''x'' [''volume=80''] = ''x''"
    by code_simp+
  show "env_takes sample_env ''Volume'' ''7''" "env_takes sample_env ''x'' ''7''"
    unfolding env_takes_def accepted_def sample_env_facts(2) d
    by (simp_all add: holds_def MAXSTRINGS_def STRINGBYTES_def)
qed

text \<open>after a system \<open>setenv\<close> that finds room, \<open>getenv\<close> of the name in any
capitalisation gives the value and every other name keeps its own; of two in a
row the second counts.\<close>

theorem getenv_after_setenv:
  assumes "env_ok e" "plain n" "env_takes e n v" "env_put e n v = Some e1"
    "env_takes e1 n w" "env_put e1 n w = Some e2" "plain m"
  shows "env_look e1 m = (if fold_case m = fold_case n then Some v else env_look e m) \<and>
    env_look e2 m = (if fold_case m = fold_case n then Some w else env_look e m)"
  using environment.look_put [OF assms(1-4,7)] environment.look_put_put [OF assms(1-6,7)] by simp

text \<open>C14: \<open>setenv\<close> of a name that is not protected, with a value that fits, succeeds,
and \<open>getenv\<close> then finds the value under the name in any capitalisation and every
other variable as before.\<close>

theorem setenv_then_getenv:
  assumes "env_ok e" "plain n" "env_takes e n v" "\<not> protected n"
  shows "\<exists>e'. setenv (cstr n) (Some (cstr v)) e = Some (ESUCCESS, e') \<and> env_ok e' \<and>
    (\<forall>m. plain m \<longrightarrow> env_look e' m = (if fold_case m = fold_case n then Some v else env_look e m))"
  using setenv_store [OF assms(1-3), of 0] assms(4) by (simp add: setenv_def)

theorem setenv_then_getenv_witness:
  "\<exists>e'. setenv (cstr ''Volume'') (Some (cstr ''7'')) sample_env = Some (ESUCCESS, e') \<and>
    env_look e' ''VOLUME'' = Some ''7''"
proof -
  have "\<not> protected ''Volume''" "fold_case ''VOLUME'' = fold_case ''Volume''"
    by code_simp+
  then show ?thesis
    using setenv_then_getenv [OF sample_env_facts(1) _ sample_takes(1)] by (auto simp: plain_def)
qed

lemma sample_second:
  obtains e1 e2 where "env_put sample_env ''x'' ''7'' = Some e1" "env_takes e1 ''x'' ''8''"
    "env_put e1 ''x'' ''8'' = Some e2"
proof -
  have p: "plain ''x''"
    by (simp add: plain_def)
  obtain sl where sl: "setenv_at (cstr ''x'') (Some (cstr ''7'')) 1 sample_env =
      Some (ESUCCESS, sample_env\<lparr>gvars := mirrored ''x'' ''7'' (gvars sample_env), environ_str := sl\<rparr>)"
    "strings sl = spec_setenv ''x'' ''7'' [''volume=80'']"
    using setenv_at_spec [of sample_env "''x''" "''7''" 1] sample_env_facts
    by (auto simp: env_ok_def)
  define e1 where "e1 = sample_env\<lparr>gvars := mirrored ''x'' ''7'' (gvars sample_env), environ_str := sl\<rparr>"
  have "spec_delete ''x'' [''volume=80''] = [''volume=80'']" "old_name ''x'' [''volume=80''] = ''x''"
    by code_simp+
  then have s: "strings (environ_str e1) = [''volume=80'', ''x=7'']"
    using sl(2) by (simp add: e1_def spec_setenv_def spec_replace_def spec_add_def holds_def
        MAXSTRINGS_def STRINGBYTES_def)
  have "spec_delete ''x'' [''volume=80'', ''x=7''] = [''volume=80'']"
    "old_name ''x'' [''volume=80'', ''x=7''] = ''x''"
    by code_simp+
  then have t: "env_takes e1 ''x'' ''8''"
    unfolding env_takes_def accepted_def s by (simp add: holds_def MAXSTRINGS_def STRINGBYTES_def)
  have put: "env_put sample_env ''x'' ''7'' = Some e1"
    using sl(1) by (simp add: env_put_def syssetenv_def e1_def)
  then have "env_ok e1"
    using environment.put_takes [OF sample_env_facts(1) p sample_takes(2)] by simp
  then obtain e2 where "env_put e1 ''x'' ''8'' = Some e2"
    using environment.put_takes [OF _ p t] by blast
  with put t that show thesis
    by blast
qed

theorem getenv_after_setenv_witness:
  "\<exists>e1 e2. env_put sample_env ''x'' ''7'' = Some e1 \<and> env_put e1 ''x'' ''8'' = Some e2 \<and>
    env_look e2 ''x'' = Some ''8''"
proof -
  obtain e1 e2 where e: "env_put sample_env ''x'' ''7'' = Some e1" "env_takes e1 ''x'' ''8''"
    "env_put e1 ''x'' ''8'' = Some e2"
    by (rule sample_second)
  have "plain ''x''"
    by (simp add: plain_def)
  from getenv_after_setenv [OF sample_env_facts(1) this sample_takes(2) e this] e show ?thesis
    by auto
qed



text \<open>\<open>setenv\<close> of a value that does not fit any more reports success, and the
variable is gone, its old setting included.\<close>

theorem setenv_loses_variable:
  assumes "env_ok e" "plain n" "\<not> protected n" "v \<noteq> []" "nulfree v"
    "\<not> accepted (strings (environ_str e)) n v"
  shows "\<exists>e'. setenv (cstr n) (Some (cstr v)) e = Some (ESUCCESS, e') \<and> env_ok e' \<and> env_look e' n = None"
proof -
  have w: "wf_list (environ_str e)" "nulfree n" "length n < 2 ^ 31" "one_each (strings (environ_str e))"
    using assms by (auto simp: env_ok_def plain_def)
  have sp: "spec_setenv n v (strings (environ_str e)) = spec_delete n (strings (environ_str e))"
    using assms(4,6) by (simp add: spec_setenv_def spec_replace_def spec_add_def accepted_def)
  obtain sl where sl: "setenv (cstr n) (Some (cstr v)) e =
      Some (ESUCCESS, e\<lparr>gvars := mirrored n v (gvars e), environ_str := sl\<rparr>)"
    "wf_list sl" "strings sl = spec_delete n (strings (environ_str e))"
    using setenv_at_spec [OF w(1-3) assms(5), of 0] assms(3) unfolding sp by (auto simp: setenv_def)
  let ?e = "e\<lparr>gvars := mirrored n v (gvars e), environ_str := sl\<rparr>"
  have "env_ok ?e"
    using assms(1) sl lookup_delete(2) [OF assms(2) w(4) assms(2)] by (simp add: env_ok_def)
  then show ?thesis
    using sl lookup_delete(1) [OF assms(2) w(4) assms(2)] env_look_lookup [OF _ assms(2), of ?e] by auto
qed

lemma long_value_refused: "\<not> accepted [''volume=80''] ''volume'' (replicate 1280 CHR ''9'')"
  by (simp add: accepted_def holds_def STRINGBYTES_def MAXSTRINGS_def)

theorem setenv_loses_variable_witness:
  "\<exists>e'. setenv (cstr ''volume'') (Some (cstr (replicate 1280 CHR ''9''))) sample_env = Some (ESUCCESS, e') \<and>
    env_look e' ''volume'' = None"
proof -
  have "\<not> protected ''volume''"
    by code_simp
  then show ?thesis
    using setenv_loses_variable [OF sample_env_facts(1), of "''volume''" "replicate 1280 CHR ''9''"]
      long_value_refused
    unfolding sample_env_facts(2) by (auto simp: plain_def)
qed

text \<open>\<open>nvmatch\<close> on a name and an entry with no equals sign that spells the same
name returns the pointer behind the terminator of the entry, so \<open>getargv\<close> of a bare
argument gives whatever follows it in the byte array.\<close>

theorem nvmatch_past_terminator:
  assumes "plain n" "nulfree a" "fold_case a = fold_case n"
  shows "nvmatch (cstr n) (a @ NUL # r) = Some (Some r)"
proof -
  have "CHR ''='' \<notin> set a"
    using fold_has_eq [OF assms(3)] assms(1) by (simp add: plain_def)
  moreover have "length a = length n"
    using arg_cong [OF assms(3), of length] by simp
  ultimately show ?thesis
    using nvmatch_run [of n a "[]" r] assms by (auto simp: plain_def cstr_def is_var_def)
qed

theorem nvmatch_past_terminator_witness:
  "nvmatch (cstr ''initstate'') (''INITSTATE'' @ NUL # cstr ''next'') = Some (Some (cstr ''next''))"
proof -
  have "fold_case ''INITSTATE'' = fold_case ''initstate''"
    by code_simp
  then show ?thesis
    using nvmatch_past_terminator [of "''initstate''" "''INITSTATE''" "cstr ''next''"]
    by (simp add: plain_def)
qed

end
