(* ===== verification/Malloc.thy ===== *)
theory Malloc
imports Prelude "HOL-Library.Code_Target_Numeral"
begin

text \<open>The storage allocator: \<open>src/libsc/lib/malloc.c\<close>.

Memory is a map from addresses to bytes.  A block header is two big-endian words
in it, the address of the next block and the status; addresses are numbers below
\<open>2^32\<close> and every address computation of the code is written with \<open>w32\<close>, which
wraps it.  The allocator state is the memory, the three list pointers, \<open>mptr\<close> and
the place of \<open>malbuf\<close>.  The list loops follow pointers in memory, so they are
partial: \<open>None\<close> is a loop that does not end.  The assembler routines \<open>bcopy\<close>
(which copies as if through a second buffer) and \<open>bzero\<close> are modelled by what
they are documented to do.\<close>

section \<open>Definitions\<close>

definition w32 :: "nat \<Rightarrow> nat" where
  "w32 n = n mod 2 ^ 32"

definition get32 :: "(nat \<Rightarrow> u8) \<Rightarrow> nat \<Rightarrow> nat" where
  "get32 m a = unat (m a) * 2 ^ 24 + unat (m (a + 1)) * 2 ^ 16 + unat (m (a + 2)) * 2 ^ 8
     + unat (m (a + 3))"

definition put32 :: "(nat \<Rightarrow> u8) \<Rightarrow> nat \<Rightarrow> nat \<Rightarrow> nat \<Rightarrow> u8" where
  "put32 m a v = m(a := of_nat (v div 2 ^ 24), a + 1 := of_nat (v div 2 ^ 16),
     a + 2 := of_nat (v div 2 ^ 8), a + 3 := of_nat v)"

definition bcopy :: "nat \<Rightarrow> nat \<Rightarrow> nat \<Rightarrow> (nat \<Rightarrow> u8) \<Rightarrow> nat \<Rightarrow> u8" where
  "bcopy src dst n m = (\<lambda>a. if dst \<le> a \<and> a < dst + n then m (src + (a - dst)) else m a)"

definition bzero :: "nat \<Rightarrow> nat \<Rightarrow> (nat \<Rightarrow> u8) \<Rightarrow> nat \<Rightarrow> u8" where
  "bzero dst n m = (\<lambda>a. if dst \<le> a \<and> a < dst + n then 0 else m a)"

record heap =
  mem :: "nat \<Rightarrow> u8"
  bblk :: nat
  eblk :: nat
  cblk :: nat
  mptr :: nat
  malbuf :: nat
  dmabuf_linemask :: nat

definition max_malloc :: nat where "max_malloc = 256 * 1024"

definition BLOCKSZ :: nat where "BLOCKSZ = 8"

definition ROUNDUP :: "nat \<Rightarrow> nat" where
  "ROUNDUP x = w32 (x + (BLOCKSZ - 1)) div BLOCKSZ * BLOCKSZ"

definition STAT_FREE :: nat where "STAT_FREE = 0x0"
definition STAT_MALLOCED :: nat where "STAT_MALLOCED = 0xbeefed"
definition STAT_BEG :: nat where "STAT_BEG = 0xaabbcc"
definition STAT_END :: nat where "STAT_END = 0xddeeff"

definition blk_next :: "nat \<Rightarrow> heap \<Rightarrow> nat" where
  "blk_next b h = get32 (mem h) b"

definition blk_stat :: "nat \<Rightarrow> heap \<Rightarrow> nat" where
  "blk_stat b h = get32 (mem h) (b + 4)"

definition set_next :: "nat \<Rightarrow> nat \<Rightarrow> heap \<Rightarrow> heap" where
  "set_next b v h = h\<lparr>mem := put32 (mem h) b v\<rparr>"

definition set_stat :: "nat \<Rightarrow> nat \<Rightarrow> heap \<Rightarrow> heap" where
  "set_stat b v h = h\<lparr>mem := put32 (mem h) (b + 4) v\<rparr>"

text \<open>\<open>1 << n\<close> on an \<open>int\<close>: the shift instruction of the processor takes the low five
bits of the count (in C a count above 31 is undefined).\<close>

definition shl1 :: "nat \<Rightarrow> nat" where
  "shl1 n = 2 ^ (n mod 32)"

text \<open>\<open>_init_malloc\<close>: \<open>key\<close> is the key of the secondary or primary data cache in the
component tree, if it has one; the line size is its second byte.\<close>

definition init_malloc :: "bool \<Rightarrow> u32 option \<Rightarrow> heap \<Rightarrow> heap" where
  "init_malloc sc_sable key h =
    (let h = h\<lparr>bblk := 0\<rparr>;
         h = (if \<not> sc_sable then h\<lparr>mem := bzero (malbuf h) max_malloc (mem h)\<rparr> else h)
     in if dmabuf_linemask h = 0 then
          (case key of
             Some k \<Rightarrow> h\<lparr>dmabuf_linemask := shl1 (unat (ucast (drop_bit 16 k) :: u8)) - 1\<rparr>
           | None \<Rightarrow> h\<lparr>dmabuf_linemask := shl1 7 - 1\<rparr>)
        else h)"

definition getblock :: "nat \<Rightarrow> heap \<Rightarrow> nat \<times> heap" where
  "getblock n h =
    (let b = w32 (mptr h + ROUNDUP n) in
     if b < malbuf h + max_malloc then (mptr h, h\<lparr>mptr := b\<rparr>) else (0, h))"

text \<open>The loop of \<open>malloc\<close> that joins the free blocks after \<open>b1\<close>, and the one of
\<open>free\<close>.\<close>

partial_function (option) join :: "nat \<Rightarrow> nat \<Rightarrow> bool \<Rightarrow> heap \<Rightarrow> (nat \<times> bool \<times> heap) option" where
  "join b1 b2 list_scanned h =
    (if blk_stat b2 h = STAT_FREE then
       (let h = set_next b1 (blk_next b2 h) h;
            hit = (cblk h = b2);
            h = (if hit then h\<lparr>cblk := b1\<rparr> else h)
        in join b1 (blk_next b2 h) (list_scanned \<or> hit) h)
     else Some (b2, list_scanned, h))"

partial_function (option) join_free :: "nat \<Rightarrow> nat \<Rightarrow> heap \<Rightarrow> heap option" where
  "join_free b1 b2 h =
    (if blk_stat b2 h = STAT_FREE then
       (let h = set_next b1 (blk_next b2 h) h in join_free b1 (blk_next b2 h) h)
     else Some h)"

text \<open>Taking block \<open>b1\<close>, which reaches to \<open>b2\<close>, up to \<open>tmp\<close>.\<close>

definition take_block :: "nat \<Rightarrow> nat \<Rightarrow> nat \<Rightarrow> heap \<Rightarrow> heap" where
  "take_block b1 tmp b2 h =
    (let h = (if b2 = tmp then h\<lparr>cblk := b2\<rparr>
              else let h = h\<lparr>cblk := tmp\<rparr>;
                       h = set_next (cblk h) b2 h;
                       h = set_stat (cblk h) STAT_FREE h
                   in set_next b1 (cblk h) h)
     in set_stat b1 STAT_MALLOCED h)"

text \<open>The \<open>do\<close> loop of \<open>malloc\<close>; the result is the block found.  Its \<open>continue\<close> goes
to the test at the end.\<close>

partial_function (option) search :: "nat \<Rightarrow> nat \<Rightarrow> bool \<Rightarrow> heap \<Rightarrow> (nat option \<times> heap) option" where
  "search nbytes b1 list_scanned h =
    (if blk_stat b1 h \<noteq> STAT_FREE then
       (let b = blk_next b1 h in
        if b \<noteq> cblk h \<and> \<not> list_scanned then search nbytes b list_scanned h
        else Some (None, h))
     else do {
       (b2, list_scanned, h) \<leftarrow> join b1 (blk_next b1 h) list_scanned h;
       let tmp = ROUNDUP (w32 (b1 + nbytes + BLOCKSZ));
       if tmp \<le> b2 then Some (Some b1, take_block b1 tmp b2 h)
       else
         (let b = blk_next b1 h in
          if b \<noteq> cblk h \<and> \<not> list_scanned then search nbytes b list_scanned h
          else Some (None, h)) })"

declare join.simps [code] join_free.simps [code] search.simps [code]

text \<open>Setting up the list on the first call.\<close>

definition start_list :: "heap \<Rightarrow> bool \<times> heap" where
  "start_list h =
    (let h = h\<lparr>mptr := ROUNDUP (malbuf h)\<rparr>;
         (b, h) = getblock BLOCKSZ h;
         h = h\<lparr>bblk := b\<rparr>
     in if b = 0 then (False, h)
        else let (e, h) = getblock BLOCKSZ h; h = h\<lparr>eblk := e\<rparr>
             in if e = 0 then (False, h)
                else (True, (set_next e b (set_stat e STAT_END
                       (set_next b e (set_stat b STAT_BEG h))))\<lparr>cblk := b\<rparr>))"

text \<open>The end of \<open>malloc\<close>, when no free block is big enough.\<close>

definition grow :: "nat \<Rightarrow> heap \<Rightarrow> nat \<times> heap" where
  "grow nbytes h =
    (let (g, h) = getblock (w32 (nbytes + BLOCKSZ)) h in
     if g = 0 then (0, h)
     else let b1 = eblk h;
              h = h\<lparr>eblk := ROUNDUP (w32 (b1 + nbytes + BLOCKSZ))\<rparr>;
              h = set_next (eblk h) (bblk h) h;
              h = set_stat (eblk h) STAT_END h;
              h = set_stat b1 STAT_MALLOCED h;
              h = set_next b1 (eblk h) h
          in (b1, h))"

text \<open>The result of the routines is the pointer, 0 for null, and the new state.\<close>

definition malloc :: "nat \<Rightarrow> heap \<Rightarrow> (nat \<times> heap) option" where
  "malloc nbytes h =
    (if nbytes = 0 then Some (0, h)
     else
       (let (ok, h) = (if bblk h = 0 then start_list h else (True, h)) in
        if \<not> ok then Some (0, h)
        else do {
          (found, h) \<leftarrow> search nbytes (cblk h) False h;
          (case found of
             Some b1 \<Rightarrow> Some (w32 (b1 + BLOCKSZ), h)
           | None \<Rightarrow>
               (let (b1, h) = grow nbytes h in
                Some (if b1 = 0 then 0 else w32 (b1 + BLOCKSZ), h))) }))"

definition free :: "nat \<Rightarrow> heap \<Rightarrow> heap option" where
  "free p h =
    (if p = 0 then Some h
     else let b1 = w32 (p + (2 ^ 32 - BLOCKSZ)) in
       if blk_stat b1 h \<noteq> STAT_MALLOCED \<or> b1 < malbuf h \<or> b1 \<ge> malbuf h + max_malloc
       then Some h
       else
         (let h = (set_stat b1 STAT_FREE h)\<lparr>cblk := b1\<rparr>
          in join_free b1 (blk_next b1 h) h))"

definition realloc :: "nat \<Rightarrow> nat \<Rightarrow> heap \<Rightarrow> (nat \<times> heap) option" where
  "realloc mem1 nbytes h =
    (if mem1 = 0 then malloc nbytes h
     else if nbytes = 0 then do { h \<leftarrow> free mem1 h; Some (0, h) }
     else let b1 = w32 (mem1 + (2 ^ 32 - BLOCKSZ)) in
       if blk_stat b1 h \<noteq> STAT_MALLOCED then Some (0, h)
       else do {
         let pbytes = w32 (blk_next b1 h + (2 ^ 32 - b1) + (2 ^ 32 - BLOCKSZ));
         let pbytes = (if nbytes < pbytes then nbytes else pbytes);
         h \<leftarrow> free mem1 h;
         (mem2, h) \<leftarrow> malloc nbytes h;
         if mem2 = mem1 \<or> mem2 = 0 then Some (mem2, h)
         else Some (mem2, h\<lparr>mem := bcopy mem1 mem2 pbytes (mem h)\<rparr>) })"

definition kern_calloc :: "nat \<Rightarrow> nat \<Rightarrow> heap \<Rightarrow> (nat \<times> heap) option" where
  "kern_calloc n sz h = do {
     (s, h) \<leftarrow> malloc (w32 (n * sz)) h;
     Some (s, if s \<noteq> 0 then h\<lparr>mem := bzero s (w32 (n * sz)) (mem h)\<rparr> else h) }"

definition calloc :: "nat \<Rightarrow> nat \<Rightarrow> heap \<Rightarrow> (nat \<times> heap) option" where
  "calloc x y h = kern_calloc x y h"

text \<open>\<open>align\<close> is a power of two where the code goes on, so the mask operations of
\<open>align_malloc\<close> are written with division.\<close>

definition pow2 :: "nat \<Rightarrow> bool" where
  "pow2 n \<longleftrightarrow> and n (n - 1) = 0"

definition align_front :: "nat \<Rightarrow> nat \<Rightarrow> heap \<Rightarrow> nat \<times> heap" where
  "align_front align p h =
    (if p mod align \<noteq> 0 then
       (let usr_ptr = w32 (p + (align - 1)) div align * align;
            usr_ptr_blk = w32 (usr_ptr + (2 ^ 32 - BLOCKSZ));
            ptr_blk = w32 (p + (2 ^ 32 - BLOCKSZ));
            h = set_next usr_ptr_blk (blk_next ptr_blk h) h;
            h = set_stat usr_ptr_blk STAT_MALLOCED h;
            h = set_next ptr_blk usr_ptr_blk h;
            h = set_stat ptr_blk STAT_FREE h
        in (usr_ptr, h))
     else (p, h))"

definition align_back :: "nat \<Rightarrow> nat \<Rightarrow> heap \<Rightarrow> heap" where
  "align_back nbytes usr_ptr h =
    (let ptr_blk = ROUNDUP (w32 (usr_ptr + nbytes));
         usr_ptr_blk = w32 (usr_ptr + (2 ^ 32 - BLOCKSZ))
     in if blk_next usr_ptr_blk h > ptr_blk then
          (let h = set_next ptr_blk (blk_next usr_ptr_blk h) h;
               h = set_stat ptr_blk STAT_FREE h
           in set_next usr_ptr_blk ptr_blk h)
        else h)"

definition align_malloc :: "nat \<Rightarrow> nat \<Rightarrow> heap \<Rightarrow> (nat \<times> heap) option" where
  "align_malloc nbytes align h =
    (if align \<noteq> 0 \<and> \<not> pow2 align then Some (0, h)
     else if align \<le> BLOCKSZ then malloc nbytes h
     else do {
       (p, h) \<leftarrow> malloc (w32 (nbytes + align)) h;
       if p = 0 then Some (0, h)
       else
         (let (usr_ptr, h) = align_front align p h
          in Some (usr_ptr, align_back nbytes usr_ptr h)) })"

definition align_free :: "nat \<Rightarrow> heap \<Rightarrow> heap option" where
  "align_free p h = free p h"

definition dmabuf_malloc :: "nat \<Rightarrow> heap \<Rightarrow> (nat \<times> heap) option" where
  "dmabuf_malloc nbytes h = align_malloc nbytes (w32 (dmabuf_linemask h + 1)) h"

definition dmabuf_free :: "nat \<Rightarrow> heap \<Rightarrow> heap option" where
  "dmabuf_free p h = free p h"

section \<open>Words in memory\<close>

lemma get_put_same: "v < 2 ^ 32 \<Longrightarrow> get32 (put32 m a v) a = v"
proof -
  assume v: "v < 2 ^ 32"
  define q1 q2 q3 where "q1 = v div 256" "q2 = q1 div 256" "q3 = q2 div 256"
  have q: "v div 2 ^ 8 = q1" "v div 2 ^ 16 = q2" "v div 2 ^ 24 = q3"
    by (simp_all add: q1_q2_q3_def flip: div_mult2_eq)
  have "q3 < 256"
    using v by (simp add: q [symmetric] div_less_iff_less_mult)
  moreover have "v = q1 * 256 + v mod 256" "q1 = q2 * 256 + q1 mod 256" "q2 = q3 * 256 + q2 mod 256"
    by (simp_all add: q1_q2_q3_def)
  ultimately have "q3 mod 256 * 2 ^ 24 + q2 mod 256 * 2 ^ 16 + q1 mod 256 * 2 ^ 8 + v mod 256 = v"
    by simp
  then show ?thesis
    unfolding get32_def put32_def q by (simp add: unat_of_nat take_bit_eq_mod)
qed

lemma get_put_other: "a + 4 \<le> b \<or> b + 4 \<le> a \<Longrightarrow> get32 (put32 m a v) b = get32 m b"
  by (auto simp: get32_def put32_def)

lemma put_other: "w < a \<or> a + 4 \<le> w \<Longrightarrow> put32 m a v w = m w"
  by (auto simp: put32_def)

text \<open>The headers of a state at the block addresses, which are multiples of eight.\<close>

definition nx :: "heap \<Rightarrow> nat \<Rightarrow> nat" where
  "nx h = (\<lambda>b. if 8 dvd b then blk_next b h else 0)"

definition st :: "heap \<Rightarrow> nat \<Rightarrow> nat" where
  "st h = (\<lambda>b. if 8 dvd b then blk_stat b h else 0)"

lemma dvd8_apart:
  fixes a b :: nat
  assumes "8 dvd a" "8 dvd b" "a \<noteq> b"
  shows "a + 8 \<le> b \<or> b + 8 \<le> a"
  using assms by (auto simp: dvd_def)

lemma header_simps [simp]:
  assumes "8 dvd b" "v < 2 ^ 32"
  shows "nx (set_next b v h) = (nx h)(b := v)" "st (set_next b v h) = st h"
    "nx (set_stat b v h) = nx h" "st (set_stat b v h) = (st h)(b := v)"
proof -
  have "get32 (put32 (mem h) b v) a = get32 (mem h) a" "get32 (put32 (mem h) (b + 4) v) (a + 4) = get32 (mem h) (a + 4)"
    if "8 dvd a" "a \<noteq> b" for a
    using dvd8_apart [OF assms(1) that(1)] that(2) by (auto intro!: get_put_other)
  moreover have "get32 (put32 (mem h) b v) (a + 4) = get32 (mem h) (a + 4)"
    "get32 (put32 (mem h) (b + 4) v) a = get32 (mem h) a" if "8 dvd a" for a
    using dvd8_apart [OF assms(1) that] by (cases "a = b"; auto intro!: get_put_other)+
  ultimately show "nx (set_next b v h) = (nx h)(b := v)" "st (set_next b v h) = st h"
    "nx (set_stat b v h) = nx h" "st (set_stat b v h) = (st h)(b := v)"
    using assms
    by (simp_all add: nx_def st_def fun_eq_iff blk_next_def blk_stat_def set_next_def set_stat_def get_put_same)
qed

lemma header_fields [simp]:
  "bblk (set_next b v h) = bblk h" "eblk (set_next b v h) = eblk h" "cblk (set_next b v h) = cblk h"
  "mptr (set_next b v h) = mptr h" "malbuf (set_next b v h) = malbuf h"
  "bblk (set_stat b v h) = bblk h" "eblk (set_stat b v h) = eblk h" "cblk (set_stat b v h) = cblk h"
  "mptr (set_stat b v h) = mptr h" "malbuf (set_stat b v h) = malbuf h"
  "dmabuf_linemask (set_next b v h) = dmabuf_linemask h"
  "dmabuf_linemask (set_stat b v h) = dmabuf_linemask h"
  by (simp_all add: set_next_def set_stat_def)

lemma header_pointers [simp]:
  "nx (h\<lparr>cblk := c\<rparr>) = nx h" "st (h\<lparr>cblk := c\<rparr>) = st h"
  "nx (h\<lparr>eblk := c\<rparr>) = nx h" "st (h\<lparr>eblk := c\<rparr>) = st h"
  "nx (h\<lparr>bblk := c\<rparr>) = nx h" "st (h\<lparr>bblk := c\<rparr>) = st h"
  "nx (h\<lparr>mptr := c\<rparr>) = nx h" "st (h\<lparr>mptr := c\<rparr>) = st h"
  "set_next b v (h\<lparr>cblk := c\<rparr>) = (set_next b v h)\<lparr>cblk := c\<rparr>"
  by (simp_all add: nx_def st_def blk_next_def blk_stat_def set_next_def cong: if_cong)

lemma nx_eq: "8 dvd b \<Longrightarrow> blk_next b h = nx h b"
  by (simp add: nx_def)

lemma st_eq: "8 dvd b \<Longrightarrow> blk_stat b h = st h b"
  by (simp add: st_def)

section \<open>The block list\<close>

text \<open>\<open>linked N xs z\<close>: each element of \<open>xs\<close> points at the one after it, the last at \<open>z\<close>.\<close>

fun linked :: "(nat \<Rightarrow> nat) \<Rightarrow> nat list \<Rightarrow> nat \<Rightarrow> bool" where
  "linked N [] z \<longleftrightarrow> True"
| "linked N (x # xs) z \<longleftrightarrow> N x = hd (xs @ [z]) \<and> linked N xs z"

lemma linked_append: "linked N (xs @ ys) z \<longleftrightarrow> linked N xs (hd (ys @ [z])) \<and> linked N ys z"
  by (induction xs) (auto simp: hd_append)

lemma linked_upd [simp]: "x \<notin> set xs \<Longrightarrow> linked (N(x := v)) xs z = linked N xs z"
  by (induction xs) auto

lemma linked_merge:
  "linked N (A @ x # y # B) z \<Longrightarrow> x \<notin> set A \<Longrightarrow> x \<notin> set B \<Longrightarrow>
   linked (N(x := N y)) (A @ x # B) z"
  by (simp add: linked_append)

lemma linked_split:
  "linked N (A @ x # B) z \<Longrightarrow> x \<notin> set A \<Longrightarrow> x \<notin> set B \<Longrightarrow> t \<notin> set A \<Longrightarrow> t \<notin> set B \<Longrightarrow> t \<noteq> x \<Longrightarrow>
   linked (N(t := N x, x := t)) (A @ x # t # B) z"
  by (simp add: linked_append)

text \<open>\<open>blocks_ok N S bb mid eb\<close>: the beginning block, the blocks \<open>mid\<close> and the end
block are a circular list in rising order.\<close>

definition blocks_ok ::
  "(nat \<Rightarrow> nat) \<Rightarrow> (nat \<Rightarrow> nat) \<Rightarrow> nat \<Rightarrow> nat list \<Rightarrow> nat \<Rightarrow> bool" where
  "blocks_ok N S bb mid eb \<longleftrightarrow>
     sorted_wrt (<) (bb # mid @ [eb]) \<and> (\<forall>b\<in>set (bb # mid @ [eb]). 8 dvd b) \<and>
     linked N (bb # mid @ [eb]) bb \<and> S bb = STAT_BEG \<and> S eb = STAT_END \<and>
     (\<forall>b\<in>set mid. S b = STAT_FREE \<or> S b = STAT_MALLOCED)"

text \<open>The blocks that are allocated, each with the address where it ends.\<close>

definition own :: "(nat \<Rightarrow> nat) \<Rightarrow> (nat \<Rightarrow> nat) \<Rightarrow> nat list \<Rightarrow> (nat \<times> nat) set" where
  "own N S mid = (\<lambda>b. (b, N b)) ` set (filter (\<lambda>b. S b = STAT_MALLOCED) mid)"

lemma own_simps [simp]:
  "own N S [] = {}"
  "own N S (x # xs) = (if S x = STAT_MALLOCED then insert (x, N x) (own N S xs) else own N S xs)"
  "own N S (xs @ ys) = own N S xs \<union> own N S ys"
  by (auto simp: own_def)

lemma own_upd [simp]:
  "x \<notin> set xs \<Longrightarrow> own (N(x := v)) S xs = own N S xs"
  "x \<notin> set xs \<Longrightarrow> own N (S(x := v)) xs = own N S xs"
  by (induction xs) auto

lemma own_mem: "(b, e) \<in> own N S mid \<longleftrightarrow> b \<in> set mid \<and> S b = STAT_MALLOCED \<and> e = N b"
  by (auto simp: own_def)

lemma stat_distinct [simp]:
  "STAT_FREE \<noteq> STAT_MALLOCED" "STAT_MALLOCED \<noteq> STAT_FREE" "STAT_BEG \<noteq> STAT_FREE"
  "STAT_END \<noteq> STAT_FREE" "STAT_BEG \<noteq> STAT_MALLOCED" "STAT_END \<noteq> STAT_MALLOCED"
  by (simp_all add: STAT_FREE_def STAT_MALLOCED_def STAT_BEG_def STAT_END_def)

lemma blocks_okD:
  assumes "blocks_ok N S bb (P @ x # Q) eb"
  shows "\<forall>p\<in>set (bb # P). p < x" "\<forall>q\<in>set (Q @ [eb]). x < q" "x \<notin> set (bb # P)" "x \<notin> set (Q @ [eb])"
    "N x = hd (Q @ [eb])" "8 dvd x" "linked N ((bb # P) @ x # Q @ [eb]) bb"
proof -
  show l: "\<forall>p\<in>set (bb # P). p < x" "\<forall>q\<in>set (Q @ [eb]). x < q"
    using assms by (auto simp: blocks_ok_def sorted_wrt_append)
  then show "x \<notin> set (bb # P)" "x \<notin> set (Q @ [eb])"
    by blast+
  show k: "linked N ((bb # P) @ x # Q @ [eb]) bb"
    using assms by (simp add: blocks_ok_def)
  show "N x = hd (Q @ [eb])"
    using k unfolding linked_append by (cases Q) auto
  show "8 dvd x"
    using assms by (simp add: blocks_ok_def)
qed

lemma merge_ok:
  assumes ok: "blocks_ok N S bb (P @ x # y # Q) eb" and "S x = STAT_FREE" "S y = STAT_FREE"
  shows "blocks_ok (N(x := N y)) S bb (P @ x # Q) eb"
    "own (N(x := N y)) S (P @ x # Q) = own N S (P @ x # y # Q)"
    "N x = y" "N y = hd (Q @ [eb])"
proof -
  note x = blocks_okD [OF ok]
  show "N x = y"
    using x(5) by simp
  show "N y = hd (Q @ [eb])"
    using blocks_okD(5) [of N S bb "P @ [x]" y Q eb] ok by simp
  have "linked (N(x := N y)) ((bb # P) @ x # Q @ [eb]) bb"
    using linked_merge [of N "bb # P" x y "Q @ [eb]" bb] x(3,4,7) by simp
  then show "blocks_ok (N(x := N y)) S bb (P @ x # Q) eb"
    using ok by (simp add: blocks_ok_def sorted_wrt_append)
  show "own (N(x := N y)) S (P @ x # Q) = own N S (P @ x # y # Q)"
    using assms x(3,4) by (simp)
qed

lemma split_ok:
  assumes ok: "blocks_ok N S bb (P @ x # Q) eb" and t: "x < t" "t < N x" "8 dvd t" and "S x = STAT_FREE"
  shows "blocks_ok (N(t := N x, x := t)) (S(t := STAT_FREE)) bb (P @ x # t # Q) eb"
    "own (N(t := N x, x := t)) (S(t := STAT_FREE)) (P @ x # t # Q) = own N S (P @ x # Q)"
proof -
  note x = blocks_okD [OF ok]
  have "\<forall>q\<in>set (Q @ [eb]). hd (Q @ [eb]) \<le> q"
    using ok by (cases Q) (auto simp: blocks_ok_def sorted_wrt_append less_imp_le)
  then have tq: "\<forall>q\<in>set (Q @ [eb]). t < q"
    using t(2) x(5) by fastforce
  have tp: "\<forall>p\<in>set (bb # P). p < t"
    using x(1) t(1) by fastforce
  have n: "t \<notin> set (bb # P)" "t \<notin> set (Q @ [eb])" "t \<noteq> x"
    using tq tp t(1) by blast+
  have "linked (N(t := N x, x := t)) ((bb # P) @ x # t # Q @ [eb]) bb"
    by (rule linked_split [OF x(7,3,4) n])
  then show "blocks_ok (N(t := N x, x := t)) (S(t := STAT_FREE)) bb (P @ x # t # Q) eb"
    using ok tp tq n t by (auto simp: blocks_ok_def sorted_wrt_append)
  show "own (N(t := N x, x := t)) (S(t := STAT_FREE)) (P @ x # t # Q) = own N S (P @ x # Q)"
    using assms(5) x(3,4) n by simp
qed

lemma stat_ok:
  assumes "blocks_ok N S bb mid eb" "b \<in> set mid"
  shows "s = STAT_FREE \<or> s = STAT_MALLOCED \<Longrightarrow> blocks_ok N (S(b := s)) bb mid eb"
    "own N (S(b := STAT_MALLOCED)) mid = insert (b, N b) (own N S mid)"
    "own N (S(b := STAT_FREE)) mid = own N S mid - {(b, N b)}"
proof -
  have "b \<noteq> bb" "b \<noteq> eb"
    using assms by (auto simp: blocks_ok_def sorted_wrt_append)
  then show "blocks_ok N (S(b := s)) bb mid eb" if "s = STAT_FREE \<or> s = STAT_MALLOCED"
    using assms that by (auto simp: blocks_ok_def)
  show "own N (S(b := STAT_MALLOCED)) mid = insert (b, N b) (own N S mid)"
    "own N (S(b := STAT_FREE)) mid = own N S mid - {(b, N b)}"
    using assms(2) by (auto simp: own_def image_iff)
qed

lemma grow_ok:
  assumes ok: "blocks_ok N S bb mid eb" and e: "eb < e" "8 dvd e"
  shows "blocks_ok (N(e := bb, eb := e)) (S(e := STAT_END, eb := STAT_MALLOCED)) bb (mid @ [eb]) e"
    "own (N(e := bb, eb := e)) (S(e := STAT_END, eb := STAT_MALLOCED)) (mid @ [eb]) =
      insert (eb, e) (own N S mid)"
proof -
  have lt: "\<forall>b\<in>set (bb # mid). b < eb"
    using ok by (auto simp: blocks_ok_def sorted_wrt_append)
  then have n: "eb \<notin> set (bb # mid)" "e \<notin> set (bb # mid)" "e \<noteq> eb"
    using e(1) by fastforce+
  have "linked N ((bb # mid) @ [eb]) bb"
    using ok by (simp add: blocks_ok_def)
  then have "linked (N(e := bb, eb := e)) ((bb # mid) @ [eb, e]) bb"
    using n unfolding linked_append by (simp split: if_splits)
  then show "blocks_ok (N(e := bb, eb := e)) (S(e := STAT_END, eb := STAT_MALLOCED)) bb (mid @ [eb]) e"
    using ok n lt e by (auto simp: blocks_ok_def sorted_wrt_append)
  show "own (N(e := bb, eb := e)) (S(e := STAT_END, eb := STAT_MALLOCED)) (mid @ [eb]) =
      insert (eb, e) (own N S mid)"
    using n by simp
qed

text \<open>No block header lies inside another block.\<close>

lemma linked_next_le:
  "sorted_wrt (<) (xs @ [z]) \<Longrightarrow> linked N (xs @ [z]) w \<Longrightarrow> b \<in> set xs \<Longrightarrow> x \<in> set (xs @ [z]) \<Longrightarrow>
   x \<le> b \<or> N b \<le> x"
proof (induction xs)
  case (Cons a xs)
  show ?case
  proof (cases "b = a")
    case True
    then show ?thesis
      using Cons.prems by (cases xs) (auto simp: sorted_wrt_append)
  next
    case False
    then show ?thesis
      using Cons by (cases "x = a") auto
  qed
qed simp

lemma blocks_gap:
  assumes "blocks_ok N S bb mid eb" "b \<in> set mid" "x \<in> set (bb # mid @ [eb])"
  shows "x \<le> b \<or> N b \<le> x"
  using linked_next_le [of "bb # mid" eb N bb b x] assms by (auto simp: blocks_ok_def)

lemma blocks_next:
  assumes "blocks_ok N S bb mid eb" "b \<in> set mid"
  shows "b + 8 \<le> N b" "N b \<in> set (mid @ [eb])" "8 dvd N b" "8 dvd b"
proof -
  obtain P Q where PQ: "mid = P @ b # Q"
    using split_list assms(2) by fast
  note x = blocks_okD [OF assms(1) [unfolded PQ]]
  show m: "N b \<in> set (mid @ [eb])"
    unfolding x(5) PQ by (cases Q) auto
  then show d: "8 dvd N b" and "8 dvd b"
    using assms(1) x(6) by (auto simp: blocks_ok_def)
  have "b < N b"
    using x(2) unfolding x(5) by (cases Q) auto
  then show "b + 8 \<le> N b"
    using dvd8_apart [OF x(6) d] by auto
qed

declare own_simps [simp del] own_upd [simp del]

section \<open>The state of the allocator\<close>

abbreviation ring :: "heap \<Rightarrow> nat list \<Rightarrow> nat list" where
  "ring h mid \<equiv> bblk h # mid @ [eblk h]"

definition heap_ok :: "heap \<Rightarrow> nat list \<Rightarrow> bool" where
  "heap_ok h mid \<longleftrightarrow>
     blocks_ok (nx h) (st h) (bblk h) mid (eblk h) \<and> cblk h \<in> set (ring h mid) \<and>
     mptr h = eblk h + 8 \<and> mptr h < malbuf h + max_malloc \<and>
     0 < malbuf h \<and> malbuf h \<le> bblk h \<and> malbuf h + max_malloc < 2 ^ 32"

abbreviation owned :: "heap \<Rightarrow> nat list \<Rightarrow> (nat \<times> nat) set" where
  "owned h mid \<equiv> own (nx h) (st h) mid"

text \<open>Memory between the header and the end of each block of \<open>A\<close> is the same.\<close>

definition keeps :: "(nat \<times> nat) set \<Rightarrow> (nat \<Rightarrow> u8) \<Rightarrow> (nat \<Rightarrow> u8) \<Rightarrow> bool" where
  "keeps A m m' \<longleftrightarrow> (\<forall>b e w. (b, e) \<in> A \<longrightarrow> b + 8 \<le> w \<longrightarrow> w < e \<longrightarrow> m' w = m w)"

definition outside :: "(nat \<times> nat) set \<Rightarrow> nat \<Rightarrow> bool" where
  "outside A x \<longleftrightarrow> (\<forall>b e. (b, e) \<in> A \<longrightarrow> x \<le> b \<or> e \<le> x)"

lemma keeps_refl [simp]: "keeps A m m"
  by (simp add: keeps_def)

lemma keeps_trans: "keeps A m1 m2 \<Longrightarrow> keeps A m2 m3 \<Longrightarrow> keeps A m1 m3"
  unfolding keeps_def by metis

lemma keeps_mono: "A \<subseteq> B \<Longrightarrow> keeps B m m' \<Longrightarrow> keeps A m m'"
  unfolding keeps_def by blast

lemma keeps_header:
  "outside A x \<Longrightarrow> keeps A m (mem h) \<Longrightarrow> keeps A m (mem (set_next x v h))"
  "outside A x \<Longrightarrow> keeps A m (mem h) \<Longrightarrow> keeps A m (mem (set_stat x v h))"
proof -
  assume o: "outside A x" and k: "keeps A m (mem h)"
  have "w < x \<or> x + 4 \<le> w" "w < x + 4 \<or> x + 4 + 4 \<le> w" if "(b, e) \<in> A" "b + 8 \<le> w" "w < e" for b e w
    using o that unfolding outside_def by fastforce+
  then show "keeps A m (mem (set_next x v h))" "keeps A m (mem (set_stat x v h))"
    using k by (auto simp: keeps_def set_next_def set_stat_def put_other)
qed

lemma heap_block:
  assumes "heap_ok h mid" "b \<in> set (ring h mid)"
  shows "8 dvd b" "b \<le> eblk h" "b < 2 ^ 32" "malbuf h \<le> b" "b < malbuf h + max_malloc" "0 < b"
proof -
  have "8 dvd b" "b \<le> eblk h" "bblk h \<le> b"
    using assms by (auto simp: heap_ok_def blocks_ok_def sorted_wrt_append)
  then show "8 dvd b" "b \<le> eblk h" "b < 2 ^ 32" "malbuf h \<le> b" "b < malbuf h + max_malloc" "0 < b"
    using assms(1) by (auto simp: heap_ok_def)
qed

lemma heap_outside:
  "heap_ok h mid \<Longrightarrow> x \<in> set (ring h mid) \<Longrightarrow> outside (owned h mid) x"
  using blocks_gap [of "nx h" "st h" "bblk h" mid "eblk h" _ x]
  unfolding outside_def own_mem heap_ok_def by blast

lemma heap_next:
  assumes "heap_ok h mid" "ring h mid = A @ b # B"
  shows "blk_next b h = hd (B @ A @ [b])"
proof -
  have "linked (nx h) (A @ b # B) (bblk h)"
    using assms by (simp add: heap_ok_def blocks_ok_def)
  moreover have "hd (A @ [b]) = bblk h"
    using assms(2) by (cases A) auto
  ultimately have "nx h b = hd (B @ A @ [b])"
    unfolding linked_append by (simp add: hd_append split: if_splits)
  moreover have "8 dvd b"
    using heap_block(1) [OF assms(1), of b] assms(2) by simp
  ultimately show ?thesis
    by (simp add: nx_eq)
qed

section \<open>Joining free blocks\<close>

lemma merge_heap:
  assumes ok: "heap_ok h (P @ x # y # Q)" and free: "st h x = STAT_FREE" "st h y = STAT_FREE"
  defines "h' \<equiv> (set_next x (blk_next y h) h)\<lparr>cblk := if cblk h = y then x else cblk h\<rparr>"
  shows "heap_ok h' (P @ x # Q)" "owned h' (P @ x # Q) = owned h (P @ x # y # Q)"
    "keeps (owned h (P @ x # y # Q)) (mem h) (mem h')" "blk_next y h' = nx h' x" "st h' = st h"
    "nx h' x = nx h y"
proof -
  have b: "blocks_ok (nx h) (st h) (bblk h) (P @ x # y # Q) (eblk h)"
    using ok by (simp add: heap_ok_def)
  note m = merge_ok [OF b free]
  have xy: "8 dvd x" "8 dvd y" "x \<noteq> y"
    using blocks_okD(2,6) [OF b] blocks_okD(6) [of _ _ _ "P @ [x]" y Q] b by auto
  have "nx h y \<in> set (ring h (P @ x # y # Q))"
    unfolding m(4) by (cases Q) auto
  then have v: "nx h y < 2 ^ 32"
    by (rule heap_block(3) [OF ok])
  have N: "nx h' = (nx h)(x := nx h y)" "st h' = st h"
    using xy v by (simp_all add: h'_def nx_eq)
  show "heap_ok h' (P @ x # Q)"
    using ok m(1) unfolding heap_ok_def N by (auto simp: h'_def)
  show "owned h' (P @ x # Q) = owned h (P @ x # y # Q)"
    unfolding N by (rule m(2))
  show "keeps (owned h (P @ x # y # Q)) (mem h) (mem h')"
    using keeps_header(1) [OF heap_outside [OF ok, of x]] by (simp add: h'_def)
  show "blk_next y h' = nx h' x" "nx h' x = nx h y"
    using xy N(1) nx_eq [OF xy(2), of h'] by auto
  show "st h' = st h"
    by (rule N(2))
qed

lemma cblk_same: "(set_next x v h)\<lparr>cblk := cblk h\<rparr> = set_next x v h"
  by (simp add: set_next_def)

lemma same_place:
  "malbuf ((set_next x v h)\<lparr>cblk := c\<rparr>) = malbuf h" "bblk ((set_next x v h)\<lparr>cblk := c\<rparr>) = bblk h"
  "eblk ((set_next x v h)\<lparr>cblk := c\<rparr>) = eblk h" "mptr ((set_next x v h)\<lparr>cblk := c\<rparr>) = mptr h"
  "dmabuf_linemask ((set_next x v h)\<lparr>cblk := c\<rparr>) = dmabuf_linemask h"
  by simp_all

text \<open>The parts of the state that searching does not touch.\<close>

definition same_arena :: "heap \<Rightarrow> heap \<Rightarrow> bool" where
  "same_arena h h' \<longleftrightarrow> malbuf h' = malbuf h \<and> bblk h' = bblk h \<and> eblk h' = eblk h \<and>
     mptr h' = mptr h \<and> dmabuf_linemask h' = dmabuf_linemask h"

lemma join_run:
  assumes "heap_ok h (P @ x # F @ R)" "st h x = STAT_FREE" "\<forall>f\<in>set F. st h f = STAT_FREE"
    "st h (hd (R @ [eblk h])) \<noteq> STAT_FREE"
  shows "\<exists>h'. join x (nx h x) sc h = Some (hd (R @ [eblk h]), sc \<or> cblk h \<in> set F, h') \<and>
    heap_ok h' (P @ x # R) \<and> owned h' (P @ x # R) = owned h (P @ x # F @ R) \<and>
    keeps (owned h (P @ x # F @ R)) (mem h) (mem h') \<and> st h' = st h \<and> same_arena h h' \<and>
    cblk h' = (if cblk h \<in> set F then x else cblk h) \<and> nx h' x = hd (R @ [eblk h])"
  using assms
proof (induction F arbitrary: h sc)
  case Nil
  have b: "blocks_ok (nx h) (st h) (bblk h) (P @ x # R) (eblk h)"
    using Nil.prems(1) by (simp add: heap_ok_def)
  have "nx h x = hd (R @ [eblk h])"
    by (rule blocks_okD(5) [OF b])
  moreover have "hd (R @ [eblk h]) \<in> set (ring h (P @ x # R))"
    by (cases R) auto
  then have "8 dvd hd (R @ [eblk h])"
    using Nil.prems(1) unfolding append_Nil by (rule heap_block(1) [rotated])
  ultimately show ?case
    using Nil.prems by (subst join.simps) (simp add: st_eq same_arena_def)
next
  case (Cons y F)
  have y: "st h y = STAT_FREE" "y \<in> set (ring h (P @ x # y # F @ R))"
    using Cons.prems(3) by auto
  have ok: "heap_ok h (P @ x # y # F @ R)"
    using Cons.prems(1) by simp
  have b: "blocks_ok (nx h) (st h) (bblk h) (P @ x # y # F @ R) (eblk h)"
    using ok by (simp add: heap_ok_def)
  have y8: "8 dvd y"
    by (rule heap_block(1) [OF ok y(2)])
  let ?h = "(set_next x (blk_next y h) h)\<lparr>cblk := if cblk h = y then x else cblk h\<rparr>"
  note m = merge_heap [OF ok Cons.prems(2) y(1)]
  have nx: "nx h x = y"
    using blocks_okD(5) [OF b] by simp
  have xF: "x \<notin> set F"
    using blocks_okD(4) [OF b] by simp
  have st: "st ?h = st h"
    by (rule m(5))
  obtain h' where h': "join x (nx ?h x) (sc \<or> cblk h = y) ?h =
      Some (hd (R @ [eblk ?h]), (sc \<or> cblk h = y) \<or> cblk ?h \<in> set F, h')"
    "heap_ok h' (P @ x # R)" "owned h' (P @ x # R) = owned ?h (P @ x # F @ R)"
    "keeps (owned ?h (P @ x # F @ R)) (mem ?h) (mem h')" "st h' = st ?h" "same_arena ?h h'"
    "cblk h' = (if cblk ?h \<in> set F then x else cblk ?h)" "nx h' x = hd (R @ [eblk ?h])"
    using Cons.IH [of ?h "sc \<or> cblk h = y"] m(1) Cons.prems unfolding st by auto
  have "join x (nx h x) sc h = join x (nx ?h x) (sc \<or> cblk h = y) ?h"
    using y(1) y8 m(4) unfolding nx
    by (subst join.simps; cases "cblk h = y") (simp_all add: st_eq Let_def cblk_same)
  moreover have "keeps (owned h (P @ x # y # F @ R)) (mem h) (mem h')"
    using keeps_trans [OF m(3)] h'(4) m(2) by simp
  moreover have "same_arena h h'"
    using h'(6) by (simp add: same_arena_def)
  moreover have "cblk h' = (if cblk h \<in> set (y # F) then x else cblk h)"
    "(sc \<or> cblk h = y \<or> cblk ?h \<in> set F) \<longleftrightarrow> sc \<or> cblk h \<in> set (y # F)"
    using h'(7) xF by (cases "cblk h = y"; simp)+
  moreover have "owned h' (P @ x # R) = owned h (P @ x # (y # F) @ R)" "st h' = st h"
    "nx h' x = hd (R @ [eblk h])"
    using h'(3,5,8) m(2) st by simp_all
  ultimately show ?case
    using h'(1,2) by (simp add: disj_assoc)
qed

lemma join_free_run:
  assumes "heap_ok h (P @ x # F @ R)" "st h x = STAT_FREE" "\<forall>f\<in>set F. st h f = STAT_FREE"
    "st h (hd (R @ [eblk h])) \<noteq> STAT_FREE" "cblk h = x"
  shows "\<exists>h'. join_free x (nx h x) h = Some h' \<and>
    heap_ok h' (P @ x # R) \<and> owned h' (P @ x # R) = owned h (P @ x # F @ R) \<and>
    keeps (owned h (P @ x # F @ R)) (mem h) (mem h') \<and> same_arena h h' \<and> cblk h' = x"
  using assms
proof (induction F arbitrary: h)
  case Nil
  have b: "blocks_ok (nx h) (st h) (bblk h) (P @ x # R) (eblk h)"
    using Nil.prems(1) by (simp add: heap_ok_def)
  have "nx h x = hd (R @ [eblk h])"
    by (rule blocks_okD(5) [OF b])
  moreover have "hd (R @ [eblk h]) \<in> set (ring h (P @ x # R))"
    by (cases R) auto
  then have "8 dvd hd (R @ [eblk h])"
    using Nil.prems(1) unfolding append_Nil by (rule heap_block(1) [rotated])
  ultimately show ?case
    using Nil.prems by (subst join_free.simps) (simp add: st_eq same_arena_def)
next
  case (Cons y F)
  have y: "st h y = STAT_FREE" "y \<in> set (ring h (P @ x # y # F @ R))"
    using Cons.prems(3) by auto
  have ok: "heap_ok h (P @ x # y # F @ R)"
    using Cons.prems(1) by simp
  have b: "blocks_ok (nx h) (st h) (bblk h) (P @ x # y # F @ R) (eblk h)"
    using ok by (simp add: heap_ok_def)
  have y8: "8 dvd y"
    by (rule heap_block(1) [OF ok y(2)])
  have nx: "nx h x = y" "x \<noteq> y"
    using blocks_okD(4,5) [OF b] by auto
  let ?h = "set_next x (blk_next y h) h"
  have eq: "(set_next x (blk_next y h) h)\<lparr>cblk := if cblk h = y then x else cblk h\<rparr> = ?h"
    using Cons.prems(5) nx(2) by (simp add: set_next_def)
  note m = merge_heap [OF ok Cons.prems(2) y(1), unfolded eq]
  obtain h' where h': "join_free x (nx ?h x) ?h = Some h'"
    "heap_ok h' (P @ x # R)" "owned h' (P @ x # R) = owned ?h (P @ x # F @ R)"
    "keeps (owned ?h (P @ x # F @ R)) (mem ?h) (mem h')" "same_arena ?h h'" "cblk h' = x"
    using Cons.IH [of ?h] m(1) Cons.prems unfolding m(5) by auto
  have "join_free x (nx h x) h = join_free x (nx ?h x) ?h"
    using y(1) y8 m(4) unfolding nx(1)
    by (subst join_free.simps) (simp add: st_eq Let_def)
  moreover have "keeps (owned h (P @ x # y # F @ R)) (mem h) (mem h')"
    using keeps_trans [OF m(3)] h'(4) m(2) by simp
  ultimately show ?case
    using h' m(2) by (auto simp: same_arena_def)
qed

section \<open>Allocating\<close>

lemma roundup:
  assumes "x + 7 < 2 ^ 32"
  shows "8 dvd ROUNDUP x" "x \<le> ROUNDUP x" "ROUNDUP x < x + 8" "ROUNDUP x < 2 ^ 32"
  using assms by (auto simp: ROUNDUP_def w32_def BLOCKSZ_def)

lemma w32_id [simp]: "x < 2 ^ 32 \<Longrightarrow> w32 x = x"
  by (simp add: w32_def)

lemma stat_range: "STAT_FREE < 2 ^ 32" "STAT_MALLOCED < 2 ^ 32" "STAT_END < 2 ^ 32" "STAT_BEG < 2 ^ 32"
  by (simp_all add: STAT_FREE_def STAT_MALLOCED_def STAT_END_def STAT_BEG_def)

lemmas stat_bounds = stat_range [simplified]

lemma keeps_cblk: "keeps A m (mem (h\<lparr>cblk := c\<rparr>)) = keeps A m (mem h)"
  by simp

lemma take_run:
  assumes ok: "heap_ok h (P @ x # R)" and x: "st h x = STAT_FREE"
    and t: "8 dvd t" "x < t" "t \<le> nx h x"
  shows "\<exists>mid'. heap_ok (take_block x t (nx h x) h) mid' \<and>
    owned (take_block x t (nx h x) h) mid' = insert (x, t) (owned h (P @ x # R)) \<and>
    keeps (owned h (P @ x # R)) (mem h) (mem (take_block x t (nx h x) h)) \<and>
    same_arena h (take_block x t (nx h x) h)"
proof -
  have b: "blocks_ok (nx h) (st h) (bblk h) (P @ x # R) (eblk h)"
    using ok by (simp add: heap_ok_def)
  have nr: "nx h x \<in> set (ring h (P @ x # R))"
    using blocks_okD(5) [OF b] by (cases R) auto
  have x8: "8 dvd x" "x < 2 ^ 32" and n32: "nx h x < 2 ^ 32"
    using heap_block(1,3) [OF ok, of x] heap_block(3) [OF ok nr] by auto
  have ox: "outside (owned h (P @ x # R)) x"
    by (rule heap_outside [OF ok]) simp
  show ?thesis
  proof (cases "nx h x = t")
    case True
    let ?h = "set_stat x STAT_MALLOCED (h\<lparr>cblk := nx h x\<rparr>)"
    have tk: "take_block x t (nx h x) h = ?h"
      using True by (simp add: take_block_def)
    have N: "nx ?h = nx h" "st ?h = (st h)(x := STAT_MALLOCED)"
      using x8(1) by (simp_all add: stat_bounds)
    have s: "blocks_ok (nx h) ((st h)(x := STAT_MALLOCED)) (bblk h) (P @ x # R) (eblk h)"
      "own (nx h) ((st h)(x := STAT_MALLOCED)) (P @ x # R) = insert (x, nx h x) (owned h (P @ x # R))"
      by (rule stat_ok(1) [OF b]; simp) (rule stat_ok(2) [OF b]; simp)
    have "heap_ok ?h (P @ x # R)"
      using ok s(1) nr unfolding heap_ok_def N by simp
    moreover have "owned ?h (P @ x # R) = insert (x, t) (owned h (P @ x # R))"
      unfolding N using s(2) True by simp
    moreover have "keeps (owned h (P @ x # R)) (mem h) (mem ?h)"
      by (rule keeps_header(2) [OF ox]) simp
    ultimately show ?thesis
      unfolding tk by (auto simp: same_arena_def)
  next
    case False
    let ?h1 = "h\<lparr>cblk := t\<rparr>"
    let ?h2 = "set_next x t (set_stat t STAT_FREE (set_next t (nx h x) ?h1))"
    let ?h = "set_stat x STAT_MALLOCED ?h2"
    have tk: "take_block x t (nx h x) h = ?h"
      using False by (simp add: take_block_def Let_def)
    have tn: "t < nx h x" "t < 2 ^ 32"
      using False t(3) n32 by auto
    have N: "nx ?h = (nx h)(t := nx h x, x := t)" "st ?h = (st h)(t := STAT_FREE, x := STAT_MALLOCED)"
      using x8 t(1) tn n32 by (simp_all add: stat_bounds)
    note sp = split_ok [OF b t(2) tn(1) t(1) x]
    have s: "blocks_ok (nx ?h) (st ?h) (bblk h) (P @ x # t # R) (eblk h)"
      "own (nx ?h) (st ?h) (P @ x # t # R) = insert (x, t) (owned h (P @ x # R))"
      using stat_ok(1,2) [OF sp(1), of x] unfolding N sp(2) by auto
    have "heap_ok ?h (P @ x # t # R)"
      using ok s(1) unfolding heap_ok_def by simp
    moreover have "outside (owned h (P @ x # R)) t"
    proof -
      have "outside (owned ?h (P @ x # t # R)) t"
        by (rule heap_outside [OF calculation]) simp
      then show ?thesis
        unfolding s(2) outside_def by blast
    qed
    then have "keeps (owned h (P @ x # R)) (mem h) (mem ?h)"
      using ox by (intro keeps_header) simp_all
    ultimately show ?thesis
      unfolding tk using s(2) by (auto simp: same_arena_def)
  qed
qed

text \<open>What the search leaves behind: a good state, in which the blocks that were
allocated are untouched and at most one block more is allocated.\<close>

definition result_ok :: "nat \<Rightarrow> heap \<Rightarrow> nat list \<Rightarrow> nat option \<Rightarrow> heap \<Rightarrow> nat list \<Rightarrow> bool" where
  "result_ok n h mid r h' mid' \<longleftrightarrow>
     heap_ok h' mid' \<and> keeps (owned h mid) (mem h) (mem h') \<and> malbuf h' = malbuf h \<and>
     (case r of
        None \<Rightarrow> owned h' mid' = owned h mid
      | Some b \<Rightarrow> b \<in> set mid' \<and> b \<notin> fst ` owned h mid \<and>
          (\<exists>e. owned h' mid' = insert (b, e) (owned h mid) \<and> b + 8 + n \<le> e))"

lemma result_ok_mono:
  assumes "owned h1 mid1 = owned h mid" "keeps (owned h mid) (mem h) (mem h1)" "malbuf h1 = malbuf h"
    "result_ok n h1 mid1 r h' mid'"
  shows "result_ok n h mid r h' mid'"
  using assms(3,4) keeps_trans [OF assms(2)] unfolding result_ok_def assms(1) by simp

lemma owned_fst: "b \<in> fst ` own N S mid \<longleftrightarrow> b \<in> set mid \<and> S b = STAT_MALLOCED"
  by (force simp: own_def)

lemma free_prefix:
  obtains F R where "xs = F @ R" "\<forall>f\<in>set F. S f = STAT_FREE" "R = [] \<or> S (hd R) \<noteq> STAT_FREE"
proof
  show "xs = takeWhile (\<lambda>b. S b = STAT_FREE) xs @ dropWhile (\<lambda>b. S b = STAT_FREE) xs"
    by simp
  show "dropWhile (\<lambda>b. S b = STAT_FREE) xs = [] \<or> S (hd (dropWhile (\<lambda>b. S b = STAT_FREE) xs)) \<noteq> STAT_FREE"
    using hd_dropWhile by blast
qed (auto dest: set_takeWhileD)

lemma mid_block:
  assumes "heap_ok h mid" "b \<in> set (ring h mid)" "st h b = STAT_FREE"
  shows "b \<in> set mid"
  using assms by (auto simp: heap_ok_def blocks_ok_def)

lemma join_any:
  assumes ok: "heap_ok h mid" and x: "x \<in> set mid" "st h x = STAT_FREE"
  obtains P F R h' where "mid = P @ x # F @ R"
    "join x (blk_next x h) sc h = Some (hd (R @ [eblk h]), sc \<or> cblk h \<in> set F, h')"
    "heap_ok h' (P @ x # R)" "owned h' (P @ x # R) = owned h mid"
    "keeps (owned h mid) (mem h) (mem h')" "st h' = st h" "same_arena h h'"
    "cblk h' = (if cblk h \<in> set F then x else cblk h)" "nx h' x = hd (R @ [eblk h])"
proof -
  obtain P Q where PQ: "mid = P @ x # Q"
    using split_list x(1) by fast
  obtain F R where FR: "Q = F @ R" "\<forall>f\<in>set F. st h f = STAT_FREE" "R = [] \<or> st h (hd R) \<noteq> STAT_FREE"
    using free_prefix [of Q "st h"] by blast
  have "st h (eblk h) = STAT_END"
    using ok by (simp add: heap_ok_def blocks_ok_def)
  then have "st h (hd (R @ [eblk h])) \<noteq> STAT_FREE"
    using FR(3) by (cases R) auto
  moreover have "8 dvd x"
    using heap_block(1) [OF ok, of x] x(1) by simp
  ultimately show thesis
    using join_run [of h P x F R sc] that [of P F R] ok x(2) FR(1,2) PQ by (auto simp: nx_eq)
qed

text \<open>One step of the search round the list: with the current block \<open>b\<close>, a free
stretch \<open>F\<close> behind it joined, the block after it is closer to \<open>c\<close>.\<close>

lemma next_position:
  assumes "A \<noteq> [] \<or> B' \<noteq> []"
  shows "\<exists>A' B''. A @ b # B' = A' @ hd (B' @ A @ [b]) # B'' \<and> B'' @ A' = tl (B' @ A @ [b])"
proof (cases B')
  case Nil
  with assms obtain a A1 where "A = a # A1"
    by (cases A) auto
  with Nil show ?thesis
    by (intro exI [of _ "[]"] exI [of _ "A1 @ [b]"]) simp
next
  case (Cons x B1)
  then show ?thesis
    by (intro exI [of _ "A @ [b]"] exI [of _ B1]) simp
qed

lemma closer:
  assumes dist: "distinct (A @ b # B)" and F: "B = F @ B'" "c \<notin> set F" and c: "c \<in> set (A @ b # B')"
    and ne: "hd (B' @ A @ [b]) \<noteq> c"
  shows "length (takeWhile (\<lambda>x. x \<noteq> c) (tl (B' @ A @ [b]))) < length (takeWhile (\<lambda>x. x \<noteq> c) (B @ A))"
proof -
  let ?t = "takeWhile (\<lambda>x. x \<noteq> c)"
  obtain y ys where cons: "B' @ A @ [b] = y # ys"
    by (cases B'; cases A) auto
  then have "length (?t (tl (B' @ A @ [b]))) < length (?t (B' @ A @ [b]))"
    using ne by simp
  also have "\<dots> \<le> length (?t (B @ A))"
  proof (cases "c = b")
    case True
    then have "\<forall>x\<in>set (B @ A). x \<noteq> c"
      using dist by auto
    then have 1: "?t (B @ A) = B @ A"
      by (simp only: takeWhile_eq_all_conv)
    have "?t ((B' @ A) @ [b]) = ?t (B' @ A)"
      using True by (intro takeWhile_tail) simp
    then have "length (?t (B' @ A @ [b])) \<le> length (B' @ A)"
      using length_takeWhile_le [of _ "B' @ A"] by simp
    then show ?thesis
      unfolding 1 using F(1) by simp
  next
    case False
    then have "c \<in> set (B' @ A)"
      using c by auto
    then have "?t ((B' @ A) @ [b]) = ?t (B' @ A)"
      by (intro takeWhile_append1) auto
    moreover have "?t (F @ B' @ A) = F @ ?t (B' @ A)"
      using F(2) by (intro takeWhile_append2) auto
    ultimately show ?thesis
      using F(1) by simp
  qed
  finally show ?thesis .
qed

lemma split_unique:
  "distinct (A @ b # B) \<Longrightarrow> A @ b # B = C @ b # D \<Longrightarrow> A = C \<and> B = D"
proof (induction A arbitrary: C)
  case Nil
  then show ?case by (cases C) auto
next
  case (Cons a A)
  then obtain C' where C': "C = a # C'" "A @ b # B = C' @ b # D"
    by (cases C) auto
  have "distinct (A @ b # B)"
    using Cons.prems(1) by simp
  from Cons.IH [OF this C'(2)] C'(1) show ?case
    by simp
qed

lemma ring_distinct: "heap_ok h mid \<Longrightarrow> distinct (ring h mid)"
  unfolding heap_ok_def blocks_ok_def by (metis strict_sorted_iff)

text \<open>The search goes once round the list: \<open>A @ b # B\<close> is the list with the current
block \<open>b\<close>, and what is left to visit is what comes before \<open>cblk\<close> in \<open>B @ A\<close>.\<close>

lemma search_run:
  assumes "heap_ok h mid" "ring h mid = A @ b # B" "0 < n" "malbuf h + max_malloc + n + 16 < 2 ^ 32"
  shows "\<exists>r h' mid'. search n b sc h = Some (r, h') \<and> result_ok n h mid r h' mid' \<and>
    (r = None \<longrightarrow> same_arena h h')"
  using assms
proof (induction "length (takeWhile (\<lambda>x. x \<noteq> cblk h) (B @ A))" arbitrary: h mid A b B sc rule: less_induct)
  case less
  note ok = less.prems(1)
  have br: "b \<in> set (ring h mid)"
    unfolding less.prems(2) by simp
  note b = heap_block [OF ok br]
  have dist: "distinct (A @ b # B)"
    using ring_distinct [OF ok] unfolding less.prems(2) .
  have nxt: "blk_next b h = hd (B @ A @ [b])"
    by (rule heap_next [OF ok less.prems(2)])
  have go: "\<exists>r h' mid'. (if hd (B' @ A @ [b]) \<noteq> cblk h1 \<and> \<not> sc' then search n (hd (B' @ A @ [b])) sc' h1
        else Some (None, h1)) = Some (r, h') \<and> result_ok n h mid r h' mid' \<and> (r = None \<longrightarrow> same_arena h h')"
    if h1: "heap_ok h1 mid1" "ring h1 mid1 = A @ b # B'" "owned h1 mid1 = owned h mid"
      "keeps (owned h mid) (mem h) (mem h1)" "same_arena h h1"
      and shorter: "\<not> sc' \<Longrightarrow> cblk h1 = cblk h \<and> (\<exists>F. B = F @ B' \<and> cblk h \<notin> set F)"
    for h1 mid1 B' sc'
  proof (cases "hd (B' @ A @ [b]) \<noteq> cblk h1 \<and> \<not> sc'")
    case False
    have "result_ok n h mid None h1 mid1"
      using h1 by (simp add: result_ok_def same_arena_def)
    with False h1(5) show ?thesis
      by auto
  next
    case True
    obtain F where F: "B = F @ B'" "cblk h1 \<notin> set F" "cblk h1 = cblk h"
      using True shorter by auto
    have "cblk h1 \<in> set (A @ b # B')"
      using h1(1,2) by (auto simp: heap_ok_def)
    note shorter' = closer [OF dist F(1,2) this conjunct1 [OF True]]
    have "A \<noteq> [] \<or> B' \<noteq> []"
      using arg_cong [OF h1(2), of length] by auto
    then obtain A' B'' where ring': "ring h1 mid1 = A' @ hd (B' @ A @ [b]) # B''" "B'' @ A' = tl (B' @ A @ [b])"
      using next_position [of A B' b] h1(2) by auto
    have "malbuf h1 + max_malloc + n + 16 < 2 ^ 32"
      using h1(5) less.prems(4) by (simp add: same_arena_def)
    then obtain r h' mid' where s: "search n (hd (B' @ A @ [b])) sc' h1 = Some (r, h')"
      "result_ok n h1 mid1 r h' mid'" "r = None \<longrightarrow> same_arena h1 h'"
      using less.hyps [OF _ h1(1) ring'(1) less.prems(3), of sc'] shorter' ring'(2) F(3) by auto
    have "result_ok n h mid r h' mid'"
      using result_ok_mono [OF h1(3,4) _ s(2)] h1(5) by (simp add: same_arena_def)
    then show ?thesis
      using True s(1,3) h1(5) by (auto simp: same_arena_def)
  qed
  show ?case
  proof (cases "st h b = STAT_FREE")
    case False
    have "search n b sc h = (if hd (B @ A @ [b]) \<noteq> cblk h \<and> \<not> sc then search n (hd (B @ A @ [b])) sc h
        else Some (None, h))"
      using False b(1) nxt by (subst search.simps) (simp add: st_eq Let_def)
    then show ?thesis
      using go [OF ok less.prems(2), of sc] by (simp add: same_arena_def)
  next
    case True
    obtain P F R h1 where j: "mid = P @ b # F @ R"
      "join b (blk_next b h) sc h = Some (hd (R @ [eblk h]), sc \<or> cblk h \<in> set F, h1)"
      "heap_ok h1 (P @ b # R)" "owned h1 (P @ b # R) = owned h mid"
      "keeps (owned h mid) (mem h) (mem h1)" "st h1 = st h" "same_arena h h1"
      "cblk h1 = (if cblk h \<in> set F then b else cblk h)" "nx h1 b = hd (R @ [eblk h])"
      using join_any [OF ok mid_block [OF ok br True] True, of sc] by blast
    let ?b2 = "hd (R @ [eblk h])" and ?tmp = "ROUNDUP (w32 (b + n + BLOCKSZ))"
    have AB: "A = bblk h # P" "B = F @ R @ [eblk h]"
      using split_unique [OF dist, of "bblk h # P" "F @ R @ [eblk h]"] less.prems(2) j(1) by simp_all
    have tmp: "8 dvd ?tmp" "b + n + 8 \<le> ?tmp"
      using roundup [of "b + n + 8"] b(5) less.prems(4) by (auto simp: BLOCKSZ_def)
    show ?thesis
    proof (cases "?tmp \<le> ?b2")
      case fit: True
      let ?h = "take_block b ?tmp ?b2 h1"
      have s: "search n b sc h = Some (Some b, ?h)"
        using True b(1) j(2) fit by (subst search.simps) (simp add: st_eq Let_def)
      obtain mid' where t: "heap_ok ?h mid'" "owned ?h mid' = insert (b, ?tmp) (owned h1 (P @ b # R))"
        "keeps (owned h1 (P @ b # R)) (mem h1) (mem ?h)" "same_arena h1 ?h"
        using take_run [OF j(3), of ?tmp] j(6,9) True tmp fit less.prems(3) by auto
      have "b \<notin> fst ` owned h mid"
        using True by (simp add: owned_fst)
      moreover have "b \<in> set mid'"
        using t(2) own_mem [of b ?tmp "nx ?h" "st ?h" mid'] by simp
      moreover have "keeps (owned h mid) (mem h) (mem ?h)"
        using keeps_trans [OF j(5)] t(3) j(4) by simp
      ultimately have "result_ok n h mid (Some b) ?h mid'"
        using t(1,2,4) j(4,7) tmp(2) by (auto simp: result_ok_def same_arena_def)
      then show ?thesis
        using s by blast
    next
      case False
      have r1: "ring h1 (P @ b # R) = A @ b # R @ [eblk h]"
        using AB(1) j(7) by (simp add: same_arena_def)
      have "search n b sc h = (if hd ((R @ [eblk h]) @ A @ [b]) \<noteq> cblk h1 \<and> \<not> (sc \<or> cblk h \<in> set F)
          then search n (hd ((R @ [eblk h]) @ A @ [b])) (sc \<or> cblk h \<in> set F) h1 else Some (None, h1))"
        using True b(1) j(2) False heap_next [OF j(3) r1]
        by (subst search.simps) (simp add: st_eq Let_def)
      then show ?thesis
        using go [OF j(3) r1 j(4,5,7), of "sc \<or> cblk h \<in> set F"] AB(2) j(8) by auto
    qed
  qed
qed

section \<open>Growing the arena and setting it up\<close>

lemma roundup_add:
  assumes "8 dvd a" "a + x + 7 < 2 ^ 32"
  shows "ROUNDUP (a + x) = a + ROUNDUP x"
proof -
  obtain k where "a = 8 * k"
    using assms(1) by (auto simp: dvd_def)
  with assms(2) show ?thesis
    by (simp add: ROUNDUP_def BLOCKSZ_def add.assoc)
qed

lemma owned_below_end:
  assumes "heap_ok h mid" "(b, e) \<in> owned h mid"
  shows "b + 8 \<le> e" "e \<le> eblk h" "b \<in> set mid" "e = nx h b"
proof -
  have b: "b \<in> set mid" "e = nx h b" "blocks_ok (nx h) (st h) (bblk h) mid (eblk h)"
    using assms by (auto simp: own_mem heap_ok_def)
  show "b + 8 \<le> e"
    using blocks_next(1) [OF b(3,1)] b(2) by simp
  show "e \<le> eblk h"
    using heap_block(2) [OF assms(1), of e] blocks_next(2) [OF b(3,1)] b(2) by auto
qed (use assms in \<open>auto simp: own_mem\<close>)

lemma grow_run:
  assumes ok: "heap_ok h mid" and n: "0 < n" "malbuf h + max_malloc + n + 16 < 2 ^ 32"
  shows "\<exists>b h' mid'. grow n h = (b, h') \<and>
    result_ok n h mid (if b = 0 then None else Some b) h' mid' \<and>
    (b = 0 \<longleftrightarrow> malbuf h + max_malloc \<le> mptr h + ROUNDUP (n + 8))"
proof -
  let ?e = "eblk h + ROUNDUP (n + 8)"
  note eb = heap_block [OF ok, of "eblk h"]
  have m: "mptr h = eblk h + 8" "mptr h < malbuf h + max_malloc"
    using ok by (auto simp: heap_ok_def)
  note ru = roundup [of "n + 8"]
  have lt: "mptr h + ROUNDUP (n + 8) < 2 ^ 32"
    using ru n m(2) by simp
  have g: "getblock (w32 (n + BLOCKSZ)) h =
      (if mptr h + ROUNDUP (n + 8) < malbuf h + max_malloc
       then (mptr h, h\<lparr>mptr := mptr h + ROUNDUP (n + 8)\<rparr>) else (0, h))"
    using n lt by (simp add: getblock_def BLOCKSZ_def)
  show ?thesis
  proof (cases "mptr h + ROUNDUP (n + 8) < malbuf h + max_malloc")
    case False
    then show ?thesis
      using g ok by (auto simp: grow_def result_ok_def)
  next
    case True
    have e: "ROUNDUP (w32 (eblk h + n + BLOCKSZ)) = ?e"
      using roundup_add [of "eblk h" "n + 8"] eb n(2) by (simp add: BLOCKSZ_def add.assoc)
    let ?h = "set_next (eblk h) ?e (set_stat (eblk h) STAT_MALLOCED (set_stat ?e STAT_END
      (set_next ?e (bblk h) (h\<lparr>mptr := mptr h + ROUNDUP (n + 8), eblk := ?e\<rparr>))))"
    have gr: "grow n h = (eblk h, ?h)"
      using g True m(1) e by (simp add: grow_def Let_def)
    have e8: "8 dvd ?e" "eblk h < ?e" "?e < 2 ^ 32" "eblk h + 8 + n \<le> ?e"
      using ru eb lt m(1) n by (auto simp: dvd_add)
    have bb: "bblk h < 2 ^ 32"
      using heap_block(3) [OF ok, of "bblk h"] by simp
    have N: "nx ?h = (nx h)(?e := bblk h, eblk h := ?e)"
      "st ?h = (st h)(?e := STAT_END, eblk h := STAT_MALLOCED)"
      using e8 eb bb by (simp_all add: stat_bounds)
    have b: "blocks_ok (nx h) (st h) (bblk h) mid (eblk h)"
      using ok by (simp add: heap_ok_def)
    note gk = grow_ok [OF b e8(2,1), folded N]
    have "heap_ok ?h (mid @ [eblk h])"
      using ok gk(1) True m(1) unfolding heap_ok_def by auto
    moreover have "keeps (owned h mid) (mem h) (mem ?h)"
    proof -
      have "outside (owned h mid) (eblk h)"
        by (rule heap_outside [OF ok]) simp
      moreover have "outside (owned h mid) ?e"
        using owned_below_end(2) [OF ok] by (auto simp: outside_def intro: trans_le_add1)
      ultimately show ?thesis
        by (intro keeps_header) simp_all
    qed
    moreover have "eblk h \<notin> fst ` owned h mid"
      using ring_distinct [OF ok] by (auto simp: owned_fst)
    moreover have "eblk h \<noteq> 0"
      using eb by simp
    moreover have "malbuf ?h = malbuf h"
      by simp
    ultimately have "result_ok n h mid (Some (eblk h)) ?h (mid @ [eblk h])"
      unfolding result_ok_def option.case using gk(2) e8(4)
      by (intro conjI exI [of _ ?e]) simp_all
    with gr True \<open>eblk h \<noteq> 0\<close> show ?thesis
      by auto
  qed
qed

lemma start_run:
  assumes "bblk h = 0" "0 < malbuf h" "malbuf h + max_malloc < 2 ^ 32"
  shows "\<exists>h'. start_list h = (True, h') \<and> heap_ok h' [] \<and> malbuf h' = malbuf h \<and> mptr h' = ROUNDUP (malbuf h) + 16"
proof -
  let ?b = "ROUNDUP (malbuf h)"
  have b: "8 dvd ?b" "malbuf h \<le> ?b" "?b < malbuf h + 8"
    using roundup [of "malbuf h"] assms(3) by (auto simp: max_malloc_def)
  have r8: "ROUNDUP 8 = 8"
    by (simp add: ROUNDUP_def BLOCKSZ_def)
  have lt: "?b + 16 < malbuf h + max_malloc" "?b + 16 < 2 ^ 32"
    using b assms(3) by (auto simp: max_malloc_def)
  let ?h = "(set_next (?b + 8) ?b (set_stat (?b + 8) STAT_END (set_next ?b (?b + 8) (set_stat ?b STAT_BEG
      (h\<lparr>bblk := ?b, mptr := 16 + ?b, eblk := ?b + 8\<rparr>)))))\<lparr>cblk := ?b\<rparr>"
  have st: "start_list h = (True, ?h)"
    using lt b assms by (simp add: start_list_def getblock_def BLOCKSZ_def r8 Let_def)
  have N: "nx ?h = (nx h)(?b := ?b + 8, ?b + 8 := ?b)" "st ?h = (st h)(?b := STAT_BEG, ?b + 8 := STAT_END)"
    using b(1) lt by (simp_all add: stat_bounds)
  have "blocks_ok (nx ?h) (st ?h) ?b [] (?b + 8)"
    unfolding N blocks_ok_def using b(1) by simp
  then have "heap_ok ?h []"
    unfolding heap_ok_def using lt b assms by simp
  with st show ?thesis
    by simp
qed

section \<open>The blocks of a state\<close>

text \<open>Walking the list from the block after \<open>bblk\<close> to \<open>eblk\<close>; no list is longer than
the arena.\<close>

fun walk :: "nat \<Rightarrow> nat \<Rightarrow> heap \<Rightarrow> nat list" where
  "walk 0 b h = []"
| "walk (Suc k) b h = (if b = eblk h then [] else b # walk k (blk_next b h) h)"

definition blocks :: "heap \<Rightarrow> nat list" where
  "blocks h = (if bblk h = 0 then [] else walk max_malloc (blk_next (bblk h) h) h)"

definition valid :: "heap \<Rightarrow> bool" where
  "valid h \<longleftrightarrow>
     (if bblk h = 0 then 0 < malbuf h \<and> malbuf h + max_malloc < 2 ^ 32 else heap_ok h (blocks h))"

text \<open>The allocated areas, each as the pointer given out and its end.\<close>

definition areas :: "heap \<Rightarrow> (nat \<times> nat) set" where
  "areas h = (\<lambda>(b, e). (b + 8, e)) ` owned h (blocks h)"

lemma walk_linked:
  assumes "heap_ok h mid"
  shows "ring h mid = A @ b # B \<Longrightarrow> length B \<le> k \<Longrightarrow> B \<noteq> [] \<Longrightarrow> walk k (blk_next b h) h = butlast B"
proof (induction B arbitrary: A b k)
  case (Cons c B)
  have n: "blk_next b h = c"
    using heap_next [OF assms Cons.prems(1)] by simp
  obtain k' where k: "k = Suc k'"
    using Cons.prems(2) by (cases k) auto
  have l: "last (c # B) = eblk h"
    using arg_cong [OF Cons.prems(1), of last] by simp
  show ?case
  proof (cases B)
    case Nil
    then show ?thesis
      using n k l by simp
  next
    case (Cons d D)
    have "c \<noteq> eblk h"
      using ring_distinct [OF assms] l Cons unfolding Cons.prems(1)
      by (metis distinct.simps(2) distinct_append last_ConsR last_in_set list.discI)
    moreover have "walk k' (blk_next c h) h = butlast B"
      using Cons.IH [of "A @ [b]" c k'] Cons.prems Cons k by simp
    ultimately show ?thesis
      using n k Cons by simp
  qed
qed simp

lemma short_list:
  assumes "heap_ok h mid"
  shows "length mid + 2 \<le> max_malloc"
proof -
  have "set (ring h mid) \<subseteq> {malbuf h..<malbuf h + max_malloc}"
    using heap_block(4,5) [OF assms] by (meson atLeastLessThan_iff subsetI)
  then have "card (set (ring h mid)) \<le> max_malloc"
    using card_mono [of "{malbuf h..<malbuf h + max_malloc}"] by simp
  then show ?thesis
    using distinct_card [OF ring_distinct [OF assms]] by simp
qed

lemma heap_ok_blocks: "heap_ok h mid \<Longrightarrow> blocks h = mid"
  using walk_linked [of h mid "[]" "bblk h" "mid @ [eblk h]" max_malloc] short_list [of h mid]
    heap_block(6) [of h mid "bblk h"]
  by (simp add: blocks_def)

lemma heap_ok_valid: "heap_ok h mid \<Longrightarrow> valid h"
  using heap_block(6) [of h mid "bblk h"] by (simp add: valid_def heap_ok_blocks)

lemma heap_ok_areas: "heap_ok h mid \<Longrightarrow> areas h = (\<lambda>(b, e). (b + 8, e)) ` owned h mid"
  by (simp add: areas_def heap_ok_blocks)

lemma areas_empty: "bblk h = 0 \<Longrightarrow> areas h = {}"
  by (simp add: areas_def blocks_def own_simps)

text \<open>The bytes of the areas are the same.\<close>

definition contents_kept :: "(nat \<times> nat) set \<Rightarrow> heap \<Rightarrow> heap \<Rightarrow> bool" where
  "contents_kept A h h' \<longleftrightarrow> (\<forall>p e w. (p, e) \<in> A \<longrightarrow> p \<le> w \<longrightarrow> w < e \<longrightarrow> mem h' w = mem h w)"

lemma keeps_contents:
  "keeps A (mem h) (mem h') \<Longrightarrow> contents_kept ((\<lambda>(b, e). (b + 8, e)) ` A) h h'"
  unfolding keeps_def contents_kept_def by auto

lemma malloc_run:
  assumes v: "valid h" and n: "0 < n" "malbuf h + max_malloc + n + 16 < 2 ^ 32"
  shows "\<exists>p h'. malloc n h = Some (p, h') \<and> valid h' \<and> malbuf h' = malbuf h \<and>
    contents_kept (areas h) h h' \<and>
    (if p = 0 then areas h' = areas h
     else \<exists>e. areas h' = insert (p, e) (areas h) \<and> p + n \<le> e \<and> p \<notin> fst ` areas h \<and> 8 dvd p)"
proof -
  obtain h1 mid where h1: "(if bblk h = 0 then start_list h else (True, h)) = (True, h1)"
    "heap_ok h1 mid" "malbuf h1 = malbuf h" "areas h = (\<lambda>(b, e). (b + 8, e)) ` owned h1 mid"
    "contents_kept (areas h) h h1"
  proof (cases "bblk h = 0")
    case True
    then obtain h1 where "start_list h = (True, h1)" "heap_ok h1 []" "malbuf h1 = malbuf h"
      using start_run [of h] v by (auto simp: valid_def)
    then show thesis
      using that [of h1 "[]"] True by (simp add: areas_empty contents_kept_def own_simps)
  next
    case False
    then show thesis
      using that [of h "blocks h"] v by (simp add: valid_def areas_def contents_kept_def)
  qed
  have c: "cblk h1 \<in> set (ring h1 mid)"
    using h1(2) by (simp add: heap_ok_def)
  then obtain A B where AB: "ring h1 mid = A @ cblk h1 # B"
    using split_list by fast
  have n1: "malbuf h1 + max_malloc + n + 16 < 2 ^ 32"
    using n(2) h1(3) by simp
  obtain r h2 mid2 where s: "search n (cblk h1) False h1 = Some (r, h2)" "result_ok n h1 mid r h2 mid2"
    "r = None \<longrightarrow> same_arena h1 h2"
    using search_run [OF h1(2) AB n(1) n1, of False] by blast
  have fin: "\<exists>e. areas h' = insert (b + 8, e) (areas h) \<and> b + 8 + n \<le> e \<and> b + 8 \<notin> fst ` areas h \<and>
      8 dvd b + 8 \<and> b + 8 < 2 ^ 32"
    "valid h'" "contents_kept (areas h) h h'" "malbuf h' = malbuf h"
    if r: "result_ok n h1 mid (Some b) h' mid'" for b h' mid'
  proof -
    have ok: "heap_ok h' mid'" "b \<in> set mid'" "b \<notin> fst ` owned h1 mid"
      "keeps (owned h1 mid) (mem h1) (mem h')" "malbuf h' = malbuf h"
      using r h1(3) by (auto simp: result_ok_def)
    obtain e where e: "owned h' mid' = insert (b, e) (owned h1 mid)" "b + 8 + n \<le> e"
      using r by (auto simp: result_ok_def)
    have "b + 8 < 2 ^ 32" "8 dvd b"
      using owned_below_end(1,2) [OF ok(1), of b e] e(1) heap_block(1,3) [OF ok(1), of "eblk h'"]
        heap_block(1) [OF ok(1), of b] ok(2) by auto
    moreover have "areas h' = insert (b + 8, e) (areas h)"
      unfolding heap_ok_areas [OF ok(1)] h1(4) e(1) by simp
    moreover have "b + 8 \<notin> fst ` areas h"
      unfolding h1(4) using ok(3) by force
    ultimately show "\<exists>e. areas h' = insert (b + 8, e) (areas h) \<and> b + 8 + n \<le> e \<and>
        b + 8 \<notin> fst ` areas h \<and> 8 dvd b + 8 \<and> b + 8 < 2 ^ 32"
      using e(2) by (intro exI [of _ e]) (simp add: dvd_add)
    show "valid h'" "malbuf h' = malbuf h"
      using heap_ok_valid [OF ok(1)] ok(5) by auto
    show "contents_kept (areas h) h h'"
      using keeps_contents [OF ok(4)] h1(4,5) by (simp add: contents_kept_def)
  qed
  show ?thesis
  proof (cases r)
    case (Some b)
    then have "malloc n h = Some (b + 8, h2)"
      using s(1) h1(1) n(1) fin(1) [of b h2 mid2] s(2) by (auto simp: malloc_def BLOCKSZ_def)
    then show ?thesis
      using fin [of b h2 mid2] s(2) Some by auto
  next
    case None
    have ok2: "heap_ok h2 mid2" "owned h2 mid2 = owned h1 mid" "keeps (owned h1 mid) (mem h1) (mem h2)"
      "malbuf h2 = malbuf h1"
      using s(2) None by (auto simp: result_ok_def)
    obtain b h3 mid3 where g: "grow n h2 = (b, h3)"
      "result_ok n h2 mid2 (if b = 0 then None else Some b) h3 mid3"
      using grow_run [OF ok2(1) n(1)] n1 ok2(4) by auto
    have g': "result_ok n h1 mid (if b = 0 then None else Some b) h3 mid3"
      by (rule result_ok_mono [OF ok2(2,3,4) g(2)])
    show ?thesis
    proof (cases "b = 0")
      case True
      have "heap_ok h3 mid3" "owned h3 mid3 = owned h1 mid" "keeps (owned h1 mid) (mem h1) (mem h3)"
        "malbuf h3 = malbuf h"
        using g' True h1(3) by (auto simp: result_ok_def)
      then have "valid h3 \<and> areas h3 = areas h \<and> contents_kept (areas h) h h3"
        using heap_ok_valid heap_ok_areas keeps_contents [of "owned h1 mid" h1 h3] h1(4,5)
        by (simp add: contents_kept_def)
      moreover have "malloc n h = Some (0, h3)"
        using s(1) h1(1) n(1) None g(1) True by (simp add: malloc_def)
      ultimately show ?thesis
        using \<open>malbuf h3 = malbuf h\<close> by simp
    next
      case False
      then have "malloc n h = Some (b + 8, h3)"
        using s(1) h1(1) n(1) None g(1) fin(1) [of b h3 mid3] g' by (auto simp: malloc_def BLOCKSZ_def)
      then show ?thesis
        using fin [of b h3 mid3] g' False by auto
    qed
  qed
qed

section \<open>Freeing\<close>

lemma area_block:
  assumes "valid h" "(p, e) \<in> areas h"
  shows "heap_ok h (blocks h)" "8 \<le> p" "(p - 8, e) \<in> owned h (blocks h)" "p - 8 \<in> set (blocks h)"
    "st h (p - 8) = STAT_MALLOCED" "e = nx h (p - 8)" "p \<le> e" "8 dvd p" "8 dvd p - 8"
    "malbuf h + 8 \<le> p" "e \<le> eblk h" "p < 2 ^ 32" "p < malbuf h + max_malloc"
proof -
  have "bblk h \<noteq> 0"
    using assms(2) areas_empty by auto
  then show ok: "heap_ok h (blocks h)"
    using assms(1) by (simp add: valid_def)
  show p: "8 \<le> p" "(p - 8, e) \<in> owned h (blocks h)"
    using assms(2) by (auto simp: areas_def)
  show b: "p - 8 \<in> set (blocks h)" "st h (p - 8) = STAT_MALLOCED" "e = nx h (p - 8)"
    using p(2) by (auto simp: own_mem)
  note hb = heap_block [OF ok, of "p - 8"]
  show d: "8 dvd p - 8"
    using hb(1) b(1) by simp
  then have "8 dvd p - 8 + 8"
    by simp
  then show "8 dvd p"
    using p(1) by (simp only: le_add_diff_inverse2)
  show pe: "p \<le> e"
    using owned_below_end(1) [OF ok p(2)] p(1) by simp
  show ee: "e \<le> eblk h"
    by (rule owned_below_end(2) [OF ok p(2)])
  show "malbuf h + 8 \<le> p"
    using hb(4) b(1) p(1) by simp
  show "p < 2 ^ 32" "p < malbuf h + max_malloc"
    using pe ee heap_block(3,5) [OF ok, of "eblk h"] by auto
qed

lemma areas_functional: "(p, e) \<in> areas h \<Longrightarrow> (p, f) \<in> areas h \<Longrightarrow> e = f"
  by (auto simp: areas_def own_mem)

lemma areas_apart:
  assumes "valid h" "(p, e) \<in> areas h" "(q, f) \<in> areas h" "p \<noteq> q"
  shows "e + 8 \<le> q \<or> f + 8 \<le> p"
proof -
  note P = area_block [OF assms(1,2)] and Q = area_block [OF assms(1,3)]
  have b: "blocks_ok (nx h) (st h) (bblk h) (blocks h) (eblk h)"
    using P(1) by (simp add: heap_ok_def)
  have "q - 8 \<le> p - 8 \<or> e \<le> q - 8" "p - 8 \<le> q - 8 \<or> f \<le> p - 8"
    using blocks_gap [OF b P(4), of "q - 8"] blocks_gap [OF b Q(4), of "p - 8"] P(4,6) Q(4,6) by auto
  then show ?thesis
    using P(2) Q(2) assms(4) by auto
qed

lemma block_of_pointer: "8 \<le> p \<Longrightarrow> p < 2 ^ 32 \<Longrightarrow> w32 (p + (2 ^ 32 - BLOCKSZ)) = p - 8"
proof -
  assume p: "8 \<le> p" "p < 2 ^ 32"
  then have "p + (2 ^ 32 - BLOCKSZ) = (p - 8) + 2 ^ 32"
    by (simp add: BLOCKSZ_def)
  then have "w32 (p + (2 ^ 32 - BLOCKSZ)) = (p - 8) mod 2 ^ 32"
    unfolding w32_def by (simp only: mod_add_self2)
  with p(2) show ?thesis
    by simp
qed

lemma free_run:
  assumes v: "valid h" and a: "(p, e) \<in> areas h"
  shows "\<exists>h'. free p h = Some h' \<and> valid h' \<and> areas h' = areas h - {(p, e)} \<and>
    contents_kept (areas h - {(p, e)}) h h' \<and> malbuf h' = malbuf h"
proof -
  note A = area_block [OF v a]
  let ?b = "p - 8" and ?mid = "blocks h"
  let ?h1 = "(set_stat ?b STAT_FREE h)\<lparr>cblk := ?b\<rparr>"
  have b: "blocks_ok (nx h) (st h) (bblk h) ?mid (eblk h)"
    using A(1) by (simp add: heap_ok_def)
  have N: "nx ?h1 = nx h" "st ?h1 = (st h)(?b := STAT_FREE)"
    using A(9) by (simp_all add: stat_bounds)
  have ok1: "heap_ok ?h1 ?mid"
    using A(1,4) stat_ok(1) [OF b A(4), of STAT_FREE] unfolding heap_ok_def N by simp
  have ow1: "owned ?h1 ?mid = owned h ?mid - {(?b, e)}"
    unfolding N A(6) by (rule stat_ok(3) [OF b A(4)])
  have k1: "keeps (owned h ?mid) (mem h) (mem ?h1)"
    using keeps_header(2) [OF heap_outside [OF A(1), of ?b]] A(4) by simp
  obtain P Q where PQ: "?mid = P @ ?b # Q"
    using split_list A(4) by fast
  obtain F R where FR: "Q = F @ R" "\<forall>f\<in>set F. st ?h1 f = STAT_FREE" "R = [] \<or> st ?h1 (hd R) \<noteq> STAT_FREE"
    using free_prefix [of Q "st ?h1"] by blast
  have "st ?h1 (eblk ?h1) = STAT_END"
    using ok1 by (simp add: heap_ok_def blocks_ok_def)
  then have "st ?h1 (hd (R @ [eblk ?h1])) \<noteq> STAT_FREE"
    using FR(3) by (cases R) auto
  moreover have "st ?h1 ?b = STAT_FREE" "cblk ?h1 = ?b"
    using N by simp_all
  ultimately obtain h2 where h2: "join_free ?b (nx ?h1 ?b) ?h1 = Some h2" "heap_ok h2 (P @ ?b # R)"
    "owned h2 (P @ ?b # R) = owned ?h1 ?mid" "keeps (owned ?h1 ?mid) (mem ?h1) (mem h2)" "same_arena ?h1 h2"
    using join_free_run [of ?h1 P ?b F R] ok1 FR(1,2) PQ by auto
  have "join_free ?b (blk_next ?b ?h1) ?h1 = Some h2"
    using h2(1) by (simp only: nx_eq [OF A(9)])
  then have "free p h = Some h2"
    using A(2,5,9,10,13) block_of_pointer [OF A(2,12)]
    by (simp add: free_def st_eq Let_def)
  moreover have "areas h2 = areas h - {(p, e)}"
  proof -
    have "inj (\<lambda>(b :: nat, e :: nat). (b + 8, e))"
      by (auto simp: inj_def)
    then show ?thesis
      unfolding heap_ok_areas [OF h2(2)] h2(3) ow1 heap_ok_areas [OF A(1)]
      using A(2) by (simp add: image_set_diff)
  qed
  moreover have "contents_kept (areas h - {(p, e)}) h h2"
  proof -
    have "keeps (owned ?h1 ?mid) (mem h) (mem h2)"
      using keeps_trans [OF _ h2(4)] keeps_mono [OF _ k1] ow1 by auto
    from keeps_contents [OF this] show ?thesis
      using calculation(2) unfolding heap_ok_areas [OF h2(2)] h2(3) by simp
  qed
  ultimately show ?thesis
    using heap_ok_valid [OF h2(2)] h2(5) by (simp add: same_arena_def)
qed

lemma free_other:
  assumes "p \<noteq> 0 \<Longrightarrow> blk_stat (w32 (p + (2 ^ 32 - BLOCKSZ))) h \<noteq> STAT_MALLOCED"
  shows "free p h = Some h"
  using assms by (auto simp: free_def)

section \<open>Writing into an allocated area\<close>

lemma linked_cong: "(\<And>b. b \<in> set xs \<Longrightarrow> N b = M b) \<Longrightarrow> linked N xs z = linked M xs z"
  by (induction xs) auto

lemma blocks_ok_cong:
  assumes "\<And>b. b \<in> set (bb # mid @ [eb]) \<Longrightarrow> N b = M b \<and> S b = T b" "blocks_ok N S bb mid eb"
  shows "blocks_ok M T bb mid eb" "own M T mid = own N S mid"
proof -
  have "linked M (bb # mid @ [eb]) bb = linked N (bb # mid @ [eb]) bb"
    using assms(1) by (intro linked_cong) auto
  then show "blocks_ok M T bb mid eb"
    using assms by (simp add: blocks_ok_def)
  have "filter (\<lambda>b. T b = STAT_MALLOCED) mid = filter (\<lambda>b. S b = STAT_MALLOCED) mid"
    using assms(1) by (intro filter_cong) auto
  then show "own M T mid = own N S mid"
    using assms(1) by (auto simp: own_def intro!: image_cong)
qed

lemma get32_cong: "(\<And>i. i < 4 \<Longrightarrow> m (a + i) = m' (a + i)) \<Longrightarrow> get32 m a = get32 m' a"
proof -
  assume *: "\<And>i. i < 4 \<Longrightarrow> m (a + i) = m' (a + i)"
  have "m a = m' a" "m (a + 1) = m' (a + 1)" "m (a + 2) = m' (a + 2)" "m (a + 3) = m' (a + 3)"
    using * [of 0] * [of 1] * [of 2] * [of 3] by simp_all
  then show ?thesis
    unfolding get32_def by simp
qed

lemma area_write:
  assumes v: "valid h" and a: "(p, e) \<in> areas h" and m: "\<And>w. w < p \<or> e \<le> w \<Longrightarrow> m w = mem h w"
  shows "valid (h\<lparr>mem := m\<rparr>) \<and> areas (h\<lparr>mem := m\<rparr>) = areas h"
proof -
  note A = area_block [OF v a]
  let ?h = "h\<lparr>mem := m\<rparr>"
  have b: "blocks_ok (nx h) (st h) (bblk h) (blocks h) (eblk h)"
    using A(1) by (simp add: heap_ok_def)
  have same: "nx h x = nx ?h x \<and> st h x = st ?h x" if "x \<in> set (ring h (blocks h))" for x
  proof -
    have "x \<le> p - 8 \<or> e \<le> x"
      using blocks_gap [OF b A(4) that] A(6) by simp
    then have "m (x + i) = mem h (x + i)" if "i < 8" for i
      using that A(2) by (intro m) auto
    then have "get32 m x = get32 (mem h) x" "get32 m (x + 4) = get32 (mem h) (x + 4)"
      by (auto intro!: get32_cong simp: add.assoc)
    then show ?thesis
      by (simp add: nx_def st_def blk_next_def blk_stat_def)
  qed
  note bo = blocks_ok_cong [of "bblk h" "blocks h" "eblk h" "nx h" "nx ?h" "st h" "st ?h", OF same b]
  have ok: "heap_ok ?h (blocks h)"
    using A(1) bo(1) by (simp add: heap_ok_def)
  show ?thesis
    using heap_ok_valid [OF ok] heap_ok_areas [OF ok] bo(2) by (simp add: areas_def)
qed

lemma bcopy_outside: "w < dst \<or> dst + n \<le> w \<Longrightarrow> bcopy src dst n m w = m w"
  by (auto simp: bcopy_def)

lemma bzero_outside: "w < dst \<or> dst + n \<le> w \<Longrightarrow> bzero dst n m w = m w"
  by (auto simp: bzero_def)



section \<open>The other entry points\<close>

lemma realloc_run:
  assumes v: "valid h" and a: "(p, e) \<in> areas h" and n: "0 < n" "malbuf h + max_malloc + n + 16 < 2 ^ 32"
  shows "\<exists>q h'. realloc p n h = Some (q, h') \<and> valid h' \<and> malbuf h' = malbuf h \<and>
    contents_kept (areas h - {(p, e)}) h h' \<and>
    (if q = 0 then areas h' = areas h - {(p, e)}
     else \<exists>f. areas h' = insert (q, f) (areas h - {(p, e)}) \<and> q + n \<le> f \<and>
       q \<notin> fst ` (areas h - {(p, e)}))"
proof -
  note A = area_block [OF v a]
  obtain h1 where h1: "free p h = Some h1" "valid h1" "areas h1 = areas h - {(p, e)}"
    "contents_kept (areas h - {(p, e)}) h h1" "malbuf h1 = malbuf h"
    using free_run [OF v a] by blast
  obtain q h2 where h2: "malloc n h1 = Some (q, h2)" "valid h2" "malbuf h2 = malbuf h1"
    "contents_kept (areas h1) h1 h2"
    "if q = 0 then areas h2 = areas h1
     else \<exists>f. areas h2 = insert (q, f) (areas h1) \<and> q + n \<le> f \<and> q \<notin> fst ` areas h1 \<and> 8 dvd q"
    using malloc_run [OF h1(2) n(1)] n(2) h1(5) by auto
  have kept: "contents_kept (areas h - {(p, e)}) h h2"
    using h1(3,4) h2(4) by (simp add: contents_kept_def)
  define k where "k = (if n < e - p then n else e - p)"
  have sz: "w32 (blk_next (p - 8) h + (2 ^ 32 - (p - 8)) + (2 ^ 32 - BLOCKSZ)) = e - p"
  proof -
    have "blk_next (p - 8) h = e"
      using A(6,9) by (simp add: nx_eq)
    moreover have "e < 2 ^ 32"
      using A(11) heap_block(3) [OF A(1), of "eblk h"] by simp
    ultimately have "blk_next (p - 8) h + (2 ^ 32 - (p - 8)) + (2 ^ 32 - BLOCKSZ) = (e - p) + 2 ^ 32 + 2 ^ 32"
      using A(2,7,12) by (simp add: BLOCKSZ_def)
    then show ?thesis
      using \<open>e < 2 ^ 32\<close> unfolding w32_def by (simp only: mod_add_self2) (rule mod_less, simp)
  qed
  have r: "realloc p n h =
    Some (q, if q = p \<or> q = 0 then h2 else h2\<lparr>mem := bcopy p q k (mem h2)\<rparr>)"
    using A(2,5,9) n(1) h1(1) h2(1) sz block_of_pointer [OF A(2,12)]
    by (simp add: realloc_def st_eq Let_def k_def)
  show ?thesis
  proof (cases "q = p \<or> q = 0")
    case True
    then show ?thesis
      using r h2 h1(3,5) kept by (auto split: if_splits)
  next
    case False
    then obtain f where f: "areas h2 = insert (q, f) (areas h1)" "q + n \<le> f" "q \<notin> fst ` areas h1"
      using h2(5) by auto
    let ?h3 = "h2\<lparr>mem := bcopy p q k (mem h2)\<rparr>"
    have qf: "(q, f) \<in> areas h2"
      using f(1) by simp
    have out: "bcopy p q k (mem h2) w = mem h2 w" if "w < q \<or> f \<le> w" for w
      using that f(2) by (intro bcopy_outside) (auto simp: k_def)
    note wr = area_write [OF h2(2) qf out]
    have "contents_kept (areas h - {(p, e)}) h2 ?h3"
    proof (unfold contents_kept_def, intro allI impI)
      fix p' e' w
      assume pe: "(p', e') \<in> areas h - {(p, e)}" "p' \<le> w" "w < e'"
      then have "(p', e') \<in> areas h2" "p' \<noteq> q"
        using f(1,3) h1(3) by force+
      then have "e' + 8 \<le> q \<or> f + 8 \<le> p'"
        using areas_apart [OF h2(2) _ qf] by blast
      then show "mem ?h3 w = mem h2 w"
        using pe out [of w] by auto
    qed
    then have "contents_kept (areas h - {(p, e)}) h ?h3"
      using kept by (simp add: contents_kept_def)
    then show ?thesis
      using r False wr f h1(3,5) h2(3) by auto
  qed
qed

lemma kern_calloc_run:
  assumes v: "valid h" and n: "0 < k * z" "malbuf h + max_malloc + k * z + 16 < 2 ^ 32"
  shows "\<exists>p h'. kern_calloc k z h = Some (p, h') \<and> valid h' \<and> malbuf h' = malbuf h \<and>
    contents_kept (areas h) h h' \<and>
    (if p = 0 then areas h' = areas h
     else \<exists>e. areas h' = insert (p, e) (areas h) \<and> p + k * z \<le> e \<and> p \<notin> fst ` areas h \<and>
       (\<forall>i. i < k * z \<longrightarrow> mem h' (p + i) = 0))"
proof -
  obtain p h1 where h1: "malloc (k * z) h = Some (p, h1)" "valid h1" "malbuf h1 = malbuf h"
    "contents_kept (areas h) h h1"
    "if p = 0 then areas h1 = areas h
     else \<exists>e. areas h1 = insert (p, e) (areas h) \<and> p + k * z \<le> e \<and> p \<notin> fst ` areas h \<and> 8 dvd p"
    using malloc_run [OF v n] by blast
  have w: "w32 (k * z) = k * z"
    using n(2) by simp
  let ?h2 = "h1\<lparr>mem := bzero p (k * z) (mem h1)\<rparr>"
  have r: "kern_calloc k z h = Some (p, if p \<noteq> 0 then ?h2 else h1)"
    using h1(1) by (simp add: kern_calloc_def w)
  show ?thesis
  proof (cases "p = 0")
    case True
    then show ?thesis
      using r h1 by simp
  next
    case False
    then obtain e where e: "areas h1 = insert (p, e) (areas h)" "p + k * z \<le> e" "p \<notin> fst ` areas h"
      using h1(5) by auto
    have pe: "(p, e) \<in> areas h1"
      using e(1) by simp
    have out: "bzero p (k * z) (mem h1) w = mem h1 w" if "w < p \<or> e \<le> w" for w
      using that e(2) by (intro bzero_outside) auto
    have "contents_kept (areas h) h ?h2"
    proof (unfold contents_kept_def, intro allI impI)
      fix p' e' w
      assume w: "(p', e') \<in> areas h" "p' \<le> w" "w < e'"
      then have "(p', e') \<in> areas h1" "p' \<noteq> p"
        using e(1,3) by force+
      then have "e' + 8 \<le> p \<or> e + 8 \<le> p'"
        using areas_apart [OF h1(2) _ pe] by blast
      then have "mem ?h2 w = mem h1 w"
        using w out [of w] by auto
      then show "mem ?h2 w = mem h w"
        using h1(4) w by (simp add: contents_kept_def)
    qed
    moreover have "mem ?h2 (p + i) = 0" if "i < k * z" for i
      using that by (simp add: bzero_def)
    ultimately show ?thesis
      using r False area_write [OF h1(2) pe out] e h1(3) by auto
  qed
qed



section \<open>Aligned allocation\<close>

lemma cut_ok:
  assumes ok: "blocks_ok N S bb (P @ x # Q) eb" and t: "x < t" "t < N x" "8 dvd t"
    and s: "s \<in> {STAT_FREE, STAT_MALLOCED}" "s' \<in> {STAT_FREE, STAT_MALLOCED}"
  shows "blocks_ok (N(t := N x, x := t)) (S(t := s, x := s')) bb (P @ x # t # Q) eb"
    "own (N(t := N x, x := t)) (S(t := s, x := s')) (P @ x # t # Q) =
      (own N S (P @ x # Q) - {(x, N x)}) \<union> (if s = STAT_MALLOCED then {(t, N x)} else {}) \<union>
      (if s' = STAT_MALLOCED then {(x, t)} else {})"
proof -
  let ?S = "S(x := STAT_FREE)"
  have x: "x \<in> set (P @ x # Q)"
    by simp
  have b1: "blocks_ok N ?S bb (P @ x # Q) eb" "own N ?S (P @ x # Q) = own N S (P @ x # Q) - {(x, N x)}"
    using stat_ok(1,3) [OF ok x] by auto
  have sx: "?S x = STAT_FREE"
    by simp
  note b2 = split_ok [OF b1(1) t sx]
  have xt: "t \<in> set (P @ x # t # Q)" "x \<in> set (P @ x # t # Q)"
    by simp_all
  have b3: "blocks_ok (N(t := N x, x := t)) (?S(t := s)) bb (P @ x # t # Q) eb"
    using stat_ok(1) [OF b2(1) xt(1), of s, unfolded fun_upd_upd] s(1) by blast
  have b4: "blocks_ok (N(t := N x, x := t)) (?S(t := s, x := s')) bb (P @ x # t # Q) eb"
    using stat_ok(1) [OF b3 xt(2), of s'] s(2) by blast
  have e: "?S(t := s, x := s') = S(t := s, x := s')"
    using t(1) by auto
  show "blocks_ok (N(t := N x, x := t)) (S(t := s, x := s')) bb (P @ x # t # Q) eb"
    using b4 unfolding e .
  have n: "x \<notin> set P" "x \<notin> set Q" "t \<notin> set P" "t \<notin> set Q" "x \<noteq> t"
    using blocks_okD(1,2) [OF b2(1)] blocks_okD(1,2) [of _ _ bb "P @ [x]" t Q eb] b2(1) by force+
  have p: "(x, N x) \<notin> own N S P \<union> own N S Q"
    using n by (simp add: own_mem)
  show "own (N(t := N x, x := t)) (S(t := s, x := s')) (P @ x # t # Q) =
      (own N S (P @ x # Q) - {(x, N x)}) \<union> (if s = STAT_MALLOCED then {(t, N x)} else {}) \<union>
      (if s' = STAT_MALLOCED then {(x, t)} else {})"
    using n p by (simp add: own_simps own_upd)
qed

lemma cut_area:
  assumes v: "valid h" and a: "(p, e) \<in> areas h" and t: "p \<le> t" "t < e" "8 dvd t"
    and s: "s \<in> {STAT_FREE, STAT_MALLOCED}" "s' \<in> {STAT_FREE, STAT_MALLOCED}"
    and h': "nx h' = (nx h)(t := e, p - 8 := t)" "st h' = (st h)(t := s, p - 8 := s')"
      "same_arena h h'" "cblk h' = cblk h"
  shows "valid h'" "areas h' = (areas h - {(p, e)}) \<union>
      (if s = STAT_MALLOCED then {(t + 8, e)} else {}) \<union> (if s' = STAT_MALLOCED then {(p, t)} else {})"
proof -
  note A = area_block [OF v a]
  obtain P Q where PQ: "blocks h = P @ (p - 8) # Q"
    using split_list A(4) by fast
  have b: "blocks_ok (nx h) (st h) (bblk h) (P @ (p - 8) # Q) (eblk h)"
    using A(1) PQ by (simp add: heap_ok_def)
  have t': "p - 8 < t" "t < nx h (p - 8)"
    using t A(2,6) by auto
  note c = cut_ok [OF b t' t(3) s, folded A(6), folded h'(1,2)]
  have ok: "heap_ok h' (P @ (p - 8) # t # Q)"
    using A(1) c(1) h'(3,4) unfolding heap_ok_def PQ same_arena_def by auto
  then show "valid h'"
    by (rule heap_ok_valid)
  have ar: "areas h' = (\<lambda>(b, e). (b + 8, e)) ` owned h' (P @ (p - 8) # t # Q)"
    by (rule heap_ok_areas [OF ok])
  have "inj (\<lambda>(b :: nat, e :: nat). (b + 8, e))"
    by (auto simp: inj_def)
  then show "areas h' = (areas h - {(p, e)}) \<union>
      (if s = STAT_MALLOCED then {(t + 8, e)} else {}) \<union> (if s' = STAT_MALLOCED then {(p, t)} else {})"
    unfolding ar c(2) heap_ok_areas [OF A(1)] PQ
    using A(2) by (simp add: image_set_diff image_Un)
qed

text \<open>Headers written inside an area, its own header included, touch no other area.\<close>

lemma header_in_area:
  assumes "valid h" "(p, e) \<in> areas h" "p - 8 \<le> x" "x < e" "8 dvd x" "contents_kept (areas h - {(p, e)}) h g"
  shows "contents_kept (areas h - {(p, e)}) h (set_next x v g)"
    "contents_kept (areas h - {(p, e)}) h (set_stat x v g)"
proof -
  have "w < x \<or> x + 8 \<le> w" if q: "(q, f) \<in> areas h - {(p, e)}" "q \<le> w" "w < f" for q f w
  proof -
    have "p \<noteq> q"
      using q(1) assms(2) areas_functional by fastforce
    then have "e + 8 \<le> q \<or> f + 8 \<le> p"
      using areas_apart [OF assms(1,2)] q(1) by blast
    moreover have "8 \<le> p"
      by (rule area_block(2) [OF assms(1,2)])
    ultimately show ?thesis
      using q(2,3) assms(3,4) by auto
  qed
  note apart = this
  have "put32 m x v w = m w \<and> put32 m (x + 4) v w = m w"
    if "(q, f) \<in> areas h - {(p, e)}" "q \<le> w" "w < f" for q f w m
    using apart [OF that] by (auto intro!: put_other)
  then show "contents_kept (areas h - {(p, e)}) h (set_next x v g)"
    "contents_kept (areas h - {(p, e)}) h (set_stat x v g)"
    using assms(6) unfolding contents_kept_def set_next_def set_stat_def by simp_all
qed


lemma pow2_power: "pow2 n \<Longrightarrow> 0 < n \<Longrightarrow> \<exists>k. n = 2 ^ k"
proof (induction n rule: less_induct)
  case (less n)
  show ?case
  proof (cases "n = 1")
    case True
    then show ?thesis
      by (intro exI [of _ 0]) simp
  next
    case False
    define m where "m = n div 2"
    have m: "0 < m" "m < n"
      using less.prems(2) False by (auto simp: m_def)
    have a: "and n (n - 1) = of_bool (odd n \<and> odd (n - 1)) + 2 * and (n div 2) ((n - 1) div 2)"
      by (rule and_nat_rec)
    show ?thesis
    proof (cases "even n")
      case True
      then have n: "n = 2 * m" "(n - 1) div 2 = m - 1"
        using m(1) by (auto simp: m_def)
      then have "pow2 m"
        using less.prems(1) a by (simp add: pow2_def m_def)
      then obtain k where "m = 2 ^ k"
        using less.IH [OF m(2)] m(1) by blast
      then show ?thesis
        using n by (intro exI [of _ "Suc k"]) simp
    next
      case False
      then have "n div 2 = m" "(n - 1) div 2 = m"
        by (auto simp: m_def elim!: oddE)
      then show ?thesis
        using less.prems(1) a m(1) by (simp add: pow2_def)
    qed
  qed
qed

lemma pow2_align:
  assumes "pow2 n" "8 < n"
  shows "8 dvd n"
proof -
  obtain k where k: "n = 2 ^ k"
    using pow2_power assms by fastforce
  have "3 \<le> k"
  proof (rule ccontr)
    assume "\<not> 3 \<le> k"
    then have "(2 :: nat) ^ k \<le> 2 ^ 3"
      by (intro power_increasing) auto
    then show False
      using assms(2) k by simp
  qed
  then have "(2 :: nat) ^ 3 dvd 2 ^ k"
    by (rule le_imp_power_dvd)
  then show ?thesis
    using k by simp
qed

lemma round_to:
  assumes "0 < (a :: nat)"
  shows "a dvd (p + (a - 1)) div a * a" "p \<le> (p + (a - 1)) div a * a" "(p + (a - 1)) div a * a < p + a"
proof -
  have e: "(p + (a - 1)) div a * a + (p + (a - 1)) mod a = p + (a - 1)"
    by (rule div_mult_mod_eq)
  have "(p + (a - 1)) mod a < a"
    using assms by simp
  then show "p \<le> (p + (a - 1)) div a * a" "(p + (a - 1)) div a * a < p + a"
    using e assms by linarith+
qed simp

lemma align_front_run:
  assumes v: "valid h" and a: "(p, e) \<in> areas h" and al: "8 < a" "8 dvd a" "p + a \<le> e"
  shows "\<exists>u h'. align_front a p h = (u, h') \<and> valid h' \<and> areas h' = insert (u, e) (areas h - {(p, e)}) \<and>
    contents_kept (areas h - {(p, e)}) h h' \<and> a dvd u \<and> p \<le> u \<and> u < p + a \<and> malbuf h' = malbuf h"
proof (cases "a dvd p")
  case True
  then show ?thesis
    using v a al by (auto simp: align_front_def contents_kept_def insert_absorb)
next
  case False
  note A = area_block [OF v a]
  define u where "u = (p + (a - 1)) div a * a"
  have u: "a dvd u" "p \<le> u" "u < p + a"
    using round_to [of a p] al(1) by (simp_all add: u_def)
  have eb: "eblk h < 2 ^ 32"
    using heap_block(3) [OF A(1), of "eblk h"] by simp
  then have lt: "p + (a - 1) < 2 ^ 32" "u < 2 ^ 32" "e < 2 ^ 32"
    using al A(11) u(3) by linarith+
  have "u \<noteq> p"
    using u(1) False by metis
  moreover have u8: "8 dvd u"
    using al(2) u(1) dvd_trans by blast
  ultimately have pu: "p + 8 \<le> u"
    using u(2) A(8) dvd8_apart [of p u] by linarith
  have ub8: "8 dvd u - 8"
    using u8 by (simp add: dvd_diff_nat)
  let ?b = "u - 8" and ?c = "p - 8"
  let ?h = "set_stat ?c STAT_FREE (set_next ?c ?b (set_stat ?b STAT_MALLOCED (set_next ?b e h)))"
  have wu: "(p + (a - Suc 0)) div a * a = u"
    by (simp add: u_def)
  have f: "align_front a p h = (u, ?h)"
    using False lt A(2,6,9,12) u(2) pu block_of_pointer [of u] block_of_pointer [of p]
    by (simp add: align_front_def Let_def wu mod_eq_0_iff_dvd nx_eq)
  have bc: "?b \<noteq> ?c" "?b < 2 ^ 32"
    using pu A(2) lt by linarith+
  have N: "nx ?h = (nx h)(?b := e, ?c := ?b)" "st ?h = (st h)(?b := STAT_MALLOCED, ?c := STAT_FREE)"
    using bc lt ub8 A(9) by (simp_all add: stat_bounds)
  have c: "valid ?h" "areas ?h = (areas h - {(p, e)}) \<union> {(?b + 8, e)}"
    using cut_area [OF v a, of ?b STAT_MALLOCED STAT_FREE ?h] N pu u(3) al(3) ub8
    by (auto simp: same_arena_def)
  have k: "contents_kept (areas h - {(p, e)}) h ?h"
    using pu u(3) al(3) A(2,7,9) ub8
    by (intro header_in_area [OF v a]) (auto simp: contents_kept_def)
  show ?thesis
    using f c k u pu by (intro exI [of _ u] exI [of _ ?h]) simp
qed

lemma align_back_run:
  assumes v: "valid h" and a: "(u, e) \<in> areas h" and n: "u + n \<le> e" "u + n + 7 < 2 ^ 32"
  shows "\<exists>f. u + n \<le> f \<and> valid (align_back n u h) \<and>
    areas (align_back n u h) = insert (u, f) (areas h - {(u, e)}) \<and>
    contents_kept (areas h - {(u, e)}) h (align_back n u h) \<and> malbuf (align_back n u h) = malbuf h"
proof -
  note A = area_block [OF v a]
  let ?t = "ROUNDUP (u + n)" and ?c = "u - 8"
  have t: "8 dvd ?t" "u + n \<le> ?t" "?t < u + n + 8"
    using roundup [of "u + n"] n(2) by auto
  have e32: "e < 2 ^ 32"
    using heap_block(3) [OF A(1), of "eblk h"] A(11) by simp
  have un: "w32 (u + n) = u + n"
    using n by simp
  show ?thesis
  proof (cases "?t < e")
    case False
    then have "align_back n u h = h"
      using A(2,6,9,12) un block_of_pointer [of u] by (simp add: align_back_def Let_def nx_eq)
    then show ?thesis
      using v a n(1) by (intro exI [of _ e]) (auto simp: contents_kept_def)
  next
    case True
    let ?h = "set_next ?c ?t (set_stat ?t STAT_FREE (set_next ?t e h))"
    have r: "align_back n u h = ?h"
      using True A(2,6,9,12) un block_of_pointer [of u] by (simp add: align_back_def Let_def nx_eq)
    have bc: "?t \<noteq> ?c" "?t < 2 ^ 32"
      using t True e32 A(2) by linarith+
    have st: "(st h)(?t := STAT_FREE) = (st h)(?t := STAT_FREE, ?c := STAT_MALLOCED)"
      using A(5) bc by auto
    have N: "nx ?h = (nx h)(?t := e, ?c := ?t)" "st ?h = (st h)(?t := STAT_FREE, ?c := STAT_MALLOCED)"
      unfolding st [symmetric] using bc e32 t(1) A(9) by (simp_all add: stat_bounds)
    have c: "valid ?h" "areas ?h = (areas h - {(u, e)}) \<union> {(u, ?t)}"
      using cut_area [OF v a, of ?t STAT_FREE STAT_MALLOCED ?h] N t True n(1)
      by (auto simp: same_arena_def)
    have k: "contents_kept (areas h - {(u, e)}) h ?h"
      using t True A(2,7,9)
      by (intro header_in_area [OF v a]) (auto simp: contents_kept_def)
    show ?thesis
      unfolding r using c k t(2) by (intro exI [of _ ?t]) auto
  qed
qed



lemma align_malloc_run:
  assumes v: "valid h" and n: "0 < n" "malbuf h + max_malloc + n + a + 16 < 2 ^ 32" and a: "a = 0 \<or> pow2 a"
  shows "\<exists>p h'. align_malloc n a h = Some (p, h') \<and> valid h' \<and> malbuf h' = malbuf h \<and>
    contents_kept (areas h) h h' \<and>
    (if p = 0 then areas h' = areas h
     else \<exists>e. areas h' = insert (p, e) (areas h) \<and> p + n \<le> e \<and> p \<notin> fst ` areas h \<and> 8 dvd p \<and>
       (8 < a \<longrightarrow> a dvd p))"
proof (cases "a \<le> 8")
  case True
  then have "align_malloc n a h = malloc n h"
    using a by (auto simp: align_malloc_def BLOCKSZ_def)
  moreover have "malbuf h + max_malloc + n + 16 < 2 ^ 32"
    using n(2) by simp
  note malloc_run [OF v n(1) this]
  moreover have "\<not> 8 < a"
    using True by simp
  ultimately show ?thesis
    by (simp only: simp_thms)
next
  case False
  have p2: "pow2 a" "8 < a"
    using a False by auto
  note a8 = pow2_align [OF p2]
  have w: "w32 (n + a) = n + a"
    using n(2) by simp
  obtain p h1 where h1: "malloc (n + a) h = Some (p, h1)" "valid h1" "malbuf h1 = malbuf h"
    "contents_kept (areas h) h h1"
    "if p = 0 then areas h1 = areas h
     else \<exists>e. areas h1 = insert (p, e) (areas h) \<and> p + (n + a) \<le> e \<and> p \<notin> fst ` areas h \<and> 8 dvd p"
    using malloc_run [OF v, of "n + a"] n by auto
  show ?thesis
  proof (cases "p = 0")
    case True
    then have "align_malloc n a h = Some (0, h1)"
      using h1(1) p2 w by (simp add: align_malloc_def BLOCKSZ_def)
    then show ?thesis
      using h1 True by simp
  next
    case False
    then obtain e where e: "areas h1 = insert (p, e) (areas h)" "p + (n + a) \<le> e" "p \<notin> fst ` areas h"
      using h1(5) by auto
    have pe: "(p, e) \<in> areas h1" and A: "areas h1 - {(p, e)} = areas h"
      using e by force+
    obtain u h2 where f: "align_front a p h1 = (u, h2)" "valid h2" "areas h2 = insert (u, e) (areas h)"
      "contents_kept (areas h) h1 h2" "a dvd u" "p \<le> u" "u < p + a" "malbuf h2 = malbuf h1"
      using align_front_run [OF h1(2) pe p2(2) a8] e(2) unfolding A by auto
    have nu: "u \<notin> fst ` areas h"
    proof
      assume "u \<in> fst ` areas h"
      then obtain g where g0: "(u, g) \<in> areas h"
        by auto
      then have g: "(u, g) \<in> areas h1"
        by (simp add: e(1))
      have "u \<noteq> p"
        using e(3) \<open>u \<in> fst ` areas h\<close> by blast
      then have "e + 8 \<le> u \<or> g + 8 \<le> p"
        using areas_apart [OF h1(2) pe g] by auto
      then show False
        using f(6,7) e(2) area_block(7) [OF h1(2) g] n(1) by linarith
    qed
    have ue: "(u, e) \<in> areas h2" and A2: "areas h2 - {(u, e)} = areas h"
      using f(3) nu by force+
    have "e < 2 ^ 32" "e + 8 \<le> malbuf h + max_malloc + 8"
      using area_block(1,11) [OF h1(2) pe] heap_block(3,5) [of h1 "blocks h1" "eblk h1"] h1(3) by auto
    then have b: "u + n \<le> e" "u + n + 7 < 2 ^ 32"
      using e(2) f(7) n(2) by linarith+
    obtain g where g: "u + n \<le> g" "valid (align_back n u h2)"
      "areas (align_back n u h2) = insert (u, g) (areas h)"
      "contents_kept (areas h) h2 (align_back n u h2)" "malbuf (align_back n u h2) = malbuf h2"
      using align_back_run [OF f(2) ue b] unfolding A2 by blast
    have "align_malloc n a h = Some (u, align_back n u h2)"
      using h1(1) p2 w False f(1) by (simp add: align_malloc_def BLOCKSZ_def)
    moreover have "contents_kept (areas h) h (align_back n u h2)"
      using h1(4) f(4) g(4) by (simp add: contents_kept_def)
    moreover have "u \<noteq> 0"
      using f(6) False by simp
    ultimately show ?thesis
      using g f(5,8) h1(3) nu dvd_trans [OF a8 f(5)] by auto
  qed
qed

section \<open>The contract of an allocator\<close>

text \<open>What a program that allocates may do to the state: get memory, give back an
area that it has and write into an area that it has.  The area \<open>a\<close> is the one it
leaves alone.\<close>

inductive client_step ::
  "(nat \<Rightarrow> 's \<Rightarrow> bool) \<Rightarrow> ('s \<Rightarrow> (nat \<times> nat) set) \<Rightarrow> (nat \<Rightarrow> 's \<Rightarrow> (nat \<times> 's) option) \<Rightarrow>
   (nat \<Rightarrow> 's \<Rightarrow> 's option) \<Rightarrow> (nat \<Rightarrow> u8 \<Rightarrow> 's \<Rightarrow> 's) \<Rightarrow> nat \<times> nat \<Rightarrow> 's \<Rightarrow> 's \<Rightarrow> bool"
  for fits :: "nat \<Rightarrow> 's \<Rightarrow> bool" and areas :: "'s \<Rightarrow> (nat \<times> nat) set"
    and alloc :: "nat \<Rightarrow> 's \<Rightarrow> (nat \<times> 's) option" and release :: "nat \<Rightarrow> 's \<Rightarrow> 's option"
    and storeb :: "nat \<Rightarrow> u8 \<Rightarrow> 's \<Rightarrow> 's" and a :: "nat \<times> nat" where
  got: "fits n s \<Longrightarrow> alloc n s = Some (p, t) \<Longrightarrow> client_step fits areas alloc release storeb a s t"
| released: "(p, e) \<in> areas s \<Longrightarrow> (p, e) \<noteq> a \<Longrightarrow> release p s = Some t \<Longrightarrow>
    client_step fits areas alloc release storeb a s t"
| written: "(p, e) \<in> areas s \<Longrightarrow> (p, e) \<noteq> a \<Longrightarrow> p \<le> w \<Longrightarrow> w < e \<Longrightarrow>
    client_step fits areas alloc release storeb a s (storeb w v s)"

locale allocator =
  fixes inv :: "'s \<Rightarrow> bool"
    and fits :: "nat \<Rightarrow> 's \<Rightarrow> bool"
    and areas :: "'s \<Rightarrow> (nat \<times> nat) set"
    and byte :: "'s \<Rightarrow> nat \<Rightarrow> u8"
    and alloc :: "nat \<Rightarrow> 's \<Rightarrow> (nat \<times> 's) option"
    and release :: "nat \<Rightarrow> 's \<Rightarrow> 's option"
    and storeb :: "nat \<Rightarrow> u8 \<Rightarrow> 's \<Rightarrow> 's"
  assumes apart: "inv s \<Longrightarrow> (p, e) \<in> areas s \<Longrightarrow> (q, f) \<in> areas s \<Longrightarrow> (p, e) \<noteq> (q, f) \<Longrightarrow> e \<le> q \<or> f \<le> p"
    and alloc_law: "inv s \<Longrightarrow> fits n s \<Longrightarrow>
      \<exists>p t. alloc n s = Some (p, t) \<and> inv t \<and>
        (areas t = areas s \<or> (\<exists>e. areas t = insert (p, e) (areas s) \<and> p + n \<le> e)) \<and>
        (\<forall>(q, f) \<in> areas s. \<forall>w. q \<le> w \<longrightarrow> w < f \<longrightarrow> byte t w = byte s w)"
    and release_law: "inv s \<Longrightarrow> (p, e) \<in> areas s \<Longrightarrow>
      \<exists>t. release p s = Some t \<and> inv t \<and> areas t = areas s - {(p, e)} \<and>
        (\<forall>(q, f) \<in> areas t. \<forall>w. q \<le> w \<longrightarrow> w < f \<longrightarrow> byte t w = byte s w)"
    and write_law: "inv s \<Longrightarrow> (p, e) \<in> areas s \<Longrightarrow> p \<le> w \<Longrightarrow> w < e \<Longrightarrow>
      inv (storeb w v s) \<and> areas (storeb w v s) = areas s \<and> byte (storeb w v s) = (byte s)(w := v)"
begin

lemma step_keeps:
  assumes "client_step fits areas alloc release storeb (p, e) s t" "inv s" "(p, e) \<in> areas s"
  shows "inv t \<and> (p, e) \<in> areas t \<and> (\<forall>w. p \<le> w \<longrightarrow> w < e \<longrightarrow> byte t w = byte s w)"
  using assms(1)
proof (cases rule: client_step.cases)
  case (got n q)
  then show ?thesis
    using alloc_law [OF assms(2) got(1)] assms(3) by auto
next
  case (released q f)
  then show ?thesis
  proof -
    obtain t' where t': "release q s = Some t'" "inv t'" "areas t' = areas s - {(q, f)}"
      "\<forall>(q, f) \<in> areas t'. \<forall>w. q \<le> w \<longrightarrow> w < f \<longrightarrow> byte t' w = byte s w"
      using release_law [OF assms(2) released(1)] by blast
    have "t' = t" "(p, e) \<in> areas t'"
      using t'(1,3) released(2,3) assms(3) by auto
    then show ?thesis
      using t'(2,4) by auto
  qed
next
  case (written q f w v)
  have "e \<le> q \<or> f \<le> p"
    using apart [OF assms(2,3) written(2)] written(3) by blast
  then show ?thesis
    using write_law [OF assms(2) written(2,4,5)] written assms(3) by auto
qed

lemma kept_while_owned:
  assumes "(client_step fits areas alloc release storeb (p, e))\<^sup>*\<^sup>* s t" "inv s" "(p, e) \<in> areas s"
  shows "inv t \<and> (p, e) \<in> areas t \<and> (\<forall>w. p \<le> w \<longrightarrow> w < e \<longrightarrow> byte t w = byte s w)"
  using assms
proof (induction rule: rtranclp_induct)
  case (step t u)
  then show ?case
    using step_keeps [OF step.hyps(2)] by simp
qed simp

lemma alloc_disjoint:
  assumes "inv s" "fits n s" "alloc n s = Some (p, t)" "areas t \<noteq> areas s"
  shows "\<exists>e. (p, e) \<in> areas t \<and> p + n \<le> e \<and> (\<forall>(q, f) \<in> areas s. e \<le> q \<or> f \<le> p)"
proof -
  obtain e where e: "areas t = insert (p, e) (areas s)" "p + n \<le> e" "inv t"
    using alloc_law [OF assms(1,2)] assms(3,4) by auto
  then have "(p, e) \<notin> areas s"
    using assms(4) by auto
  then show ?thesis
    using e apart [OF e(3), of p e] by auto
qed

end

text \<open>Requests whose size cannot wrap an address, and a byte stored by the client.\<close>

definition fits :: "nat \<Rightarrow> heap \<Rightarrow> bool" where
  "fits n h \<longleftrightarrow> 0 < n \<and> malbuf h + max_malloc + n + 16 < 2 ^ 32"

definition store :: "nat \<Rightarrow> u8 \<Rightarrow> heap \<Rightarrow> heap" where
  "store w v h = h\<lparr>mem := (mem h)(w := v)\<rparr>"

interpretation arena: allocator valid fits areas mem malloc free store
proof
  fix h p e q f n w and v :: u8
  assume v: "valid h"
  show "e \<le> q \<or> f \<le> p" if "(p, e) \<in> areas h" "(q, f) \<in> areas h" "(p, e) \<noteq> (q, f)"
    using areas_apart [OF v that(1,2)] areas_functional [of p e h f] that by auto
  show "\<exists>p t. malloc n h = Some (p, t) \<and> valid t \<and>
      (areas t = areas h \<or> (\<exists>e. areas t = insert (p, e) (areas h) \<and> p + n \<le> e)) \<and>
      (\<forall>(q, f) \<in> areas h. \<forall>w. q \<le> w \<longrightarrow> w < f \<longrightarrow> mem t w = mem h w)" if fit: "fits n h"
  proof -
    obtain p t where t: "malloc n h = Some (p, t)" "valid t" "contents_kept (areas h) h t"
      "if p = 0 then areas t = areas h
       else \<exists>e. areas t = insert (p, e) (areas h) \<and> p + n \<le> e \<and> p \<notin> fst ` areas h \<and> 8 dvd p"
      using malloc_run [OF v, of n] fit unfolding fits_def by blast
    have "areas t = areas h \<or> (\<exists>e. areas t = insert (p, e) (areas h) \<and> p + n \<le> e)"
      using t(4) by (cases "p = 0") auto
    then show ?thesis
      using t(1,2,3) unfolding contents_kept_def by (intro exI [of _ p] exI [of _ t]) auto
  qed
  show "\<exists>t. free p h = Some t \<and> valid t \<and> areas t = areas h - {(p, e)} \<and>
      (\<forall>(q, f) \<in> areas t. \<forall>w. q \<le> w \<longrightarrow> w < f \<longrightarrow> mem t w = mem h w)" if pe: "(p, e) \<in> areas h"
  proof -
    obtain t where "free p h = Some t" "valid t" "areas t = areas h - {(p, e)}"
      "contents_kept (areas h - {(p, e)}) h t"
      using free_run [OF v pe] by blast
    then show ?thesis
      unfolding contents_kept_def by (intro exI [of _ t]) auto
  qed
  show "valid (store w v h) \<and> areas (store w v h) = areas h \<and> mem (store w v h) = (mem h)(w := v)"
    if "(p, e) \<in> areas h" "p \<le> w" "w < e"
  proof -
    have "((mem h)(w := v)) x = mem h x" if "x < p \<or> e \<le> x" for x
      using that \<open>p \<le> w\<close> \<open>w < e\<close> by auto
    then have "valid (h\<lparr>mem := (mem h)(w := v)\<rparr>) \<and> areas (h\<lparr>mem := (mem h)(w := v)\<rparr>) = areas h"
      by (rule area_write [OF \<open>valid h\<close> \<open>(p, e) \<in> areas h\<close>])
    then show ?thesis
      unfolding store_def by simp
  qed
qed


lemma malloc_room:
  assumes ok: "heap_ok h mid" and n: "fits n h" and room: "mptr h + ROUNDUP (n + 8) < malbuf h + max_malloc"
  shows "\<exists>p t. malloc n h = Some (p, t) \<and> p \<noteq> 0"
proof -
  have n': "0 < n" "malbuf h + max_malloc + n + 16 < 2 ^ 32"
    using n by (auto simp: fits_def)
  have "cblk h \<in> set (ring h mid)" and b0: "bblk h \<noteq> 0"
    using ok heap_block(6) [OF ok, of "bblk h"] by (auto simp: heap_ok_def)
  then obtain A B where AB: "ring h mid = A @ cblk h # B"
    using split_list by fast
  obtain r h2 mid2 where s: "search n (cblk h) False h = Some (r, h2)" "result_ok n h mid r h2 mid2"
    "r = None \<longrightarrow> same_arena h h2"
    using search_run [OF ok AB n', of False] by blast
  have ok2: "heap_ok h2 mid2" "malbuf h2 = malbuf h"
    using s(2) by (auto simp: result_ok_def)
  have small: "w32 (b + BLOCKSZ) \<noteq> 0" if "b < malbuf h + max_malloc" for b
    using that n' by (simp add: BLOCKSZ_def)
  show ?thesis
  proof (cases r)
    case (Some b)
    then have "b < malbuf h + max_malloc"
      using s(2) heap_block(5) [OF ok2(1), of b] ok2(2) by (auto simp: result_ok_def)
    then show ?thesis
      using small s(1) Some b0 n' by (simp add: malloc_def)
  next
    case None
    obtain b h3 where g: "grow n h2 = (b, h3)" "b = 0 \<longleftrightarrow> malbuf h2 + max_malloc \<le> mptr h2 + ROUNDUP (n + 8)"
      using grow_run [OF ok2(1) n'(1)] n'(2) ok2(2) by auto
    have "b \<noteq> 0"
      using g(2) room s(3) None by (auto simp: same_arena_def)
    have "b = eblk h2"
      using g(1) \<open>b \<noteq> 0\<close> by (auto simp: grow_def getblock_def Let_def split: prod.splits if_splits)
    then have "b < malbuf h + max_malloc"
      using heap_block(5) [OF ok2(1), of b] ok2(2) by simp
    then show ?thesis
      using small s(1) None b0 n' g(1) \<open>b \<noteq> 0\<close> by (simp add: malloc_def)
  qed
qed



section \<open>The properties\<close>

text \<open>The end of the list; before the first call, where the list will end once its two place holders are
set up.\<close>

definition list_end :: "heap \<Rightarrow> nat" where
  "list_end h = (if bblk h = 0 then ROUNDUP (malbuf h) + 16 else mptr h)"

lemma malloc_gives:
  assumes "valid h" "fits n h" "list_end h + ROUNDUP (n + 8) < malbuf h + max_malloc"
  shows "\<exists>p t. malloc n h = Some (p, t) \<and> p \<noteq> 0"
proof (cases "bblk h = 0")
  case True
  then obtain h1 where h1: "start_list h = (True, h1)" "heap_ok h1 []" "malbuf h1 = malbuf h" "mptr h1 = list_end h"
    using start_run [of h] assms(1) by (auto simp: valid_def list_end_def)
  have "bblk h1 \<noteq> 0"
    using heap_block(6) [OF h1(2), of "bblk h1"] by (auto simp: heap_ok_def)
  then have "malloc n h = malloc n h1"
    using h1(1) True assms(2) by (simp add: malloc_def fits_def)
  moreover have "fits n h1"
    using assms(2) h1(3) by (simp add: fits_def)
  ultimately show ?thesis
    using malloc_room [OF h1(2), of n] assms(3) h1(3,4) by simp
next
  case False
  then show ?thesis
    using malloc_room [of h "blocks h" n] assms by (simp add: valid_def list_end_def)
qed

lemma init_malloc_valid:
  assumes "0 < malbuf h" "malbuf h + max_malloc < 2 ^ 32"
  shows "valid (init_malloc c k h)" "areas (init_malloc c k h) = {}"
proof -
  have "bblk (init_malloc c k h) = 0" "malbuf (init_malloc c k h) = malbuf h"
    by (auto simp: init_malloc_def Let_def split: option.splits)
  then show "valid (init_malloc c k h)" "areas (init_malloc c k h) = {}"
    using assms by (simp_all add: valid_def areas_empty)
qed

text \<open>Evaluation on concrete states: memory stays the sequence of the words written, and
a word read is looked up in it.\<close>

lemma get32_bcopy:
  assumes "dst \<le> a" "a + 4 \<le> dst + n"
  shows "get32 (bcopy src dst n m) a = get32 m (src + (a - dst))"
proof -
  obtain k where "a = dst + k"
    using assms(1) le_Suc_ex by blast
  with assms(2) show ?thesis
    by (simp add: get32_def bcopy_def add.assoc)
qed

lemmas heap_eval = malloc_def free_def realloc_def start_list_def getblock_def grow_def take_block_def blk_next_def
  blk_stat_def set_next_def set_stat_def w32_def ROUNDUP_def BLOCKSZ_def max_malloc_def get_put_same
  get_put_other get32_bcopy search.simps join.simps join_free.simps STAT_FREE_def STAT_MALLOCED_def
  STAT_BEG_def STAT_END_def Let_def

text \<open>A state for the witnesses: nothing allocated, the arena at 0x80400000; and the
state after a first request.\<close>

definition boot_heap :: heap where
  "boot_heap = init_malloc False None
     \<lparr>mem = (\<lambda>_. 0xff), bblk = 1, eblk = 0, cblk = 0, mptr = 0, malbuf = 0x80400000, dmabuf_linemask = 0\<rparr>"

definition used_heap :: heap where
  "used_heap = (case malloc 100 boot_heap of Some (p, h) \<Rightarrow> h | None \<Rightarrow> boot_heap)"

lemma boot_valid: "valid boot_heap" "areas boot_heap = {}" "malbuf boot_heap = 0x80400000"
  using init_malloc_valid [of "\<lparr>mem = (\<lambda>_. 0xff), bblk = 1, eblk = 0, cblk = 0, mptr = 0,
    malbuf = 0x80400000, dmabuf_linemask = 0\<rparr>" False None]
  by (simp_all add: boot_heap_def max_malloc_def) (simp add: init_malloc_def Let_def)

lemma boot_heap_eq:
  "boot_heap = \<lparr>mem = bzero 0x80400000 max_malloc (\<lambda>_. 0xff), bblk = 0, eblk = 0, cblk = 0, mptr = 0,
     malbuf = 0x80400000, dmabuf_linemask = 127\<rparr>"
  by (simp add: boot_heap_def init_malloc_def Let_def shl1_def)

lemma used_pointer: "malloc 100 boot_heap = Some (0x80400010, used_heap)"
  by (simp add: used_heap_def boot_heap_eq heap_eval)

lemmas used_eval = used_heap_def boot_heap_eq heap_eval

lemma used_valid:
  "valid used_heap" "malbuf used_heap = 0x80400000"
  "\<exists>e. areas used_heap = {(0x80400010, e)} \<and> 0x80400010 + 100 \<le> e"
proof -
  obtain p h where h: "malloc 100 boot_heap = Some (p, h)" "valid h" "malbuf h = malbuf boot_heap"
    "if p = 0 then areas h = areas boot_heap
     else \<exists>e. areas h = insert (p, e) (areas boot_heap) \<and> p + 100 \<le> e \<and> p \<notin> fst ` areas boot_heap \<and> 8 dvd p"
    using malloc_run [OF boot_valid(1), of 100] boot_valid(3) by (auto simp: max_malloc_def)
  have "used_heap = h" "p = 0x80400010"
    using h(1) used_pointer by simp_all
  then show "valid used_heap" "malbuf used_heap = 0x80400000"
    "\<exists>e. areas used_heap = {(0x80400010, e)} \<and> 0x80400010 + 100 \<le> e"
    using h boot_valid by (auto split: if_splits)
qed

text \<open>C2: a request that fits (\<open>fits\<close>: its size is positive, and arena and size together do not wrap an
address) always returns, the first request, which sets up the list, included.
Either the answer is null, and nothing is allocated or released, or it is an 8-byte
aligned pointer to a new area of at least the size asked for that overlaps no area
already given out; in both cases the bytes of all areas given out are untouched and
the state is good again.  Null is possible only where the size, rounded up with its
header, does not fit between the end of the list and the end of the arena; the list of a first request ends
behind its two place holders.\<close>

theorem malloc_fresh_area:
  assumes "valid h" "fits n h"
  shows "\<exists>p h'. malloc n h = Some (p, h') \<and> valid h' \<and> contents_kept (areas h) h h' \<and>
    (if p = 0
     then areas h' = areas h \<and> malbuf h + max_malloc \<le> list_end h + ROUNDUP (n + 8)
     else 8 dvd p \<and> (\<exists>e. areas h' = insert (p, e) (areas h) \<and> p + n \<le> e \<and>
       (\<forall>(q, f) \<in> areas h. e \<le> q \<or> f \<le> p)))"
proof -
  obtain p h' where h': "malloc n h = Some (p, h')" "valid h'" "contents_kept (areas h) h h'"
    "if p = 0 then areas h' = areas h
     else \<exists>e. areas h' = insert (p, e) (areas h) \<and> p + n \<le> e \<and> p \<notin> fst ` areas h \<and> 8 dvd p"
    using malloc_run [OF assms(1), of n] assms(2) unfolding fits_def by blast
  have "malbuf h + max_malloc \<le> list_end h + ROUNDUP (n + 8)" if "p = 0"
  proof (rule ccontr)
    assume "\<not> malbuf h + max_malloc \<le> list_end h + ROUNDUP (n + 8)"
    then show False
      using malloc_gives [OF assms] that h'(1) by simp
  qed
  moreover have "\<exists>e. areas h' = insert (p, e) (areas h) \<and> p + n \<le> e \<and> (\<forall>(q, f) \<in> areas h. e \<le> q \<or> f \<le> p)"
    if "p \<noteq> 0"
  proof -
    obtain e where e: "areas h' = insert (p, e) (areas h)" "p + n \<le> e" "p \<notin> fst ` areas h"
      using h'(4) \<open>p \<noteq> 0\<close> by auto
    have "p \<in> fst ` areas h'"
      unfolding e(1) by simp
    with e(3) have "areas h' \<noteq> areas h"
      by metis
    from arena.alloc_disjoint [OF assms h'(1) this] obtain f
      where f: "(p, f) \<in> areas h'" "\<forall>(q, g) \<in> areas h. f \<le> q \<or> g \<le> p"
      by blast
    have "(p, e) \<in> areas h'"
      unfolding e(1) by simp
    with f(1) have "f = e"
      using areas_functional by blast
    then show ?thesis
      using e(1,2) f(2) by blast
  qed
  moreover have "8 dvd p" if "p \<noteq> 0"
    using h'(4) that by auto
  moreover have "areas h' = areas h" if "p = 0"
    using h'(4) that by simp
  ultimately have "if p = 0
     then areas h' = areas h \<and> malbuf h + max_malloc \<le> list_end h + ROUNDUP (n + 8)
     else 8 dvd p \<and> (\<exists>e. areas h' = insert (p, e) (areas h) \<and> p + n \<le> e \<and>
       (\<forall>(q, f) \<in> areas h. e \<le> q \<or> f \<le> p))"
    by (cases "p = 0") simp_all
  with h'(1,2,3) show ?thesis
    by blast
qed

lemma malloc_fresh_area_witness:
  "\<exists>p h' e. malloc 20 used_heap = Some (p, h') \<and> valid h' \<and> p \<noteq> 0 \<and> p + 20 \<le> e \<and> (p, e) \<in> areas h' \<and>
     (\<forall>(q, f) \<in> areas used_heap. e \<le> q \<or> f \<le> p)"
proof -
  have r: "map_option fst (malloc 20 used_heap) = Some 0x80400080"
    by (simp add: used_eval calloc_def kern_calloc_def)
  have "fits 20 used_heap"
    by (simp add: fits_def used_valid(2) max_malloc_def)
  from malloc_fresh_area [OF used_valid(1) this] r show ?thesis
    by (auto split: if_splits)
qed

text \<open>C1: as long as a program keeps an area, nothing it asks of the allocator within bounds and
nothing it stores in its other areas changes a byte of that area: for every sequence of
requests that fit (\<open>fits\<close>: a positive size that, added to the end of the arena, does not wrap an address),
of releases of other areas and of stores inside other areas, the state stays
good, the area stays allocated and its bytes stay the same.  Without that bound it is false:
see \<open>malloc_size_wraps\<close>.\<close>

theorem owned_area_is_kept:
  assumes "valid h" "(p, e) \<in> areas h"
    and "(client_step fits areas malloc free store (p, e))\<^sup>*\<^sup>* h h'"
  shows "valid h' \<and> (p, e) \<in> areas h' \<and> (\<forall>w. p \<le> w \<longrightarrow> w < e \<longrightarrow> mem h' w = mem h w)"
  by (rule arena.kept_while_owned [OF assms(3,1,2)])

lemma owned_area_is_kept_witness:
  "\<exists>q h' e. malloc 20 used_heap = Some (q, h') \<and> (0x80400010, e) \<in> areas h' \<and>
     mem h' 0x80400010 = mem used_heap 0x80400010"
proof -
  obtain e where e: "(0x80400010, e) \<in> areas used_heap" "0x80400010 + 100 \<le> e"
    using used_valid(3) by auto
  have f: "fits 20 used_heap"
    by (simp add: fits_def used_valid(2) max_malloc_def)
  then obtain q h' where q: "malloc 20 used_heap = Some (q, h')"
    using arena.alloc_law [OF used_valid(1)] by blast
  have "(client_step fits areas malloc free store (0x80400010, e))\<^sup>*\<^sup>* used_heap h'"
    using client_step.got [of fits 20 used_heap malloc q h'] f q by (intro r_into_rtranclp) blast
  from owned_area_is_kept [OF used_valid(1) e(1) this] show ?thesis
    using q e(2) by auto
qed

text \<open>C35: releasing an area that was given out always returns; exactly that area is
gone, the bytes of the others are untouched and the state is good.  Releasing null, or
a pointer whose header does not say that it is allocated (one already released, as long
as nothing has overwritten its header), changes nothing.\<close>

theorem free_returns_area:
  assumes "valid h"
  shows "((p, e) \<in> areas h \<longrightarrow> (\<exists>h'. free p h = Some h' \<and> valid h' \<and> areas h' = areas h - {(p, e)} \<and>
      contents_kept (areas h') h h')) \<and>
    (p = 0 \<or> blk_stat (w32 (p + (2 ^ 32 - BLOCKSZ))) h \<noteq> STAT_MALLOCED \<longrightarrow> free p h = Some h)"
proof (intro conjI impI)
  show "\<exists>h'. free p h = Some h' \<and> valid h' \<and> areas h' = areas h - {(p, e)} \<and> contents_kept (areas h') h h'"
    if "(p, e) \<in> areas h"
    using free_run [OF assms that] by metis
  show "free p h = Some h" if "p = 0 \<or> blk_stat (w32 (p + (2 ^ 32 - BLOCKSZ))) h \<noteq> STAT_MALLOCED"
    using free_other that by metis
qed

lemma free_returns_area_witness:
  "(\<exists>h'. free 0x80400010 used_heap = Some h' \<and> valid h' \<and> areas h' = {}) \<and> free 0 used_heap = Some used_heap"
proof -
  obtain e where "areas used_heap = {(0x80400010, e)}"
    using used_valid(3) by auto
  with free_returns_area [OF used_valid(1), where p = "0x80400010" and e = e] free_returns_area [OF used_valid(1), where p = 0]
  show ?thesis
    by auto
qed

text \<open>resizing an area to a positive size that cannot wrap an address always
returns and keeps the state good.  The old area is given back in every case; the
answer is null, or an area of at least the size asked for; the bytes of the other
areas are untouched.\<close>

theorem realloc_areas:
  assumes "valid h" "(p, e) \<in> areas h" "fits n h"
  shows "\<exists>q h'. realloc p n h = Some (q, h') \<and> valid h' \<and> contents_kept (areas h - {(p, e)}) h h' \<and>
    (if q = 0 then areas h' = areas h - {(p, e)}
     else \<exists>f. areas h' = insert (q, f) (areas h - {(p, e)}) \<and> q + n \<le> f \<and> q \<notin> fst ` (areas h - {(p, e)}))"
proof -
  have "0 < n" "malbuf h + max_malloc + n + 16 < 2 ^ 32"
    using assms(3) by (simp_all add: fits_def)
  from realloc_run [OF assms(1,2) this] show ?thesis
    by blast
qed

lemma realloc_areas_witness:
  "\<exists>q h' f. realloc 0x80400010 300 used_heap = Some (q, h') \<and> areas h' = {(q, f)} \<and> q + 300 \<le> f"
proof -
  obtain e where e: "areas used_heap = {(0x80400010, e)}"
    using used_valid(3) by auto
  have r: "map_option fst (realloc 0x80400010 300 used_heap) = Some 0x80400080"
    by (simp add: used_eval calloc_def kern_calloc_def)
  have "fits 300 used_heap"
    by (simp add: fits_def used_valid(2) max_malloc_def)
  with realloc_areas [OF used_valid(1), where p = "0x80400010" and e = e and n = "300"] e r show ?thesis
    by auto
qed

text \<open>\<open>realloc\<close> loses data.  It frees the area before it copies, so \<open>malloc\<close> may
join the area with a free block in front of it and write a block header into the old
contents before they are copied.  Below, after an 8-byte, a 16-byte and an 8-byte
request and the release of the first, enlarging the second area from 16 to 24 bytes
gives back a pointer at which the third and fourth words of the old contents are
gone.\<close>

theorem realloc_loses_data:
  "do {
     (a, h) \<leftarrow> malloc 8 boot_heap;
     (b, h) \<leftarrow> malloc 16 h;
     (c, h) \<leftarrow> malloc 8 h;
     let h = h\<lparr>mem := put32 (put32 (put32 (put32 (mem h) b 0x11111111) (b + 4) 0x22222222)
       (b + 8) 0x33333333) (b + 12) 0x44444444\<rparr>;
     h \<leftarrow> free a h;
     (q, h) \<leftarrow> realloc b 24 h;
     Some (a, b, q, map (\<lambda>i. get32 (mem h) (q + 4 * i)) [0..<4])
   } = Some (0x80400010, 0x80400020, 0x80400010, [0x11111111, 0x22222222, 2151678000, 0])"
  by (simp add: boot_heap_eq heap_eval upt_rec)

text \<open>a request close to \<open>2^32\<close> wraps, and \<open>malloc\<close> gives out memory that overlaps
what is in use.  With a 16-byte area given back behind an 8-byte area in use, the
request for \<open>2^32 - 16\<close> bytes is answered with the free block, whose end is then
recorded 8 bytes before its own header, at the last 8 bytes of the area in use.\<close>

theorem malloc_size_wraps:
  "do {
     (a, h) \<leftarrow> malloc 8 boot_heap;
     (b, h) \<leftarrow> malloc 16 h;
     h \<leftarrow> free b h;
     (q, h) \<leftarrow> malloc 0xfffffff0 h;
     Some (a, q = b, blk_next (q - 8) h)
   } = Some (0x80400010, True, 0x80400010)"
  by (simp add: boot_heap_eq heap_eval upt_rec)

text \<open>the array a \<open>calloc\<close> call gives out is new, apart from the others, of at
least the size asked for and zero, where the product of the two sizes fits.\<close>

theorem calloc_zeroed:
  assumes "valid h" "fits (k * z) h"
  shows "\<exists>p h'. calloc k z h = Some (p, h') \<and> valid h' \<and> contents_kept (areas h) h h' \<and>
    (if p = 0 then areas h' = areas h
     else \<exists>e. areas h' = insert (p, e) (areas h) \<and> p + k * z \<le> e \<and> p \<notin> fst ` areas h \<and>
       (\<forall>i. i < k * z \<longrightarrow> mem h' (p + i) = 0))"
proof -
  have "0 < k * z" "malbuf h + max_malloc + k * z + 16 < 2 ^ 32"
    using assms(2) by (simp_all add: fits_def)
  from kern_calloc_run [OF assms(1) this] show ?thesis
    unfolding calloc_def by blast
qed

lemma calloc_zeroed_witness:
  "\<exists>p h'. calloc 5 4 used_heap = Some (p, h') \<and> p \<noteq> 0 \<and> (\<forall>i<20. mem h' (p + i) = 0)"
proof -
  have r: "map_option fst (calloc 5 4 used_heap) = Some 0x80400080"
    by (simp add: used_eval calloc_def kern_calloc_def)
  have "fits (5 * 4) used_heap"
    by (simp add: fits_def used_valid(2) max_malloc_def)
  from calloc_zeroed [OF used_valid(1) this] r show ?thesis
    by auto
qed

text \<open>an aligned request gives an area that starts on the alignment, with the
front and the back of what was taken turned into free blocks; an alignment that is not
a power of two is refused.  \<open>dmabuf_malloc\<close> is the request on the line size.\<close>

theorem align_malloc_aligned:
  assumes "valid h" "fits (n + a) h" "0 < n" "0 < a"
  shows "if pow2 a
    then \<exists>p h'. align_malloc n a h = Some (p, h') \<and> valid h' \<and> contents_kept (areas h) h h' \<and>
      (if p = 0 then areas h' = areas h
       else \<exists>e. areas h' = insert (p, e) (areas h) \<and> p + n \<le> e \<and> p \<notin> fst ` areas h \<and>
         (8 < a \<longrightarrow> a dvd p))
    else align_malloc n a h = Some (0, h)"
proof (cases "pow2 a")
  case False
  then show ?thesis
    using assms(4) by (simp add: align_malloc_def)
next
  case True
  have "malbuf h + max_malloc + n + a + 16 < 2 ^ 32"
    using assms(2) by (simp add: fits_def)
  then obtain p h' where "align_malloc n a h = Some (p, h')" "valid h'" "contents_kept (areas h) h h'"
    and r: "if p = 0 then areas h' = areas h
      else \<exists>e. areas h' = insert (p, e) (areas h) \<and> p + n \<le> e \<and> p \<notin> fst ` areas h \<and> 8 dvd p \<and>
        (8 < a \<longrightarrow> a dvd p)"
    using align_malloc_run [OF assms(1,3)] True by blast
  moreover have "if p = 0 then areas h' = areas h
       else \<exists>e. areas h' = insert (p, e) (areas h) \<and> p + n \<le> e \<and> p \<notin> fst ` areas h \<and>
         (8 < a \<longrightarrow> a dvd p)"
    using r by (cases "p = 0") auto
  ultimately show ?thesis
    using True by auto
qed

lemma align_malloc_aligned_witness:
  "\<exists>p h'. dmabuf_malloc 100 used_heap = Some (p, h') \<and> p \<noteq> 0 \<and> 128 dvd p \<and> valid h'"
proof -
  have l: "w32 (dmabuf_linemask used_heap + 1) = 128" and
    r: "map_option fst (align_malloc 100 128 used_heap) = Some 0x80400080" and p: "pow2 128"
    by (simp_all add: used_eval align_malloc_def align_front_def align_back_def pow2_def)
  have "fits (100 + 128) used_heap"
    by (simp add: fits_def used_valid(2) max_malloc_def)
  from align_malloc_aligned [OF used_valid(1) this] r p show ?thesis
    unfolding dmabuf_malloc_def l by auto
qed

end
