(* ===== verification/Config.thy ===== *)
theory Config
imports Cstrings
begin

text \<open>The component tree: \<open>src/fw/pv_stubs.c\<close> (the pool of \<open>cfgnode_t\<close> nodes, \<open>AddChild\<close>,
\<open>GetChild\<close>, \<open>GetPeer\<close>, \<open>GetParent\<close>, \<open>init_component_tree\<close>) and its client, the inventory
searches of \<open>src/libsc/lib/invfind.c\<close>.

A \<open>COMPONENT *\<close> is \<open>None\<close> for null and \<open>Some i\<close> for the component of node \<open>i\<close> of the
pool; an \<open>i\<close> that is not in use stands for a pointer to no node.\<close>

unbundle bit_operations_syntax

section \<open>Definitions\<close>

subsection \<open>Data\<close>

datatype configclass =
  SystemClass | ProcessorClass | CacheClass | MemoryClass | AdapterClass | ControllerClass
| PeripheralClass

datatype configtype =
  ARC | CPU | FPU | PrimaryICache | PrimaryDCache | SecondaryICache | SecondaryDCache
| SecondaryCache | Memory | EISAAdapter | TCAdapter | SCSIAdapter | DTIAdapter
| MultiFunctionAdapter | DiskController | TapeController | CDROMController | WORMController
| SerialController | NetworkController | DisplayController | ParallelController
| PointerController | KeyboardController | AudioController | OtherController | DiskPeripheral
| FloppyDiskPeripheral | TapePeripheral | ModemPeripheral | MonitorPeripheral
| PrinterPeripheral | PointerPeripheral | KeyboardPeripheral | TerminalPeripheral
| LinePeripheral | NetworkPeripheral | OtherPeripheral | XTalkAdapter | PCIAdapter | GIOAdapter
| TPUAdapter | Anonymous

text \<open>The key of a cache, big-endian.\<close>

definition cache_key :: "u8 \<Rightarrow> u8 \<Rightarrow> u16 \<Rightarrow> u32" where
  "cache_key c_bsize c_lsize c_size =
     push_bit 24 (ucast c_bsize) OR push_bit 16 (ucast c_lsize) OR ucast c_size"

definition SGI_ARCS_VERS :: u16 where "SGI_ARCS_VERS = 1"
definition SGI_ARCS_REV :: u16 where "SGI_ARCS_REV = 10"

record component =
  Class :: configclass
  Type :: configtype
  Flags :: u32
  Version :: u16
  Revision :: u16
  Key :: u32
  AffinityMask :: u32
  ConfigurationDataSize :: u32
  IdentifierLength :: u32
  Identifier :: "string option"

record cfgnode =
  comp :: component
  parent :: "nat option"
  peer :: "nat option"
  child :: "nat option"

definition MAX_CFG_NODES :: nat where "MAX_CFG_NODES = 24"

record cfg =
  cfg_pool :: "cfgnode list"
  cfg_pool_used :: nat

subsection \<open>The operations\<close>

definition cfg_alloc :: "cfg \<Rightarrow> nat option \<times> cfg" where
  "cfg_alloc s =
    (if cfg_pool_used s \<ge> MAX_CFG_NODES then (None, s)
     else (Some (cfg_pool_used s), s\<lparr>cfg_pool_used := cfg_pool_used s + 1\<rparr>))"

text \<open>The scan of the nodes in use for the one whose component \<open>c\<close> points to.\<close>

definition find_node :: "nat \<Rightarrow> cfg \<Rightarrow> nat option" where
  "find_node c s = List.find (\<lambda>i. i = c) [0..<cfg_pool_used s]"

definition upd_node :: "nat \<Rightarrow> (cfgnode \<Rightarrow> cfgnode) \<Rightarrow> cfg \<Rightarrow> cfg" where
  "upd_node i f s = s\<lparr>cfg_pool := (cfg_pool s)[i := f (cfg_pool s ! i)]\<rparr>"

partial_function (option) last_peer :: "nat \<Rightarrow> cfg \<Rightarrow> nat option" where
  "last_peer p s =
    (case peer (cfg_pool s ! p) of None \<Rightarrow> Some p | Some q \<Rightarrow> last_peer q s)"

declare last_peer.simps [code]

definition AddChild :: "nat option \<Rightarrow> component \<Rightarrow> cfg \<Rightarrow> (nat option \<times> cfg) option" where
  "AddChild par tmpl s =
    (let (newnode, s) = cfg_alloc s in
     case newnode of
       None \<Rightarrow> Some (None, s)
     | Some n \<Rightarrow>
         (let s = upd_node n (\<lambda>_. \<lparr>comp = tmpl, parent = None, peer = None, child = None\<rparr>) s in
          case par of
            None \<Rightarrow> Some (Some n, s)
          | Some c \<Rightarrow>
              (case find_node c s of
                 None \<Rightarrow> Some (Some n, s)
               | Some p \<Rightarrow>
                   (let s = upd_node n (\<lambda>x. x\<lparr>parent := Some p\<rparr>) s in
                    case child (cfg_pool s ! p) of
                      None \<Rightarrow> Some (Some n, upd_node p (\<lambda>x. x\<lparr>child := Some n\<rparr>) s)
                    | Some first \<Rightarrow> do {
                        q \<leftarrow> last_peer first s;
                        Some (Some n, upd_node q (\<lambda>x. x\<lparr>peer := Some n\<rparr>) s) }))))"

definition GetChild :: "nat option \<Rightarrow> cfg \<Rightarrow> nat option" where
  "GetChild c s =
    (case c of
       None \<Rightarrow> if cfg_pool_used s > 0 then Some 0 else None
     | Some c \<Rightarrow> (case find_node c s of None \<Rightarrow> None | Some i \<Rightarrow> child (cfg_pool s ! i)))"

definition GetPeer :: "nat option \<Rightarrow> cfg \<Rightarrow> nat option" where
  "GetPeer c s =
    (case c of
       None \<Rightarrow> None
     | Some c \<Rightarrow> (case find_node c s of None \<Rightarrow> None | Some i \<Rightarrow> peer (cfg_pool s ! i)))"

definition GetParent :: "nat option \<Rightarrow> cfg \<Rightarrow> nat option" where
  "GetParent c s =
    (case c of
       None \<Rightarrow> None
     | Some c \<Rightarrow> (case find_node c s of None \<Rightarrow> None | Some i \<Rightarrow> parent (cfg_pool s ! i)))"

definition DeleteComponent :: "nat option \<Rightarrow> cfg \<Rightarrow> int \<times> cfg" where
  "DeleteComponent c s = (0, s)"

definition GetComponent :: "string \<Rightarrow> cfg \<Rightarrow> nat option" where
  "GetComponent path s = None"

definition SaveConfiguration :: "cfg \<Rightarrow> int \<times> cfg" where
  "SaveConfiguration s = (0, s)"

definition GetConfigData :: "'a \<Rightarrow> nat option \<Rightarrow> cfg \<Rightarrow> int \<times> 'a" where
  "GetConfigData data c s = (0, data)"

subsection \<open>The processor table\<close>

record cpu_entry =
  cpuid :: u32
  pr_id :: u32
  status :: u32
  reserved :: u32

record mpconf =
  magic :: u32
  num_cpus :: u32
  cpus :: "cpu_entry list"

definition PVPROM_MPCONF_MAGIC :: u32 where "PVPROM_MPCONF_MAGIC = 0x4D503534"

text \<open>\<open>n\<close> is what the register at \<open>SGI_SMP_BASE\<close> reads; \<open>mpc\<close> is the table at its fixed
address before the call, with its 128 entries.\<close>

definition init_mpconf :: "u32 \<Rightarrow> mpconf \<Rightarrow> mpconf" where
  "init_mpconf n mpc =
    mpc\<lparr>magic := PVPROM_MPCONF_MAGIC, num_cpus := n,
      cpus := map (\<lambda>(i, e). if of_nat i < n then e\<lparr>cpuid := of_nat i, status := 1, pr_id := 0x0900\<rparr>
                            else e\<lparr>cpuid := of_nat i, status := 0, pr_id := 0\<rparr>)
               (enumerate 0 (cpus mpc))\<rparr>"

subsection \<open>Building the tree\<close>

definition id_root :: string where "id_root = ''SGI-IP32''"
definition id_cpu :: string where "id_cpu = ''MIPS-R5000''"
definition id_fpu :: string where "id_fpu = ''MIPS-R5000FPC''"
definition id_mem :: string where "id_mem = ''memory''"
definition id_scsi :: string where "id_scsi = ''MACE_SCSI''"
definition id_disk_ctrl :: string where "id_disk_ctrl = ''disk_ctrl''"
definition id_disk :: string where "id_disk = ''disk''"

text \<open>Setting the identifier and its length, the size of the array with its NUL.\<close>

definition with_id :: "string \<Rightarrow> component \<Rightarrow> component" where
  "with_id s t = t\<lparr>IdentifierLength := of_nat (Suc (length s)), Identifier := Some s\<rparr>"

definition init_component_tree :: "u32 \<Rightarrow> mpconf \<Rightarrow> cfg \<Rightarrow> (mpconf \<times> cfg) option" where
  "init_component_tree ncpus mpc s = do {
     let mpc = init_mpconf ncpus mpc;
     let tmpl = with_id id_root \<lparr>Class = SystemClass, Type = ARC, Flags = 0, Version = SGI_ARCS_VERS,
       Revision = SGI_ARCS_REV, Key = 0, AffinityMask = 0, ConfigurationDataSize = 0,
       IdentifierLength = 0, Identifier = None\<rparr>;
     (root, s) \<leftarrow> AddChild None tmpl s;
     let tmpl = with_id id_cpu (tmpl\<lparr>Class := ProcessorClass, Type := CPU, Flags := 0, Version := 0,
       Revision := 0, Key := 0, AffinityMask := 1, ConfigurationDataSize := 0\<rparr>);
     (cpu_c, s) \<leftarrow> AddChild root tmpl s;
     let tmpl = with_id id_fpu (tmpl\<lparr>Class := ProcessorClass, Type := FPU, Flags := 0, Key := 0\<rparr>);
     (_, s) \<leftarrow> AddChild cpu_c tmpl s;
     let cachekey = cache_key 1 32 8;
     let tmpl = tmpl\<lparr>Class := CacheClass, Type := PrimaryICache, Flags := 0, Key := cachekey,
       IdentifierLength := 0, Identifier := None\<rparr>;
     (_, s) \<leftarrow> AddChild cpu_c tmpl s;
     let tmpl = tmpl\<lparr>Type := PrimaryDCache, Key := cachekey\<rparr>;
     (_, s) \<leftarrow> AddChild cpu_c tmpl s;
     let tmpl = with_id id_mem (tmpl\<lparr>Class := MemoryClass, Type := Memory, Flags := 0, Key := 64\<rparr>);
     (_, s) \<leftarrow> AddChild root tmpl s;
     let tmpl = with_id id_scsi (tmpl\<lparr>Class := AdapterClass, Type := SCSIAdapter, Flags := 0, Key := 0\<rparr>);
     (scsi_c, s) \<leftarrow> AddChild root tmpl s;
     let tmpl = with_id id_disk_ctrl (tmpl\<lparr>Class := ControllerClass, Type := DiskController, Flags := 0,
       Key := 1\<rparr>);
     (disk_ctrl_c, s) \<leftarrow> AddChild scsi_c tmpl s;
     let tmpl = with_id id_disk (tmpl\<lparr>Class := PeripheralClass, Type := DiskPeripheral, Flags := 0,
       Key := 0\<rparr>);
     (_, s) \<leftarrow> AddChild disk_ctrl_c tmpl s;
     Some (mpc, s) }"

subsection \<open>Searching the inventory\<close>

text \<open>\<open>invfind.c\<close> reaches the tree through \<open>GetChild\<close> and \<open>GetPeer\<close> only, here the
parameters \<open>down\<close> and \<open>across\<close>; \<open>ty\<close> and \<open>cl\<close> read the type and class.  \<open>None\<close> is a
search that does not end.\<close>

partial_function (option) find_type ::
  "('c \<Rightarrow> 'c option) \<Rightarrow> ('c \<Rightarrow> 'c option) \<Rightarrow> ('c \<Rightarrow> configtype) \<Rightarrow> 'c option \<Rightarrow> configtype \<Rightarrow> 'c option option"
where
  "find_type down across ty c t =
    (case c of
       None \<Rightarrow> Some None
     | Some x \<Rightarrow>
         if ty x = t then Some (Some x)
         else do {
           c1 \<leftarrow> find_type down across ty (down x) t;
           if c1 \<noteq> None then Some c1
           else do {
             c1 \<leftarrow> find_type down across ty (across x) t;
             if c1 \<noteq> None then Some c1 else Some None } })"

partial_function (option) count_type ::
  "('c \<Rightarrow> 'c option) \<Rightarrow> ('c \<Rightarrow> 'c option) \<Rightarrow> ('c \<Rightarrow> configtype) \<Rightarrow> 'c option \<Rightarrow> configtype \<Rightarrow> int option"
where
  "count_type down across ty c t =
    (case c of
       None \<Rightarrow> Some 0
     | Some x \<Rightarrow> do {
         let local = (if ty x = t then 1 else 0);
         tmp \<leftarrow> count_type down across ty (down x) t;
         let local = (if tmp \<noteq> 0 then local + tmp else local);
         tmp \<leftarrow> count_type down across ty (across x) t;
         Some (if tmp \<noteq> 0 then local + tmp else local) })"

text \<open>The array \<open>tapes\<close> and its count; \<open>wr\<close> is \<open>None\<close> for a store past the end.\<close>

definition MAXTAPES :: nat where "MAXTAPES = 16"

partial_function (option) add_tapes ::
  "('c \<Rightarrow> 'c option) \<Rightarrow> 'c \<Rightarrow> 'c option list \<times> nat \<Rightarrow> ('c option list \<times> nat) option"
where
  "add_tapes across p st = do {
     tapes \<leftarrow> wr (fst st) (snd st) (Some p);
     let st = (tapes, snd st + 1);
     (case across p of None \<Rightarrow> Some st | Some p \<Rightarrow> add_tapes across p st) }"

partial_function (option) look_tape ::
  "('c \<Rightarrow> 'c option) \<Rightarrow> ('c \<Rightarrow> 'c option) \<Rightarrow> ('c \<Rightarrow> configclass) \<Rightarrow> ('c \<Rightarrow> configtype) \<Rightarrow>
   'c option \<Rightarrow> 'c option list \<times> nat \<Rightarrow> ('c option list \<times> nat) option"
where
  "look_tape down across cl ty c st =
    (case c of
       None \<Rightarrow> Some st
     | Some x \<Rightarrow>
         if snd st \<ge> MAXTAPES then Some st
         else do {
           st \<leftarrow> (if cl x = ControllerClass \<and> (ty x = TapeController \<or> ty x = CDROMController)
                 then (case down x of None \<Rightarrow> Some st | Some p \<Rightarrow> add_tapes across p st)
                 else Some st);
           st \<leftarrow> look_tape down across cl ty (down x) st;
           look_tape down across cl ty (across x) st })"

declare find_type.simps [code] count_type.simps [code] add_tapes.simps [code] look_tape.simps [code]

text \<open>\<open>kl_inv_find\<close> is a stub; an identifier is the array it points to.\<close>

definition kl_inv_find :: "string option" where
  "kl_inv_find = None"

definition inv_findcpu :: "cfg \<Rightarrow> string option option" where
  "inv_findcpu s =
    (case GetChild None s of
       None \<Rightarrow>
         (case kl_inv_find of
            Some p \<Rightarrow> if 4 \<le> length p then Some (Some (drop 4 p)) else None
          | None \<Rightarrow> Some None)
     | Some c \<Rightarrow> do {
         p \<leftarrow> Identifier (comp (cfg_pool s ! c));
         let p = cstr p;
         d \<leftarrow> strncmp p (cstr ''SGI '') 3;
         if d = 0 then (if 4 \<le> length p then Some (Some (drop 4 p)) else None)
         else Some (Some p) })"



section \<open>The shape of the tree\<close>

text \<open>The children of a component, in the order in which they were added, and what the
links of the pool are when they represent them.\<close>

definition kids :: "cfg \<Rightarrow> nat \<Rightarrow> nat list" where
  "kids s p = filter (\<lambda>i. parent (cfg_pool s ! i) = Some p) [0..<cfg_pool_used s]"

definition head :: "'a list \<Rightarrow> 'a option" where
  "head xs = (case xs of [] \<Rightarrow> None | x # _ \<Rightarrow> Some x)"

fun chained :: "('a \<Rightarrow> 'a option) \<Rightarrow> 'a list \<Rightarrow> bool" where
  "chained N [] = True"
| "chained N (x # xs) \<longleftrightarrow> N x = head xs \<and> chained N xs"

definition tree_ok :: "cfg \<Rightarrow> bool" where
  "tree_ok s \<longleftrightarrow> length (cfg_pool s) = MAX_CFG_NODES \<and> cfg_pool_used s \<le> MAX_CFG_NODES \<and>
     (\<forall>i < cfg_pool_used s. (case parent (cfg_pool s ! i) of None \<Rightarrow> peer (cfg_pool s ! i) = None | Some p \<Rightarrow> p < i) \<and>
        child (cfg_pool s ! i) = head (kids s i) \<and> chained (\<lambda>i. peer (cfg_pool s ! i)) (kids s i))"

lemma tree_ok_iff:
  "tree_ok s \<longleftrightarrow> length (cfg_pool s) = MAX_CFG_NODES \<and> cfg_pool_used s \<le> MAX_CFG_NODES \<and>
     (\<forall>i < cfg_pool_used s. (\<forall>p. parent (cfg_pool s ! i) = Some p \<longrightarrow> p < i) \<and>
        child (cfg_pool s ! i) = head (kids s i) \<and> chained (\<lambda>i. peer (cfg_pool s ! i)) (kids s i) \<and>
        (parent (cfg_pool s ! i) = None \<longrightarrow> peer (cfg_pool s ! i) = None))"
  unfolding tree_ok_def by (auto split: option.splits)

lemma head_simps [simp]: "head [] = None" "head (x # xs) = Some x"
  by (simp_all add: head_def)

lemma head_append [simp]: "head (xs @ ys) = (if xs = [] then head ys else head xs)"
  by (cases xs) auto

lemma chained_append:
  "chained N (xs @ ys) \<longleftrightarrow> (\<forall>A x B. xs = A @ x # B \<longrightarrow> N x = head (B @ ys)) \<and> chained N ys"
proof (induction xs)
  case (Cons a xs)
  show ?case
  proof
    assume c: "chained N ((a # xs) @ ys)"
    have "N x = head (B @ ys)" if "a # xs = A @ x # B" for A x B
      using that c Cons.IH by (cases A) auto
    then show "(\<forall>A x B. a # xs = A @ x # B \<longrightarrow> N x = head (B @ ys)) \<and> chained N ys"
      using c Cons.IH by auto
  next
    assume r: "(\<forall>A x B. a # xs = A @ x # B \<longrightarrow> N x = head (B @ ys)) \<and> chained N ys"
    then have "N a = head (xs @ ys)"
      using append_Nil by metis
    moreover have "\<forall>A x B. xs = A @ x # B \<longrightarrow> N x = head (B @ ys)"
      using r append_Cons by metis
    ultimately show "chained N ((a # xs) @ ys)"
      using r Cons.IH by simp
  qed
qed simp

lemma chained_mid: "chained N (A @ x # B) \<Longrightarrow> N x = head B"
  by (simp add: chained_append)

lemma chained_cong: "(\<And>x. x \<in> set xs \<Longrightarrow> N x = M x) \<Longrightarrow> chained N xs = chained M xs"
  by (induction xs) auto

lemma chained_snoc:
  "chained N (xs @ [x]) \<Longrightarrow> n \<notin> set (xs @ [x]) \<Longrightarrow> x \<notin> set xs \<Longrightarrow>
    chained (N(x := Some n, n := None)) (xs @ [x, n])"
  by (induction xs) auto

lemma last_peer_chain:
  assumes "chained (\<lambda>i. peer (cfg_pool s ! i)) (x # xs)"
  shows "last_peer x s = Some (last (x # xs))"
  using assms
proof (induction xs arbitrary: x)
  case Nil
  then show ?case
    by (simp add: last_peer.simps)
next
  case (Cons y ys)
  then show ?case
    by (subst last_peer.simps) simp
qed

lemma find_node_eq [simp]: "find_node c s = (if c < cfg_pool_used s then Some c else None)"
proof -
  have "List.find (\<lambda>i. i = c) xs = (if c \<in> set xs then Some c else None)" for xs
    by (induction xs) auto
  then show ?thesis
    by (simp add: find_node_def)
qed

lemma kids_below: "i \<in> set (kids s p) \<Longrightarrow> i < cfg_pool_used s \<and> parent (cfg_pool s ! i) = Some p"
  by (simp add: kids_def)

lemma kids_sorted: "distinct (kids s p)"
  by (simp add: kids_def)

text \<open>Adding a node.\<close>

definition add_node :: "nat option \<Rightarrow> component \<Rightarrow> cfg \<Rightarrow> cfg" where
  "add_node par tmpl s = s\<lparr>cfg_pool := (cfg_pool s)[cfg_pool_used s :=
     \<lparr>comp = tmpl, parent = par, peer = None, child = None\<rparr>], cfg_pool_used := cfg_pool_used s + 1\<rparr>"

lemma kids_add_node:
  assumes "tree_ok s" "cfg_pool_used s < MAX_CFG_NODES"
  shows "kids (add_node par tmpl s) p = kids s p @ (if par = Some p then [cfg_pool_used s] else [])"
proof -
  have "length (cfg_pool s) = MAX_CFG_NODES"
    using assms by (simp add: tree_ok_iff)
  then have "filter (\<lambda>i. parent (cfg_pool (add_node par tmpl s) ! i) = Some p) [0..<cfg_pool_used s] = kids s p"
    using assms(2) unfolding kids_def by (intro filter_cong) (auto simp: add_node_def)
  moreover have "cfg_pool_used (add_node par tmpl s) = Suc (cfg_pool_used s)"
    "parent (cfg_pool (add_node par tmpl s) ! cfg_pool_used s) = par"
    using assms(2) \<open>length (cfg_pool s) = MAX_CFG_NODES\<close> by (simp_all add: add_node_def)
  ultimately show ?thesis
    by (simp add: kids_def)
qed

lemma upd_node_parent:
  "(\<And>x. parent (f x) = parent x) \<Longrightarrow> parent (cfg_pool (upd_node i f s) ! j) = parent (cfg_pool s ! j)"
  by (cases "i < length (cfg_pool s)"; cases "i = j") (auto simp: upd_node_def list_update_beyond)

lemma kids_upd: "(\<And>x. parent (f x) = parent x) \<Longrightarrow> kids (upd_node i f s) p = kids s p"
  unfolding kids_def by (simp only: upd_node_parent) (simp add: upd_node_def)

lemma nodes_upd:
  "i < length (cfg_pool s) \<Longrightarrow>
    cfg_pool (upd_node i f s) ! j = (if j = i then f (cfg_pool s ! i) else cfg_pool s ! j)"
  "cfg_pool_used (upd_node i f s) = cfg_pool_used s" "length (cfg_pool (upd_node i f s)) = length (cfg_pool s)"
  by (auto simp: upd_node_def)

lemma nodes_add:
  "cfg_pool_used s < length (cfg_pool s) \<Longrightarrow> cfg_pool (add_node par tmpl s) ! j =
    (if j = cfg_pool_used s then \<lparr>comp = tmpl, parent = par, peer = None, child = None\<rparr> else cfg_pool s ! j)"
  "cfg_pool_used (add_node par tmpl s) = Suc (cfg_pool_used s)"
  "length (cfg_pool (add_node par tmpl s)) = length (cfg_pool s)"
  by (auto simp: add_node_def)

text \<open>The three ways \<open>AddChild\<close> links the new node.\<close>

lemma AddChild_full: "MAX_CFG_NODES \<le> cfg_pool_used s \<Longrightarrow> AddChild par tmpl s = Some (None, s)"
  by (simp add: AddChild_def cfg_alloc_def)

lemma AddChild_root:
  assumes "cfg_pool_used s < MAX_CFG_NODES" "case par of None \<Rightarrow> True | Some p \<Rightarrow> cfg_pool_used s < p"
  shows "AddChild par tmpl s = Some (Some (cfg_pool_used s), add_node None tmpl s)"
  using assms by (cases par) (auto simp: AddChild_def cfg_alloc_def add_node_def upd_node_def)

definition linked_child :: "nat \<Rightarrow> component \<Rightarrow> cfg \<Rightarrow> cfg" where
  "linked_child p tmpl s = (
    case kids s p of
      [] \<Rightarrow> upd_node p (\<lambda>x. x\<lparr>child := Some (cfg_pool_used s)\<rparr>) (add_node (Some p) tmpl s)
    | k # ks \<Rightarrow> upd_node (last (k # ks)) (\<lambda>x. x\<lparr>peer := Some (cfg_pool_used s)\<rparr>) (add_node (Some p) tmpl s))"

lemma AddChild_child:
  assumes ok: "tree_ok s" and n: "cfg_pool_used s < MAX_CFG_NODES" and p: "p < cfg_pool_used s"
  shows "AddChild (Some p) tmpl s = Some (Some (cfg_pool_used s), linked_child p tmpl s)"
proof -
  let ?n = "cfg_pool_used s" and ?s = "add_node (Some p) tmpl s"
  have l: "length (cfg_pool s) = MAX_CFG_NODES"
    and c: "child (cfg_pool s ! p) = head (kids s p)" "chained (\<lambda>i. peer (cfg_pool s ! i)) (kids s p)"
    using ok p by (auto simp: tree_ok_iff)
  have s: "upd_node ?n (\<lambda>x. x\<lparr>parent := Some p\<rparr>) (upd_node ?n
      (\<lambda>_. \<lparr>comp = tmpl, parent = None, peer = None, child = None\<rparr>) (s\<lparr>cfg_pool_used := ?n + 1\<rparr>)) = ?s"
    using n l by (simp add: upd_node_def add_node_def)
  have old: "cfg_pool ?s ! i = cfg_pool s ! i" if "i \<noteq> ?n" for i
    using that n l by (simp add: nodes_add)
  have "last_peer k ?s = Some (last (k # ks))" if "kids s p = k # ks" for k ks
  proof (rule last_peer_chain)
    have "\<forall>i \<in> set (k # ks). i \<noteq> ?n"
      using kids_below [of _ s p] that by force
    then show "chained (\<lambda>i. peer (cfg_pool ?s ! i)) (k # ks)"
      using c(2) that old by (subst chained_cong [of _ _ "\<lambda>i. peer (cfg_pool s ! i)"]) auto
  qed
  then show ?thesis
    using n p c(1) old [of p] s
    by (auto simp: linked_child_def AddChild_def cfg_alloc_def Let_def nodes_upd split: list.split)
qed


lemma add_root_ok:
  assumes "tree_ok s" "cfg_pool_used s < MAX_CFG_NODES"
  shows "tree_ok (add_node None tmpl s)" "kids (add_node None tmpl s) p = kids s p"
proof -
  let ?n = "cfg_pool_used s" and ?s = "add_node None tmpl s"
  show k: "kids ?s p = kids s p" for p
    using kids_add_node [OF assms, of None] by simp
  have l: "length (cfg_pool s) = MAX_CFG_NODES"
    using assms by (simp add: tree_ok_iff)
  have new: "kids s ?n = []"
    using assms(1) unfolding kids_def tree_ok_iff by (auto simp: filter_empty_conv)
  have "chained (\<lambda>i. peer (cfg_pool ?s ! i)) (kids s i) = chained (\<lambda>i. peer (cfg_pool s ! i)) (kids s i)" for i
    using assms(2) l kids_below [of _ s i] by (intro chained_cong) (auto simp: nodes_add)
  then show "tree_ok ?s"
    using assms l k new unfolding tree_ok_iff by (auto simp: nodes_add less_Suc_eq)
qed

lemma add_child_ok:
  fixes tmpl
  assumes ok: "tree_ok s" and n: "cfg_pool_used s < MAX_CFG_NODES" and p: "p < cfg_pool_used s"
  defines "s' \<equiv> linked_child p tmpl s"
  shows "tree_ok s'" "kids s' q = kids s q @ (if p = q then [cfg_pool_used s] else [])"
    "cfg_pool_used s' = Suc (cfg_pool_used s)"
    "comp (cfg_pool s' ! i) = (if i = cfg_pool_used s then tmpl else comp (cfg_pool s ! i))"
    "parent (cfg_pool s' ! i) = (if i = cfg_pool_used s then Some p else parent (cfg_pool s ! i))"
proof -
  let ?n = "cfg_pool_used s" and ?s = "add_node (Some p) tmpl s"
  have l: "length (cfg_pool s) = MAX_CFG_NODES" "length (cfg_pool ?s) = MAX_CFG_NODES"
    using ok n by (simp_all add: tree_ok_iff nodes_add)
  show k: "kids s' q = kids s q @ (if p = q then [?n] else [])" for q
    using kids_add_node [OF ok n, of "Some p" tmpl q]
    by (cases "kids s p") (auto simp: s'_def linked_child_def kids_upd)
  show u: "cfg_pool_used s' = Suc ?n"
    by (simp add: s'_def linked_child_def nodes_upd nodes_add split: list.split)
  have last: "last (kids s p) < ?n" "last (kids s p) \<in> set (kids s p)" if "kids s p \<noteq> []"
    using that kids_below [of "last (kids s p)" s p] by auto
  have node: "cfg_pool s' ! i = (if i = ?n then \<lparr>comp = tmpl, parent = Some p, peer = None, child = None\<rparr>
      else if i = p \<and> kids s p = [] then (cfg_pool s ! i)\<lparr>child := Some ?n\<rparr>
      else if kids s p \<noteq> [] \<and> i = last (kids s p) then (cfg_pool s ! i)\<lparr>peer := Some ?n\<rparr>
      else cfg_pool s ! i)" for i
    using n l p last by (auto simp: s'_def linked_child_def nodes_upd nodes_add split: list.split)
  show "comp (cfg_pool s' ! i) = (if i = ?n then tmpl else comp (cfg_pool s ! i))"
    "parent (cfg_pool s' ! i) = (if i = ?n then Some p else parent (cfg_pool s ! i))"
    by (simp_all add: node)
  have inv: "\<And>i. i < ?n \<Longrightarrow> (\<forall>p. parent (cfg_pool s ! i) = Some p \<longrightarrow> p < i) \<and>
      child (cfg_pool s ! i) = head (kids s i) \<and> chained (\<lambda>i. peer (cfg_pool s ! i)) (kids s i) \<and>
      (parent (cfg_pool s ! i) = None \<longrightarrow> peer (cfg_pool s ! i) = None)"
    using ok by (simp add: tree_ok_iff)
  have new: "kids s ?n = []"
    using inv unfolding kids_def by (fastforce simp: filter_empty_conv)
  have ch: "chained (\<lambda>i. peer (cfg_pool s' ! i)) (kids s' q)" if "q < Suc ?n" for q
  proof (cases "q = p")
    case False
    have "last (kids s p) \<notin> set (kids s q)" if "kids s p \<noteq> []"
      using False kids_below [OF last(2) [OF that]] kids_below [of "last (kids s p)" s q] by auto
    then have "chained (\<lambda>i. peer (cfg_pool s' ! i)) (kids s q) = chained (\<lambda>i. peer (cfg_pool s ! i)) (kids s q)"
      using kids_below [of _ s q] by (intro chained_cong) (auto simp: node)
    moreover have "chained (\<lambda>i. peer (cfg_pool s ! i)) (kids s q)"
      using inv [of q] new that by (cases "q = ?n") auto
    ultimately show ?thesis
      using False k by simp
  next
    case True
    show ?thesis
    proof (cases "kids s p" rule: rev_cases)
      case Nil
      then show ?thesis
        using True k by (simp add: node)
    next
      case (snoc xs x)
      have "chained (\<lambda>i. peer (cfg_pool s ! i)) (xs @ [x])" "x \<notin> set xs" "?n \<notin> set (xs @ [x])"
        using inv [OF p] snoc kids_sorted [of s p] kids_below [of _ s p] by force+
      from chained_snoc [OF this(1,3,2)] show ?thesis
        using True k snoc by (subst chained_cong [where M = "(\<lambda>i. peer (cfg_pool s ! i))(x := Some ?n, ?n := None)"])
          (auto simp: node)
    qed
  qed
  have cd: "child (cfg_pool s' ! i) = head (kids s' i)" if "i < Suc ?n" for i
    using that inv [of i] k new p by (cases "i = ?n") (auto simp: node)
  have up: "q < i" if "i < Suc ?n" "parent (cfg_pool s' ! i) = Some q" for i q
    using that inv [of i] p by (cases "i = ?n") (auto simp: node split: if_splits)
  have "peer (cfg_pool s' ! i) = None" if "i < Suc ?n" "parent (cfg_pool s' ! i) = None" for i
    using that inv [of i] last kids_below [of _ s p] by (auto simp: node split: if_splits)
  then show "tree_ok s'"
    unfolding tree_ok_iff u using up ch cd l n
    by (auto simp: s'_def linked_child_def nodes_upd nodes_add split: list.split)
qed


text \<open>Every call keeps the tree; a null or unknown parent starts a tree of its own.\<close>

lemma AddChild_ok:
  assumes ok: "tree_ok s" and par: "par \<noteq> Some (cfg_pool_used s)"
  shows "\<exists>r s'. AddChild par tmpl s = Some (r, s') \<and> tree_ok s' \<and>
    (if MAX_CFG_NODES \<le> cfg_pool_used s then r = None \<and> s' = s
     else r = Some (cfg_pool_used s) \<and> cfg_pool_used s' = Suc (cfg_pool_used s) \<and>
       (\<forall>p. kids s' p = kids s p @ (if par = Some p \<and> p < cfg_pool_used s then [cfg_pool_used s] else [])) \<and>
       (\<forall>i. comp (cfg_pool s' ! i) = (if i = cfg_pool_used s then tmpl else comp (cfg_pool s ! i))) \<and>
       (\<forall>i. parent (cfg_pool s' ! i) = (if i = cfg_pool_used s
          then (if \<exists>p. par = Some p \<and> p < cfg_pool_used s then par else None) else parent (cfg_pool s ! i))))"
proof (cases "MAX_CFG_NODES \<le> cfg_pool_used s")
  case True
  then show ?thesis
    using ok by (simp add: AddChild_full)
next
  case False
  then have n: "cfg_pool_used s < MAX_CFG_NODES" and l: "cfg_pool_used s < length (cfg_pool s)"
    using ok by (auto simp: tree_ok_iff)
  show ?thesis
  proof (cases "\<exists>p. par = Some p \<and> p < cfg_pool_used s")
    case True
    then obtain p where p: "par = Some p" "p < cfg_pool_used s"
      by blast
    then show ?thesis
      using n AddChild_child [OF ok n p(2)] add_child_ok [OF ok n p(2)] by auto
  next
    case False
    then have "AddChild par tmpl s = Some (Some (cfg_pool_used s), add_node None tmpl s)"
      using par by (intro AddChild_root [OF n]) (auto split: option.split)
    then show ?thesis
      using n l False add_root_ok [OF ok n] by (auto simp: nodes_add)
  qed
qed

lemma getters:
  assumes "tree_ok s" "i < cfg_pool_used s"
  shows "GetChild (Some i) s = head (kids s i)" "GetParent (Some i) s = parent (cfg_pool s ! i)"
    "kids s p = A @ i # B \<Longrightarrow> GetPeer (Some i) s = head B"
    "parent (cfg_pool s ! i) = None \<Longrightarrow> GetPeer (Some i) s = None"
proof -
  show "GetChild (Some i) s = head (kids s i)" "GetParent (Some i) s = parent (cfg_pool s ! i)"
    "parent (cfg_pool s ! i) = None \<Longrightarrow> GetPeer (Some i) s = None"
    using assms by (auto simp: tree_ok_iff GetChild_def GetParent_def GetPeer_def)
  assume k: "kids s p = A @ i # B"
  then have "parent (cfg_pool s ! i) = Some p"
    using kids_below [of i s p] by simp
  then have "p < cfg_pool_used s"
    using assms by (auto simp: tree_ok_iff intro: less_trans)
  then have "chained (\<lambda>i. peer (cfg_pool s ! i)) (A @ i # B)"
    using assms(1) k by (auto simp: tree_ok_iff)
  from chained_mid [OF this] show "GetPeer (Some i) s = head B"
    using assms(2) by (simp add: GetPeer_def)
qed

lemma last_GetPeer:
  assumes "tree_ok s" "kids s p = xs"
  shows "chained (\<lambda>i. GetPeer (Some i) s) xs"
proof -
  have "GetPeer (Some x) s = head B" if "xs = A @ x # B" for A x B
    using getters(3) [OF assms(1) _ , of x p A B] kids_below [of x s p] that assms(2) by auto
  then show ?thesis
    using chained_append [of _ xs "[]"] by simp
qed

section \<open>The contract of the tree and the searches\<close>

text \<open>The components below and including \<open>x\<close> in the order in which a search meets them,
to the depth \<open>n\<close>.\<close>

fun preorder :: "('c \<Rightarrow> 'c list) \<Rightarrow> nat \<Rightarrow> 'c \<Rightarrow> 'c list" where
  "preorder ks 0 x = []"
| "preorder ks (Suc n) x = x # concat (map (preorder ks n) (ks x))"

lemma find_append:
  "List.find P (xs @ ys) = (case List.find P xs of None \<Rightarrow> List.find P ys | Some z \<Rightarrow> Some z)"
  by (induction xs) auto

locale inventory =
  fixes inv :: "'s \<Rightarrow> bool"
    and down across :: "'s \<Rightarrow> 'c \<Rightarrow> 'c option"
    and family :: "'s \<Rightarrow> 'c \<Rightarrow> 'c list"
    and depth :: "'s \<Rightarrow> 'c \<Rightarrow> nat"
  assumes down_law: "inv s \<Longrightarrow> 0 < depth s x \<Longrightarrow> down s x = head (family s x)"
    and across_law: "inv s \<Longrightarrow> 0 < depth s x \<Longrightarrow> chained (across s) (family s x)"
    and depth_law: "inv s \<Longrightarrow> y \<in> set (family s x) \<Longrightarrow> 0 < depth s y \<and> depth s y < depth s x"
begin

lemma find_type_preorder:
  assumes s: "inv s"
  shows "chained (across s) L \<Longrightarrow> \<forall>x \<in> set L. 0 < depth s x \<and> depth s x \<le> n \<Longrightarrow>
    find_type (down s) (across s) ty (head L) t =
      Some (List.find (\<lambda>x. ty x = t) (concat (map (preorder (family s) n) L)))"
proof (induction n arbitrary: L)
  case 0
  then show ?case
    by (cases L) (auto simp: find_type.simps)
next
  case (Suc n)
  note outer = Suc.IH
  from Suc.prems show ?case
  proof (induction L)
    case Nil
    then show ?case
      by (simp add: find_type.simps)
  next
    case (Cons x L)
    have x: "0 < depth s x" "depth s x \<le> Suc n"
      using Cons.prems by simp_all
    have "\<forall>y \<in> set (family s x). 0 < depth s y \<and> depth s y \<le> n"
      using depth_law [OF s] x by fastforce
    then have d: "find_type (down s) (across s) ty (down s x) t =
        Some (List.find (\<lambda>x. ty x = t) (concat (map (preorder (family s) n) (family s x))))"
      using outer [OF across_law [OF s x(1)]] by (simp add: down_law [OF s x(1)])
    have a: "find_type (down s) (across s) ty (across s x) t =
        Some (List.find (\<lambda>x. ty x = t) (concat (map (preorder (family s) (Suc n)) L)))"
      using Cons by (simp del: preorder.simps)
    from d a show ?case
      by (subst find_type.simps) (auto simp del: preorder.simps(2) simp: find_append preorder.simps(2) [of _ n x] split: option.split)
  qed
qed

lemma count_type_preorder:
  assumes s: "inv s"
  shows "chained (across s) L \<Longrightarrow> \<forall>x \<in> set L. 0 < depth s x \<and> depth s x \<le> n \<Longrightarrow>
    count_type (down s) (across s) ty (head L) t =
      Some (int (length (filter (\<lambda>x. ty x = t) (concat (map (preorder (family s) n) L)))))"
proof (induction n arbitrary: L)
  case 0
  then show ?case
    by (cases L) (auto simp: count_type.simps)
next
  case (Suc n)
  note outer = Suc.IH
  from Suc.prems show ?case
  proof (induction L)
    case Nil
    then show ?case
      by (simp add: count_type.simps)
  next
    case (Cons x L)
    have x: "0 < depth s x" "depth s x \<le> Suc n"
      using Cons.prems by simp_all
    have "\<forall>y \<in> set (family s x). 0 < depth s y \<and> depth s y \<le> n"
      using depth_law [OF s] x by fastforce
    then have d: "count_type (down s) (across s) ty (down s x) t =
        Some (int (length (filter (\<lambda>x. ty x = t) (concat (map (preorder (family s) n) (family s x))))))"
      using outer [OF across_law [OF s x(1)]] by (simp add: down_law [OF s x(1)])
    have a: "count_type (down s) (across s) ty (across s x) t =
        Some (int (length (filter (\<lambda>x. ty x = t) (concat (map (preorder (family s) (Suc n)) L)))))"
      using Cons by (simp del: preorder.simps)
    from d a show ?case
      by (subst count_type.simps) (simp del: preorder.simps(2) add: preorder.simps(2) [of _ n x] Let_def)
  qed
qed

end

definition node_depth :: "cfg \<Rightarrow> nat \<Rightarrow> nat" where
  "node_depth s i = cfg_pool_used s - i"

interpretation components: inventory tree_ok "\<lambda>s c. GetChild (Some c) s" "\<lambda>s c. GetPeer (Some c) s" kids node_depth
proof
  fix s and x y :: nat
  assume ok: "tree_ok s"
  show "GetChild (Some x) s = head (kids s x)" if "0 < node_depth s x"
    using getters(1) [OF ok, of x] that by (simp add: node_depth_def)
  show "chained (\<lambda>c. GetPeer (Some c) s) (kids s x)"
    by (rule last_GetPeer [OF ok refl])
  show "0 < node_depth s y \<and> node_depth s y < node_depth s x" if "y \<in> set (kids s x)"
    using kids_below [OF that] ok by (auto simp: node_depth_def tree_ok_iff)
qed


section \<open>What the searches reach\<close>

definition climbs :: "cfg \<Rightarrow> (nat \<times> nat) set" where
  "climbs s = {(c, p). GetParent (Some c) s = Some p}"

text \<open>The component whose chain of parents ends at the first one.\<close>

definition attached :: "cfg \<Rightarrow> nat \<Rightarrow> bool" where
  "attached s i \<longleftrightarrow> (i, 0) \<in> (climbs s)\<^sup>*"

lemma climbs_kids: "(c, p) \<in> climbs s \<longleftrightarrow> c \<in> set (kids s p)"
  by (auto simp: climbs_def GetParent_def kids_def split: if_splits)

lemma climbs_down:
  assumes "tree_ok s" "(c, p) \<in> (climbs s)\<^sup>*"
  shows "p \<le> c"
  using assms(2)
proof (induction rule: rtrancl_induct)
  case (step y z)
  then have "z < y"
    using kids_below [of y s z] assms(1) by (auto simp: climbs_kids tree_ok_iff)
  then show ?case
    using step by simp
qed simp

lemma climbs_single: "single_valued (climbs s)"
  by (auto simp: single_valued_def climbs_def)

lemma climbs_siblings:
  assumes ok: "tree_ok s" and "a \<in> set (kids s p)" "b \<in> set (kids s p)" "(j, a) \<in> (climbs s)\<^sup>*" "(j, b) \<in> (climbs s)\<^sup>*"
  shows "a = b"
proof -
  have no: "x = y" if "x \<in> set (kids s p)" "y \<in> set (kids s p)" "(x, y) \<in> (climbs s)\<^sup>*" for x y
    using that(3)
  proof (cases rule: converse_rtranclE)
    case (step z)
    then have "z = p"
      using kids_below [OF that(1)] kids_below [of x s z] by (simp add: climbs_kids)
    then have "y \<le> p"
      using climbs_down [OF ok] step(2) by simp
    moreover have "p < y"
      using kids_below [OF that(2)] ok by (simp add: tree_ok_iff)
    ultimately show ?thesis
      by simp
  qed simp
  show ?thesis
    using single_valued_confluent [OF climbs_single assms(4,5)] no assms(2,3) by blast
qed

lemma preorder_reaches:
  "tree_ok s \<Longrightarrow> x < cfg_pool_used s \<Longrightarrow> node_depth s x \<le> n \<Longrightarrow>
    set (preorder (kids s) n x) = {j. (j, x) \<in> (climbs s)\<^sup>*} \<and> distinct (preorder (kids s) n x)"
proof (induction n arbitrary: x)
  case 0
  then show ?case
    by (simp add: node_depth_def)
next
  case (Suc n)
  note ok = Suc.prems(1)
  have IH: "set (preorder (kids s) n y) = {j. (j, y) \<in> (climbs s)\<^sup>*} \<and> distinct (preorder (kids s) n y)"
    if "y \<in> set (kids s x)" for y
    using Suc.IH [OF ok, of y] components.depth_law [OF ok that] Suc.prems(3) kids_below [OF that] by simp
  have "{j. (j, x) \<in> (climbs s)\<^sup>*} = insert x (\<Union>y \<in> set (kids s x). {j. (j, y) \<in> (climbs s)\<^sup>*})"
  proof (intro set_eqI iffI)
    fix j
    assume "j \<in> {j. (j, x) \<in> (climbs s)\<^sup>*}"
    then have "(j, x) \<in> (climbs s)\<^sup>*"
      by simp
    then show "j \<in> insert x (\<Union>y \<in> set (kids s x). {j. (j, y) \<in> (climbs s)\<^sup>*})"
      by (cases rule: rtranclE) (auto simp: climbs_kids)
  qed (auto simp: climbs_kids intro: rtrancl_into_rtrancl)
  then have set: "set (preorder (kids s) (Suc n) x) = {j. (j, x) \<in> (climbs s)\<^sup>*}"
    using IH by simp
  have "distinct (concat (map (preorder (kids s) n) ys))" if "set ys \<subseteq> set (kids s x)" "distinct ys" for ys
    using that
  proof (induction ys)
    case (Cons y ys)
    have "set (preorder (kids s) n y) \<inter> set (preorder (kids s) n z) = {}" if "z \<in> set ys" for z
      using climbs_siblings [OF ok, of y x z] IH [of y] IH [of z] Cons.prems that by force
    then show ?case
      using Cons IH [of y] by auto
  qed simp
  moreover have "x \<notin> set (preorder (kids s) n y)" if "y \<in> set (kids s x)" for y
    using IH [OF that] climbs_down [OF ok, of x y] kids_below [OF that] ok by (auto simp: tree_ok_iff)
  ultimately have "distinct (preorder (kids s) (Suc n) x)"
    using kids_sorted [of s x] by simp
  with set show ?case
    by simp
qed

abbreviation search_for :: "configtype \<Rightarrow> cfg \<Rightarrow> nat option option" where
  "search_for t s \<equiv> find_type (\<lambda>c. GetChild (Some c) s) (\<lambda>c. GetPeer (Some c) s)
     (\<lambda>c. Type (comp (cfg_pool s ! c))) (GetChild None s) t"

abbreviation number_of_type :: "configtype \<Rightarrow> cfg \<Rightarrow> int option" where
  "number_of_type t s \<equiv> count_type (\<lambda>c. GetChild (Some c) s) (\<lambda>c. GetPeer (Some c) s)
     (\<lambda>c. Type (comp (cfg_pool s ! c))) (GetChild None s) t"

lemma find_search_run:
  assumes ok: "tree_ok s" and n: "0 < cfg_pool_used s"
  defines "ty \<equiv> \<lambda>c. Type (comp (cfg_pool s ! c))"
  shows "search_for t s = Some (List.find (\<lambda>x. ty x = t) (preorder (kids s) (cfg_pool_used s) 0))"
    "number_of_type t s = Some (int (card {i. attached s i \<and> ty i = t}))"
    "set (preorder (kids s) (cfg_pool_used s) 0) = {i. attached s i}"
    "distinct (preorder (kids s) (cfg_pool_used s) 0)"
proof -
  have root: "GetChild None s = head [0]" "chained (\<lambda>c. GetPeer (Some c) s) [0]"
    using n getters(4) [OF ok n] ok by (auto simp: GetChild_def tree_ok_iff)
  have d: "\<forall>x \<in> set [0]. 0 < node_depth s x \<and> node_depth s x \<le> cfg_pool_used s"
    using n by (simp add: node_depth_def)
  have p: "set (preorder (kids s) (cfg_pool_used s) 0) = {i. attached s i}"
    "distinct (preorder (kids s) (cfg_pool_used s) 0)"
    using preorder_reaches [OF ok n, of "cfg_pool_used s"] by (simp_all add: node_depth_def attached_def)
  show "search_for t s = Some (List.find (\<lambda>x. ty x = t) (preorder (kids s) (cfg_pool_used s) 0))"
    using components.find_type_preorder [OF ok root(2) d] unfolding root(1) ty_def by simp
  have "set (filter (\<lambda>x. ty x = t) (preorder (kids s) (cfg_pool_used s) 0)) = {i. attached s i \<and> ty i = t}"
    by (simp only: set_filter p(1)) simp
  then have "length (filter (\<lambda>x. ty x = t) (preorder (kids s) (cfg_pool_used s) 0)) = card {i. attached s i \<and> ty i = t}"
    using distinct_card [OF distinct_filter [OF p(2)]] by metis
  then show "number_of_type t s = Some (int (card {i. attached s i \<and> ty i = t}))"
    using components.count_type_preorder [OF ok root(2) d, of ty t] unfolding root(1) ty_def by simp
  show "set (preorder (kids s) (cfg_pool_used s) 0) = {i. attached s i}"
    "distinct (preorder (kids s) (cfg_pool_used s) 0)"
    by (rule p)+
qed


section \<open>The properties\<close>

definition empty_pool :: cfg where
  "empty_pool = \<lparr>cfg_pool = replicate MAX_CFG_NODES \<lparr>comp = \<lparr>Class = SystemClass, Type = ARC, Flags = 0,
     Version = 0, Revision = 0, Key = 0, AffinityMask = 0, ConfigurationDataSize = 0, IdentifierLength = 0,
     Identifier = None\<rparr>, parent = None, peer = None, child = None\<rparr>, cfg_pool_used = 0\<rparr>"

lemma empty_pool_ok: "tree_ok empty_pool" "cfg_pool_used empty_pool = 0"
  by (simp_all add: empty_pool_def tree_ok_iff)

text \<open>Adding components one after the other under parents given by their numbers.\<close>

fun add_all :: "(nat option \<times> component) list \<Rightarrow> cfg \<Rightarrow> cfg option" where
  "add_all [] s = Some s"
| "add_all ((p, c) # cs) s = do { (_, s) \<leftarrow> AddChild p c s; add_all cs s }"

text \<open>The tree \<open>init_component_tree\<close> builds.\<close>

definition built :: "cfg option" where
  "built = map_option snd (init_component_tree 1 \<lparr>magic = 0, num_cpus = 0, cpus = []\<rparr> empty_pool)"

definition built_tree :: cfg where
  "built_tree = (case built of Some s \<Rightarrow> s | None \<Rightarrow> empty_pool)"

text \<open>C18: \<open>AddChild\<close> takes the next free node of the pool, or returns null and changes
nothing when all are in use.  The new component comes last among the children of its
parent, no component changes its place, its contents or its parent, and the links keep
representing the tree; a null parent, or one that is no node, gives a component of its
own.\<close>

theorem AddChild_appends:
  assumes "tree_ok s" "par \<noteq> Some (cfg_pool_used s)"
  shows "\<exists>r s'. AddChild par tmpl s = Some (r, s') \<and> tree_ok s' \<and>
    (if MAX_CFG_NODES \<le> cfg_pool_used s then r = None \<and> s' = s
     else r = Some (cfg_pool_used s) \<and> cfg_pool_used s' = Suc (cfg_pool_used s) \<and>
       (\<forall>p. kids s' p = kids s p @ (if par = Some p \<and> p < cfg_pool_used s then [cfg_pool_used s] else [])) \<and>
       (\<forall>i. comp (cfg_pool s' ! i) = (if i = cfg_pool_used s then tmpl else comp (cfg_pool s ! i))) \<and>
       (\<forall>i < cfg_pool_used s. GetParent (Some i) s' = GetParent (Some i) s \<and>
          GetChild (Some i) s' = head (kids s' i)))"
proof -
  obtain r s' where r: "AddChild par tmpl s = Some (r, s')" "tree_ok s'"
    "if MAX_CFG_NODES \<le> cfg_pool_used s then r = None \<and> s' = s
     else r = Some (cfg_pool_used s) \<and> cfg_pool_used s' = Suc (cfg_pool_used s) \<and>
       (\<forall>p. kids s' p = kids s p @ (if par = Some p \<and> p < cfg_pool_used s then [cfg_pool_used s] else [])) \<and>
       (\<forall>i. comp (cfg_pool s' ! i) = (if i = cfg_pool_used s then tmpl else comp (cfg_pool s ! i))) \<and>
       (\<forall>i. parent (cfg_pool s' ! i) = (if i = cfg_pool_used s
          then (if \<exists>p. par = Some p \<and> p < cfg_pool_used s then par else None) else parent (cfg_pool s ! i)))"
    using AddChild_ok [OF assms] by blast
  then show ?thesis
    using getters(1,2) [OF r(2)] getters(2) [OF assms(1)]
    by (cases "MAX_CFG_NODES \<le> cfg_pool_used s") auto
qed

lemma AddChild_appends_witness:
  "\<exists>r s'. AddChild None (comp (cfg_pool empty_pool ! 0)) empty_pool = Some (r, s') \<and> r = Some 0 \<and> tree_ok s'"
  using AddChild_appends [OF empty_pool_ok(1), of None "comp (cfg_pool empty_pool ! 0)"] empty_pool_ok(2)
  by (auto simp: MAX_CFG_NODES_def)

text \<open>C19: on a tree that \<open>AddChild\<close> has built, the inventory searches from the root end
and are complete.  The components under the root are those of \<open>preorder\<close>, each once: a component, then
what is below its children, the children in the order in which they were added.  \<open>find_type\<close> finds the
first component of the type in that order, and none only where there is none; \<open>count_type\<close> counts them all.\<close>

theorem inventory_complete:
  assumes "tree_ok s" "0 < cfg_pool_used s"
  shows "set (preorder (kids s) (cfg_pool_used s) 0) = {i. attached s i} \<and>
    distinct (preorder (kids s) (cfg_pool_used s) 0) \<and>
    search_for t s = Some (List.find (\<lambda>i. Type (comp (cfg_pool s ! i)) = t) (preorder (kids s) (cfg_pool_used s) 0)) \<and>
    (case the (search_for t s) of
       None \<Rightarrow> \<forall>i. attached s i \<longrightarrow> Type (comp (cfg_pool s ! i)) \<noteq> t
     | Some i \<Rightarrow> attached s i \<and> Type (comp (cfg_pool s ! i)) = t) \<and>
    number_of_type t s = Some (int (card {i. attached s i \<and> Type (comp (cfg_pool s ! i)) = t}))"
proof -
  let ?ty = "\<lambda>i. Type (comp (cfg_pool s ! i))" and ?L = "preorder (kids s) (cfg_pool_used s) 0"
  note r = find_search_run [OF assms]
  have "case List.find (\<lambda>x. ?ty x = t) ?L of None \<Rightarrow> \<forall>i. attached s i \<longrightarrow> ?ty i \<noteq> t
      | Some i \<Rightarrow> attached s i \<and> ?ty i = t"
  proof (cases "List.find (\<lambda>x. ?ty x = t) ?L")
    case None
    then have "\<forall>x \<in> set ?L. ?ty x \<noteq> t"
      by (simp add: find_None_iff)
    then show ?thesis
      unfolding None using r(3) by simp
  next
    case (Some i)
    then have "i \<in> set ?L" "?ty i = t"
      by (auto simp: find_Some_iff)
    then show ?thesis
      using Some r(3) by simp
  qed
  then show ?thesis
    using r by simp
qed

lemma built_tree_ok: "tree_ok built_tree" "cfg_pool_used built_tree = 9"
  by code_simp+

lemma inventory_complete_witness:
  "\<exists>i. search_for DiskPeripheral built_tree = Some (Some i) \<and> attached built_tree i"
proof -
  have r: "search_for DiskPeripheral built_tree = Some (Some 8)"
    by code_simp
  have "0 < cfg_pool_used built_tree"
    by (simp add: built_tree_ok)
  from inventory_complete [OF built_tree_ok(1) this, of DiskPeripheral] have "attached built_tree 8"
    unfolding r option.sel option.case by blast
  with r show ?thesis
    by blast
qed

text \<open>the tree \<open>init_component_tree\<close> builds on an empty pool: the components with
their parents, the searches in it, and that a search from a component is not confined to
what is below it, as its comment says: from the processor the memory is found.\<close>

theorem built_tree_shape:
  "map (\<lambda>i. (Class (comp (cfg_pool built_tree ! i)), Type (comp (cfg_pool built_tree ! i)),
       GetParent (Some i) built_tree)) [0..<cfg_pool_used built_tree] =
     [(SystemClass, ARC, None), (ProcessorClass, CPU, Some 0), (ProcessorClass, FPU, Some 1),
      (CacheClass, PrimaryICache, Some 1), (CacheClass, PrimaryDCache, Some 1),
      (MemoryClass, Memory, Some 0), (AdapterClass, SCSIAdapter, Some 0),
      (ControllerClass, DiskController, Some 6), (PeripheralClass, DiskPeripheral, Some 7)] \<and>
   find_type (\<lambda>c. GetChild (Some c) built_tree) (\<lambda>c. GetPeer (Some c) built_tree)
     (\<lambda>c. Type (comp (cfg_pool built_tree ! c))) (Some 1) Memory = Some (Some 5) \<and>
   \<not> (5, 1) \<in> (climbs built_tree)\<^sup>*"
proof -
  have "(5, 1) \<notin> (climbs built_tree)\<^sup>*"
  proof
    assume "(5, 1) \<in> (climbs built_tree)\<^sup>*"
    moreover have "GetParent (Some 5) built_tree = Some 0"
      by code_simp
    ultimately show False
      using climbs_down [OF built_tree_ok(1), of 0 1]
      by (cases rule: converse_rtranclE) (auto simp: climbs_def)
  qed
  moreover have "map (\<lambda>i. (Class (comp (cfg_pool built_tree ! i)), Type (comp (cfg_pool built_tree ! i)),
       GetParent (Some i) built_tree)) [0..<cfg_pool_used built_tree] =
     [(SystemClass, ARC, None), (ProcessorClass, CPU, Some 0), (ProcessorClass, FPU, Some 1),
      (CacheClass, PrimaryICache, Some 1), (CacheClass, PrimaryDCache, Some 1),
      (MemoryClass, Memory, Some 0), (AdapterClass, SCSIAdapter, Some 0),
      (ControllerClass, DiskController, Some 6), (PeripheralClass, DiskPeripheral, Some 7)]"
    by code_simp
  moreover have "find_type (\<lambda>c. GetChild (Some c) built_tree) (\<lambda>c. GetPeer (Some c) built_tree)
     (\<lambda>c. Type (comp (cfg_pool built_tree ! c))) (Some 1) Memory = Some (Some 5)"
    by code_simp
  ultimately show ?thesis
    by blast
qed

text \<open>\<open>look_tape\<close> checks the room in its array of 16 before a controller, not before
each of its devices: a controller with 17 makes it store past the end.\<close>

theorem look_tape_overruns:
  "(let leaf = (\<lambda>c t. \<lparr>Class = c, Type = t, Flags = 0, Version = 0, Revision = 0, Key = 0, AffinityMask = 0,
      ConfigurationDataSize = 0, IdentifierLength = 0, Identifier = None\<rparr>) in
    case add_all ([(None, leaf SystemClass ARC), (Some 0, leaf ControllerClass TapeController)] @
        replicate 17 (Some 1, leaf PeripheralClass TapePeripheral)) empty_pool of
      None \<Rightarrow> False
    | Some s \<Rightarrow> cfg_pool_used s = 19 \<and>
        look_tape (\<lambda>c. GetChild (Some c) s) (\<lambda>c. GetPeer (Some c) s) (\<lambda>c. Class (comp (cfg_pool s ! c)))
          (\<lambda>c. Type (comp (cfg_pool s ! c))) (GetChild None s) (replicate MAXTAPES None, 0) = None)"
  by code_simp

end
