(* ===== verification/Memdesc.thy ===== *)
theory Memdesc
imports Prelude
begin

text \<open>The memory descriptors: \<open>src/fw/pv_stubs.c\<close>, \<open>md_init_add\<close>,
\<open>init_memory_descriptors\<close>, \<open>md_alloc\<close>, \<open>md_add\<close> and \<open>GetMemoryDescriptor\<close>.

A \<open>MEMORYDESCRIPTOR *\<close> is \<open>None\<close> for null and otherwise the number of the entry it
points to.  The three registers that describe the memory are parameters.\<close>

section \<open>Definitions\<close>

datatype memorytype =
  ExceptionBlock | SPBPage | FreeContiguous | FreeMemory | BadMemory | LoadedProgram
| FirmwareTemporary | FirmwarePermanent

record memory_descriptor =
  md_Type :: memorytype
  BasePage :: u32
  PageCount :: u32

definition MAX_MEM_DESCS :: nat where "MAX_MEM_DESCS = 12"

record mem_table =
  mem_descs :: "memory_descriptor list"
  num_mem_descs :: nat

definition md_init_add :: "memorytype \<Rightarrow> u32 \<Rightarrow> u32 \<Rightarrow> mem_table \<Rightarrow> mem_table" where
  "md_init_add t base count s =
    (if num_mem_descs s < MAX_MEM_DESCS
     then s\<lparr>mem_descs := (mem_descs s)[num_mem_descs s := \<lparr>md_Type = t, BasePage = base, PageCount = count\<rparr>],
            num_mem_descs := num_mem_descs s + 1\<rparr>
     else s)"

definition init_memory_descriptors :: "u64 \<Rightarrow> u64 \<Rightarrow> u64 \<Rightarrow> mem_table \<Rightarrow> mem_table" where
  "init_memory_descriptors total_ram high_base high_size s =
    (let ram_MB = (ucast (total_ram div (1024 * 1024)) :: u32);
         ram_MB = (if ram_MB < 64 then 64 else ram_MB);
         s = s\<lparr>num_mem_descs := 0\<rparr>;
         s = md_init_add ExceptionBlock 0 1 s;
         s = md_init_add SPBPage 1 1 s;
         s = md_init_add FirmwareTemporary 2 766 s;
         s = md_init_add FirmwareTemporary 0x8000 2 s;
         s = md_init_add FirmwareTemporary 0x8002 0x3FE s;
         s = md_init_add FreeMemory 0x8400 0x3B00 s;
         s = md_init_add FirmwarePermanent 0xBF00 0x100 s;
         s = (if ram_MB > 64 then
                let mb_to_add = (if ram_MB > 256 then 256 else ram_MB) - 64;
                    start = 0xC000;
                    endp = 0xC000 + mb_to_add * 256;
                    heart_lo = 0xFF00;
                    heart_hi = 0xFF70
                in if endp \<le> heart_lo \<or> start \<ge> heart_hi then md_init_add FreeMemory start (endp - start) s
                   else let s = (if heart_lo > start then md_init_add FreeMemory start (heart_lo - start) s else s);
                            s = md_init_add FirmwarePermanent heart_lo (heart_hi - heart_lo) s
                        in (if endp > heart_hi then md_init_add FreeMemory heart_hi (endp - heart_hi) s else s)
              else s)
     in if high_size > 0 then
          let high_pages = (ucast (high_size div 4096) :: u32);
              high_base_pages = (ucast (high_base div 4096) :: u32)
          in md_init_add FreeMemory high_base_pages high_pages s
        else s)"

definition md_alloc :: "u32 \<Rightarrow> u32 \<Rightarrow> memorytype \<Rightarrow> mem_table \<Rightarrow> nat" where
  "md_alloc base pages t s = (if num_mem_descs s > 0 then num_mem_descs s - 1 else 0)"

definition md_add :: "u32 \<Rightarrow> u32 \<Rightarrow> memorytype \<Rightarrow> mem_table \<Rightarrow> nat" where
  "md_add base pages t s = md_alloc base pages t s"

fun next_desc :: "nat list \<Rightarrow> nat \<Rightarrow> mem_table \<Rightarrow> nat option" where
  "next_desc [] cur s = None"
| "next_desc (i # is) cur s =
    (if i = cur then (if i + 1 < num_mem_descs s then Some (i + 1) else None)
     else next_desc is cur s)"

definition GetMemoryDescriptor :: "nat option \<Rightarrow> mem_table \<Rightarrow> nat option" where
  "GetMemoryDescriptor cur s =
    (case cur of
       None \<Rightarrow> if num_mem_descs s > 0 then Some 0 else None
     | Some c \<Rightarrow> next_desc [0..<num_mem_descs s] c s)"

section \<open>The table as a list\<close>

definition entries :: "mem_table \<Rightarrow> memory_descriptor list" where
  "entries s = take (num_mem_descs s) (mem_descs s)"

definition table_ok :: "mem_table \<Rightarrow> bool" where
  "table_ok s \<longleftrightarrow> length (mem_descs s) = MAX_MEM_DESCS \<and> num_mem_descs s \<le> MAX_MEM_DESCS"

definition pages :: "memory_descriptor \<Rightarrow> nat set" where
  "pages d = {unat (BasePage d) ..< unat (BasePage d) + unat (PageCount d)}"

lemma md_init_add_entries:
  assumes "table_ok s" "num_mem_descs s < MAX_MEM_DESCS"
  shows "table_ok (md_init_add t b c s)"
    "entries (md_init_add t b c s) = entries s @ [\<lparr>md_Type = t, BasePage = b, PageCount = c\<rparr>]"
    "num_mem_descs (md_init_add t b c s) = Suc (num_mem_descs s)"
  using assms by (auto simp: table_ok_def md_init_add_def entries_def take_Suc_conv_app_nth)



section \<open>What the table holds\<close>

text \<open>Megabytes of RAM the table is built for, and the page after the last one.\<close>

definition ram_mb :: "u64 \<Rightarrow> nat" where
  "ram_mb ram = min 256 (max 64 (unat (ucast (ram div (1024 * 1024)) :: u32)))"

definition ram_end :: "u64 \<Rightarrow> nat" where
  "ram_end ram = 0xC000 + (ram_mb ram - 64) * 256"

abbreviation desc :: "memorytype \<Rightarrow> nat \<Rightarrow> nat \<Rightarrow> memory_descriptor" where
  "desc t b c \<equiv> \<lparr>md_Type = t, BasePage = of_nat b, PageCount = of_nat c\<rparr>"

definition low_entries :: "memory_descriptor list" where
  "low_entries = [desc ExceptionBlock 0 1, desc SPBPage 1 1, desc FirmwareTemporary 2 766,
     desc FirmwareTemporary 0x8000 2, desc FirmwareTemporary 0x8002 0x3FE, desc FreeMemory 0x8400 0x3B00,
     desc FirmwarePermanent 0xBF00 0x100]"

definition main_entries :: "nat \<Rightarrow> memory_descriptor list" where
  "main_entries e =
    (if e \<le> 0xC000 then []
     else if e \<le> 0xFF00 then [desc FreeMemory 0xC000 (e - 0xC000)]
     else desc FreeMemory 0xC000 0x3F00 # desc FirmwarePermanent 0xFF00 0x70 #
       (if e > 0xFF70 then [desc FreeMemory 0xFF70 (e - 0xFF70)] else []))"

definition high_entries :: "u64 \<Rightarrow> u64 \<Rightarrow> memory_descriptor list" where
  "high_entries hb hs =
    (if hs > 0 then [\<lparr>md_Type = FreeMemory, BasePage = ucast (hb div 4096), PageCount = ucast (hs div 4096)\<rparr>]
     else [])"

text \<open>Adding a list of descriptors.\<close>

definition extends :: "mem_table \<Rightarrow> memory_descriptor list \<Rightarrow> mem_table \<Rightarrow> bool" where
  "extends s ds s' \<longleftrightarrow> (table_ok s \<and> num_mem_descs s + length ds \<le> MAX_MEM_DESCS \<longrightarrow>
     table_ok s' \<and> entries s' = entries s @ ds \<and> num_mem_descs s' = num_mem_descs s + length ds)"

lemma extends_nil [simp]: "extends s [] s"
  by (simp add: extends_def)

lemma extends_add: "extends s ds s' \<Longrightarrow> extends s (ds @ [\<lparr>md_Type = t, BasePage = b, PageCount = c\<rparr>]) (md_init_add t b c s')"
  using md_init_add_entries [of s' t b c] by (auto simp: extends_def)

lemma extends_low:
  "extends s low_entries
    (md_init_add FirmwarePermanent 0xBF00 0x100 (md_init_add FreeMemory 0x8400 0x3B00
      (md_init_add FirmwareTemporary 0x8002 0x3FE (md_init_add FirmwareTemporary 0x8000 2
        (md_init_add FirmwareTemporary 2 766 (md_init_add SPBPage 1 1 (md_init_add ExceptionBlock 0 1 s)))))))"
  using extends_add [OF extends_add [OF extends_add [OF extends_add [OF extends_add [OF extends_add
    [OF extends_add [OF extends_nil [of s], of ExceptionBlock "0" "1"], of SPBPage "1" "1"], of FirmwareTemporary "2" "766"],
    of FirmwareTemporary "0x8000" "2"], of FirmwareTemporary "0x8002" "0x3FE"], of FreeMemory "0x8400" "0x3B00"],
    of FirmwarePermanent "0xBF00" "0x100"]
  by (simp add: low_entries_def)

lemma ram_mb_word:
  fixes ram :: u64
  defines "r \<equiv> (ucast (ram div (1024 * 1024)) :: u32)"
  shows "unat (if (if r < 64 then 64 else r) > 256 then 256 else (if r < 64 then 64 else r)) = ram_mb ram"
    "(if r < 64 then 64 else r) > 64 \<longleftrightarrow> 64 < ram_mb ram"
  by (auto simp: ram_mb_def r_def word_less_nat_alt)

lemma main_part:
  assumes s: "extends s0 ds s" and m: "64 < ram_mb ram"
    and k: "unat k = ram_mb ram"
  defines "endp \<equiv> 0xC000 + (k - 64) * 256 :: u32"
  shows "extends s0 (ds @ main_entries (ram_end ram))
    (if endp \<le> 0xFF00 \<or> (0xC000 :: u32) \<ge> 0xFF70 then md_init_add FreeMemory 0xC000 (endp - 0xC000) s
     else let s = (if (0xFF00 :: u32) > 0xC000 then md_init_add FreeMemory 0xC000 (0xFF00 - 0xC000) s else s);
              s = md_init_add FirmwarePermanent 0xFF00 (0xFF70 - 0xFF00) s
          in (if endp > 0xFF70 then md_init_add FreeMemory 0xFF70 (endp - 0xFF70) s else s))"
proof -
  have km: "ram_mb ram \<le> 256"
    by (simp add: ram_mb_def)
  have kk: "k = of_nat (ram_mb ram)"
    by (simp add: k [symmetric])
  have "k - 64 = of_nat (ram_mb ram - 64)"
    using m by (simp add: kk of_nat_diff)
  then have e: "endp = of_nat (ram_end ram)"
    by (simp add: endp_def ram_end_def)
  have lt: "ram_end ram \<le> 0x18000" "0xC000 < ram_end ram"
    using km m by (simp_all add: ram_end_def)
  then have u: "unat endp = ram_end ram"
    by (simp add: e unat_of_nat_32)
  have d1: "endp - 0xC000 = of_nat (ram_end ram - 0xC000)"
    using lt by (simp add: e of_nat_diff)
  have c1: "endp \<le> 0xFF00 \<longleftrightarrow> ram_end ram \<le> 0xFF00" "endp > 0xFF70 \<longleftrightarrow> 0xFF70 < ram_end ram"
    by (simp_all add: word_le_nat_alt word_less_nat_alt u)
  show ?thesis
  proof (cases "ram_end ram \<le> 0xFF00")
    case True
    then show ?thesis
      using lt extends_add [OF s, of FreeMemory "0xC000" "endp - 0xC000"]
      by (simp add: c1 main_entries_def d1)
  next
    case False
    note two = extends_add [OF extends_add [OF s, of FreeMemory "0xC000" "0x3F00"], of FirmwarePermanent "0xFF00" "0x70"]
    show ?thesis
    proof (cases "0xFF70 < ram_end ram")
      case True
      then have d2: "endp - 0xFF70 = of_nat (ram_end ram - 0xFF70)"
        by (simp add: e of_nat_diff)
      show ?thesis
        using False True lt extends_add [OF two, of FreeMemory "0xFF70" "endp - 0xFF70"]
        by (simp add: c1 d2 main_entries_def del: of_nat_diff)
    next
      case nt: False
      then show ?thesis
        using False lt two by (simp add: c1 main_entries_def)
    qed
  qed
qed

lemma init_entries:
  assumes "table_ok s"
  shows "table_ok (init_memory_descriptors ram hb hs s)"
    "entries (init_memory_descriptors ram hb hs s) =
      low_entries @ main_entries (ram_end ram) @ high_entries hb hs"
proof -
  let ?r = "ucast (ram div (1024 * 1024)) :: u32"
  let ?k = "if ?r < 64 then 64 else ?r"
  let ?s0 = "s\<lparr>num_mem_descs := 0\<rparr>"
  have l: "length (low_entries @ main_entries (ram_end ram) @ high_entries hb hs) \<le> MAX_MEM_DESCS"
    by (simp add: low_entries_def main_entries_def high_entries_def MAX_MEM_DESCS_def)
  obtain s1 where s1: "extends ?s0 (low_entries @ main_entries (ram_end ram)) s1"
    "init_memory_descriptors ram hb hs s =
      (if hs > 0 then md_init_add FreeMemory (ucast (hb div 4096)) (ucast (hs div 4096)) s1 else s1)"
  proof (cases "64 < ram_mb ram")
    case True
    show ?thesis
      using main_part [OF extends_low [of ?s0] True, of "if ?k > 256 then 256 else ?k"] ram_mb_word [of ram] True that
      unfolding init_memory_descriptors_def Let_def by auto
  next
    case False
    then have "ram_end ram = 0xC000"
      by (simp add: ram_end_def)
    then show ?thesis
      using extends_low [of ?s0] ram_mb_word(2) [of ram] False that
      unfolding init_memory_descriptors_def Let_def by (auto simp: main_entries_def)
  qed
  have "extends ?s0 (low_entries @ main_entries (ram_end ram) @ high_entries hb hs)
      (init_memory_descriptors ram hb hs s)"
    using extends_add [OF s1(1), of FreeMemory "ucast (hb div 4096)" "ucast (hs div 4096)"] s1
    by (simp add: high_entries_def)
  moreover have "table_ok ?s0" "entries ?s0 = []"
    using assms by (simp_all add: table_ok_def entries_def)
  ultimately show "table_ok (init_memory_descriptors ram hb hs s)"
    "entries (init_memory_descriptors ram hb hs s) =
      low_entries @ main_entries (ram_end ram) @ high_entries hb hs"
    using l by (auto simp: extends_def)
qed


text \<open>The entries as page ranges.\<close>

lemma pages_desc [simp]:
  "b < 2 ^ 32 \<Longrightarrow> c < 2 ^ 32 \<Longrightarrow> pages (desc t b c) = {b ..< b + c}"
  by (simp add: pages_def unat_of_nat_32)

definition free_pages :: "memory_descriptor list \<Rightarrow> nat set" where
  "free_pages ds = (\<Union>d \<in> {d \<in> set ds. md_Type d = FreeMemory}. pages d)"

lemma free_pages_simps [simp]:
  "free_pages [] = {}"
  "free_pages (d # ds) = (if md_Type d = FreeMemory then pages d else {}) \<union> free_pages ds"
  "free_pages (ds @ es) = free_pages ds \<union> free_pages es"
  by (auto simp: free_pages_def)

definition apart :: "memory_descriptor list \<Rightarrow> bool" where
  "apart ds \<longleftrightarrow> sorted_wrt (\<lambda>d e. unat (BasePage d) + unat (PageCount d) \<le> unat (BasePage e)) ds"

lemma ram_end_range: "0xC000 \<le> ram_end ram" "ram_end ram \<le> 0x18000"
  by (simp_all add: ram_end_def ram_mb_def)

lemma main_free: "free_pages (main_entries (ram_end ram)) = {0xC000 ..< ram_end ram} - {0xFF00 ..< 0xFF70}"
proof -
  have "pages (desc FreeMemory 0xC000 (ram_end ram - 0xC000)) = {0xC000 ..< ram_end ram}"
    "0xFF70 < ram_end ram \<Longrightarrow> pages (desc FreeMemory 0xFF70 (ram_end ram - 0xFF70)) = {0xFF70 ..< ram_end ram}"
    "pages (desc FreeMemory 0xC000 0x3F00) = {0xC000 ..< 0xFF00}"
    using ram_end_range [of ram] pages_desc [of "0xC000" "ram_end ram - 0xC000"]
      pages_desc [of "0xFF70" "ram_end ram - 0xFF70"] pages_desc [of "0xC000" "0x3F00"] by simp_all
  then show ?thesis
    using ram_end_range [of ram] unfolding main_entries_def by auto
qed

lemma low_free: "free_pages low_entries = {0x8400 ..< 0xBF00}"
  using pages_desc [of "0x8400" "0x3B00" FreeMemory] by (simp add: low_entries_def)

lemma apart_append:
  "apart (ds @ es) \<longleftrightarrow> apart ds \<and> apart es \<and>
     (\<forall>d \<in> set ds. \<forall>e \<in> set es. unat (BasePage d) + unat (PageCount d) \<le> unat (BasePage e))"
  by (simp add: apart_def sorted_wrt_append)

lemma main_within:
  "apart (low_entries @ main_entries (ram_end ram))"
  "d \<in> set (low_entries @ main_entries (ram_end ram)) \<Longrightarrow> unat (BasePage d) + unat (PageCount d) \<le> 0x18000"
proof -
  have u: "unat (of_nat (ram_end ram - c) :: u32) = ram_end ram - c" for c
    using ram_end_range [of ram] by (simp add: unat_of_nat_32 del: of_nat_diff)
  show "apart (low_entries @ main_entries (ram_end ram))"
    unfolding apart_def low_entries_def main_entries_def by (simp add: u del: of_nat_diff)
  show "unat (BasePage d) + unat (PageCount d) \<le> 0x18000"
    if "d \<in> set (low_entries @ main_entries (ram_end ram))"
    using that ram_end_range [of ram] u
    unfolding low_entries_def main_entries_def by (auto split: if_splits simp del: of_nat_diff)
qed


text \<open>The walk of a caller: from null until null is returned, to the depth \<open>n\<close>.\<close>

fun walk_descs :: "nat \<Rightarrow> nat option \<Rightarrow> mem_table \<Rightarrow> nat list" where
  "walk_descs 0 cur s = []"
| "walk_descs (Suc n) cur s =
    (case GetMemoryDescriptor cur s of None \<Rightarrow> [] | Some i \<Rightarrow> i # walk_descs n (Some i) s)"

lemma next_desc_eq:
  "next_desc is c s = (if c \<in> set is \<and> c + 1 < num_mem_descs s then Some (c + 1) else None)"
  by (induction "is" c s rule: next_desc.induct) auto

lemma walk_from:
  "i < num_mem_descs s \<Longrightarrow> num_mem_descs s - Suc i < n \<Longrightarrow> walk_descs n (Some i) s = [Suc i..<num_mem_descs s]"
  by (induction n arbitrary: i)
    (auto simp: GetMemoryDescriptor_def next_desc_eq upt_conv_Cons split: option.split)

lemma walk_all: "num_mem_descs s < n \<Longrightarrow> walk_descs n None s = [0..<num_mem_descs s]"
  by (cases n) (auto simp: GetMemoryDescriptor_def walk_from upt_conv_Cons)

text \<open>C20: the memory map.  Whatever the size of the RAM, and with high memory, if any,
above the first 384 megabytes of physical addresses, the descriptors are in order and do
not overlap, and the pages reported free are exactly those between the firmware's own and
the end of RAM, at most 256 megabytes of it, less the pages of the register shim at
0x0FF00000, and the high memory.  A caller that walks from null until null gets every
descriptor once.\<close>

theorem memory_map_sound:
  fixes ram hb hs :: u64
  assumes "table_ok s"
    and "hs = 0 \<or> 0x18000 \<le> unat (hb div 4096) \<and> unat (hb div 4096) + unat (hs div 4096) < 2 ^ 32"
  defines "s' \<equiv> init_memory_descriptors ram hb hs s"
  shows "apart (entries s') \<and>
    free_pages (entries s') = {0x8400 ..< 0xBF00} \<union> ({0xC000 ..< ram_end ram} - {0xFF00 ..< 0xFF70}) \<union>
      (if hs = 0 then {} else {unat (hb div 4096) ..< unat (hb div 4096) + unat (hs div 4096)}) \<and>
    map ((!) (mem_descs s')) (walk_descs (Suc MAX_MEM_DESCS) None s') = entries s'"
proof -
  have e: "table_ok s'" "entries s' = (low_entries @ main_entries (ram_end ram)) @ high_entries hb hs"
    using init_entries [OF assms(1)] by (simp_all add: s'_def)
  have h: "unat (ucast (hb div 4096) :: u32) = unat (hb div 4096)"
    "unat (ucast (hs div 4096) :: u32) = unat (hs div 4096)" if "hs \<noteq> 0"
    using that assms(2) by (auto simp: unsigned_ucast_eq take_bit_nat_eq_self)
  have "apart (entries s')"
  proof (cases "hs = 0")
    case True
    then show ?thesis
      using main_within(1) by (simp add: e high_entries_def)
  next
    case False
    then show ?thesis
      using main_within(1) [of ram] main_within(2) [of _ ram] h assms(2) unfolding e apart_append
      by (fastforce simp: high_entries_def apart_def)
  qed
  moreover have "free_pages (high_entries hb hs) =
      (if hs = 0 then {} else {unat (hb div 4096) ..< unat (hb div 4096) + unat (hs div 4096)})"
    using h by (auto simp: high_entries_def pages_def word_gt_0)
  then have "free_pages (entries s') = {0x8400 ..< 0xBF00} \<union> ({0xC000 ..< ram_end ram} - {0xFF00 ..< 0xFF70}) \<union>
      (if hs = 0 then {} else {unat (hb div 4096) ..< unat (hb div 4096) + unat (hs div 4096)})"
    by (simp add: e low_free main_free Un_assoc)
  moreover have "map ((!) (mem_descs s')) (walk_descs (Suc MAX_MEM_DESCS) None s') = entries s'"
    using e(1) walk_all [of s' "Suc MAX_MEM_DESCS"]
    by (auto simp: table_ok_def entries_def intro: nth_equalityI)
  ultimately show ?thesis
    by blast
qed

lemma memory_map_sound_witness:
  "\<exists>s. free_pages (entries (init_memory_descriptors 0x20000000 0x20000000 0x10000000 s)) =
     {0x8400 ..< 0xBF00} \<union> ({0xC000 ..< 0x18000} - {0xFF00 ..< 0xFF70}) \<union> {0x20000 ..< 0x30000}"
proof -
  let ?s = "\<lparr>mem_descs = replicate MAX_MEM_DESCS (desc FreeMemory 0 0), num_mem_descs = 0\<rparr>"
  have "table_ok ?s"
    by (simp add: table_ok_def)
  moreover have "unat ((0x20000000 :: u64) div 4096) = 0x20000" "unat ((0x10000000 :: u64) div 4096) = 0x10000"
    "ram_end 0x20000000 = 0x18000"
    by (simp_all add: ram_end_def ram_mb_def)
  ultimately show ?thesis
    using memory_map_sound [of ?s "0x10000000" "0x20000000" "0x20000000"] by (intro exI [of _ ?s]) simp
qed

end
