(* ===== verification/Fsreg.thy ===== *)
theory Fsreg
imports Cstrings Config
begin

text \<open>The table of file systems: \<open>src/libsk/fs/fs.c\<close>.

The linked list of entries is a list, its head first.  A strategy routine is an element of
a type \<open>'f\<close> (the code keeps function pointers); \<open>call f code w\<close> is what calling it with
the function code does to the rest of the system, \<open>w\<close>, and what it returns.  Whether
\<open>malloc\<close> finds room is a parameter.\<close>

unbundle bit_operations_syntax

section \<open>Definitions\<close>

definition EINVAL :: int where "EINVAL = 7"
definition ENAMETOOLONG :: int where "ENAMETOOLONG = 12"
definition ENOMEM :: int where "ENOMEM = 16"

datatype fsops =
  FS_CHECK | FS_OPEN | FS_CLOSE | FS_READ | FS_WRITE | FS_GETDIRENT | FS_GETREADSTATUS
| FS_GETFILEINFO

definition FS_NAME_MAX_LEN :: nat where "FS_NAME_MAX_LEN = 16"

record 'f fs_entry =
  FSStrategy :: 'f
  fs_Type :: u32
  fs_Identifier :: string

definition DTFS_NONE :: u32 where "DTFS_NONE = 0x00"
definition DTFS_FAT :: u32 where "DTFS_FAT = 0x01"
definition DTFS_DVH :: u32 where "DTFS_DVH = 0x02"
definition DTFS_TPD :: u32 where "DTFS_TPD = 0x04"
definition DTFS_EFS :: u32 where "DTFS_EFS = 0x08"
definition DTFS_BOOTP :: u32 where "DTFS_BOOTP = 0x10"
definition DTFS_TAR :: u32 where "DTFS_TAR = 0x20"
definition DTFS_RIPL :: u32 where "DTFS_RIPL = 0x40"
definition DTFS_XFS :: u32 where "DTFS_XFS = 0x80"

text \<open>\<open>fs_register\<close>; \<open>room\<close> is the block \<open>malloc\<close> returned, seen as the contents of its
name field, or nothing.\<close>

definition fs_register ::
  "'f \<Rightarrow> string \<Rightarrow> u32 \<Rightarrow> string option \<Rightarrow> 'f fs_entry list \<Rightarrow> (int \<times> 'f fs_entry list) option" where
  "fs_register func name type room fs_list =
    (case room of
       None \<Rightarrow> Some (ENOMEM, fs_list)
     | Some field \<Rightarrow> do {
         n \<leftarrow> strlen name;
         if n > FS_NAME_MAX_LEN then Some (ENAMETOOLONG, fs_list)
         else do {
           ident \<leftarrow> strcpy (take (FS_NAME_MAX_LEN + 1) field) name;
           Some (0, \<lparr>FSStrategy = func, fs_Type = type, fs_Identifier = ident\<rparr> # fs_list) } })"

fun fs_unregister :: "string \<Rightarrow> 'f fs_entry list \<Rightarrow> (int \<times> 'f fs_entry list) option" where
  "fs_unregister name [] = Some (EINVAL, [])"
| "fs_unregister name (cur # rest) = do {
     c \<leftarrow> strcmp (fs_Identifier cur) name;
     if c = 0 then Some (0, rest)
     else do {
       (r, rest') \<leftarrow> fs_unregister name rest;
       Some (r, cur # rest') } }"

text \<open>\<open>fs_init\<close> runs the install routines of the configuration table one after the
other on an empty list.\<close>

definition fs_init :: "('f fs_entry list \<Rightarrow> 'f fs_entry list option) list \<Rightarrow> 'f fs_entry list option" where
  "fs_init table = foldl (\<lambda>l install. do { l \<leftarrow> l; install l }) (Some []) table"

fun dev_types :: "configtype \<Rightarrow> u32 option" where
  "dev_types NetworkPeripheral = Some (DTFS_BOOTP OR DTFS_RIPL)"
| "dev_types NetworkController = Some (DTFS_BOOTP OR DTFS_RIPL)"
| "dev_types CDROMController = Some (DTFS_EFS OR DTFS_XFS OR DTFS_FAT OR DTFS_DVH)"
| "dev_types WORMController = Some (DTFS_EFS OR DTFS_XFS OR DTFS_FAT OR DTFS_DVH)"
| "dev_types DiskController = Some (DTFS_EFS OR DTFS_XFS OR DTFS_FAT OR DTFS_DVH)"
| "dev_types DiskPeripheral = Some (DTFS_EFS OR DTFS_XFS OR DTFS_FAT OR DTFS_DVH)"
| "dev_types FloppyDiskPeripheral = Some (DTFS_FAT OR DTFS_TAR)"
| "dev_types TapeController = Some (DTFS_TAR OR DTFS_TPD)"
| "dev_types TapePeripheral = Some (DTFS_TAR OR DTFS_TPD)"
| "dev_types _ = None"

fun fs_try ::
  "('f \<Rightarrow> fsops \<Rightarrow> 'w \<Rightarrow> int \<times> 'w) \<Rightarrow> u32 \<Rightarrow> 'f fs_entry list \<Rightarrow> 'w \<Rightarrow> int \<times> 'f option \<times> 'w" where
  "fs_try call type [] w = (EINVAL, None, w)"
| "fs_try call type (entry # rest) w =
    (if fs_Type entry AND type \<noteq> 0 then
       (case call (FSStrategy entry) FS_CHECK w of
          (r, w) \<Rightarrow> if r = 0 then (0, Some (FSStrategy entry), w) else fs_try call type rest w)
     else fs_try call type rest w)"

text \<open>The results are the value returned, \<open>io->fsstrat\<close> and the rest of the system.\<close>

definition fs_search ::
  "('f \<Rightarrow> fsops \<Rightarrow> 'w \<Rightarrow> int \<times> 'w) \<Rightarrow> configtype \<Rightarrow> 'f fs_entry list \<Rightarrow> 'w \<Rightarrow> int \<times> 'f option \<times> 'w" where
  "fs_search call devtype fs_list w =
    (case dev_types devtype of
       None \<Rightarrow> (EINVAL, None, w)
     | Some type \<Rightarrow> fs_try call type fs_list w)"

fun fs_match :: "string \<Rightarrow> u32 \<Rightarrow> 'f fs_entry list \<Rightarrow> 'f option option" where
  "fs_match name len [] = Some None"
| "fs_match name len (fs # rest) = do {
     c \<leftarrow> strncmp name (fs_Identifier fs) len;
     n \<leftarrow> (if c = 0 then strlen (fs_Identifier fs) else Some 0);
     if c = 0 \<and> len = of_nat n then Some (Some (FSStrategy fs))
     else fs_match name len rest }"

section \<open>The table as an association list\<close>

text \<open>The name, the strategy and the type of each entry, the latest first.\<close>

definition registered :: "'f fs_entry list \<Rightarrow> (string \<times> 'f \<times> u32) list" where
  "registered l = map (\<lambda>e. (str_of (fs_Identifier e), FSStrategy e, fs_Type e)) l"

definition table_wf :: "'f fs_entry list \<Rightarrow> bool" where
  "table_wf l \<longleftrightarrow> (\<forall>e \<in> set l. length (fs_Identifier e) = FS_NAME_MAX_LEN + 1 \<and> NUL \<in> set (fs_Identifier e))"



lemma entry_split:
  assumes "length i = FS_NAME_MAX_LEN + 1" "NUL \<in> set i"
  obtains r where "i = str_of i @ NUL # r" "length (str_of i) \<le> FS_NAME_MAX_LEN"
proof -
  obtain r where r: "i = str_of i @ NUL # r"
    using terminated_split [OF assms(2)] .
  then have "length i = length (str_of i) + Suc (length r)"
    by (metis length_append length_Cons)
  with assms(1) r that show thesis
    by simp
qed

lemma strcmp_entry:
  assumes "length i = FS_NAME_MAX_LEN + 1" "NUL \<in> set i" "nulfree n"
  shows "\<exists>v. strcmp i (cstr n) = Some v \<and> (v = 0 \<longleftrightarrow> str_of i = n)"
proof -
  obtain r where r: "i = str_of i @ NUL # r"
    using entry_split [OF assms(1,2)] .
  show ?thesis
    using strcmp_term [of "str_of i" n r "[]"] assms(3) r by (auto simp: cstr_def)
qed

lemma register_run:
  assumes "table_wf l" "nulfree n" "length n \<le> FS_NAME_MAX_LEN" "FS_NAME_MAX_LEN < length field"
  shows "\<exists>l'. fs_register f (cstr n) t (Some field) l = Some (0, l') \<and> table_wf l' \<and>
    registered l' = (n, f, t) # registered l"
proof -
  have c: "strcpy (take (FS_NAME_MAX_LEN + 1) field) (cstr n) =
      Some (n @ NUL # drop (Suc (length n)) (take (FS_NAME_MAX_LEN + 1) field))"
    using strcpy_term [OF assms(2), of "take (FS_NAME_MAX_LEN + 1) field" "[]"] assms(3,4) by (simp add: cstr_def)
  show ?thesis
    using assms c by (simp add: fs_register_def strlen_cstr table_wf_def registered_def)
qed

fun drop_first :: "'k \<Rightarrow> ('k \<times> 'v) list \<Rightarrow> ('k \<times> 'v) list" where
  "drop_first k [] = []"
| "drop_first k (p # ps) = (if fst p = k then ps else p # drop_first k ps)"

lemma unregister_run:
  "table_wf l \<Longrightarrow> nulfree n \<Longrightarrow> \<exists>r l'. fs_unregister (cstr n) l = Some (r, l') \<and> table_wf l' \<and>
    registered l' = drop_first n (registered l) \<and>
    r = (if n \<in> fst ` set (registered l) then 0 else EINVAL)"
proof (induction l)
  case Nil
  then show ?case
    by (simp add: registered_def)
next
  case (Cons e l)
  then obtain v where v: "strcmp (fs_Identifier e) (cstr n) = Some v" "v = 0 \<longleftrightarrow> str_of (fs_Identifier e) = n"
    using strcmp_entry [of "fs_Identifier e" n] by (auto simp: table_wf_def)
  obtain r l' where "fs_unregister (cstr n) l = Some (r, l')" "table_wf l'"
    "registered l' = drop_first n (registered l)" "r = (if n \<in> fst ` set (registered l) then 0 else EINVAL)"
    using Cons by (auto simp: table_wf_def)
  with v Cons.prems show ?case
    by (auto simp: table_wf_def registered_def)
qed

lemma match_run:
  assumes n: "nulfree n" "length n < 2 ^ 31"
  shows "table_wf l \<Longrightarrow>
    fs_match (n @ m @ NUL # r) (of_nat (length n)) l = Some (map_option fst (map_of (registered l) n))"
proof (induction l)
  case Nil
  then show ?case
    by (simp add: registered_def)
next
  case (Cons e l)
  let ?i = "fs_Identifier e"
  have e: "length ?i = FS_NAME_MAX_LEN + 1" "NUL \<in> set ?i" and l: "table_wf l"
    using Cons.prems by (auto simp: table_wf_def)
  obtain q where q: "?i = str_of ?i @ NUL # q" "length (str_of ?i) \<le> FS_NAME_MAX_LEN"
    using entry_split [OF e] .
  have s: "sint (of_nat (length n) :: u32) = int (length n)"
    using n(2) by (rule sint_of_nat_32)
  obtain a r' where a: "n @ m @ NUL # r = a @ NUL # r'" "nulfree a" "take (length n) a = n"
  proof -
    obtain r' where "m @ NUL # r = str_of (m @ NUL # r) @ NUL # r'"
      using terminated_split [of "m @ NUL # r"] by auto
    with that [of "n @ str_of (m @ NUL # r)" r'] n(1) show thesis
      by simp
  qed
  obtain v where v: "strncmp_loop (int (length n)) (a @ NUL # r') (str_of ?i @ NUL # q) = Some v"
    "v = 0 \<longleftrightarrow> take (length n) a = take (length n) (str_of ?i)"
    using strncmp_prefix [of a "str_of ?i" "int (length n)" r' q] a(2) by auto
  have c: "strncmp (n @ m @ NUL # r) ?i (of_nat (length n)) = Some v"
    using v(1) q(1) by (simp add: strncmp_def s a(1))
  have len: "strlen ?i = Some (length (str_of ?i))"
    using strlen_term [of "str_of ?i" q] q(1) by simp
  have "(of_nat (length n) :: u32) = of_nat (length (str_of ?i)) \<longleftrightarrow> length n = length (str_of ?i)"
    using n(2) q(2) by (auto simp: FS_NAME_MAX_LEN_def dest!: arg_cong [where f = unat] simp: unat_of_nat_32)
  then have "(v = 0 \<and> (of_nat (length n) :: u32) = of_nat (length (str_of ?i))) \<longleftrightarrow> str_of ?i = n"
    using v(2) a(3) by auto
  then show ?case
    using c len Cons.IH [OF l] by (auto simp: registered_def)
qed

lemma fs_search_run:
  assumes "\<And>f v. snd (call f FS_CHECK v) = v"
  shows "fs_search call d l w =
    (case dev_types d of
       None \<Rightarrow> (EINVAL, None, w)
     | Some t \<Rightarrow>
         (case List.find (\<lambda>(_, f, ft). ft AND t \<noteq> 0 \<and> fst (call f FS_CHECK w) = 0) (registered l) of
            None \<Rightarrow> (EINVAL, None, w)
          | Some (_, f, _) \<Rightarrow> (0, Some f, w)))"
proof -
  have "fs_try call t l w =
      (case List.find (\<lambda>(_, f, ft). ft AND t \<noteq> 0 \<and> fst (call f FS_CHECK w) = 0) (registered l) of
         None \<Rightarrow> (EINVAL, None, w)
       | Some (_, f, _) \<Rightarrow> (0, Some f, w))" for t
    by (induction l) (simp_all add: case_prod_beta assms registered_def)
  then show ?thesis
    by (simp add: fs_search_def split: option.split)
qed

text \<open>C21: the table of file systems is an association list from names to strategies and types.
Registering a name of at most 16 characters puts it first with the strategy and the type given, a longer one is
refused and changes nothing; unregistering removes the latest entry of the name and reports whether
there was one; \<open>fs_match\<close> on a piece of text gives the strategy (not the type, as its comment says) registered last under
exactly that name; and, where the checks have no effect of their own, \<open>fs_search\<close> gives
the latest file system that fits the kind of device and accepts it.\<close>

theorem fs_table_refines:
  assumes "table_wf l" "nulfree n" "length n < 2 ^ 31" "FS_NAME_MAX_LEN < length field"
    and "\<And>f v. snd (call f FS_CHECK v) = v"
  shows "(\<exists>r l'. fs_register f (cstr n) t (Some field) l = Some (r, l') \<and> table_wf l' \<and>
      (if length n \<le> FS_NAME_MAX_LEN then r = 0 \<and> registered l' = (n, f, t) # registered l
       else r = ENAMETOOLONG \<and> l' = l)) \<and>
    (\<exists>r l'. fs_unregister (cstr n) l = Some (r, l') \<and> table_wf l' \<and>
      registered l' = drop_first n (registered l) \<and>
      r = (if n \<in> fst ` set (registered l) then 0 else EINVAL)) \<and>
    fs_match (n @ m @ NUL # rest) (of_nat (length n)) l = Some (map_option fst (map_of (registered l) n)) \<and>
    fs_search call d l w =
      (case dev_types d of
         None \<Rightarrow> (EINVAL, None, w)
       | Some ty \<Rightarrow>
           (case List.find (\<lambda>(_, f, ft). ft AND ty \<noteq> 0 \<and> fst (call f FS_CHECK w) = 0) (registered l) of
              None \<Rightarrow> (EINVAL, None, w)
            | Some (_, f, _) \<Rightarrow> (0, Some f, w)))"
proof (intro conjI)
  show "\<exists>r l'. fs_register f (cstr n) t (Some field) l = Some (r, l') \<and> table_wf l' \<and>
      (if length n \<le> FS_NAME_MAX_LEN then r = 0 \<and> registered l' = (n, f, t) # registered l
       else r = ENAMETOOLONG \<and> l' = l)"
    using register_run [OF assms(1,2) _ assms(4)] assms(1,2)
    by (cases "length n \<le> FS_NAME_MAX_LEN") (auto simp: fs_register_def strlen_cstr)
qed (use unregister_run [OF assms(1,2)] match_run [OF assms(2,3,1)] fs_search_run [of call, OF assms(5)] in auto)

lemma fs_table_refines_witness:
  "let l = [\<lparr>FSStrategy = 1 :: nat, fs_Type = DTFS_XFS, fs_Identifier = ''xfs'' @ replicate 14 NUL\<rparr>] in
     fs_match (''xfs'' @ ''()'' @ NUL # []) 3 l = Some (Some 1) \<and>
     fs_search (\<lambda>f c w. (0, w)) DiskPeripheral l ''state'' = (0, Some 1, ''state'')"
proof -
  let ?l = "[\<lparr>FSStrategy = 1 :: nat, fs_Type = DTFS_XFS, fs_Identifier = ''xfs'' @ replicate 14 NUL\<rparr>]"
  have n: "nulfree ''xfs''" "length ''xfs'' < 2 ^ 31" "FS_NAME_MAX_LEN < length (replicate 17 NUL)" "table_wf ?l"
    by (simp_all add: FS_NAME_MAX_LEN_def table_wf_def)
  have r: "registered ?l = [(''xfs'', 1, DTFS_XFS)]" "(of_nat (length ''xfs'') :: u32) = 3"
    by (simp_all add: registered_def str_of_def)
  have t: "dev_types DiskPeripheral = Some (DTFS_EFS OR DTFS_XFS OR DTFS_FAT OR DTFS_DVH)"
    "DTFS_XFS AND (DTFS_EFS OR DTFS_XFS OR DTFS_FAT OR DTFS_DVH) \<noteq> 0"
    by (simp, code_simp)
  show ?thesis
    using fs_table_refines [of ?l "''xfs''" "replicate 17 NUL" "\<lambda>f c w. (0, w)" undefined undefined "''()''" "[]"
      DiskPeripheral "''state''"] n r t
    by (simp add: Let_def)
qed

end
