(* ===== verification/Bootio.thy ===== *)
theory Bootio
imports Cstrings Config Fsreg
begin

text \<open>The boot disk and the file descriptors of the firmware: \<open>src/fw/pv_stubs.c\<close>, from
\<open>init_fd_table\<close> to \<open>Seek\<close>.

Memory is a map from 32-bit addresses to bytes.  The disk controller is a parameter: for
each sector, the values its status register reads after the command and what its data
window then holds; a status that never becomes ready is \<open>None\<close>.  A file system is a
parameter too, as in the table of file systems: \<open>call f eb m w\<close> is what strategy \<open>f\<close> does to
the control block, to memory and to its own state, and what it returns, \<open>None\<close> if it does
not return.  Arrays of a stack frame are at addresses given by \<open>frames\<close>.  The console messages
of the code are left out.\<close>

unbundle bit_operations_syntax

section \<open>Definitions\<close>

subsection \<open>Memory\<close>

type_synonym memory = "u32 \<Rightarrow> u8"

definition ld32 :: "memory \<Rightarrow> u32 \<Rightarrow> u32" where
  "ld32 m a = push_bit 24 (ucast (m a)) OR push_bit 16 (ucast (m (a + 1))) OR
     push_bit 8 (ucast (m (a + 2))) OR ucast (m (a + 3))"

definition ld16 :: "memory \<Rightarrow> u32 \<Rightarrow> u32" where
  "ld16 m a = push_bit 8 (ucast (m a)) OR ucast (m (a + 1))"

definition mem_str :: "memory \<Rightarrow> u32 \<Rightarrow> nat \<Rightarrow> string" where
  "mem_str m a n = map (\<lambda>i. char_of (unat (m (a + of_nat i)))) [0..<n]"

fun mem_set :: "u32 \<Rightarrow> u8 \<Rightarrow> nat \<Rightarrow> memory \<Rightarrow> memory" where
  "mem_set dst val 0 m = m"
| "mem_set dst val (Suc n) m = mem_set (dst + 1) val n (m(dst := val))"

subsection \<open>The boot disk\<close>

definition BD_STATUS_READY :: u32 where "BD_STATUS_READY = 0x80000000"
definition BD_STATUS_ERROR :: u32 where "BD_STATUS_ERROR = 0x00000001"

type_synonym bootdisk = "u32 \<Rightarrow> u32 list \<times> u8 list"

fun bd_poll :: "u32 list \<Rightarrow> u32 option" where
  "bd_poll [] = None"
| "bd_poll (r # later) = (if r AND BD_STATUS_READY \<noteq> 0 then Some r else bd_poll later)"

text \<open>The inner result is \<open>None\<close> for an error and otherwise the 512 bytes.\<close>

definition bd_read_sector :: "bootdisk \<Rightarrow> u32 \<Rightarrow> u8 list option option" where
  "bd_read_sector dev sector = do {
     r \<leftarrow> bd_poll (fst (dev sector));
     if r AND BD_STATUS_ERROR \<noteq> 0 then Some None
     else if length (snd (dev sector)) < 512 then None
     else Some (Some (take 512 (snd (dev sector)))) }"

fun copy_chunk :: "nat \<Rightarrow> u8 list \<Rightarrow> nat \<Rightarrow> u32 \<Rightarrow> memory \<Rightarrow> memory" where
  "copy_chunk 0 sector_buf i p m = m"
| "copy_chunk (Suc n) sector_buf i p m = copy_chunk n sector_buf (Suc i) (p + 1) (m(p := sector_buf ! i))"

definition chunk_size :: "u32 \<Rightarrow> u32 \<Rightarrow> u32" where
  "chunk_size byte_offset count =
    (let chunk = 512 - byte_offset mod 512 in if chunk > count then count else chunk)"

lemma chunk_size_nat:
  "unat (chunk_size off count) = min (512 - unat off mod 512) (unat count)"
proof -
  have m: "unat (off mod 512) = unat off mod 512"
    by (simp add: unat_mod)
  have "off mod 512 \<le> 512"
    unfolding word_le_nat_alt m by simp
  then have "unat (512 - off mod 512) = 512 - unat off mod 512"
    using m unat_sub [of "off mod 512" 512] by simp
  then show ?thesis
    by (auto simp: chunk_size_def Let_def word_less_nat_alt min_def)
qed

lemma chunk_size_decreases: "count > 0 \<Longrightarrow> unat (count - chunk_size off count) < unat count"
proof -
  assume "count > 0"
  then have c: "0 < unat count"
    by (simp add: unat_gt_0)
  have "chunk_size off count \<le> count"
    unfolding word_le_nat_alt chunk_size_nat by simp
  then have "unat (count - chunk_size off count) = unat count - unat (chunk_size off count)"
    by (rule unat_sub)
  moreover have "0 < unat (chunk_size off count)"
    unfolding chunk_size_nat using c mod_less_divisor [of 512 "unat off"] by simp
  ultimately show ?thesis
    using c by simp
qed

function bd_read_bytes :: "bootdisk \<Rightarrow> u32 \<Rightarrow> u32 \<Rightarrow> u32 \<Rightarrow> memory \<Rightarrow> (int \<times> memory) option" where
  "bd_read_bytes dev byte_offset p count m =
    (if count > 0 then
       (let sector = byte_offset div 512;
            offset_in_sector = byte_offset mod 512;
            chunk = chunk_size byte_offset count
        in do {
          r \<leftarrow> bd_read_sector dev sector;
          (case r of
             None \<Rightarrow> Some (-1, m)
           | Some sector_buf \<Rightarrow>
               bd_read_bytes dev (byte_offset + chunk) (p + chunk) (count - chunk)
                 (copy_chunk (unat chunk) sector_buf (unat offset_in_sector) p m)) })
     else Some (0, m))"
  by pat_completeness auto
termination
  by (relation "measure (\<lambda>(_, _, _, count, _). unat count)") (auto intro: chunk_size_decreases)

declare bd_read_bytes.simps [simp del]

subsection \<open>The volume header\<close>

definition VHMAGIC :: u32 where "VHMAGIC = 0x0be5a941"
definition VDNAMESIZE :: nat where "VDNAMESIZE = 8"
definition BFNAMESIZE :: nat where "BFNAMESIZE = 16"
definition NVDIR :: nat where "NVDIR = 15"
definition NPARTAB :: int where "NPARTAB = 16"

text \<open>The fields of a header at address \<open>vh\<close>: the magic number, the name of the boot file,
the directory and the partition table behind the 48 bytes of device parameters.  A negative
index reads in front of the table, outside of it: \<open>None\<close>.\<close>

definition vh_magic :: "memory \<Rightarrow> u32 \<Rightarrow> u32" where
  "vh_magic m vh = ld32 m vh"

definition vh_bootfile :: "u32 \<Rightarrow> u32" where
  "vh_bootfile vh = vh + 8"

definition vh_vd :: "u32 \<Rightarrow> nat \<Rightarrow> u32" where
  "vh_vd vh i = vh + 72 + 16 * of_nat i"

definition vh_pt :: "memory \<Rightarrow> u32 \<Rightarrow> int \<Rightarrow> (u32 \<times> u32 \<times> u32) option" where
  "vh_pt m vh i =
    (if 0 \<le> i \<and> i < NPARTAB then
       (let a = vh + 312 + 12 * of_int i in Some (ld32 m a, ld32 m (a + 4), ld32 m (a + 8)))
     else None)"

subsection \<open>Paths\<close>

fun str_eq :: "string \<Rightarrow> string \<Rightarrow> bool option" where
  "str_eq (a # s) (b # t) =
    (if a \<noteq> NUL \<and> b \<noteq> NUL then if a \<noteq> b then Some False else str_eq s t
     else Some (a = b))"
| "str_eq _ _ = None"

fun at_prefix :: "string \<Rightarrow> string \<Rightarrow> string option option" where
  "at_prefix [] s = Some (Some s)"
| "at_prefix (c # cs) [] = None"
| "at_prefix (c # cs) (d # s) = (if d = c then at_prefix cs s else Some None)"

text \<open>The digits of a number, in \<open>int\<close> arithmetic, which wraps on this processor.\<close>

fun path_number :: "u32 \<Rightarrow> string \<Rightarrow> (u32 \<times> string) option" where
  "path_number v [] = None"
| "path_number v (c # s) =
    (if schar CHR ''0'' \<le> schar c \<and> schar c \<le> schar CHR ''9''
     then path_number (v * 10 + of_int (schar c - schar CHR ''0'')) s
     else Some (v, c # s))"

definition skip_comma :: "string \<Rightarrow> string option" where
  "skip_comma s = (case s of [] \<Rightarrow> None | c # r \<Rightarrow> Some (if c = CHR '','' then r else s))"

definition parse_disk_path :: "string \<Rightarrow> (u32 \<times> u32 \<times> u32) option" where
  "parse_disk_path path = do {
     q \<leftarrow> at_prefix ''dksc('' path;
     (case q of
        None \<Rightarrow> Some (0, 1, 0)
      | Some p \<Rightarrow> do {
          (ctrl, p) \<leftarrow> path_number 0 p;
          p \<leftarrow> skip_comma p;
          (unit, p) \<leftarrow> path_number 0 p;
          p \<leftarrow> skip_comma p;
          (part, p) \<leftarrow> path_number 0 p;
          Some (ctrl, unit, part) }) }"

fun after_device :: "string \<Rightarrow> string option option" where
  "after_device [] = None"
| "after_device (c # s) =
    (if c = NUL then Some None
     else if c = CHR '')'' then Some (Some s)
     else after_device s)"

definition extract_filename :: "string \<Rightarrow> string option option" where
  "extract_filename path = do {
     q \<leftarrow> after_device path;
     (case q of
        Some p \<Rightarrow> do { c \<leftarrow> rd p 0; Some (if c \<noteq> NUL then Some p else None) }
      | None \<Rightarrow> do { c \<leftarrow> rd path 0; Some (if c = CHR ''/'' then Some path else None) }) }"



subsection \<open>File descriptors\<close>

datatype fd_type = FD_TYPE_UNUSED | FD_TYPE_CONSOLE | FD_TYPE_DISK | FD_TYPE_XFS

definition MAX_FDS :: nat where "MAX_FDS = 8"

text \<open>\<open>xfs_data\<close> tells whether the pointer is set: it points to the one static block.\<close>

record fd_entry =
  fd_Type :: fd_type
  fd_controller :: u32
  fd_unit :: u32
  fd_partition :: u32
  position :: u32
  part_start :: u32
  part_size :: u32
  xfs_data :: bool

text \<open>The static \<open>eiob\<close>, with the \<open>IOBLOCK\<close> and the \<open>COMPONENT\<close> wired to it.\<close>

record 'f eiob =
  io_Flags :: u32
  io_Address :: u32
  io_Count :: u32
  io_Offset_lo :: u32
  io_Offset_hi :: u32
  io_StartBlock :: u32
  io_ErrorNumber :: int
  dev_Type :: configtype
  dev_Key :: u32
  fsb_FunctionCode :: fsops
  fsb_Filename :: "string option"
  fsb_Buffer :: u32
  fsb_FsPtr :: u32
  fsstrat :: "'f option"

record ('f, 'w) io =
  mem :: memory
  fd_table :: "fd_entry list"
  fd_table_inited :: bool
  s_fs_init_done :: bool
  fs_list :: "'f fs_entry list"
  s_xfs_eiob :: "'f eiob"
  fs_state :: 'w
  uart_in :: "u8 list"
  uart_out :: "u8 list"

record frames =
  vh_buf :: u32
  peek_buf :: u32
  hdr_buf :: u32
  phdr_buf :: u32
  shdr_buf :: u32
  exec_vh :: u32

type_synonym ('f, 'w) strategy =
  "'f \<Rightarrow> 'f eiob \<Rightarrow> memory \<Rightarrow> 'w \<Rightarrow> (int \<times> 'f eiob \<times> memory \<times> 'w) option"

record ('f, 'w) platform =
  disk :: bootdisk
  strategy_of :: "('f, 'w) strategy"
  fs_installs :: "('f fs_entry list \<Rightarrow> 'f fs_entry list option) list"
  local_at :: frames

definition set_fd :: "nat \<Rightarrow> (fd_entry \<Rightarrow> fd_entry) \<Rightarrow> ('f, 'w) io \<Rightarrow> ('f, 'w) io" where
  "set_fd i f s = s\<lparr>fd_table := (fd_table s)[i := f (fd_table s ! i)]\<rparr>"

definition init_fd_table :: "('f, 'w) io \<Rightarrow> ('f, 'w) io" where
  "init_fd_table s =
    (let t = map (\<lambda>e. e\<lparr>fd_Type := FD_TYPE_UNUSED\<rparr>) (fd_table s);
         t = t[0 := (t ! 0)\<lparr>fd_Type := FD_TYPE_CONSOLE\<rparr>];
         t = t[1 := (t ! 1)\<lparr>fd_Type := FD_TYPE_CONSOLE\<rparr>]
     in s\<lparr>fd_table := t, fd_table_inited := True\<rparr>)"

definition ensure_fd_table :: "('f, 'w) io \<Rightarrow> ('f, 'w) io" where
  "ensure_fd_table s = (if fd_table_inited s then s else init_fd_table s)"

text \<open>The disk strategy the file systems read through: \<open>key\<close>, \<open>start\<close>, \<open>count\<close> and
\<open>address\<close> are the fields of the component and the \<open>IOBLOCK\<close>.\<close>

definition pv_disk_strategy ::
  "bootdisk \<Rightarrow> u32 \<Rightarrow> u32 \<Rightarrow> u32 \<Rightarrow> u32 \<Rightarrow> bool \<Rightarrow> memory \<Rightarrow> (int \<times> memory) option" where
  "pv_disk_strategy dev key start count address is_read m =
    (if is_read then do {
       (r, m) \<leftarrow> bd_read_bytes dev ((key + start) * 512) address count m;
       Some (if r \<noteq> 0 then 1 else 0, m) }
     else Some (1, m))"

definition ensure_fs_init :: "('f, 'w) platform \<Rightarrow> ('f, 'w) io \<Rightarrow> ('f, 'w) io option" where
  "ensure_fs_init pl s =
    (if s_fs_init_done s then Some s
     else do { l \<leftarrow> fs_init (fs_installs pl); Some (s\<lparr>fs_list := l, s_fs_init_done := True\<rparr>) })"

text \<open>Calling a strategy: a null one is not called at all, the processor stops.\<close>

definition call_strategy ::
  "('f, 'w) platform \<Rightarrow> 'f option \<Rightarrow> fsops \<Rightarrow> ('f, 'w) io \<Rightarrow> (int \<times> ('f, 'w) io) option" where
  "call_strategy pl f code s = do {
     f \<leftarrow> f;
     (r, eb, m, w) \<leftarrow> strategy_of pl f ((s_xfs_eiob s)\<lparr>fsb_FunctionCode := code\<rparr>) (mem s) (fs_state s);
     Some (r, s\<lparr>s_xfs_eiob := eb, mem := m, fs_state := w\<rparr>) }"

text \<open>\<open>fs_search\<close> on the static block.  A strategy that does not return ends the search.\<close>

definition search_eiob :: "('f, 'w) platform \<Rightarrow> ('f, 'w) io \<Rightarrow> (int \<times> ('f, 'w) io) option" where
  "search_eiob pl s =
    (case fs_search (\<lambda>f code w. case w of
          None \<Rightarrow> (0, None)
        | Some (eb, m, w) \<Rightarrow> (case strategy_of pl f (eb\<lparr>fsb_FunctionCode := code\<rparr>) m w of
              None \<Rightarrow> (0, None) | Some (r, w) \<Rightarrow> (r, Some w)))
        (dev_Type (s_xfs_eiob s)) (fs_list s)
        (Some ((s_xfs_eiob s)\<lparr>fsstrat := None, fsb_FunctionCode := FS_CHECK\<rparr>, mem s, fs_state s)) of
       (r, strat, w) \<Rightarrow> do {
         (eb, m, w) \<leftarrow> w;
         Some (r, s\<lparr>s_xfs_eiob := (if r = 0 then eb\<lparr>fsstrat := strat\<rparr> else eb), mem := m, fs_state := w\<rparr>) })"

fun free_fd :: "nat list \<Rightarrow> ('f, 'w) io \<Rightarrow> nat option" where
  "free_fd [] s = None"
| "free_fd (i # is) s = (if fd_Type (fd_table s ! i) = FD_TYPE_UNUSED then Some i else free_fd is s)"

text \<open>The partition's first block: 0 where there is no header or no such partition.\<close>

definition partition_lbn :: "('f, 'w) platform \<Rightarrow> u32 \<Rightarrow> ('f, 'w) io \<Rightarrow> (u32 \<times> ('f, 'w) io) option" where
  "partition_lbn pl part s = do {
     let vh = vh_buf (local_at pl);
     (r, m) \<leftarrow> bd_read_bytes (disk pl) 0 vh 512 (mem s);
     let s = s\<lparr>mem := m\<rparr>;
     if r = 0 \<and> vh_magic m vh = VHMAGIC \<and> sint part < NPARTAB then do {
       (nblks, firstlbn, _) \<leftarrow> vh_pt m vh (sint part);
       Some (if sint nblks > 0 then firstlbn else 0, s) }
     else Some (0, s) }"

definition open_fs_file ::
  "('f, 'w) platform \<Rightarrow> u32 \<Rightarrow> string \<Rightarrow> ('f, 'w) io \<Rightarrow> (int \<times> nat option \<times> ('f, 'w) io) option" where
  "open_fs_file pl part filename s = do {
     (lbn, s) \<leftarrow> partition_lbn pl part s;
     (_, m) \<leftarrow> bd_read_bytes (disk pl) (lbn * 512) (peek_buf (local_at pl)) 512 (mem s);
     s \<leftarrow> ensure_fs_init pl (s\<lparr>mem := m\<rparr>);
     let s = s\<lparr>s_xfs_eiob := \<lparr>io_Flags = 1, io_Address = 0, io_Count = 0, io_Offset_lo = 0, io_Offset_hi = 0, io_StartBlock = 0, io_ErrorNumber = 0,
       dev_Type = DiskPeripheral, dev_Key = lbn, fsb_FunctionCode = FS_CHECK, fsb_Filename = Some filename, fsb_Buffer = 0, fsb_FsPtr = 0,
       fsstrat = None\<rparr>\<rparr>;
     (r, s) \<leftarrow> search_eiob pl s;
     if r \<noteq> 0 then Some (6, None, s)
     else do {
       (err, s) \<leftarrow> call_strategy pl (fsstrat (s_xfs_eiob s)) FS_OPEN s;
       if err \<noteq> 0 then Some (2, None, s)
       else (let s = ensure_fd_table s in
         case free_fd [2..<MAX_FDS] s of
           Some i \<Rightarrow> Some (0, Some i,
             set_fd i (\<lambda>e. e\<lparr>fd_Type := FD_TYPE_XFS, position := 0, xfs_data := True\<rparr>) s)
         | None \<Rightarrow> do {
             (_, s) \<leftarrow> call_strategy pl (fsstrat (s_xfs_eiob s)) FS_CLOSE s;
             Some (6, None, s) }) } }"

text \<open>The bounds of the partition, for \<open>Open\<close>.\<close>

definition partition_bounds ::
  "('f, 'w) platform \<Rightarrow> u32 \<Rightarrow> ('f, 'w) io \<Rightarrow> (u32 \<times> u32 \<times> ('f, 'w) io) option" where
  "partition_bounds pl part s = do {
     let vh = vh_buf (local_at pl);
     (r, m) \<leftarrow> bd_read_bytes (disk pl) 0 vh 512 (mem s);
     let s = s\<lparr>mem := m\<rparr>;
     if r = 0 \<and> vh_magic m vh = VHMAGIC then
       if sint part < NPARTAB then do {
         (nblks, firstlbn, _) \<leftarrow> vh_pt m vh (sint part);
         if sint nblks > 0 then Some (firstlbn * 512, nblks * 512, s)
         else Some (0, 0xFFFFFFFF, s) }
       else Some (0, 0xFFFFFFFF, s)
     else Some (0, 0xFFFFFFFF, s) }"

text \<open>\<open>Open\<close>: the value returned, what is stored at \<open>fd\<close>, and the state; \<open>fd_ok\<close> tells
whether the pointer \<open>fd\<close> is set.\<close>

definition Open ::
  "('f, 'w) platform \<Rightarrow> string option \<Rightarrow> bool \<Rightarrow> ('f, 'w) io \<Rightarrow> (int \<times> nat option \<times> ('f, 'w) io) option" where
  "Open pl path fd_ok s =
    (if \<not> fd_ok then Some (5, None, s)
     else let s = ensure_fd_table s in
       case path of
         None \<Rightarrow> Some (0, Some 0, s)
       | Some path \<Rightarrow> do {
           con \<leftarrow> str_eq path (cstr ''console'');
           none \<leftarrow> (if con then Some True else str_eq path (cstr ''''));
           if con \<or> none then Some (0, Some 0, s)
           else do {
             c \<leftarrow> rd path 0;
             if c = CHR ''d'' \<or> c = CHR ''s'' then do {
               (ctrl, unit, part) \<leftarrow> parse_disk_path path;
               (case free_fd [2..<MAX_FDS] s of
                  None \<Rightarrow> Some (6, None, s)
                | Some i \<Rightarrow> do {
                    let s = set_fd i (\<lambda>e. e\<lparr>fd_Type := FD_TYPE_DISK, fd_controller := ctrl, fd_unit := unit,
                      fd_partition := part, position := 0\<rparr>) s;
                    (start, size, s) \<leftarrow> partition_bounds pl part s;
                    Some (0, Some i, set_fd i (\<lambda>e. e\<lparr>part_start := start, part_size := size\<rparr>) s) }) }
             else Some (6, Some 0, s) } })"

definition Close :: "('f, 'w) platform \<Rightarrow> nat \<Rightarrow> ('f, 'w) io \<Rightarrow> (int \<times> ('f, 'w) io) option" where
  "Close pl fd s =
    (if fd < MAX_FDS \<and> fd \<ge> 2 then do {
       s \<leftarrow> (if fd_Type (fd_table s ! fd) = FD_TYPE_XFS \<and> xfs_data (fd_table s ! fd)
            then do { (_, s) \<leftarrow> call_strategy pl (fsstrat (s_xfs_eiob s)) FS_CLOSE s; Some s }
            else Some s);
       Some (0, set_fd fd (\<lambda>e. e\<lparr>fd_Type := FD_TYPE_UNUSED, xfs_data := False\<rparr>) s) }
     else Some (0, s))"

fun console_read :: "nat \<Rightarrow> u32 \<Rightarrow> ('f, 'w) io \<Rightarrow> ('f, 'w) io option" where
  "console_read 0 p s = Some s"
| "console_read (Suc n) p s =
    (case uart_in s of
       [] \<Rightarrow> None
     | c # cs \<Rightarrow> console_read n (p + 1) (s\<lparr>uart_in := cs, mem := (mem s)(p := c)\<rparr>))"

text \<open>\<open>Read\<close>: the value returned, the value stored at \<open>count\<close>, and the state.  A file
system file is read through the static block the entry points to.\<close>

definition Read ::
  "('f, 'w) platform \<Rightarrow> nat \<Rightarrow> u32 \<Rightarrow> u32 \<Rightarrow> ('f, 'w) io \<Rightarrow> (int \<times> u32 \<times> ('f, 'w) io) option" where
  "Read pl fd buf len s =
    (let s = ensure_fd_table s in
     if fd = 0 \<and> buf \<noteq> 0 \<and> len > 0 then do {
       s \<leftarrow> console_read (unat len) buf s;
       Some (0, len, s) }
     else if fd < MAX_FDS \<and> fd_Type (fd_table s ! fd) = FD_TYPE_XFS \<and> buf \<noteq> 0 then
       (if \<not> xfs_data (fd_table s ! fd) then None
        else let prev = position (fd_table s ! fd);
                 s = s\<lparr>s_xfs_eiob := (s_xfs_eiob s)\<lparr>io_Address := buf, io_Count := len, io_Offset_lo := prev,
                       io_Offset_hi := 0\<rparr>\<rparr>
             in do {
               (err, s) \<leftarrow> call_strategy pl (fsstrat (s_xfs_eiob s)) FS_READ s;
               if err = 0 then
                 (let off = io_Offset_lo (s_xfs_eiob s) in
                  Some (0, off - prev, set_fd fd (\<lambda>e. e\<lparr>position := off\<rparr>) s))
               else Some (err, 0, s) })
     else if fd < MAX_FDS \<and> fd_Type (fd_table s ! fd) = FD_TYPE_DISK \<and> buf \<noteq> 0 \<and> len > 0 then do {
       let disk_offset = part_start (fd_table s ! fd) + position (fd_table s ! fd);
       (r, m) \<leftarrow> bd_read_bytes (disk pl) disk_offset buf len (mem s);
       let s = s\<lparr>mem := m\<rparr>;
       if r = 0 then Some (0, len, set_fd fd (\<lambda>e. e\<lparr>position := position e + len\<rparr>) s)
       else Some (7, 0, s) }
     else Some (6, 0, s))"

fun bytes_at :: "memory \<Rightarrow> u32 \<Rightarrow> nat \<Rightarrow> u8 list" where
  "bytes_at m a 0 = []"
| "bytes_at m a (Suc n) = m a # bytes_at m (a + 1) n"

definition Write :: "nat \<Rightarrow> u32 \<Rightarrow> u32 \<Rightarrow> ('f, 'w) io \<Rightarrow> int \<times> u32 \<times> ('f, 'w) io" where
  "Write fd buf len s =
    (if fd \<le> 1 \<and> buf \<noteq> 0 \<and> len > 0
     then (0, len, s\<lparr>uart_out := uart_out s @ bytes_at (mem s) buf (unat len)\<rparr>)
     else (0, 0, s))"

definition GetReadStatus :: "nat \<Rightarrow> ('f, 'w) io \<Rightarrow> int" where
  "GetReadStatus fd s = (if fd = 0 \<and> uart_in s \<noteq> [] then 0 else 8)"

datatype seekmode = SeekAbsolute | SeekRelative

text \<open>\<open>offset\<close> is \<open>None\<close> for a null pointer and otherwise the low word it points to.\<close>

definition Seek :: "nat \<Rightarrow> u32 option \<Rightarrow> seekmode \<Rightarrow> ('f, 'w) io \<Rightarrow> int \<times> ('f, 'w) io" where
  "Seek fd offset mode s =
    (case offset of
       None \<Rightarrow> (5, s)
     | Some off \<Rightarrow>
         if fd < MAX_FDS \<and> (fd_Type (fd_table s ! fd) = FD_TYPE_DISK \<or> fd_Type (fd_table s ! fd) = FD_TYPE_XFS)
         then (0, set_fd fd (\<lambda>e. e\<lparr>position := (if mode = SeekAbsolute then off else position e + off)\<rparr>) s)
         else (5, s))"

definition Mount :: "string \<Rightarrow> ('f, 'w) io \<Rightarrow> int \<times> ('f, 'w) io" where
  "Mount path s = (0, s)"

definition GetDirEntry :: "nat \<Rightarrow> u32 \<Rightarrow> ('f, 'w) io \<Rightarrow> int \<times> u32 \<times> ('f, 'w) io" where
  "GetDirEntry fd n s = (5, 0, s)"

definition GetFileInformation :: "nat \<Rightarrow> ('f, 'w) io \<Rightarrow> int \<times> ('f, 'w) io" where
  "GetFileInformation fd s = (5, s)"

definition SetFileInformation :: "nat \<Rightarrow> u32 \<Rightarrow> u32 \<Rightarrow> ('f, 'w) io \<Rightarrow> int \<times> ('f, 'w) io" where
  "SetFileInformation fd flags m s = (0, s)"



section \<open>Reading the disk\<close>

text \<open>The byte at an offset of the disk, where its sector can be read.\<close>

definition disk_byte :: "bootdisk \<Rightarrow> u32 \<Rightarrow> u8 option" where
  "disk_byte dev a =
    (case bd_read_sector dev (a div 512) of
       Some (Some d) \<Rightarrow> Some (d ! unat (a mod 512))
     | _ \<Rightarrow> None)"

definition responds :: "bootdisk \<Rightarrow> u32 \<Rightarrow> nat \<Rightarrow> bool" where
  "responds dev off n \<longleftrightarrow> (\<forall>i<n. bd_read_sector dev ((off + of_nat i) div 512) \<noteq> None)"

definition readable :: "bootdisk \<Rightarrow> u32 \<Rightarrow> nat \<Rightarrow> bool" where
  "readable dev off n \<longleftrightarrow> (\<forall>i<n. disk_byte dev (off + of_nat i) \<noteq> None)"

text \<open>Memory \<open>m\<close> after \<open>n\<close> bytes of the disk from \<open>off\<close> have been stored from \<open>p\<close> on.\<close>

definition with_disk :: "bootdisk \<Rightarrow> u32 \<Rightarrow> nat \<Rightarrow> u32 \<Rightarrow> memory \<Rightarrow> memory" where
  "with_disk dev off n p m =
    (\<lambda>a. if unat (a - p) < n then the (disk_byte dev (off + (a - p))) else m a)"

lemma copy_chunk_run:
  assumes "n \<le> 2 ^ 32"
  shows "copy_chunk n buf i p m = (\<lambda>a. if unat (a - p) < n then buf ! (i + unat (a - p)) else m a)"
  using assms
proof (induction n arbitrary: i p m)
  case (Suc n)
  have "(if unat (a - (p + 1)) < n then buf ! (Suc i + unat (a - (p + 1))) else (m(p := buf ! i)) a)
      = (if unat (a - p) < Suc n then buf ! (i + unat (a - p)) else m a)" for a
  proof (cases "a = p")
    case True
    have "unat (- 1 :: u32) = 2 ^ 32 - 1"
      by (simp add: unsigned_minus_1_eq_mask mask_eq_exp_minus_1)
    then show ?thesis
      using True Suc.prems by simp
  next
    case False
    have e: "a - (p + 1) = (a - p) - 1"
      by simp
    have "0 < unat (a - p)"
      using False by (simp add: unat_gt_0)
    then have "unat (a - p) = Suc (unat (a - (p + 1)))"
      unfolding e using False by (simp add: unat_minus_one)
    with False show ?thesis
      by simp
  qed
  then show ?case
    using Suc by auto
qed simp

lemma sector_add:
  assumes "(a :: nat) mod 512 + i < 512"
  shows "(a + i) div 512 = a div 512" "(a + i) mod 512 = a mod 512 + i"
proof -
  show "(a + i) mod 512 = a mod 512 + i"
    using assms mod_add_left_eq [of a 512 i] mod_less [OF assms] by metis
  have "i < 512"
    using assms by linarith
  then show "(a + i) div 512 = a div 512"
    using assms div_add1_eq [of a i 512] by simp
qed

lemma chunk_sector:
  assumes "unat i < unat (chunk_size off count)"
  shows "(off + i) div 512 = off div 512" "unat ((off + i) mod 512) = unat off mod 512 + unat i"
proof -
  have b: "unat off mod 512 + unat i < 512"
    using assms by (auto simp: chunk_size_nat)
  have "unat off < 2 ^ 32"
    by (rule unat_lt_32)
  then have "unat off div 512 < 8388608"
    by (simp add: less_mult_imp_div_less)
  then have "unat off + unat i < 4294967296"
    using b div_mult_mod_eq [of "unat off" 512] by linarith
  then have s: "unat (off + i) = unat off + unat i"
    by (simp add: unat_word_ariths)
  show "(off + i) div 512 = off div 512" "unat ((off + i) mod 512) = unat off mod 512 + unat i"
    using sector_add [OF b]
    by (simp_all add: word_unat_eq_iff unat_div unat_mod s)
qed


lemma disk_byte_chunk:
  assumes "bd_read_sector dev (off div 512) = Some r" "unat i < unat (chunk_size off count)"
  shows "bd_read_sector dev ((off + i) div 512) = Some r"
    "disk_byte dev (off + i) = (case r of None \<Rightarrow> None | Some d \<Rightarrow> Some (d ! (unat off mod 512 + unat i)))"
  using assms chunk_sector [OF assms(2)] by (auto simp: disk_byte_def split: option.split)

lemma with_disk_join:
  assumes "unat k + n \<le> 2 ^ 32"
  shows "with_disk dev (off + k) n (p + k) (with_disk dev off (unat k) p m) = with_disk dev off (unat k + n) p m"
proof
  fix a
  let ?d = "a - p"
  have d: "a - (p + k) = ?d - k" "off + k + (?d - k) = off + ?d"
    by simp_all
  show "with_disk dev (off + k) n (p + k) (with_disk dev off (unat k) p m) a = with_disk dev off (unat k + n) p m a"
  proof (cases "k \<le> ?d")
    case True
    then have "unat (?d - k) = unat ?d - unat k" "unat k \<le> unat ?d"
      by (simp_all add: unat_sub word_le_nat_alt)
    then show ?thesis
      unfolding with_disk_def d by auto
  next
    case False
    then have l: "unat ?d < unat k"
      by (simp add: word_le_nat_alt)
    have "unat (?d - k) = 2 ^ 32 + unat ?d - unat k"
      using l by (simp add: unat_sub_if' del: diff_diff_eq2)
    then have "\<not> unat (?d - k) < n"
      using assms by simp
    then show ?thesis
      unfolding with_disk_def d using l by auto
  qed
qed

lemma all_less_add: "(\<forall>i<j + n. P i) \<longleftrightarrow> (\<forall>i<j. P i) \<and> (\<forall>i<n. P (j + i :: nat))"
  by (metis add_lessD1 add_less_cancel_left le_add_diff_inverse less_diff_conv2 linorder_not_less
      trans_less_add1)

lemma readable_add: "readable dev off (j + n) \<longleftrightarrow> readable dev off j \<and> readable dev (off + of_nat j) n"
  by (simp add: readable_def all_less_add add.assoc)

lemma responds_add: "responds dev off (j + n) \<longleftrightarrow> responds dev off j \<and> responds dev (off + of_nat j) n"
  by (simp add: responds_def all_less_add add.assoc)

lemma chunk_copied:
  assumes "bd_read_sector dev (off div 512) = Some (Some d)" "k = chunk_size off count"
  shows "copy_chunk (unat k) d (unat (off mod 512)) p m = with_disk dev off (unat k) p m"
    "readable dev off (unat k)"
proof -
  have k32: "unat k < 2 ^ 32"
    by (rule unat_lt_32)
  have "disk_byte dev (off + i) = Some (d ! (unat off mod 512 + unat i))" if "unat i < unat k" for i
    using disk_byte_chunk [OF assms(1)] that assms(2) by simp
  then show "copy_chunk (unat k) d (unat (off mod 512)) p m = with_disk dev off (unat k) p m"
    using less_imp_le [OF k32] by (simp add: copy_chunk_run with_disk_def unat_mod fun_eq_iff)
  show "readable dev off (unat k)"
    unfolding readable_def
  proof (intro allI impI)
    fix i
    assume "i < unat k"
    moreover then have "unat (of_nat i :: u32) = i"
      using k32 by (intro unat_of_nat_32) simp
    ultimately show "disk_byte dev (off + of_nat i) \<noteq> None"
      using disk_byte_chunk(2) [OF assms(1), of "of_nat i" count] assms(2) by simp
  qed
qed

text \<open>What the routine does, seen from the offset at which it stopped.\<close>

lemma bd_read_bytes_run:
  assumes "responds dev off (unat count)"
  shows "\<exists>n r. bd_read_bytes dev off p count m = Some (r, with_disk dev off n p m) \<and> n \<le> unat count \<and>
    readable dev off n \<and> (r = 0 \<and> n = unat count \<or>
      r = -1 \<and> n < unat count \<and> disk_byte dev (off + of_nat n) = None)"
  using assms
proof (induction dev off p count m rule: bd_read_bytes.induct)
  case (1 dev off p count m)
  show ?case
  proof (cases "count = 0")
    case True
    then show ?thesis
      by (simp add: bd_read_bytes.simps with_disk_def readable_def)
  next
    case False
    define k where "k = chunk_size off count"
    have pos: "0 < count"
      using False by (simp add: word_gt_0)
    then have kpos: "0 < unat k" "unat k \<le> unat count"
      using chunk_size_decreases [OF pos, of off]
      by (auto simp: k_def chunk_size_nat min_def unat_gt_0)
    obtain q where q: "bd_read_sector dev (off div 512) = Some q"
      using 1(2) kpos by (auto simp: responds_def dest: spec [of _ 0])
    show ?thesis
    proof (cases q)
      case None
      then have "disk_byte dev off = None"
        using q by (simp add: disk_byte_def)
      then show ?thesis
        using pos q None kpos
        by (intro exI [of _ 0] exI [of _ "- 1"])
          (simp add: bd_read_bytes.simps with_disk_def readable_def)
    next
      case (Some d)
      note c = chunk_copied [OF q [unfolded Some] k_def]
      have sub: "unat (count - k) = unat count - unat k"
        using kpos by (simp add: unat_sub word_le_nat_alt)
      have "responds dev (off + k) (unat (count - k))"
        using 1(2) kpos responds_add [of dev off "unat k" "unat (count - k)"] by (simp add: sub)
      then obtain n r where n: "bd_read_bytes dev (off + k) (p + k) (count - k) (with_disk dev off (unat k) p m) =
          Some (r, with_disk dev (off + k) n (p + k) (with_disk dev off (unat k) p m))"
        "n \<le> unat (count - k)" "readable dev (off + k) n"
        "r = 0 \<and> n = unat (count - k) \<or> r = - 1 \<and> n < unat (count - k) \<and> disk_byte dev (off + k + of_nat n) = None"
        using 1(1) [OF pos refl refl k_def q Some] c(1) by (auto simp: k_def)
      have "bd_read_bytes dev off p count m = Some (r, with_disk dev off (unat k + n) p m)"
      proof -
        have "unat k + n \<le> 2 ^ 32"
          using n(2) sub kpos unat_lt_32 [of count] by simp
        then show ?thesis
          using n(1) q Some pos c(1) with_disk_join
          by (subst bd_read_bytes.simps) (simp add: Let_def flip: k_def)
      qed
      then show ?thesis
        using n(2-4) sub kpos c(2)
        by (intro exI [of _ "unat k + n"] exI [of _ r]) (auto simp: readable_add add.assoc)
    qed
  qed
qed



section \<open>Paths and their parts\<close>

definition dec_char :: "nat \<Rightarrow> char" where
  "dec_char d = char_of (48 + d)"

fun dec :: "nat \<Rightarrow> string" where
  "dec n = (if n < 10 then [dec_char n] else dec (n div 10) @ [dec_char (n mod 10)])"

declare dec.simps [simp del]

lemma schar_dec_char: "d < 10 \<Longrightarrow> schar (dec_char d) = 48 + int d"
  by (simp add: dec_char_def schar_char_of)

lemma schar_digits: "schar CHR ''0'' = 48" "schar CHR ''9'' = 57"
  by (simp_all add: schar_def)

lemma path_number_step:
  "d < 10 \<Longrightarrow> path_number v (dec_char d # s) = path_number (v * 10 + of_nat d) s"
  by (simp add: schar_dec_char schar_digits)

lemma path_number_stop:
  "\<not> (48 \<le> schar c \<and> schar c \<le> 57) \<Longrightarrow> path_number v (c # s) = Some (v, c # s)"
  by (auto simp: schar_digits)

lemma path_number_dec:
  "path_number v (dec n @ s) = path_number (v * 10 ^ length (dec n) + of_nat n) s"
proof (induction n arbitrary: s rule: dec.induct)
  case (1 n)
  show ?case
  proof (cases "n < 10")
    case True
    then show ?thesis
      by (simp add: dec.simps [of n] path_number_step del: path_number.simps)
  next
    case False
    have "of_nat (n div 10 * 10 + n mod 10) = (of_nat (n div 10) * 10 + of_nat (n mod 10) :: u32)"
      by (simp only: of_nat_add of_nat_mult of_nat_numeral)
    then have "of_nat n = (of_nat (n div 10) * 10 + of_nat (n mod 10) :: u32)"
      by simp
    then show ?thesis
      using False 1 [OF False, of "dec_char (n mod 10) # s"]
      by (simp add: dec.simps [of n] path_number_step algebra_simps del: path_number.simps)
  qed
qed

lemma dec_range: "c \<in> set (dec n) \<Longrightarrow> 48 \<le> schar c \<and> schar c \<le> 57"
proof (induction n rule: dec.induct)
  case (1 n)
  show ?case
  proof (cases "n < 10")
    case True
    then show ?thesis
      using 1(2) by (simp add: dec.simps [of n] schar_dec_char)
  next
    case False
    have "n mod 10 < 10"
      by simp
    with False 1 show ?thesis
      by (auto simp: dec.simps [of n] schar_dec_char)
  qed
qed

lemma dec_plain: "c \<in> set (dec n) \<Longrightarrow> c \<noteq> NUL \<and> c \<noteq> CHR '')''"
  using dec_range [of c n] by (auto simp: schar_def)

definition disk_path :: "nat \<Rightarrow> nat \<Rightarrow> nat \<Rightarrow> string \<Rightarrow> string" where
  "disk_path c u p file = ''dksc('' @ dec c @ '','' @ dec u @ '','' @ dec p @ '')'' @ file"

lemma parse_disk_path_run:
  "parse_disk_path (cstr (disk_path c u p file)) = Some (of_nat c, of_nat u, of_nat p)"
proof -
  have c: "schar CHR '','' = 44" "schar CHR '')'' = 41"
    by (simp_all add: schar_def)
  show ?thesis
    by (simp add: parse_disk_path_def disk_path_def cstr_def path_number_dec path_number_stop c skip_comma_def
        del: path_number.simps)
qed

lemma after_device_skip:
  "\<forall>c \<in> set s. c \<noteq> NUL \<and> c \<noteq> CHR '')'' \<Longrightarrow> after_device (s @ r) = after_device r"
  by (induction s) auto

lemma extract_filename_run:
  assumes "nulfree file"
  shows "extract_filename (cstr (disk_path c u p file)) = Some (if file = [] then None else Some (cstr file))"
proof -
  have "after_device (cstr (disk_path c u p file)) = Some (Some (cstr file))"
    by (simp add: disk_path_def cstr_def after_device_skip dec_plain)
  then show ?thesis
    using assms by (cases "file") (auto simp: extract_filename_def cstr_def rd_def)
qed



section \<open>Files of bytes\<close>

text \<open>What a reader of programs relies on: a position, \<open>fseek\<close> sets it, and \<open>fread\<close> stores
bytes of the file from it on and moves it.  \<open>fmem\<close> is the memory and \<open>fset\<close> sets it.\<close>

locale byte_file =
  fixes fread :: "u32 \<Rightarrow> u32 \<Rightarrow> 's \<Rightarrow> (int \<times> u32 \<times> 's) option"
    and fseek :: "u32 \<Rightarrow> 's \<Rightarrow> 's"
    and fmem :: "'s \<Rightarrow> memory"
    and fset :: "memory \<Rightarrow> 's \<Rightarrow> 's"
    and fpos :: "'s \<Rightarrow> u32"
    and contents :: "u32 \<Rightarrow> u8 option"
    and opened :: "'s \<Rightarrow> bool"
  assumes fseek_ok: "opened s \<Longrightarrow> opened (fseek a s) \<and> fpos (fseek a s) = a \<and> fmem (fseek a s) = fmem s"
    and fset_ok: "opened s \<Longrightarrow> opened (fset m s) \<and> fpos (fset m s) = fpos s \<and> fmem (fset m s) = m"
    and fread_ok: "opened s \<Longrightarrow> buf \<noteq> 0 \<Longrightarrow> 0 < len \<Longrightarrow>
      \<forall>i < unat len. contents (fpos s + of_nat i) \<noteq> None \<Longrightarrow>
      \<exists>s'. fread buf len s = Some (0, len, s') \<and> opened s' \<and> fpos s' = fpos s + len \<and>
        fmem s' = (\<lambda>a. if unat (a - buf) < unat len then the (contents (fpos s + (a - buf))) else fmem s a)"
    and fread_none: "opened s \<Longrightarrow> \<exists>r n s'. fread buf 0 s = Some (r, n, s') \<and> opened s' \<and> fmem s' = fmem s"

text \<open>Reading at an offset, which is how the loader uses a file.\<close>

context byte_file begin

lemma read_at:
  assumes "opened s" "buf \<noteq> 0" "0 < len" "\<forall>i < unat len. contents (off + of_nat i) \<noteq> None"
  shows "\<exists>s'. fread buf len (fseek off s) = Some (0, len, s') \<and> opened s' \<and>
    fmem s' = (\<lambda>a. if unat (a - buf) < unat len then the (contents (off + (a - buf))) else fmem s a)"
proof -
  have k: "opened (fseek off s)" "fpos (fseek off s) = off" "fmem (fseek off s) = fmem s"
    using fseek_ok [OF assms(1), of off] by simp_all
  show ?thesis
    using fread_ok [OF k(1) assms(2,3)] assms(4) unfolding k by blast
qed

end

section \<open>The descriptors of the disk\<close>

definition io_ok :: "('f, 'w) io \<Rightarrow> bool" where
  "io_ok s \<longleftrightarrow> length (fd_table s) = MAX_FDS \<and> fd_table_inited s \<and>
     fd_Type (fd_table s ! 0) = FD_TYPE_CONSOLE \<and> fd_Type (fd_table s ! 1) = FD_TYPE_CONSOLE"

text \<open>Descriptor \<open>fd\<close> is open on the disk from byte \<open>start\<close>.\<close>

definition disk_fd :: "nat \<Rightarrow> u32 \<Rightarrow> ('f, 'w) io \<Rightarrow> bool" where
  "disk_fd fd start s \<longleftrightarrow> io_ok s \<and> 2 \<le> fd \<and> fd < MAX_FDS \<and>
     fd_Type (fd_table s ! fd) = FD_TYPE_DISK \<and> part_start (fd_table s ! fd) = start"

definition disk_contents :: "bootdisk \<Rightarrow> u32 \<Rightarrow> u32 \<Rightarrow> u8 option" where
  "disk_contents dev start a = disk_byte dev (start + a)"

definition fd_pos :: "nat \<Rightarrow> ('f, 'w) io \<Rightarrow> u32" where
  "fd_pos fd s = position (fd_table s ! fd)"

definition Seek_to :: "nat \<Rightarrow> u32 \<Rightarrow> ('f, 'w) io \<Rightarrow> ('f, 'w) io" where
  "Seek_to fd off s = snd (Seek fd (Some off) SeekAbsolute s)"

definition set_mem :: "memory \<Rightarrow> ('f, 'w) io \<Rightarrow> ('f, 'w) io" where
  "set_mem m s = s\<lparr>mem := m\<rparr>"

lemma set_fd_simps [simp]:
  "length (fd_table (set_fd i f s)) = length (fd_table s)"
  "i < length (fd_table s) \<Longrightarrow> fd_table (set_fd i f s) ! i = f (fd_table s ! i)"
  "j \<noteq> i \<Longrightarrow> fd_table (set_fd i f s) ! j = fd_table s ! j"
  "mem (set_fd i f s) = mem s" "fd_table_inited (set_fd i f s) = fd_table_inited s"
  by (simp_all add: set_fd_def)

lemma io_ok_set_fd: "io_ok s \<Longrightarrow> 2 \<le> i \<Longrightarrow> io_ok (set_fd i f s)"
  by (auto simp: io_ok_def)

lemma io_ok_mem [simp]: "io_ok (s\<lparr>mem := m\<rparr>) = io_ok s"
  by (simp add: io_ok_def)

lemma readable_responds: "readable dev off n \<Longrightarrow> responds dev off n"
  unfolding readable_def responds_def disk_byte_def by (fastforce split: option.splits)

lemma bd_read_bytes_all:
  assumes "readable dev off (unat count)"
  shows "bd_read_bytes dev off p count m = Some (0, with_disk dev off (unat count) p m)"
  using bd_read_bytes_run [OF readable_responds [OF assms], of p m] assms
  by (auto simp: readable_def)

lemma Read_disk:
  assumes "disk_fd fd start s" "buf \<noteq> 0" "0 < len"
  shows "Read pl fd buf len s =
    (case bd_read_bytes (disk pl) (start + fd_pos fd s) buf len (mem s) of
       None \<Rightarrow> None
     | Some (r, m) \<Rightarrow> Some (if r = 0 then (0, len, set_fd fd (\<lambda>e. e\<lparr>position := position e + len\<rparr>) (s\<lparr>mem := m\<rparr>))
                      else (7, 0, s\<lparr>mem := m\<rparr>)))"
  using assms
  by (auto simp: Read_def disk_fd_def io_ok_def ensure_fd_table_def fd_pos_def Let_def split: option.splits)

lemma Seek_disk:
  assumes "disk_fd fd start s"
  shows "Seek fd (Some off) mode s =
    (0, set_fd fd (\<lambda>e. e\<lparr>position := (if mode = SeekAbsolute then off else position e + off)\<rparr>) s)"
  using assms by (simp add: Seek_def disk_fd_def)

lemma disk_fd_updates:
  assumes "disk_fd fd start s"
  shows "disk_fd fd start (set_fd fd (\<lambda>e. e\<lparr>position := g e\<rparr>) s)" "disk_fd fd start (s\<lparr>mem := m\<rparr>)"
    "fd_pos fd (set_fd fd (\<lambda>e. e\<lparr>position := g e\<rparr>) s) = g (fd_table s ! fd)"
  using assms by (simp_all add: disk_fd_def io_ok_set_fd fd_pos_def) (simp_all add: io_ok_def)

interpretation disk_file: byte_file "Read pl fd" "Seek_to fd" mem set_mem "fd_pos fd"
  "disk_contents (disk pl) start" "disk_fd fd start" for pl fd start
proof
  fix s :: "('a, 'b) io" and a m
  assume d: "disk_fd fd start s"
  show "disk_fd fd start (Seek_to fd a s) \<and> fd_pos fd (Seek_to fd a s) = a \<and> mem (Seek_to fd a s) = mem s"
    using d by (simp add: Seek_to_def Seek_disk [OF d] disk_fd_updates)
  show "disk_fd fd start (set_mem m s) \<and> fd_pos fd (set_mem m s) = fd_pos fd s \<and> mem (set_mem m s) = m"
    using disk_fd_updates(2) [OF d] by (simp add: set_mem_def fd_pos_def)
next
  fix s :: "('a, 'b) io" and buf len :: u32
  assume d: "disk_fd fd start s" and b: "buf \<noteq> 0" "0 < len"
    and c: "\<forall>i<unat len. disk_contents (disk pl) start (fd_pos fd s + word_of_nat i) \<noteq> None"
  have "readable (disk pl) (start + fd_pos fd s) (unat len)"
    using c by (simp add: readable_def disk_contents_def add.assoc)
  note r = bd_read_bytes_all [OF this, of buf "mem s"]
  show "\<exists>s'. Read pl fd buf len s = Some (0, len, s') \<and> disk_fd fd start s' \<and> fd_pos fd s' = fd_pos fd s + len \<and>
      mem s' = (\<lambda>a. if unat (a - buf) < unat len then the (disk_contents (disk pl) start (fd_pos fd s + (a - buf)))
        else mem s a)"
    using disk_fd_updates [OF disk_fd_updates(2) [OF d]]
    by (simp add: Read_disk [OF d b] r with_disk_def disk_contents_def add.assoc cong: if_cong)
      (simp add: fd_pos_def)
next
  fix s :: "('a, 'b) io" and buf :: u32
  assume d: "disk_fd fd start s"
  then have "Read pl fd buf 0 s = Some (6, 0, s)"
    by (simp add: Read_def ensure_fd_table_def disk_fd_def io_ok_def Let_def)
  then show "\<exists>r n s'. Read pl fd buf 0 s = Some (r, n, s') \<and> disk_fd fd start s' \<and> mem s' = mem s"
    using d by simp
qed

section \<open>Opening a path of the disk\<close>

text \<open>The disk seen as memory, and the partition the header on it describes.\<close>

definition disk_mem :: "bootdisk \<Rightarrow> memory" where
  "disk_mem dev a = the (disk_byte dev a)"

definition has_header :: "bootdisk \<Rightarrow> bool" where
  "has_header dev \<longleftrightarrow> vh_magic (disk_mem dev) 0 = VHMAGIC"

definition pt_blocks :: "bootdisk \<Rightarrow> nat \<Rightarrow> u32" where
  "pt_blocks dev p = ld32 (disk_mem dev) (312 + 12 * of_nat p)"

definition pt_lbn :: "bootdisk \<Rightarrow> nat \<Rightarrow> u32" where
  "pt_lbn dev p = ld32 (disk_mem dev) (312 + 12 * of_nat p + 4)"

definition on_partition :: "bootdisk \<Rightarrow> nat \<Rightarrow> bool" where
  "on_partition dev p \<longleftrightarrow> has_header dev \<and> p < 16 \<and> 0 < sint (pt_blocks dev p)"

lemma disk_mem_at:
  assumes "unat (a - p) + k < n" "n \<le> 2 ^ 32"
  shows "with_disk dev off n p m (a + of_nat k) = disk_mem dev (off + (a - p) + of_nat k)"
proof -
  have "unat (a - p + of_nat k) = unat (a - p) + k"
    using assms by (simp add: unat_word_ariths unat_of_nat)
  then show ?thesis
    using assms(1) by (simp add: with_disk_def disk_mem_def algebra_simps)
qed

lemma ld32_with_disk:
  assumes "unat (a - p) + 3 < n" "n \<le> 2 ^ 32"
  shows "ld32 (with_disk dev off n p m) a = ld32 (disk_mem dev) (off + (a - p))"
  using disk_mem_at [of a p 0 n dev off m] disk_mem_at [of a p 1 n dev off m]
    disk_mem_at [of a p 2 n dev off m] disk_mem_at [of a p 3 n dev off m] assms
  by (simp add: ld32_def)

lemma vh_pt_with_disk:
  assumes "p < 16"
  shows "vh_pt (with_disk dev 0 512 vh m) vh (int p) =
    Some (pt_blocks dev p, pt_lbn dev p, ld32 (disk_mem dev) (312 + 12 * of_nat p + 8))"
proof -
  have u: "unat (312 + 12 * of_nat p + of_nat k :: u32) = 312 + 12 * p + k" if "k \<le> 8" for k
  proof -
    have "(312 + 12 * of_nat p + of_nat k :: u32) = of_nat (312 + 12 * p + k)"
      by simp
    moreover have "312 + 12 * p + k < 2 ^ 32"
      using assms that by simp
    ultimately show ?thesis
      by (simp only: unat_of_nat_32)
  qed
  have "ld32 (with_disk dev 0 512 vh m) (vh + 312 + 12 * of_nat p + of_nat k) =
      ld32 (disk_mem dev) (312 + 12 * of_nat p + of_nat k)" if "k \<le> 8" for k
  proof -
    have e: "vh + 312 + 12 * of_nat p + of_nat k - vh = 312 + 12 * of_nat p + of_nat k"
      by simp
    show ?thesis
      using ld32_with_disk [of "vh + 312 + 12 * of_nat p + of_nat k" vh 512 dev 0 m] u [OF that] assms that
      unfolding e by simp
  qed
  from this [of 0] this [of 4] this [of 8] show ?thesis
    using assms by (simp add: vh_pt_def NPARTAB_def pt_blocks_def pt_lbn_def)
qed

lemma vh_magic_with_disk:
  "vh_magic (with_disk dev 0 512 vh m) vh = VHMAGIC \<longleftrightarrow> has_header dev"
  using ld32_with_disk [of vh vh 512 dev 0 m] by (simp add: vh_magic_def has_header_def)

lemma partition_bounds_run:
  assumes "readable (disk pl) 0 512" "p < 2 ^ 31"
  shows "partition_bounds pl (of_nat p) s =
    Some (if on_partition (disk pl) p then pt_lbn (disk pl) p * 512 else 0,
          if on_partition (disk pl) p then pt_blocks (disk pl) p * 512 else 0xFFFFFFFF,
          s\<lparr>mem := with_disk (disk pl) 0 512 (vh_buf (local_at pl)) (mem s)\<rparr>)"
proof -
  have "readable (disk pl) 0 (unat (512 :: u32))"
    using assms(1) by simp
  from bd_read_bytes_all [OF this, of "vh_buf (local_at pl)" "mem s"]
  have r: "bd_read_bytes (disk pl) 0 (vh_buf (local_at pl)) 512 (mem s) =
      Some (0, with_disk (disk pl) 0 512 (vh_buf (local_at pl)) (mem s))"
    by simp
  show ?thesis
    using assms(2)
    by (auto simp: partition_bounds_def r vh_magic_with_disk on_partition_def sint_of_nat_32 NPARTAB_def
        vh_pt_with_disk Let_def)
qed

lemma disk_path_d: "cstr (disk_path c u p file) = CHR ''d'' # CHR ''k'' # CHR ''s'' # CHR ''c'' # CHR ''('' # drop 5 (cstr (disk_path c u p file))"
  by (simp add: disk_path_def cstr_def)

lemma str_eq_disk_path:
  "str_eq (cstr (disk_path c u p file)) (cstr ''console'') = Some False"
  "str_eq (cstr (disk_path c u p file)) (cstr '''') = Some False"
  by (subst disk_path_d; simp add: cstr_def)+

lemma rd_disk_path: "rd (cstr (disk_path c u p file)) 0 = Some CHR ''d''"
  by (subst disk_path_d) (simp add: rd_def)

definition opened_disk :: "bootdisk \<Rightarrow> nat \<Rightarrow> nat \<Rightarrow> nat \<Rightarrow> fd_entry \<Rightarrow> fd_entry" where
  "opened_disk dev c u p e = e\<lparr>fd_Type := FD_TYPE_DISK, fd_controller := of_nat c, fd_unit := of_nat u,
     fd_partition := of_nat p, position := 0,
     part_start := (if on_partition dev p then pt_lbn dev p * 512 else 0),
     part_size := (if on_partition dev p then pt_blocks dev p * 512 else 0xFFFFFFFF)\<rparr>"

lemma set_fd_twice: "i < length (fd_table s) \<Longrightarrow>
  set_fd i f ((set_fd i g s)\<lparr>mem := m\<rparr>) = set_fd i (\<lambda>e. f (g e)) (s\<lparr>mem := m\<rparr>)"
  by (simp add: set_fd_def)

lemma free_fd_range: "free_fd is s = Some i \<Longrightarrow> i \<in> set is \<and> fd_Type (fd_table s ! i) = FD_TYPE_UNUSED"
  by (induction "is") (auto split: if_splits)

lemma free_fd_lowest:
  "free_fd is s = Some i \<Longrightarrow> sorted is \<Longrightarrow> j \<in> set is \<Longrightarrow> j < i \<Longrightarrow> fd_Type (fd_table s ! j) \<noteq> FD_TYPE_UNUSED"
proof (induction "is")
  case (Cons k "is")
  then show ?case
    by (auto split: if_splits)
qed simp

lemma Open_disk:
  assumes "io_ok s" "readable (disk pl) 0 512" "p < 2 ^ 31"
  shows "Open pl (Some (cstr (disk_path c u p file))) True s =
    Some (case free_fd [2..<MAX_FDS] s of
       None \<Rightarrow> (6, None, s)
     | Some i \<Rightarrow> (0, Some i, set_fd i (opened_disk (disk pl) c u p)
         (s\<lparr>mem := with_disk (disk pl) 0 512 (vh_buf (local_at pl)) (mem s)\<rparr>)))"
proof (cases "free_fd [2..<MAX_FDS] s")
  case None
  then show ?thesis
    using assms(1) by (simp add: Open_def str_eq_disk_path rd_disk_path parse_disk_path_run ensure_fd_table_def
        io_ok_def Let_def)
next
  case (Some i)
  have "i < length (fd_table s)"
    using free_fd_range [OF Some] assms(1) by (simp add: io_ok_def)
  moreover have "mem (set_fd i g s) = mem s" for g
    by simp
  ultimately show ?thesis
    using assms(1) Some
    by (simp add: Open_def str_eq_disk_path rd_disk_path parse_disk_path_run ensure_fd_table_def io_ok_def
        partition_bounds_run [OF assms(2,3)] set_fd_twice opened_disk_def [abs_def] Let_def)
qed



section \<open>Properties\<close>

text \<open>C16: reading a descriptor of the disk.  When the controller answers, \<open>Read\<close> returns.
Either all bytes asked for are in the buffer, byte \<open>i\<close> being byte \<open>i\<close> of the partition behind
the position, and the position has moved by their number; or a sector was bad, the value is
7, the count 0, the position is as before, and the bytes in front of the bad sector have
been stored.  Nothing else in memory changes, no other descriptor, and nothing of the rest.\<close>

theorem disk_descriptor_reads:
  assumes "disk_fd fd start s" "buf \<noteq> 0" "0 < len"
    and "responds (disk pl) (start + fd_pos fd s) (unat len)"
  shows "\<exists>n m. n \<le> unat len \<and>
    (\<forall>i < n. m (buf + of_nat i) = the (disk_byte (disk pl) (start + fd_pos fd s + of_nat i))) \<and>
    (\<forall>a. (\<forall>i < n. a \<noteq> buf + of_nat i) \<longrightarrow> m a = mem s a) \<and>
    readable (disk pl) (start + fd_pos fd s) n \<and>
    (if n = unat len
     then Read pl fd buf len s = Some (0, len, s\<lparr>mem := m,
        fd_table := (fd_table s)[fd := (fd_table s ! fd)\<lparr>position := fd_pos fd s + len\<rparr>]\<rparr>)
     else disk_byte (disk pl) (start + fd_pos fd s + of_nat n) = None \<and>
       Read pl fd buf len s = Some (7, 0, s\<lparr>mem := m\<rparr>))"
proof -
  let ?off = "start + fd_pos fd s"
  obtain n r where b: "bd_read_bytes (disk pl) ?off buf len (mem s) = Some (r, with_disk (disk pl) ?off n buf (mem s))"
    and n: "n \<le> unat len" "readable (disk pl) ?off n"
    and r: "r = 0 \<and> n = unat len \<or> r = - 1 \<and> n < unat len \<and> disk_byte (disk pl) (?off + of_nat n) = None"
    using bd_read_bytes_run [OF assms(4)] by blast
  have l: "n < 2 ^ 32"
    using n(1) unat_lt_32 [of len] by simp
  have "with_disk (disk pl) ?off n buf (mem s) (buf + of_nat i) = the (disk_byte (disk pl) (?off + of_nat i))"
    if "i < n" for i
    using that l by (simp add: with_disk_def unat_of_nat_32)
  moreover have "with_disk (disk pl) ?off n buf (mem s) a = mem s a" if "\<forall>i < n. a \<noteq> buf + of_nat i" for a
    using that by (auto simp: with_disk_def dest!: spec [of _ "unat (a - buf)"])
  moreover have "Read pl fd buf len s =
      Some (if r = 0 then (0, len, set_fd fd (\<lambda>e. e\<lparr>position := position e + len\<rparr>)
              (s\<lparr>mem := with_disk (disk pl) ?off n buf (mem s)\<rparr>))
            else (7, 0, s\<lparr>mem := with_disk (disk pl) ?off n buf (mem s)\<rparr>))"
    using Read_disk [OF assms(1-3), of pl] by (simp add: b)
  ultimately show ?thesis
    using n r by (intro exI [of _ n] exI [of _ "with_disk (disk pl) ?off n buf (mem s)"])
      (auto simp: set_fd_def fd_pos_def)
qed

definition sample_disk :: bootdisk where
  "sample_disk k = (if k < 2 then ([0, BD_STATUS_READY], map (\<lambda>i. of_nat i + ucast k) [0..<512])
     else ([BD_STATUS_READY OR BD_STATUS_ERROR], []))"

definition sample_platform :: "(unit, unit) platform" where
  "sample_platform = \<lparr>disk = sample_disk, strategy_of = (\<lambda>f eb m w. Some (0, eb, m, w)), fs_installs = [],
     local_at = \<lparr>vh_buf = 0x1000, peek_buf = 0x1200, hdr_buf = 0x1400, phdr_buf = 0x1600, shdr_buf = 0x1620, exec_vh = 0x1800\<rparr>\<rparr>"

definition sample_fd :: "fd_type \<Rightarrow> fd_entry" where
  "sample_fd t = \<lparr>fd_Type = t, fd_controller = 0, fd_unit = 0, fd_partition = 0, position = 1020,
     part_start = 2, part_size = 0, xfs_data = False\<rparr>"

definition sample_io :: "(unit, unit) io" where
  "sample_io = \<lparr>mem = (\<lambda>_. 0), fd_table = map sample_fd ([FD_TYPE_CONSOLE, FD_TYPE_CONSOLE, FD_TYPE_DISK] @
       replicate 5 FD_TYPE_UNUSED), fd_table_inited = True, s_fs_init_done = False, fs_list = [],
     s_xfs_eiob = \<lparr>io_Flags = 0, io_Address = 0, io_Count = 0, io_Offset_lo = 0, io_Offset_hi = 0, io_StartBlock = 0, io_ErrorNumber = 0,
       dev_Type = ARC, dev_Key = 0, fsb_FunctionCode = FS_CHECK, fsb_Filename = None, fsb_Buffer = 0, fsb_FsPtr = 0, fsstrat = None\<rparr>,
     fs_state = (), uart_in = [], uart_out = []\<rparr>"

lemma sample_disk_fd: "disk_fd 2 2 sample_io" "fd_pos 2 sample_io = 1020" "io_ok sample_io"
  by (simp_all add: disk_fd_def io_ok_def sample_io_def sample_fd_def MAX_FDS_def fd_pos_def)

lemma sample_sector: "bd_read_sector sample_disk k \<noteq> None"
  by (simp add: bd_read_sector_def sample_disk_def BD_STATUS_READY_def BD_STATUS_ERROR_def)

lemma disk_descriptor_reads_witness:
  "\<exists>n m. n \<le> 4 \<and> readable sample_disk 1022 n \<and>
     (n = 4 \<longrightarrow> Read sample_platform 2 0x2000 4 sample_io = Some (0, 4, sample_io\<lparr>mem := m,
        fd_table := (fd_table sample_io)[2 := (fd_table sample_io ! 2)\<lparr>position := 1024\<rparr>]\<rparr>)) \<and>
     (n \<noteq> 4 \<longrightarrow> Read sample_platform 2 0x2000 4 sample_io = Some (7, 0, sample_io\<lparr>mem := m\<rparr>))"
proof -
  have "responds (disk sample_platform) (2 + fd_pos 2 sample_io) (unat (4 :: u32))"
    by (simp only: responds_def sample_platform_def platform.simps) (metis sample_sector)
  from disk_descriptor_reads [OF sample_disk_fd(1) _ _ this, of "0x2000"] show ?thesis
    unfolding sample_disk_fd by (auto simp: sample_platform_def split: if_splits)
qed



lemma free_fd_None: "free_fd is s = None \<Longrightarrow> \<forall>i \<in> set is. fd_Type (fd_table s ! i) \<noteq> FD_TYPE_UNUSED"
  by (induction "is") (auto split: if_splits)

lemma sint_negative: "2 ^ 31 \<le> p \<Longrightarrow> p < 2 ^ 32 \<Longrightarrow> sint (of_nat p :: u32) < 0"
proof -
  assume p: "2 ^ 31 \<le> p" "p < 2 ^ 32"
  then have "p div 2 ^ 31 = 1"
    by (intro div_nat_eqI) simp_all
  then have "bit (of_nat p :: u32) 31"
    by (simp add: bit_of_nat_iff bit_iff_odd [of p])
  then show ?thesis
    using bit_last_iff [of "of_nat p :: u32"] by simp
qed

lemma Open_negative:
  assumes "io_ok s" "readable (disk pl) 0 512" "2 ^ 31 \<le> p" "p < 2 ^ 32"
    and "free_fd [2..<MAX_FDS] s = Some i" "has_header (disk pl)"
  shows "Open pl (Some (cstr (disk_path c u p file))) True s = None"
proof -
  have "readable (disk pl) 0 (unat (512 :: u32))"
    using assms(2) by simp
  from bd_read_bytes_all [OF this, of "vh_buf (local_at pl)"]
  have r: "bd_read_bytes (disk pl) 0 (vh_buf (local_at pl)) 512 m =
      Some (0, with_disk (disk pl) 0 512 (vh_buf (local_at pl)) m)" for m
    by simp
  have "partition_bounds pl (of_nat p) s' = None" for s'
    using sint_negative [OF assms(3,4)] assms(6)
    by (simp add: partition_bounds_def r vh_magic_with_disk NPARTAB_def vh_pt_def Let_def)
  then show ?thesis
    using assms(1,5) by (simp add: Open_def str_eq_disk_path rd_disk_path parse_disk_path_run
        ensure_fd_table_def io_ok_def Let_def)
qed

text \<open>C22: opening \<open>dksc(c,u,p)\<close>, whatever follows.  The lowest free descriptor from 2 on is
taken (all below it are in use), or 6 is returned when there is none.  Its entry holds controller,
unit and partition of the path, position 0, and the start and the length in bytes of partition \<open>p\<close> of the
header in sector 0, or byte 0 of the disk and the largest length where there is no such partition or no header;
no other descriptor changes.  A number too large for an \<open>int\<close> is negative and passes
the check against the number of partitions: with a header on the disk the partition table is
then read in front of its first entry.\<close>

theorem Open_finds_partition:
  assumes "io_ok s" "readable (disk pl) 0 512" "p < 2 ^ 32"
  shows "case free_fd [2..<MAX_FDS] s of
      None \<Rightarrow> (\<forall>i. 2 \<le> i \<and> i < MAX_FDS \<longrightarrow> fd_Type (fd_table s ! i) \<noteq> FD_TYPE_UNUSED) \<and>
        Open pl (Some (cstr (disk_path c u p file))) True s = Some (6, None, s)
    | Some i \<Rightarrow> 2 \<le> i \<and> i < MAX_FDS \<and> fd_Type (fd_table s ! i) = FD_TYPE_UNUSED \<and>
        (\<forall>j. 2 \<le> j \<and> j < i \<longrightarrow> fd_Type (fd_table s ! j) \<noteq> FD_TYPE_UNUSED) \<and>
        (if p < 2 ^ 31 then
           \<exists>s'. Open pl (Some (cstr (disk_path c u p file))) True s = Some (0, Some i, s') \<and>
             disk_fd i (if on_partition (disk pl) p then pt_lbn (disk pl) p * 512 else 0) s' \<and>
             fd_pos i s' = 0 \<and>
             fd_table s' ! i = (fd_table s ! i)\<lparr>fd_Type := FD_TYPE_DISK, fd_controller := of_nat c, fd_unit := of_nat u,
               fd_partition := of_nat p, position := 0,
               part_start := (if on_partition (disk pl) p then pt_lbn (disk pl) p * 512 else 0),
               part_size := (if on_partition (disk pl) p then pt_blocks (disk pl) p * 512 else 0xFFFFFFFF)\<rparr> \<and>
             (\<forall>j. j \<noteq> i \<longrightarrow> fd_table s' ! j = fd_table s ! j)
         else has_header (disk pl) \<longrightarrow> Open pl (Some (cstr (disk_path c u p file))) True s = None)"
proof (cases "free_fd [2..<MAX_FDS] s")
  case None
  have "fd_Type (fd_table s ! i) \<noteq> FD_TYPE_UNUSED" if "2 \<le> i" "i < MAX_FDS" for i
    using free_fd_None [OF None] that by simp
  moreover have "Open pl (Some (cstr (disk_path c u p file))) True s = Some (6, None, s)"
    using assms(1) None by (simp add: Open_def str_eq_disk_path rd_disk_path parse_disk_path_run
        ensure_fd_table_def io_ok_def Let_def)
  ultimately show ?thesis
    by (simp add: None)
next
  case (Some i)
  note i = free_fd_range [OF Some]
  have low: "fd_Type (fd_table s ! j) \<noteq> FD_TYPE_UNUSED" if "2 \<le> j" "j < i" for j
    using free_fd_lowest [OF Some, of j] that i by simp
  have len: "i < length (fd_table s)"
    using i assms(1) by (simp add: io_ok_def)
  show ?thesis
  proof (cases "p < 2 ^ 31")
    case True
    let ?s = "set_fd i (opened_disk (disk pl) c u p)
      (s\<lparr>mem := with_disk (disk pl) 0 512 (vh_buf (local_at pl)) (mem s)\<rparr>)"
    have "disk_fd i (if on_partition (disk pl) p then pt_lbn (disk pl) p * 512 else 0) ?s" "fd_pos i ?s = 0"
      using assms(1) i by (auto simp: disk_fd_def io_ok_def opened_disk_def fd_pos_def)
    moreover have "fd_table ?s ! i = opened_disk (disk pl) c u p (fd_table s ! i)"
      using len by (simp add: set_fd_def)
    ultimately show ?thesis
      using Open_disk [OF assms(1,2) True] i low Some True by (simp add: opened_disk_def [of _ c u p "fd_table s ! i"])
  next
    case False
    then show ?thesis
      using Open_negative [OF assms(1,2) _ assms(3)] i low Some by simp
  qed
qed

lemma Open_finds_partition_witness:
  "\<exists>s'. Open sample_platform (Some (cstr (disk_path 0 1 8 ''sash''))) True sample_io = Some (0, Some 3, s') \<and>
    fd_pos 3 s' = 0"
proof -
  have "disk_byte sample_disk (of_nat i) \<noteq> None" if "i < 512" for i
  proof -
    have "unat (of_nat i div 512 :: u32) = 0"
      using that by (simp add: unat_div unat_of_nat_32)
    then have "of_nat i div 512 = (0 :: u32)"
      by (simp add: unat_eq_0)
    then show ?thesis
      by (simp add: disk_byte_def bd_read_sector_def sample_disk_def BD_STATUS_READY_def BD_STATUS_ERROR_def)
  qed
  then have "readable (disk sample_platform) 0 512"
    by (simp add: readable_def sample_platform_def)
  moreover have "free_fd [2..<MAX_FDS] sample_io = Some 3"
    by (simp add: sample_io_def sample_fd_def MAX_FDS_def upt_rec)
  ultimately show ?thesis
    using Open_finds_partition [OF sample_disk_fd(3), of sample_platform 8 0 1 "''sash''"] by auto
qed

end
