(* ===== verification/Efs.thy ===== *)
theory Efs
imports Bootio
begin

text \<open>The extent file system: \<open>src/libsc/fs/efs.c\<close>, with the layout of \<open>sys/fs/efs_ino.h\<close>,
\<open>efs_dir.h\<close>, \<open>efs_sb.h\<close> and \<open>efs_fs.h\<close>.

The file system reads through the strategy of the boot disk, so its control block is the
one of \<open>Bootio\<close>, and the superblock, the inode and all buffers are in the memory of
\<open>Bootio\<close>.  The storage allocator is a parameter: its four routines work on a heap of
their own and give addresses, 0 when there is no room.  \<open>None\<close> is a routine that does not
return: the disk never gets ready, or a number is divided by zero, which traps.  The byte
swapping for little-endian processors is not compiled, and the messages are left out.\<close>

unbundle bit_operations_syntax

section \<open>Definitions\<close>

subsection \<open>Blocks and structures\<close>

definition EIO :: int where "EIO = 8"
definition EAGAIN :: int where "EAGAIN = 3"
definition EISDIR :: int where "EISDIR = 9"
definition ENOENT :: int where "ENOENT = 14"
definition ENOTDIR :: int where "ENOTDIR = 18"
definition ENXIO :: int where "ENXIO = 20"
definition EROFS :: int where "EROFS = 21"

definition F_WRITE :: u32 where "F_WRITE = 0x0002"
definition F_DIR :: u32 where "F_DIR = 0x0400"
definition DIOCSETBLKSZ :: u32 where "DIOCSETBLKSZ = 0x641D"

definition BTOBB :: "u32 \<Rightarrow> u32" where "BTOBB bytes = drop_bit 9 (bytes + 512 - 1)"
definition BTOBBT :: "u32 \<Rightarrow> u32" where "BTOBBT bytes = drop_bit 9 bytes"
definition BBTOB :: "u32 \<Rightarrow> u32" where "BBTOB bbs = push_bit 9 bbs"
definition BBMASK :: u32 where "BBMASK = 511"

text \<open>A signed 16-bit field, and storing a word.\<close>

definition lds16 :: "memory \<Rightarrow> u32 \<Rightarrow> u32" where
  "lds16 m a = scast (ucast (ld16 m a) :: u16)"

definition st32 :: "u32 \<Rightarrow> u32 \<Rightarrow> memory \<Rightarrow> memory" where
  "st32 a v m = m(a := ucast (drop_bit 24 v), a + 1 := ucast (drop_bit 16 v),
     a + 2 := ucast (drop_bit 8 v), a + 3 := ucast v)"

definition bcopy :: "u32 \<Rightarrow> u32 \<Rightarrow> u32 \<Rightarrow> memory \<Rightarrow> memory" where
  "bcopy src dst n m = (\<lambda>a. if a - dst < n then m (src + (a - dst)) else m a)"

definition smin :: "u32 \<Rightarrow> u32 \<Rightarrow> u32" where
  "smin a b = (if sint a < sint b then a else b)"

record extent =
  ex_bn :: u32
  ex_length :: u32
  ex_offset :: u32

definition extent_at :: "memory \<Rightarrow> u32 \<Rightarrow> extent" where
  "extent_at m a = \<lparr>ex_bn = ld32 m a AND 0xFFFFFF, ex_length = drop_bit 24 (ld32 m (a + 4)),
     ex_offset = ld32 m (a + 4) AND 0xFFFFFF\<rparr>"

definition EFS_DIRECTEXTENTS :: nat where "EFS_DIRECTEXTENTS = 12"
definition MAXEXTENTS :: nat where "MAXEXTENTS = 2048"
definition IFMT :: u32 where "IFMT = 0xF000"
definition IFDIR :: u32 where "IFDIR = 0x4000"

definition di_mode :: "memory \<Rightarrow> u32 \<Rightarrow> u32" where "di_mode m di = ld16 m di"
definition di_nlink :: "memory \<Rightarrow> u32 \<Rightarrow> u32" where "di_nlink m di = lds16 m (di + 2)"
definition di_size :: "memory \<Rightarrow> u32 \<Rightarrow> u32" where "di_size m di = ld32 m (di + 8)"
definition di_gen :: "u32 \<Rightarrow> u32" where "di_gen di = di + 24"
definition di_numextents :: "memory \<Rightarrow> u32 \<Rightarrow> u32" where "di_numextents m di = lds16 m (di + 28)"
definition di_extents :: "u32 \<Rightarrow> u32" where "di_extents di = di + 32"

definition is_dir :: "memory \<Rightarrow> u32 \<Rightarrow> bool" where
  "is_dir m di \<longleftrightarrow> di_mode m di AND IFMT = IFDIR"

definition fs_firstcg :: "memory \<Rightarrow> u32 \<Rightarrow> u32" where "fs_firstcg m fs = ld32 m (fs + 4)"
definition fs_cgfsize :: "memory \<Rightarrow> u32 \<Rightarrow> u32" where "fs_cgfsize m fs = ld32 m (fs + 8)"
definition fs_cgisize :: "memory \<Rightarrow> u32 \<Rightarrow> u32" where "fs_cgisize m fs = lds16 m (fs + 12)"
definition fs_magic :: "memory \<Rightarrow> u32 \<Rightarrow> u32" where "fs_magic m fs = ld32 m (fs + 28)"
definition fs_ipcg :: "memory \<Rightarrow> u32 \<Rightarrow> u32" where "fs_ipcg m fs = ld32 m (fs + 124)"

definition EFS_MAGIC :: u32 where "EFS_MAGIC = 0x072959"
definition EFS_NEWMAGIC :: u32 where "EFS_NEWMAGIC = 0x07295a"

definition IS_EFS_MAGIC :: "u32 \<Rightarrow> bool" where
  "IS_EFS_MAGIC x \<longleftrightarrow> x = EFS_MAGIC \<or> x = EFS_NEWMAGIC"

definition EFS_SETUP_SUPERB :: "u32 \<Rightarrow> memory \<Rightarrow> memory" where
  "EFS_SETUP_SUPERB fs m =
     st32 (fs + 124) (scast (ucast (push_bit 2 (fs_cgisize m fs)) :: u16)) m"

definition EFS_ITOO :: "u32 \<Rightarrow> u32" where "EFS_ITOO i = i AND 3"

definition EFS_ITOBB :: "memory \<Rightarrow> u32 \<Rightarrow> u32 \<Rightarrow> u32 option" where
  "EFS_ITOBB m fs i =
    (if fs_ipcg m fs = 0 \<or> fs_cgisize m fs = 0 then None
     else Some (fs_firstcg m fs + scast (ucast (i div fs_ipcg m fs) :: u16) * fs_cgfsize m fs
            + drop_bit 2 i mod fs_cgisize m fs))"

subsection \<open>State\<close>

text \<open>The globals of the file, the parameters, and what a routine works on: the control
block, memory and the globals.\<close>

record 'h efs_globals =
  indirectExtentsValid :: bool
  indirectExtentsIno :: u32
  indirectExtents :: u32
  heap :: 'h

record 'h efs_env =
  efs_disk :: bootdisk
  malloc_of :: "u32 \<Rightarrow> 'h \<Rightarrow> u32 \<times> 'h"
  dmabuf_malloc_of :: "u32 \<Rightarrow> 'h \<Rightarrow> u32 \<times> 'h"
  free_of :: "u32 \<Rightarrow> 'h \<Rightarrow> 'h"
  dmabuf_free_of :: "u32 \<Rightarrow> 'h \<Rightarrow> 'h"
  blksz_at :: u32
  getdirent_di :: u32

record ('f, 'h) efs_run =
  fsb :: "'f eiob"
  core :: memory
  glob :: "'h efs_globals"

definition set_io :: "('f eiob \<Rightarrow> 'f eiob) \<Rightarrow> ('f, 'h) efs_run \<Rightarrow> ('f, 'h) efs_run" where
  "set_io f s = s\<lparr>fsb := f (fsb s)\<rparr>"

definition io_error :: "int \<Rightarrow> ('f, 'h) efs_run \<Rightarrow> ('f, 'h) efs_run" where
  "io_error e s = set_io (\<lambda>io. io\<lparr>io_ErrorNumber := e\<rparr>) s"

definition fsb_to_fs :: "('f, 'h) efs_run \<Rightarrow> u32" where
  "fsb_to_fs s = ld32 (core s) (fsb_FsPtr (fsb s))"

definition fsb_to_inode :: "('f, 'h) efs_run \<Rightarrow> u32" where
  "fsb_to_inode s = ld32 (core s) (fsb_FsPtr (fsb s) + 4)"

definition malloc_h :: "'h efs_env \<Rightarrow> u32 \<Rightarrow> ('f, 'h) efs_run \<Rightarrow> u32 \<times> ('f, 'h) efs_run" where
  "malloc_h ev n s = (case malloc_of ev n (heap (glob s)) of (p, h) \<Rightarrow> (p, s\<lparr>glob := (glob s)\<lparr>heap := h\<rparr>\<rparr>))"

definition dmabuf_malloc_h :: "'h efs_env \<Rightarrow> u32 \<Rightarrow> ('f, 'h) efs_run \<Rightarrow> u32 \<times> ('f, 'h) efs_run" where
  "dmabuf_malloc_h ev n s =
    (case dmabuf_malloc_of ev n (heap (glob s)) of (p, h) \<Rightarrow> (p, s\<lparr>glob := (glob s)\<lparr>heap := h\<rparr>\<rparr>))"

definition free_h :: "'h efs_env \<Rightarrow> u32 \<Rightarrow> ('f, 'h) efs_run \<Rightarrow> ('f, 'h) efs_run" where
  "free_h ev p s = s\<lparr>glob := (glob s)\<lparr>heap := free_of ev p (heap (glob s))\<rparr>\<rparr>"

definition dmabuf_free_h :: "'h efs_env \<Rightarrow> u32 \<Rightarrow> ('f, 'h) efs_run \<Rightarrow> ('f, 'h) efs_run" where
  "dmabuf_free_h ev p s = s\<lparr>glob := (glob s)\<lparr>heap := dmabuf_free_of ev p (heap (glob s))\<rparr>\<rparr>"

subsection \<open>Reading the device\<close>

definition DEVREAD :: "'h efs_env \<Rightarrow> ('f, 'h) efs_run \<Rightarrow> (u32 \<times> ('f, 'h) efs_run) option" where
  "DEVREAD ev s = do {
     (r, m) \<leftarrow> pv_disk_strategy (efs_disk ev) (dev_Key (fsb s)) (io_StartBlock (fsb s)) (io_Count (fsb s))
       (io_Address (fsb s)) True (core s);
     Some (if r = 0 then io_Count (fsb s) else -1, s\<lparr>core := m\<rparr>) }"

text \<open>The strategy of the boot disk knows no other function: setting the block size only
leaves its arguments behind.\<close>

definition set_blksz :: "'h efs_env \<Rightarrow> ('f, 'h) efs_run \<Rightarrow> ('f, 'h) efs_run option" where
  "set_blksz ev s = do {
     let s = set_io (\<lambda>io. io\<lparr>io_Address := DIOCSETBLKSZ, io_Count := blksz_at ev\<rparr>) s;
     (_, m) \<leftarrow> pv_disk_strategy (efs_disk ev) (dev_Key (fsb s)) (io_StartBlock (fsb s)) (io_Count (fsb s))
       (io_Address (fsb s)) False (core s);
     Some (s\<lparr>core := m\<rparr>) }"

definition lbread ::
  "'h efs_env \<Rightarrow> u32 \<Rightarrow> u32 \<Rightarrow> u32 \<Rightarrow> ('f, 'h) efs_run \<Rightarrow> (bool \<times> ('f, 'h) efs_run) option" where
  "lbread ev bn buf len s = do {
     let len = BBTOB (BTOBB len);
     (r, s) \<leftarrow> DEVREAD ev (set_io (\<lambda>io. io\<lparr>io_Address := buf, io_Count := len, io_StartBlock := bn\<rparr>) s);
     Some (r = len, s) }"

definition iread ::
  "'h efs_env \<Rightarrow> u32 \<Rightarrow> u32 \<Rightarrow> ('f, 'h) efs_run \<Rightarrow> (bool \<times> ('f, 'h) efs_run) option" where
  "iread ev di inum s =
    (let fs = fsb_to_fs s in
     case dmabuf_malloc_h ev (128 * 4) s of (inobuf, s) \<Rightarrow>
       if inobuf = 0 then Some (False, s)
       else do {
         bn \<leftarrow> EFS_ITOBB (core s) fs inum;
         (ok, s) \<leftarrow> lbread ev bn inobuf 512 s;
         if \<not> ok then Some (False, dmabuf_free_h ev inobuf s)
         else (let m = bcopy (inobuf + 128 * EFS_ITOO inum) di 128 (core s) in
           Some (True, dmabuf_free_h ev inobuf (s\<lparr>core := st32 (di_gen di) inum m\<rparr>))) })"

subsection \<open>From an offset to an extent\<close>

fun find_extent :: "memory \<Rightarrow> u32 \<Rightarrow> nat \<Rightarrow> u32 \<Rightarrow> u32 \<Rightarrow> extent option" where
  "find_extent m ex 0 off maxblks = None"
| "find_extent m ex (Suc n) off maxblks =
    (let e = extent_at m ex in
     if ex_offset e \<le> off \<and> ex_offset e + ex_length e > off then
       (let exoff = off - ex_offset e in
        Some \<lparr>ex_bn = (ex_bn e + exoff) AND 0xFFFFFF,
              ex_length = smin maxblks (ex_length e - exoff) AND 0xFF,
              ex_offset = (ex_offset e + exoff) AND 0xFFFFFF\<rparr>)
     else find_extent m (ex + 8) n off maxblks)"

text \<open>\<open>load_indirect\<close> brings the extents of an inode with more than 12 into the one cache
there is; it gives the table to search, or \<open>None\<close> for the failures \<open>bmap\<close> reports.\<close>

definition load_indirect :: "'h efs_env \<Rightarrow> u32 \<Rightarrow> ('f, 'h) efs_run \<Rightarrow> (u32 option \<times> ('f, 'h) efs_run) option" where
  "load_indirect ev di s =
    (let g = glob s; iex = extent_at (core s) (di_extents di); ino = ld32 (core s) (di_gen di) in
     if \<not> indirectExtentsValid g \<or> indirectExtentsIno g \<noteq> ino then
       if ex_offset iex > 1 then Some (None, s)
       else if ex_length iex > BTOBB (of_nat MAXEXTENTS * 8) then Some (None, s)
       else if sint (di_numextents (core s) di) > int MAXEXTENTS then Some (None, s)
       else do {
         let count = smin (8 * of_nat MAXEXTENTS) (BBTOB (ex_length iex));
         (r, s) \<leftarrow> DEVREAD ev (set_io (\<lambda>io. io\<lparr>io_StartBlock := ex_bn iex, io_Address := indirectExtents g,
            io_Count := count\<rparr>) s);
         if r \<noteq> count then Some (None, s)
         else (let ino = ld32 (core s) (di_gen di) in
           Some (Some (indirectExtents g),
             s\<lparr>glob := (glob s)\<lparr>indirectExtentsValid := True, indirectExtentsIno := ino\<rparr>\<rparr>)) }
     else Some (Some (indirectExtents g), s))"

definition bmap :: "'h efs_env \<Rightarrow> u32 \<Rightarrow> ('f, 'h) efs_run \<Rightarrow> (extent option \<times> ('f, 'h) efs_run) option" where
  "bmap ev maxblks s = do {
     let di = fsb_to_inode s;
     let indirect = (sint (di_numextents (core s) di) > int EFS_DIRECTEXTENTS);
     (ex, s) \<leftarrow> (if indirect then load_indirect ev di s else Some (Some (di_extents di), s));
     (case ex of
        None \<Rightarrow> Some (None, s)
      | Some ex \<Rightarrow>
          Some (find_extent (core s) ex (if indirect then MAXEXTENTS else EFS_DIRECTEXTENTS)
                  (BTOBBT (io_Offset_lo (fsb s))) maxblks, s)) }"



lemma and_mask_unat:
  "unat ((x :: u32) AND 0xFFFFFF) = unat x mod 2 ^ 24" "unat (x AND 0xFF) = unat x mod 2 ^ 8"
  "unat (x AND 511) = unat x mod 512" "unat (x AND 3) = unat x mod 4"
proof -
  have "unat (x AND mask n) = unat x mod 2 ^ n" for n
    using unsigned_take_bit_eq [of n x, where ?'a = nat]
    by (simp only: take_bit_eq_mask [of n x, symmetric] take_bit_eq_mod [of n "unat x"])
  from this [of 24] this [of 8] this [of 9] this [of 2]
  show "unat (x AND 0xFFFFFF) = unat x mod 2 ^ 24" "unat (x AND 0xFF) = unat x mod 2 ^ 8"
    "unat (x AND 511) = unat x mod 512" "unat (x AND 3) = unat x mod 4"
    by (simp_all add: mask_eq_exp_minus_1)
qed

lemma unat_drop_bit_32: "unat (drop_bit n (x :: u32)) = unat x div 2 ^ n"
  using unat_drop_bit_eq [of n x] by (simp only: drop_bit_eq_div)

lemma unat_BBTOB: "unat bbs < 2 ^ 23 \<Longrightarrow> unat (BBTOB bbs) = 512 * unat bbs"
  by (simp add: BBTOB_def push_bit_eq_mult unat_word_ariths)

lemma unat_BTOBBT: "unat (BTOBBT b) = unat b div 512"
  by (simp add: BTOBBT_def unat_drop_bit_32)

lemma sint_small: "unat (x :: u32) < 2 ^ 31 \<Longrightarrow> sint x = int (unat x)"
  using sint_of_nat_32 [of "unat x"] by simp

lemma sint_large: "2 ^ 31 \<le> unat (x :: u32) \<Longrightarrow> sint x < 0"
  using sint_negative [of "unat x"] unat_lt_32 [of x] by simp

lemma sint_pos_iff: "0 < sint (x :: u32) \<longleftrightarrow> 0 < unat x \<and> unat x < 2 ^ 31"
  using sint_small [of x] sint_large [of x] by linarith

lemma unat_smin:
  assumes "unat a < 2 ^ 31" "unat b < 2 ^ 31"
  shows "unat (smin a b) = min (unat a) (unat b)"
  by (simp only: smin_def sint_small [OF assms(1)] sint_small [OF assms(2)] min_def of_nat_less_iff) simp

lemma extent_at_bounds:
  "unat (ex_bn (extent_at m a)) < 2 ^ 24" "unat (ex_offset (extent_at m a)) < 2 ^ 24"
  "unat (ex_length (extent_at m a)) < 256"
  using unat_lt_32 [of "ld32 m (a + 4)"] by (simp_all add: extent_at_def and_mask_unat unat_drop_bit_32)

text \<open>Whether an extent holds a block, and the piece of it from there on.\<close>

definition holds :: "extent \<Rightarrow> nat \<Rightarrow> bool" where
  "holds e b \<longleftrightarrow> unat (ex_offset e) \<le> b \<and> b < unat (ex_offset e) + unat (ex_length e)"

lemma find_extent_Suc:
  fixes m ex off maxblks
  defines "e \<equiv> extent_at m ex"
  assumes "unat off < 2 ^ 23" "0 < sint maxblks"
  shows "find_extent m ex (Suc n) off maxblks =
    (if holds e (unat off)
     then Some \<lparr>ex_bn = (ex_bn e + (off - ex_offset e)) AND 0xFFFFFF,
        ex_length = of_nat (min (unat maxblks) (unat (ex_offset e) + unat (ex_length e) - unat off)),
        ex_offset = off\<rparr>
     else find_extent m (ex + 8) n off maxblks)"
proof -
  note b = extent_at_bounds [of m ex, folded e_def]
  have s: "unat (ex_offset e + ex_length e) = unat (ex_offset e) + unat (ex_length e)"
    using b by (simp add: unat_word_ariths)
  have c: "ex_offset e \<le> off \<and> ex_offset e + ex_length e > off \<longleftrightarrow> holds e (unat off)"
    by (simp add: holds_def word_le_nat_alt word_less_nat_alt s)
  show ?thesis
  proof (cases "holds e (unat off)")
    case True
    then have o: "unat (off - ex_offset e) = unat off - unat (ex_offset e)"
      by (simp add: holds_def unat_sub word_le_nat_alt)
    have l: "unat (ex_length e - (off - ex_offset e)) = unat (ex_offset e) + unat (ex_length e) - unat off"
      using True by (subst unat_sub) (auto simp: holds_def o word_le_nat_alt)
    let ?w = "smin maxblks (ex_length e - (off - ex_offset e))"
    have "unat ?w = min (unat maxblks) (unat (ex_offset e) + unat (ex_length e) - unat off)"
      using assms(3) True b(3) by (subst unat_smin) (auto simp: sint_pos_iff l holds_def)
    moreover from this have "unat (?w AND 0xFF) = unat ?w"
      using b(3) True unfolding and_mask_unat holds_def by (subst mod_less) auto
    ultimately have "of_nat (unat (?w AND 0xFF)) =
        (of_nat (min (unat maxblks) (unat (ex_offset e) + unat (ex_length e) - unat off)) :: u32)"
      by simp
    then have w: "?w AND 0xFF = of_nat (min (unat maxblks) (unat (ex_offset e) + unat (ex_length e) - unat off))"
      by simp
    have "unat (off AND 0xFFFFFF) = unat off"
      using assms(2) by (simp add: and_mask_unat)
    then have "off AND 0xFFFFFF = off"
      by (simp only: word_unat_eq_iff)
    then show ?thesis
      using True c w by (simp add: e_def [symmetric] Let_def)
  next
    case False
    then show ?thesis
      using c by (auto simp: e_def [symmetric] Let_def)
  qed
qed

lemma find_extent_bounds:
  "find_extent m ex n off maxblks = Some e \<Longrightarrow> unat off < 2 ^ 23 \<Longrightarrow> 0 < sint maxblks \<Longrightarrow>
    0 < unat (ex_length e) \<and> unat (ex_length e) < 256 \<and> unat (ex_length e) \<le> unat maxblks"
proof (induction n arbitrary: ex)
  case (Suc n)
  have "unat (ex_length (extent_at m ex)) < 256"
    by (rule extent_at_bounds)
  then show ?case
    using Suc by (auto simp: find_extent_Suc holds_def unat_of_nat_32 sint_pos_iff simp del: find_extent.simps split: if_splits)
qed simp



subsection \<open>Reading a file\<close>

text \<open>One turn of the loop of \<open>_efs_read\<close>, in three parts.  \<open>efs_fetch\<close> reads the device,
unless the block is taken to be in the buffer; \<open>efs_deliver\<close> copies out of the buffer, or
notes that it was not used.  The number is the bytes transferred, \<open>None\<close> after an error.\<close>

definition efs_fetch ::
  "'h efs_env \<Rightarrow> u32 \<Rightarrow> u32 \<Rightarrow> extent \<Rightarrow> ('f, 'h) efs_run \<Rightarrow> (u32 option \<times> ('f, 'h) efs_run) option"
where
  "efs_fetch ev i dmaaddr result s =
    (if io_StartBlock (fsb s) \<noteq> ex_bn result \<or> i \<noteq> 512 then do {
       let n = BBTOB (ex_length result);
       (r, s) \<leftarrow> DEVREAD ev (set_io (\<lambda>io. io\<lparr>io_StartBlock := ex_bn result, io_Address := dmaaddr,
          io_Count := n\<rparr>) s);
       Some (if r \<noteq> n then (None, io_error EIO s) else (Some n, s)) }
     else Some (Some i, s))"

definition efs_deliver ::
  "u32 \<Rightarrow> u32 \<Rightarrow> u32 \<Rightarrow> extent \<Rightarrow> u32 \<Rightarrow> ('f, 'h) efs_run \<Rightarrow> u32 option \<times> ('f, 'h) efs_run"
where
  "efs_deliver count buf dmaaddr result i s =
    (if dmaaddr \<noteq> buf then
       (let off = io_Offset_lo (fsb s) - BBTOB (ex_offset result) in
        if sint off < 0 then (None, io_error EIO s)
        else let i = smin (BBTOB (ex_length result) - off) count in
          if sint i \<le> 0 then (None, io_error EIO s)
          else (Some i, s\<lparr>core := bcopy (fsb_Buffer (fsb s) + off) buf i (core s)\<rparr>))
     else (Some i, set_io (\<lambda>io. io\<lparr>io_StartBlock := -1\<rparr>) s))"

text \<open>Whether whole blocks can go straight to the caller.\<close>

definition efs_direct :: "u32 \<Rightarrow> u32 \<Rightarrow> ('f, 'h) efs_run \<Rightarrow> bool" where
  "efs_direct count buf s \<longleftrightarrow> io_Offset_lo (fsb s) AND BBMASK = 0 \<and> buf AND 3 = 0 \<and> BTOBBT count \<noteq> 0"

definition efs_read_step ::
  "'h efs_env \<Rightarrow> u32 \<Rightarrow> u32 \<Rightarrow> ('f, 'h) efs_run \<Rightarrow> (u32 option \<times> ('f, 'h) efs_run) option"
where
  "efs_read_step ev count buf s = do {
     let direct = efs_direct count buf s;
     let i = (if direct then BTOBBT count else 1);
     let dmaaddr = (if direct then buf else fsb_Buffer (fsb s));
     (result, s) \<leftarrow> bmap ev i s;
     (case result of
        None \<Rightarrow> Some (None, io_error EIO s)
      | Some result \<Rightarrow> do {
          (i, s) \<leftarrow> efs_fetch ev i dmaaddr result s;
          (case i of
             None \<Rightarrow> Some (None, s)
           | Some i \<Rightarrow>
               (case efs_deliver count buf dmaaddr result i s of
                  (None, s) \<Rightarrow> Some (None, s)
                | (Some i, s) \<Rightarrow>
                    Some (Some i, set_io (\<lambda>io. io\<lparr>io_Offset_lo := io_Offset_lo io + i\<rparr>) s))) }) }"

lemma bmap_bounds:
  "bmap ev n s = Some (Some e, s') \<Longrightarrow> 0 < sint n \<Longrightarrow>
    0 < unat (ex_length e) \<and> unat (ex_length e) < 256 \<and> unat (ex_length e) \<le> unat n"
proof -
  assume b: "bmap ev n s = Some (Some e, s')" and n: "0 < sint n"
  then obtain m ex k off where "find_extent m ex k (BTOBBT off) n = Some e"
    unfolding bmap_def Let_def by (auto split: bind_splits option.splits prod.splits simp: Option.bind_eq_Some_conv)
  moreover have "unat (BTOBBT off) < 2 ^ 23"
    using unat_lt_32 [of off] by (simp add: unat_BTOBBT)
  ultimately show ?thesis
    using n by (rule find_extent_bounds)
qed

lemma efs_fetch_bounds:
  "efs_fetch ev i dmaaddr e s = Some (Some k, s') \<Longrightarrow> 0 < unat (ex_length e) \<Longrightarrow> unat (ex_length e) < 256 \<Longrightarrow>
    0 < unat k \<and> unat k < 2 ^ 17"
  by (auto simp: efs_fetch_def Let_def Option.bind_eq_Some_conv unat_BBTOB split: if_splits)

lemma efs_read_step_Some:
  assumes "efs_read_step ev count buf s = Some (Some i, s')"
  obtains d e s1 k s2 s3 where "d = efs_direct count buf s"
    "bmap ev (if d then BTOBBT count else 1) s = Some (Some e, s1)"
    "efs_fetch ev (if d then BTOBBT count else 1) (if d then buf else fsb_Buffer (fsb s)) e s1 = Some (Some k, s2)"
    "efs_deliver count buf (if d then buf else fsb_Buffer (fsb s)) e k s2 = (Some i, s3)"
    "s' = set_io (\<lambda>io. io\<lparr>io_Offset_lo := io_Offset_lo io + i\<rparr>) s3"
proof -
  define d where "d = efs_direct count buf s"
  define n where "n = (if d then BTOBBT count else 1)"
  define a where "a = (if d then buf else fsb_Buffer (fsb s))"
  note r = assms [unfolded efs_read_step_def Let_def, folded d_def, folded n_def a_def]
  obtain e s1 k s2 where b: "bmap ev n s = Some (Some e, s1)" and f: "efs_fetch ev n a e s1 = Some (Some k, s2)"
    and r: "(case efs_deliver count buf a e k s2 of (None, s) \<Rightarrow> Some (None, s)
        | (Some i, s) \<Rightarrow> Some (Some i, set_io (\<lambda>io. io\<lparr>io_Offset_lo := io_Offset_lo io + i\<rparr>) s)) = Some (Some i, s')"
    using r by (auto simp: Option.bind_eq_Some_conv split: option.split_asm)
  obtain s3 where "efs_deliver count buf a e k s2 = (Some i, s3)"
    "s' = set_io (\<lambda>io. io\<lparr>io_Offset_lo := io_Offset_lo io + i\<rparr>) s3"
    using r by (auto split: option.split_asm prod.split_asm)
  then show thesis
    using that [OF d_def] b f by (simp only: n_def a_def)
qed

lemma smin_pos:
  assumes "0 < sint b" "0 < sint (smin a b)"
  shows "0 < unat (smin a b) \<and> unat (smin a b) \<le> unat b"
proof (cases "unat a < 2 ^ 31")
  case True
  then show ?thesis
    using assms unat_smin [of a b] by (simp add: sint_pos_iff)
next
  case False
  then have "sint a < 0"
    by (intro sint_large) simp
  then show ?thesis
    using assms by (simp add: smin_def)
qed

lemma efs_read_step_transfers:
  assumes "efs_read_step ev count buf s = Some (Some i, s')" "0 < sint count"
  shows "0 < unat i \<and> (unat i < 2 ^ 17 \<or> unat i \<le> unat count)"
  using assms(1)
proof (rule efs_read_step_Some)
  fix d e s1 k s2 s3
  let ?i = "if d then BTOBBT count else 1"
  let ?a = "if d then buf else fsb_Buffer (fsb s)"
  assume d: "d = efs_direct count buf s" and b: "bmap ev ?i s = Some (Some e, s1)"
    and f: "efs_fetch ev ?i ?a e s1 = Some (Some k, s2)" and e: "efs_deliver count buf ?a e k s2 = (Some i, s3)"
  have "0 < unat ?i" "unat ?i < 2 ^ 31"
    using assms(2) d by (auto simp: unat_BTOBBT sint_pos_iff unat_gt_0 efs_direct_def)
  then have p: "0 < sint ?i"
    by (simp only: sint_pos_iff)
  have k: "0 < unat k \<and> unat k < 2 ^ 17"
    using efs_fetch_bounds [OF f] bmap_bounds [OF b p] by simp
  have "sint (smin x count) > 0 \<Longrightarrow> 0 < unat (smin x count) \<and> unat (smin x count) \<le> unat count" for x
    using smin_pos assms(2) by blast
  then show ?thesis
    using e k by (auto simp: efs_deliver_def Let_def split: if_splits)
qed

lemma efs_read_step_decreases:
  assumes "efs_read_step ev count buf s = Some (Some i, s')" "0 < sint count"
  shows "sint (count - i) < sint count"
proof (cases "unat i \<le> unat count")
  case True
  then have "unat (count - i) = unat count - unat i"
    by (simp add: unat_sub word_le_nat_alt)
  moreover have "0 < unat i" "unat count < 2 ^ 31"
    using efs_read_step_transfers [OF assms] assms(2) by (simp_all add: sint_pos_iff)
  moreover from calculation have "sint (count - i) = int (unat (count - i))" "sint count = int (unat count)"
    by (intro sint_small; simp)+
  ultimately show ?thesis
    using True by linarith
next
  case False
  have i: "unat i < 2 ^ 17"
    using efs_read_step_transfers [OF assms] False by simp
  have "unat (count - i) = 2 ^ 32 + unat count - unat i"
    using False by (simp add: unat_sub_if')
  then have "sint (count - i) < 0"
    using i by (intro sint_large) simp
  then show ?thesis
    using assms(2) by simp
qed

function efs_read_loop ::
  "'h efs_env \<Rightarrow> u32 \<Rightarrow> u32 \<Rightarrow> ('f, 'h) efs_run \<Rightarrow> (bool \<times> ('f, 'h) efs_run) option"
where
  "efs_read_loop ev count buf s =
    (if 0 < sint count then do {
       (i, s) \<leftarrow> efs_read_step ev count buf s;
       (case i of
          None \<Rightarrow> Some (False, s)
        | Some i \<Rightarrow> efs_read_loop ev (count - i) (buf + i) s) }
     else Some (True, s))"
  by pat_completeness auto
termination
  by (relation "measure (\<lambda>(_, count, _, _). nat (sint count))") (auto intro: efs_read_step_decreases)

declare efs_read_loop.simps [simp del]

definition efs_read :: "'h efs_env \<Rightarrow> ('f, 'h) efs_run \<Rightarrow> (int \<times> ('f, 'h) efs_run) option" where
  "efs_read ev s =
    (let lo = io_Offset_lo (fsb s); size = di_size (core s) (fsb_to_inode s); count = io_Count (fsb s);
         count = (if lo + count > size then size - lo else count)
     in if sint count \<le> 0 then Some (0, set_io (\<lambda>io. io\<lparr>io_Count := 0\<rparr>) s)
        else do {
          (ok, s) \<leftarrow> efs_read_loop ev count (io_Address (fsb s)) s;
          Some (if ok then (0, set_io (\<lambda>io. io\<lparr>io_Count := count\<rparr>) s) else (EIO, s)) })"

definition efs_grs :: "('f, 'h) efs_run \<Rightarrow> int \<times> ('f, 'h) efs_run" where
  "efs_grs s =
    (let lo = io_Offset_lo (fsb s); size = di_size (core s) (fsb_to_inode s) in
     if lo \<ge> size then (EAGAIN, io_error EAGAIN s)
     else (0, set_io (\<lambda>io. io\<lparr>io_Count := size - lo\<rparr>) s))"



subsection \<open>Looking a file up\<close>

fun skip_leading :: "string \<Rightarrow> string option" where
  "skip_leading [] = None"
| "skip_leading (c # sp) =
    (if c = CHR '' '' \<or> c = CHR 0x09 \<or> c = CHR ''/'' then skip_leading sp else Some (c # sp))"

text \<open>At most \<open>n\<close> characters of the next part of the path.\<close>

fun path_part :: "nat \<Rightarrow> string \<Rightarrow> (string \<times> string) option" where
  "path_part 0 sp = Some ([], sp)"
| "path_part (Suc n) [] = None"
| "path_part (Suc n) (c # sp) =
    (if c \<noteq> NUL \<and> c \<noteq> CHR ''/'' then do { (ent, sp) \<leftarrow> path_part n sp; Some (c # ent, sp) }
     else Some ([], c # sp))"

fun skip_part :: "string \<Rightarrow> string option" where
  "skip_part [] = None"
| "skip_part (c # sp) = (if c \<noteq> NUL \<and> c \<noteq> CHR ''/'' then skip_part sp else Some (c # sp))"

fun skip_slashes :: "string \<Rightarrow> string option" where
  "skip_slashes [] = None"
| "skip_slashes (c # sp) = (if c = CHR ''/'' then skip_slashes sp else Some (c # sp))"

definition EFS_MAXNAMELEN :: nat where "EFS_MAXNAMELEN = 255"

definition next_part :: "string \<Rightarrow> (string \<times> string) option" where
  "next_part sp = do {
     (ent, sp) \<leftarrow> path_part EFS_MAXNAMELEN sp;
     sp \<leftarrow> (if length ent \<ge> EFS_MAXNAMELEN then skip_part sp else Some sp);
     sp \<leftarrow> skip_slashes sp;
     Some (ent, sp) }"

definition EFS_SLOTAT :: "memory \<Rightarrow> u32 \<Rightarrow> u32 \<Rightarrow> u32" where
  "EFS_SLOTAT m db slot = push_bit 1 (ucast (m (db + 4 + slot)))"

definition dir_magic :: "memory \<Rightarrow> u32 \<Rightarrow> u32" where "dir_magic m db = ld16 m db"
definition dir_firstused :: "memory \<Rightarrow> u32 \<Rightarrow> u32" where "dir_firstused m db = ucast (m (db + 2))"
definition dir_slots :: "memory \<Rightarrow> u32 \<Rightarrow> u32" where "dir_slots m db = ucast (m (db + 3))"

definition d_namelen :: "memory \<Rightarrow> u32 \<Rightarrow> nat" where "d_namelen m dep = unat (m (dep + 4))"
definition d_name :: "u32 \<Rightarrow> u32" where "d_name dep = dep + 5"

definition EFS_GET_INUM :: "memory \<Rightarrow> u32 \<Rightarrow> u32" where
  "EFS_GET_INUM m dep = push_bit 16 (ld16 m dep) + ld16 m (dep + 2)"

definition EFS_DIRBSIZE :: u32 where "EFS_DIRBSIZE = 512"

definition slot_match :: "memory \<Rightarrow> u32 \<Rightarrow> string \<Rightarrow> nat \<Rightarrow> u32 option option" where
  "slot_match m db ent i =
    (let slot = EFS_SLOTAT m db (of_nat i); dep = db + slot; n = d_namelen m dep in
     if slot = 0 then Some None
     else if length ent = n then do {
       c \<leftarrow> strncmp (cstr ent) (mem_str m (d_name dep) n) (of_nat n);
       Some (if c = 0 then Some dep else None) }
     else Some None)"

fun search_slots :: "memory \<Rightarrow> u32 \<Rightarrow> string \<Rightarrow> nat list \<Rightarrow> u32 option option" where
  "search_slots m db ent [] = Some None"
| "search_slots m db ent (i # is) = do {
     r \<leftarrow> slot_match m db ent i;
     (case r of Some dep \<Rightarrow> Some (Some dep) | None \<Rightarrow> search_slots m db ent is) }"

text \<open>\<open>n\<close> blocks of a directory from \<open>db\<close> on; the number is the offset after them.\<close>

fun search_dirblks :: "memory \<Rightarrow> string \<Rightarrow> nat \<Rightarrow> u32 \<Rightarrow> u32 \<Rightarrow> (u32 option \<times> u32) option" where
  "search_dirblks m ent 0 db off = Some (None, off)"
| "search_dirblks m ent (Suc n) db off = do {
     found \<leftarrow> search_slots m db ent [0..<unat (dir_slots m db)];
     (case found of
        Some dep \<Rightarrow> Some (Some dep, off + EFS_DIRBSIZE)
      | None \<Rightarrow> search_dirblks m ent n (db + EFS_DIRBSIZE) (off + EFS_DIRBSIZE)) }"

text \<open>The search of a directory, from \<open>off\<close> on.  The result is \<open>None\<close> after an error or when
the name is not there.  A directory whose size is within 512 bytes of the largest \<open>int\<close> lets
\<open>off\<close> overflow and the search need not end.\<close>

partial_function (option) search_dir ::
  "'h efs_env \<Rightarrow> u32 \<Rightarrow> string \<Rightarrow> u32 \<Rightarrow> ('f, 'h) efs_run \<Rightarrow> (u32 option \<times> ('f, 'h) efs_run) option"
where
  "search_dir ev dip ent off s =
    (if sint off < sint (di_size (core s) dip) then do {
       (result, s) \<leftarrow> bmap ev (BTOBB 512) (set_io (\<lambda>io. io\<lparr>io_Offset_hi := 0, io_Offset_lo := off\<rparr>) s);
       (case result of
          None \<Rightarrow> Some (None, s)
        | Some result \<Rightarrow> do {
            (ok, s) \<leftarrow> lbread ev (ex_bn result) (fsb_Buffer (fsb s)) (BBTOB (ex_length result)) s;
            if \<not> ok then Some (None, s)
            else do {
              (found, off) \<leftarrow> search_dirblks (core s) ent (unat (ex_length result)) (fsb_Buffer (fsb s)) off;
              (case found of
                 Some dep \<Rightarrow> Some (Some dep, s)
               | None \<Rightarrow> search_dir ev dip ent off s) } }) }
     else Some (None, s))"

lemma path_part_shorter:
  "path_part n sp = Some (ent, r) \<Longrightarrow> length r + length ent = length sp \<and>
    (\<forall>c s. sp = c # s \<longrightarrow> 0 < n \<longrightarrow> c \<noteq> NUL \<longrightarrow> c \<noteq> CHR ''/'' \<longrightarrow> ent \<noteq> [])"
  by (induction n sp arbitrary: ent r rule: path_part.induct) (auto split: if_splits bind_splits)

lemma skip_part_shorter: "skip_part sp = Some r \<Longrightarrow> length r \<le> length sp"
  by (induction sp) (auto split: if_splits intro: le_SucI)

lemma skip_slashes_shorter:
  "skip_slashes sp = Some r \<Longrightarrow> length r \<le> length sp \<and> (\<forall>s. sp = CHR ''/'' # s \<longrightarrow> length r < length sp)"
  by (induction sp) (auto split: if_splits)

lemma next_part_shorter:
  assumes "next_part sp = Some (ent, r)" "rd sp 0 = Some c" "c \<noteq> NUL"
  shows "length r < length sp"
proof -
  obtain sp1 sp2 where p: "path_part EFS_MAXNAMELEN sp = Some (ent, sp1)" "skip_slashes sp2 = Some r"
    and k: "(if length ent \<ge> EFS_MAXNAMELEN then skip_part sp1 else Some sp1) = Some sp2"
    using assms(1) by (auto simp: next_part_def Option.bind_eq_Some_conv)
  obtain s where s: "sp = c # s"
    using assms(2) by (cases sp) (auto simp: rd_def)
  have l: "length sp2 \<le> length sp1"
    using k skip_part_shorter [of sp1 sp2] by (auto split: if_splits)
  show ?thesis
  proof (cases "c = CHR ''/''")
    case False
    then show ?thesis
      using path_part_shorter [OF p(1)] skip_slashes_shorter [OF p(2)] l s assms(3)
      by (cases ent) (auto simp: EFS_MAXNAMELEN_def)
  next
    case True
    then have "ent = []" "sp1 = sp"
      using p(1) s by (simp_all add: EFS_MAXNAMELEN_def path_part.simps(3) [of "254", simplified])
    then show ?thesis
      using k skip_slashes_shorter [OF p(2)] s True by (auto simp: EFS_MAXNAMELEN_def)
  qed
qed

text \<open>The inode of the directory walked is at \<open>dip\<close>.\<close>

function walk ::
  "'h efs_env \<Rightarrow> u32 \<Rightarrow> string \<Rightarrow> ('f, 'h) efs_run \<Rightarrow> (bool \<times> ('f, 'h) efs_run) option"
where
  "walk ev dip sp s =
    (case rd sp 0 of
       None \<Rightarrow> None
     | Some c \<Rightarrow>
         if c = NUL then Some (True, s)
         else if \<not> is_dir (core s) dip then Some (False, s)
         else if di_nlink (core s) dip = 0 then Some (False, s)
         else if di_mode (core s) dip AND 0x49 = 0 then Some (False, s)
         else (case next_part sp of
             None \<Rightarrow> None
           | Some (ent, sp) \<Rightarrow> do {
               (found, s) \<leftarrow> search_dir ev dip ent 0 s;
               (case found of
                  None \<Rightarrow> Some (False, s)
                | Some dep \<Rightarrow> do {
                    (ok, s) \<leftarrow> iread ev dip (EFS_GET_INUM (core s) dep) s;
                    if \<not> ok then Some (False, s) else walk ev dip sp s }) }))"
  by pat_completeness auto
termination
  by (relation "measure (\<lambda>(_, _, sp, _). length sp)") (auto intro: next_part_shorter)

declare walk.simps [simp del]

definition EFS_ROOTINO :: u32 where "EFS_ROOTINO = 2"

definition namei :: "'h efs_env \<Rightarrow> string \<Rightarrow> ('f, 'h) efs_run \<Rightarrow> (bool \<times> ('f, 'h) efs_run) option" where
  "namei ev fname s = do {
     let s = set_io (\<lambda>io. io\<lparr>io_Offset_hi := 0, io_Offset_lo := 0\<rparr>) s;
     let dip = fsb_to_inode s;
     (ok, s) \<leftarrow> iread ev dip EFS_ROOTINO s;
     if \<not> ok then Some (False, s)
     else do {
       sp \<leftarrow> skip_leading fname;
       walk ev dip sp s } }"

subsection \<open>Checking, opening and closing\<close>

definition EFS_SUPERBB :: u32 where "EFS_SUPERBB = 1"

text \<open>Reading the superblock to \<open>efs\<close>: 0 when it fails, 1, or the old block size.\<close>

definition getefs_sb :: "'h efs_env \<Rightarrow> u32 \<Rightarrow> ('f, 'h) efs_run \<Rightarrow> (nat \<times> ('f, 'h) efs_run) option" where
  "getefs_sb ev efs s = do {
     (ok, s) \<leftarrow> lbread ev EFS_SUPERBB efs 168 s;
     if ok then Some (1, s)
     else do {
       s \<leftarrow> set_blksz ev s;
       (ok, s) \<leftarrow> lbread ev EFS_SUPERBB efs 168 s;
       Some (if ok then 512 else 0, s) } }"

definition efs_checkfs :: "'h efs_env \<Rightarrow> ('f, 'h) efs_run \<Rightarrow> (int \<times> ('f, 'h) efs_run) option" where
  "efs_checkfs ev s =
    (case dmabuf_malloc_h ev (BBTOB (BTOBB 168)) s of (efs, s) \<Rightarrow>
       if efs = 0 then Some (ENOMEM, s)
       else do {
         (oldbksz, s) \<leftarrow> getefs_sb ev efs s;
         if oldbksz \<noteq> 0 \<and> IS_EFS_MAGIC (fs_magic (core s) efs) then Some (0, dmabuf_free_h ev efs s)
         else do {
           let s = dmabuf_free_h ev efs s;
           s \<leftarrow> (if oldbksz > 1 then set_blksz ev s else Some s);
           Some (EINVAL, s) } })"

text \<open>\<open>struct efs_info\<close> is two pointers, to the superblock and to the inode.\<close>

definition get_efsinfo :: "'h efs_env \<Rightarrow> ('f, 'h) efs_run \<Rightarrow> u32 \<times> ('f, 'h) efs_run" where
  "get_efsinfo ev s =
    (case malloc_h ev 8 s of (efs, s) \<Rightarrow>
       if efs = 0 then (0, s)
       else case dmabuf_malloc_h ev (BBTOB (BTOBB 168)) s of (sb, s) \<Rightarrow>
         let s = s\<lparr>core := st32 efs sb (core s)\<rparr> in
         if sb = 0 then (0, free_h ev efs s)
         else case dmabuf_malloc_h ev 128 s of (di, s) \<Rightarrow>
           let s = s\<lparr>core := st32 (efs + 4) di (core s)\<rparr> in
           if di = 0 then (0, free_h ev efs (dmabuf_free_h ev (ld32 (core s) efs) s))
           else (efs, s))"

definition free_efsinfo :: "'h efs_env \<Rightarrow> u32 \<Rightarrow> ('f, 'h) efs_run \<Rightarrow> ('f, 'h) efs_run" where
  "free_efsinfo ev efs s =
    free_h ev efs (dmabuf_free_h ev (ld32 (core s) (efs + 4)) (dmabuf_free_h ev (ld32 (core s) efs) s))"

definition get_efsbuf :: "'h efs_env \<Rightarrow> ('f, 'h) efs_run \<Rightarrow> u32 \<times> ('f, 'h) efs_run" where
  "get_efsbuf ev s = dmabuf_malloc_h ev 8192 s"

definition free_efsbuf :: "'h efs_env \<Rightarrow> u32 \<Rightarrow> ('f, 'h) efs_run \<Rightarrow> ('f, 'h) efs_run" where
  "free_efsbuf ev cp s = dmabuf_free_h ev cp s"

text \<open>The way out of \<open>_efs_open\<close> with the code \<open>rc\<close>, from the label that frees the buffer.\<close>

definition open_bad :: "'h efs_env \<Rightarrow> int \<Rightarrow> nat \<Rightarrow> ('f, 'h) efs_run \<Rightarrow> (int \<times> ('f, 'h) efs_run) option" where
  "open_bad ev rc oldbksz s = do {
     let s = free_efsbuf ev (fsb_Buffer (fsb s)) s;
     s \<leftarrow> (if oldbksz > 1 then set_blksz ev s else Some s);
     Some (rc, io_error rc s) }"

definition efs_open :: "'h efs_env \<Rightarrow> ('f, 'h) efs_run \<Rightarrow> (int \<times> ('f, 'h) efs_run) option" where
  "efs_open ev s =
    (if io_Flags (fsb s) AND F_WRITE \<noteq> 0 then Some (EROFS, io_error EROFS s)
     else case get_efsinfo ev s of (info, s) \<Rightarrow>
       let s = set_io (\<lambda>io. io\<lparr>fsb_FsPtr := info\<rparr>) s in
       if info = 0 then Some (ENOMEM, io_error ENOMEM s)
       else case get_efsbuf ev s of (buffer, s) \<Rightarrow>
         let s = set_io (\<lambda>io. io\<lparr>fsb_Buffer := buffer\<rparr>) s in
         if buffer = 0 then open_bad ev ENOMEM 0 (free_efsinfo ev (fsb_FsPtr (fsb s)) s)
         else do {
           (oldbksz, s) \<leftarrow> getefs_sb ev (fsb_to_fs s) s;
           let bad = (\<lambda>rc s. open_bad ev rc oldbksz (free_efsinfo ev (fsb_FsPtr (fsb s)) s));
           if oldbksz = 0 then bad EINVAL s
           else if \<not> IS_EFS_MAGIC (fs_magic (core s) (fsb_to_fs s)) then bad 0 s
           else do {
             file \<leftarrow> fsb_Filename (fsb s);
             (ok, s) \<leftarrow> namei ev file (s\<lparr>core := EFS_SETUP_SUPERB (fsb_to_fs s) (core s)\<rparr>);
             if \<not> ok then bad ENOENT s
             else let dir = is_dir (core s) (fsb_to_inode s); flag = io_Flags (fsb s) AND F_DIR in
               if dir \<and> flag = 0 then bad EISDIR s
               else if \<not> dir \<and> flag \<noteq> 0 then bad ENOTDIR s
               else Some (0, s) } })"

definition efs_close :: "'h efs_env \<Rightarrow> ('f, 'h) efs_run \<Rightarrow> int \<times> ('f, 'h) efs_run" where
  "efs_close ev s =
    (0, free_efsinfo ev (fsb_FsPtr (fsb s)) (free_efsbuf ev (fsb_Buffer (fsb s)) s))"

subsection \<open>Reading a directory\<close>

definition EFS_DBOFF :: "u32 \<Rightarrow> u32" where "EFS_DBOFF cookie = cookie AND 0x7FFFFE00"
definition EFS_SLOT :: "u32 \<Rightarrow> u32" where "EFS_SLOT cookie = cookie AND BBMASK"
definition EFS_DIRBLK_MAGIC :: u32 where "EFS_DIRBLK_MAGIC = 0xBEEF"
definition EFS_MAXENTS :: u32 where "EFS_MAXENTS = 72"

definition EFS_DIR_FREEOFF :: "u32 \<Rightarrow> u32" where
  "EFS_DIR_FREEOFF firstused = (if firstused = 0 then EFS_DIRBSIZE else push_bit 1 firstused)"

text \<open>\<open>getdent_block\<close> makes the buffer hold the block of the current slot: it is there,
there is no block left, or an error.\<close>

datatype dirblk = Block | No_Block | Bad_Block

definition getdent_block ::
  "'h efs_env \<Rightarrow> u32 \<Rightarrow> ('f, 'h) efs_run \<Rightarrow> (dirblk \<times> u32 \<times> ('f, 'h) efs_run) option"
where
  "getdent_block ev bytesleft s =
    (let db = fsb_Buffer (fsb s); lo = io_Offset_lo (fsb s); slots = dir_slots (core s) db in
     if lo = 0 \<or> EFS_SLOT lo \<ge> slots then
       (let past = (EFS_SLOT lo \<noteq> 0 \<and> EFS_SLOT lo \<ge> slots);
            s = (if past then set_io (\<lambda>io. io\<lparr>io_Offset_lo := (lo + EFS_DIRBSIZE) AND NOT BBMASK\<rparr>) s else s);
            bytesleft = (if past then bytesleft - EFS_DIRBSIZE else bytesleft)
        in if past \<and> bytesleft = 0 then Some (No_Block, bytesleft, s)
           else do {
             (result, s) \<leftarrow> bmap ev 1 s;
             (case result of
                None \<Rightarrow> Some (Bad_Block, bytesleft, io_error EIO s)
              | Some result \<Rightarrow> do {
                  let n = BBTOB (ex_length result);
                  (r, s) \<leftarrow> DEVREAD ev (set_io (\<lambda>io. io\<lparr>io_StartBlock := ex_bn result,
                     io_Address := fsb_Buffer io, io_Count := n\<rparr>) s);
                  if r \<noteq> n then Some (Bad_Block, bytesleft, io_error EIO s)
                  else if dir_magic (core s) db \<noteq> EFS_DIRBLK_MAGIC \<or> dir_slots (core s) db > EFS_MAXENTS \<or>
                    EFS_DIR_FREEOFF (dir_firstused (core s) db) < 4 + dir_slots (core s) db
                  then Some (Bad_Block, bytesleft, io_error ENOTDIR s)
                  else Some (Block, bytesleft, s) }) })
     else Some (Block, bytesleft, s))"

text \<open>The next entry in use: its address, 0 at the end, -1 after an error.\<close>

partial_function (option) getdent_loop ::
  "'h efs_env \<Rightarrow> u32 \<Rightarrow> ('f, 'h) efs_run \<Rightarrow> (u32 \<times> ('f, 'h) efs_run) option"
where
  "getdent_loop ev bytesleft s =
    (if bytesleft = 0 then Some (0, s)
     else do {
       (b, bytesleft, s) \<leftarrow> getdent_block ev bytesleft s;
       (case b of
          No_Block \<Rightarrow> Some (0, s)
        | Bad_Block \<Rightarrow> Some (-1, s)
        | Block \<Rightarrow>
            (let db = fsb_Buffer (fsb s);
                 slotoffset = EFS_SLOTAT (core s) db (EFS_SLOT (io_Offset_lo (fsb s)));
                 s = set_io (\<lambda>io. io\<lparr>io_Offset_lo := io_Offset_lo io + 1\<rparr>) s
             in if slotoffset = 0 then getdent_loop ev bytesleft s else Some (db + slotoffset, s))) })"

definition getdent :: "'h efs_env \<Rightarrow> ('f, 'h) efs_run \<Rightarrow> (u32 \<times> ('f, 'h) efs_run) option" where
  "getdent ev s =
    getdent_loop ev (di_size (core s) (fsb_to_inode s) - EFS_DBOFF (io_Offset_lo (fsb s))) s"

text \<open>Filling in entries of \<open>DIRECTORYENTRY\<close>: 40 bytes, of which the first 4 are the length of the
name, then the attributes, then the name.  The result is what is left, and whether an error
ends it all.\<close>

definition FileNameLengthMax :: nat where "FileNameLengthMax = 32"
definition ReadOnlyFile :: u8 where "ReadOnlyFile = 1"
definition DirectoryFile :: u8 where "DirectoryFile = 16"

partial_function (option) efs_getdirents ::
  "'h efs_env \<Rightarrow> u32 \<Rightarrow> u32 \<Rightarrow> ('f, 'h) efs_run \<Rightarrow> (bool \<times> u32 \<times> ('f, 'h) efs_run) option"
where
  "efs_getdirents ev dp left s =
    (if left = 0 then Some (True, left, s)
     else do {
       (dep, s) \<leftarrow> getdent ev s;
       if dep = 0 then Some (True, left, s)
       else if dep = -1 then Some (False, left, io_error EIO s)
       else do {
         let namelen = min (d_namelen (core s) dep) (FileNameLengthMax - 1);
         let s = s\<lparr>core := (core s)(dp + 4 := ReadOnlyFile)\<rparr>;
         (ok, s) \<leftarrow> iread ev (getdirent_di ev) (EFS_GET_INUM (core s) dep) s;
         if \<not> ok then Some (True, left, io_error EIO s)
         else do {
           let m = core s;
           let m = (if is_dir m (getdirent_di ev) then m(dp + 4 := m (dp + 4) OR DirectoryFile) else m);
           let m = bcopy (d_name dep) (dp + 5) (of_nat namelen) (st32 dp (of_nat namelen) m);
           let m = m(dp + 5 + of_nat namelen := 0);
           efs_getdirents ev (dp + 40) (left - 1) (s\<lparr>core := m\<rparr>) } } })"

definition efs_getdirent :: "'h efs_env \<Rightarrow> ('f, 'h) efs_run \<Rightarrow> (int \<times> ('f, 'h) efs_run) option" where
  "efs_getdirent ev s =
    (let count = io_Count (fsb s) in
     if count = 0 then Some (EINVAL, io_error EINVAL s)
     else do {
       (ok, left, s) \<leftarrow> efs_getdirents ev (io_Address (fsb s)) count s;
       if \<not> ok then Some (EIO, s)
       else let s = set_io (\<lambda>io. io\<lparr>io_Count := count - left\<rparr>) s in
         if count - left = 0 then Some (ENOTDIR, io_error ENOTDIR s) else Some (0, s) })"

subsection \<open>The strategy\<close>

definition efs_strat :: "'h efs_env \<Rightarrow> ('f, 'h) efs_run \<Rightarrow> (int \<times> ('f, 'h) efs_run) option" where
  "efs_strat ev s =
    (if io_Offset_hi (fsb s) \<noteq> 0 then Some (EINVAL, io_error EINVAL s)
     else case fsb_FunctionCode (fsb s) of
       FS_CHECK \<Rightarrow> efs_checkfs ev s
     | FS_OPEN \<Rightarrow> efs_open ev s
     | FS_CLOSE \<Rightarrow> Some (efs_close ev s)
     | FS_READ \<Rightarrow> efs_read ev s
     | FS_WRITE \<Rightarrow> Some (EROFS, io_error EROFS s)
     | FS_GETDIRENT \<Rightarrow> efs_getdirent ev s
     | FS_GETREADSTATUS \<Rightarrow> Some (efs_grs s)
     | _ \<Rightarrow> Some (ENXIO, io_error ENXIO s))"

text \<open>The strategy as the firmware calls it.\<close>

definition efs_strategy :: "'h efs_env \<Rightarrow> 'f eiob \<Rightarrow> memory \<Rightarrow> 'h efs_globals \<Rightarrow>
    (int \<times> 'f eiob \<times> memory \<times> 'h efs_globals) option" where
  "efs_strategy ev eb m g = do {
     (r, s) \<leftarrow> efs_strat ev \<lparr>fsb = eb, core = m, glob = g\<rparr>;
     Some (r, fsb s, core s, glob s) }"

definition efs_install ::
  "'h efs_env \<Rightarrow> 'f \<Rightarrow> string option \<Rightarrow> 'h efs_globals \<Rightarrow> 'f fs_entry list \<Rightarrow>
    (int \<times> 'h efs_globals \<times> 'f fs_entry list) option"
where
  "efs_install ev strat room g l =
    (case dmabuf_malloc_of ev (8 * of_nat MAXEXTENTS) (heap g) of (p, h) \<Rightarrow>
       let g = g\<lparr>indirectExtents := p, heap := h\<rparr> in
       if p = 0 then Some (ENOMEM, g, l)
       else do {
         (r, l) \<leftarrow> fs_register strat (cstr ''efs'') DTFS_EFS room l;
         Some (r, g, l) })"

end
