(* ===== verification/Efsread.thy ===== *)
theory Efsread
imports Efs
begin

text \<open>Reading files of the extent file system: what \<open>_efs_read\<close> of \<open>src/libsc/fs/efs.c\<close> stores, and
what \<open>Read\<close> of \<open>src/fw/pv_stubs.c\<close> gives on a descriptor of such a file.

The contents of a file are the bytes its extents point to on the disk (\<open>file_byte\<close>).  An open
file (\<open>efs_file\<close>) has sound extents that cover it, sectors that can be read, and its inode and
pointers in memory the buffers do not overlap.  \<open>bmap\<close> gives runs of blocks, one turn of the loop
moves a run of bytes, and the turns compose (\<open>efs_moved_trans\<close>).\<close>

unbundle bit_operations_syntax



section \<open>Areas of memory\<close>

definition area :: "u32 \<Rightarrow> nat \<Rightarrow> u32 set" where
  "area p n = {a. unat (a - p) < n}"

definition same_on :: "u32 set \<Rightarrow> memory \<Rightarrow> memory \<Rightarrow> bool" where
  "same_on A m m' \<longleftrightarrow> (\<forall>a \<in> A. m a = m' a)"

lemma in_area: "unat k < n \<Longrightarrow> p + k \<in> area p n"
  by (simp add: area_def)

lemma area_mono: "n \<le> n' \<Longrightarrow> area p n \<subseteq> area p n'"
  by (auto simp: area_def)

lemma area_word: "area p n \<inter> A = {} \<Longrightarrow> unat k < n \<Longrightarrow> p + k \<notin> A"
  using in_area by blast

lemma unat_add_small: "unat (d :: u32) + k < 2 ^ 32 \<Longrightarrow> unat (d + of_nat k) = unat d + k"
  by (simp add: unat_word_ariths unat_of_nat_32)

lemma ld32_same:
  assumes "same_on (area p n) m m'" "unat d + 4 \<le> n" "n \<le> 2 ^ 32"
  shows "ld32 m (p + d) = ld32 m' (p + d)"
proof -
  have "m (p + d + of_nat k) = m' (p + d + of_nat k)" if "k < 4" for k
  proof -
    have "p + (d + of_nat k) \<in> area p n"
      using assms(2,3) that by (intro in_area) (simp add: unat_add_small)
    then show ?thesis
      using assms(1) by (simp add: same_on_def add.assoc)
  qed
  from this [of 0] this [of 1] this [of 2] this [of 3] show ?thesis
    by (simp add: ld32_def)
qed

lemma ld16_same:
  assumes "same_on (area p n) m m'" "unat d + 2 \<le> n" "n \<le> 2 ^ 32"
  shows "ld16 m (p + d) = ld16 m' (p + d)"
proof -
  have "m (p + d + of_nat k) = m' (p + d + of_nat k)" if "k < 2" for k
  proof -
    have "p + (d + of_nat k) \<in> area p n"
      using assms(2,3) that by (intro in_area) (simp add: unat_add_small)
    then show ?thesis
      using assms(1) by (simp add: same_on_def add.assoc)
  qed
  from this [of 0] this [of 1] show ?thesis
    by (simp add: ld16_def)
qed

section \<open>Tables of extents\<close>

definition table :: "memory \<Rightarrow> u32 \<Rightarrow> nat \<Rightarrow> extent list" where
  "table m p n = map (\<lambda>i. extent_at m (p + 8 * of_nat i)) [0..<n]"

definition block_of :: "extent list \<Rightarrow> nat \<Rightarrow> nat option" where
  "block_of es b = map_option (\<lambda>e. unat (ex_bn e) + (b - unat (ex_offset e))) (List.find (\<lambda>e. holds e b) es)"

text \<open>The extents of a sound inode: within the 24 bits of a block number, without overlap in the
file, and without a disk block in two places.\<close>

definition wf_extents :: "extent list \<Rightarrow> bool" where
  "wf_extents es \<longleftrightarrow> (\<forall>e \<in> set es. unat (ex_bn e) + unat (ex_length e) \<le> 2 ^ 24) \<and>
     (\<forall>e \<in> set es. \<forall>e' \<in> set es. \<forall>b. holds e b \<longrightarrow> holds e' b \<longrightarrow> e = e') \<and>
     (\<forall>b b' n. block_of es b = Some n \<longrightarrow> block_of es b' = Some n \<longrightarrow> b = b')"

lemma table_Suc: "table m p (Suc n) = extent_at m p # table m (p + 8) n"
  unfolding table_def upt_conv_Cons [OF zero_less_Suc]
  by (simp add: map_Suc_upt [symmetric] algebra_simps del: upt_Suc)

lemma find_extent_table:
  assumes "unat off < 2 ^ 23" "0 < sint maxblks"
  shows "find_extent m ex n off maxblks =
    map_option (\<lambda>e. \<lparr>ex_bn = (ex_bn e + (off - ex_offset e)) AND 0xFFFFFF,
        ex_length = of_nat (min (unat maxblks) (unat (ex_offset e) + unat (ex_length e) - unat off)),
        ex_offset = off\<rparr>) (List.find (\<lambda>e. holds e (unat off)) (table m ex n))"
proof (induction n arbitrary: ex)
  case 0
  then show ?case
    by (simp add: table_def)
next
  case (Suc n)
  show ?case
    unfolding find_extent_Suc [OF assms] table_Suc using Suc [of "ex + 8"] by simp
qed

lemma table_same:
  assumes "same_on (area p (8 * n)) m m'" "8 * n \<le> 2 ^ 31"
  shows "table m p n = table m' p n"
proof -
  have "extent_at m (p + 8 * of_nat i) = extent_at m' (p + 8 * of_nat i)" if "i < n" for i
  proof -
    have u: "unat (8 * of_nat i :: u32) = 8 * i"
      using that assms(2) by (simp add: unat_word_ariths unat_of_nat_32)
    then have v: "unat (8 * of_nat i + 4 :: u32) = 8 * i + 4"
      using that assms(2) unat_add_small [of "8 * of_nat i" 4] by simp
    show ?thesis
      using ld32_same [OF assms(1), of "8 * of_nat i"] ld32_same [OF assms(1), of "8 * of_nat i + 4"] u v that assms(2)
      by (simp add: extent_at_def add.assoc)
  qed
  then show ?thesis
    by (simp add: table_def)
qed

lemma find_in_wf:
  assumes "wf_extents es" "List.find (\<lambda>e. holds e b) es = Some e" "holds e c"
  shows "List.find (\<lambda>e. holds e c) es = Some e"
proof -
  have e: "e \<in> set es" "holds e b"
    using assms(2) by (auto simp: find_Some_iff)
  have "e' = e" if "e' \<in> set es" "holds e' c" for e'
    using assms(1,3) e(1) that by (auto simp: wf_extents_def)
  moreover obtain e' where f: "List.find (\<lambda>e. holds e c) es = Some e'"
    using e(1) assms(3) by (cases "List.find (\<lambda>e. holds e c) es") (auto simp: find_None_iff)
  moreover have "e' \<in> set es" "holds e' c"
    using f by (auto simp: find_Some_iff)
  ultimately show ?thesis
    by simp
qed

text \<open>What \<open>bmap\<close> gives: the block, and that the following ones follow on the disk.\<close>

lemma find_extent_block:
  assumes "wf_extents (table m ex n)" "block_of (table m ex n) (unat off) = Some bn"
    "unat off < 2 ^ 23" "0 < sint maxblks"
  shows "\<exists>len. find_extent m ex n off maxblks = Some \<lparr>ex_bn = of_nat bn, ex_length = of_nat len, ex_offset = off\<rparr> \<and>
    0 < len \<and> len < 256 \<and> len \<le> unat maxblks \<and> bn < 2 ^ 24 \<and>
    (\<forall>k < len. block_of (table m ex n) (unat off + k) = Some (bn + k))"
proof -
  let ?es = "table m ex n"
  obtain e where e: "List.find (\<lambda>e. holds e (unat off)) ?es = Some e"
    and bn: "bn = unat (ex_bn e) + (unat off - unat (ex_offset e))"
    using assms(2) by (auto simp: block_of_def)
  have h: "e \<in> set ?es" "holds e (unat off)"
    using e by (auto simp: find_Some_iff)
  then have b: "unat (ex_length e) < 256" "unat (ex_offset e) < 2 ^ 24" "unat (ex_bn e) + unat (ex_length e) \<le> 2 ^ 24"
    using extent_at_bounds(2,3) [of m] assms(1) by (auto simp: table_def wf_extents_def)
  define len where "len = min (unat maxblks) (unat (ex_offset e) + unat (ex_length e) - unat off)"
  have l: "0 < len" "len < 256" "len \<le> unat maxblks" "bn < 2 ^ 24"
    using h(2) b assms(4) bn by (auto simp: len_def holds_def sint_pos_iff)
  have w: "ex_bn e + (off - ex_offset e) = of_nat bn"
    using h(2) by (simp add: bn holds_def of_nat_diff)
  have "unat ((of_nat bn :: u32) AND 0xFFFFFF) = unat (of_nat bn :: u32)"
    using l(4) by (simp only: and_mask_unat) (simp add: unat_of_nat_32)
  then have "(of_nat bn :: u32) AND 0xFFFFFF = of_nat bn"
    by (simp only: word_unat_eq_iff)
  then have f: "find_extent m ex n off maxblks = Some \<lparr>ex_bn = of_nat bn, ex_length = of_nat len, ex_offset = off\<rparr>"
    unfolding find_extent_table [OF assms(3,4)] by (simp add: e w len_def)
  have "block_of ?es (unat off + k) = Some (bn + k)" if "k < len" for k
  proof -
    have "holds e (unat off + k)"
      using that h(2) by (auto simp: len_def holds_def)
    then show ?thesis
      using find_in_wf [OF assms(1) e] h(2) by (simp add: block_of_def bn holds_def)
  qed
  then show ?thesis
    using f l by blast
qed



section \<open>An open file\<close>

definition key_of :: "('f, 'h) efs_run \<Rightarrow> u32" where
  "key_of s = dev_Key (fsb s)"

definition indirect :: "memory \<Rightarrow> u32 \<Rightarrow> bool" where
  "indirect m di \<longleftrightarrow> sint (di_numextents m di) > int EFS_DIRECTEXTENTS"

definition cached :: "u32 \<Rightarrow> ('f, 'h) efs_run \<Rightarrow> bool" where
  "cached di s \<longleftrightarrow> indirectExtentsValid (glob s) \<and> indirectExtentsIno (glob s) = ld32 (core s) (di_gen di)"

text \<open>The blocks of indirect extents, where the inode has them and they are not cached.\<close>

definition indirect_ok :: "'h efs_env \<Rightarrow> u32 \<Rightarrow> ('f, 'h) efs_run \<Rightarrow> bool" where
  "indirect_ok ev di s \<longleftrightarrow>
    (let iex = extent_at (core s) (di_extents di) in
     ex_offset iex \<le> 1 \<and> unat (ex_length iex) \<le> 32 \<and> sint (di_numextents (core s) di) \<le> 2048 \<and>
     readable (efs_disk ev) ((key_of s + ex_bn iex) * 512) (512 * unat (ex_length iex)))"

definition file_extents :: "'h efs_env \<Rightarrow> u32 \<Rightarrow> ('f, 'h) efs_run \<Rightarrow> extent list" where
  "file_extents ev di s =
    (let ix = indirectExtents (glob s); iex = extent_at (core s) (di_extents di) in
     if \<not> indirect (core s) di then table (core s) (di_extents di) EFS_DIRECTEXTENTS
     else if cached di s then table (core s) ix MAXEXTENTS
     else table (with_disk (efs_disk ev) ((key_of s + ex_bn iex) * 512) (512 * unat (ex_length iex)) ix (core s))
       ix MAXEXTENTS)"

text \<open>What a read must not store into: the two pointers, the inode and, for indirect extents,
the cache.\<close>

definition kept_area :: "u32 \<Rightarrow> ('f, 'h) efs_run \<Rightarrow> u32 set" where
  "kept_area di s = area (fsb_FsPtr (fsb s)) 8 \<union> area di 128"

definition cache_area :: "u32 \<Rightarrow> ('f, 'h) efs_run \<Rightarrow> u32 set" where
  "cache_area di s = (if indirect (core s) di then area (indirectExtents (glob s)) (8 * MAXEXTENTS) else {})"

definition file_byte :: "bootdisk \<Rightarrow> u32 \<Rightarrow> extent list \<Rightarrow> nat \<Rightarrow> u8 option" where
  "file_byte dev key es i =
    (case block_of es (i div 512) of
       None \<Rightarrow> None
     | Some bn \<Rightarrow> disk_byte dev ((key + of_nat bn) * 512 + of_nat (i mod 512)))"

text \<open>An open file: \<open>di\<close> is its inode, \<open>es\<close> are its extents, \<open>sz\<close> its length.\<close>

definition efs_file :: "'h efs_env \<Rightarrow> u32 \<Rightarrow> extent list \<Rightarrow> nat \<Rightarrow> ('f, 'h) efs_run \<Rightarrow> bool" where
  "efs_file ev di es sz s \<longleftrightarrow>
    fsb_to_inode s = di \<and> file_extents ev di s = es \<and> wf_extents es \<and>
    unat (di_size (core s) di) = sz \<and> sz < 2 ^ 31 \<and>
    (\<forall>i < 512 * ((sz + 511) div 512). file_byte (efs_disk ev) (key_of s) es i \<noteq> None) \<and>
    (indirect (core s) di \<and> \<not> cached di s \<longrightarrow> indirect_ok ev di s \<and>
       (\<forall>b. block_of es b \<noteq> Some (unat (ex_bn (extent_at (core s) (di_extents di)))))) \<and>
    cache_area di s \<inter> kept_area di s = {} \<and>
    area (fsb_Buffer (fsb s)) 512 \<inter> (kept_area di s \<union> cache_area di s) = {}"

lemma DEVREAD_run:
  assumes "readable (efs_disk ev) ((dev_Key (fsb s) + io_StartBlock (fsb s)) * 512) (unat (io_Count (fsb s)))"
  shows "DEVREAD ev s = Some (io_Count (fsb s), s\<lparr>core := with_disk (efs_disk ev)
    ((dev_Key (fsb s) + io_StartBlock (fsb s)) * 512) (unat (io_Count (fsb s))) (io_Address (fsb s)) (core s)\<rparr>)"
  unfolding DEVREAD_def pv_disk_strategy_def if_True bd_read_bytes_all [OF assms] by simp

lemma DEVREAD_set:
  assumes "readable (efs_disk ev) ((key_of s + bn) * 512) (unat n)"
  shows "DEVREAD ev (s\<lparr>fsb := (fsb s)\<lparr>io_StartBlock := bn, io_Address := dst, io_Count := n\<rparr>\<rparr>) =
    Some (n, s\<lparr>fsb := (fsb s)\<lparr>io_StartBlock := bn, io_Address := dst, io_Count := n\<rparr>,
      core := with_disk (efs_disk ev) ((key_of s + bn) * 512) (unat n) dst (core s)\<rparr>)"
  using DEVREAD_run [of ev "s\<lparr>fsb := (fsb s)\<lparr>io_StartBlock := bn, io_Address := dst, io_Count := n\<rparr>\<rparr>"] assms
  by (simp add: key_of_def del: distrib_right_numeral)

lemma with_disk_same: "A \<inter> area p n = {} \<Longrightarrow> same_on A (with_disk dev off n p m) m"
  by (auto simp: same_on_def with_disk_def area_def)

lemma same_on_sub: "same_on B m m' \<Longrightarrow> A \<subseteq> B \<Longrightarrow> same_on A m m'"
  by (auto simp: same_on_def)

text \<open>The fields of the inode and the pointers, in memories that agree on them.\<close>

lemma kept_fields:
  assumes "same_on (area di 128) m m'"
  shows "di_size m di = di_size m' di" "di_numextents m di = di_numextents m' di"
    "ld32 m (di_gen di) = ld32 m' (di_gen di)" "extent_at m (di_extents di) = extent_at m' (di_extents di)"
    "table m (di_extents di) EFS_DIRECTEXTENTS = table m' (di_extents di) EFS_DIRECTEXTENTS"
    "indirect m di = indirect m' di"
proof -
  show n: "di_numextents m di = di_numextents m' di"
    using ld16_same [OF assms, of 28] by (simp add: di_numextents_def lds16_def)
  then show "indirect m di = indirect m' di"
    by (simp add: indirect_def)
  show "di_size m di = di_size m' di" "ld32 m (di_gen di) = ld32 m' (di_gen di)"
    using ld32_same [OF assms, of 8] ld32_same [OF assms, of 24] by (simp_all add: di_size_def di_gen_def)
  show "extent_at m (di_extents di) = extent_at m' (di_extents di)"
    using ld32_same [OF assms, of 32] ld32_same [OF assms, of 36]
    by (simp add: extent_at_def di_extents_def add.assoc)
  have "area (di_extents di) (8 * EFS_DIRECTEXTENTS) \<subseteq> area di 128"
  proof
    fix a
    assume a: "a \<in> area (di_extents di) (8 * EFS_DIRECTEXTENTS)"
    then have "unat (a - di - 32) < 96"
      by (simp add: area_def di_extents_def EFS_DIRECTEXTENTS_def diff_diff_eq)
    then have "unat (a - di - 32 + of_nat 32) < 128"
      by (subst unat_add_small) simp_all
    then show "a \<in> area di 128"
      by (simp add: area_def)
  qed
  then show "table m (di_extents di) EFS_DIRECTEXTENTS = table m' (di_extents di) EFS_DIRECTEXTENTS"
    using assms by (intro table_same same_on_sub [OF assms]) (simp_all add: EFS_DIRECTEXTENTS_def)
qed

lemma kept_inode:
  assumes "same_on (area (fsb_FsPtr (fsb s)) 8) (core s) m"
  shows "ld32 m (fsb_FsPtr (fsb s) + 4) = fsb_to_inode s"
  using ld32_same [OF assms, of 4] by (simp add: fsb_to_inode_def)



lemma efs_file_frame:
  assumes "efs_file ev di es sz s" "fsb_FsPtr (fsb s') = fsb_FsPtr (fsb s)" "dev_Key (fsb s') = dev_Key (fsb s)"
    "fsb_Buffer (fsb s') = fsb_Buffer (fsb s)" "glob s' = glob s"
    "same_on (kept_area di s \<union> cache_area di s) (core s) (core s')"
  shows "efs_file ev di es sz s'"
proof -
  have d: "same_on (area di 128) (core s) (core s')" "same_on (area (fsb_FsPtr (fsb s)) 8) (core s) (core s')"
    "same_on (cache_area di s) (core s) (core s')"
    using assms(6) by (auto simp: same_on_def kept_area_def)
  note k = kept_fields [OF d(1)]
  have i: "fsb_to_inode s' = fsb_to_inode s"
    using kept_inode [OF d(2)] assms(2) by (simp add: fsb_to_inode_def)
  have c: "cached di s' = cached di s" "cache_area di s' = cache_area di s" "kept_area di s' = kept_area di s"
    "key_of s' = key_of s" "indirect_ok ev di s' = indirect_ok ev di s"
    using assms(2,3,5) k by (simp_all add: cached_def cache_area_def kept_area_def key_of_def indirect_ok_def Let_def)
  have "file_extents ev di s' = file_extents ev di s"
  proof (cases "indirect (core s) di")
    case True
    let ?ix = "indirectExtents (glob s)"
    let ?w = "with_disk (efs_disk ev) ((key_of s + ex_bn (extent_at (core s) (di_extents di))) * 512)
      (512 * unat (ex_length (extent_at (core s) (di_extents di)))) ?ix"
    have x: "same_on (area ?ix (8 * MAXEXTENTS)) (core s') (core s)"
      using d(3) True by (simp add: cache_area_def same_on_def)
    then have "same_on (area ?ix (8 * MAXEXTENTS)) (?w (core s')) (?w (core s))"
      by (simp add: same_on_def with_disk_def)
    then show ?thesis
      using True k c assms(5) table_same [OF x] table_same [of ?ix MAXEXTENTS "?w (core s')" "?w (core s)"]
      by (simp add: file_extents_def Let_def MAXEXTENTS_def)
  next
    case False
    then show ?thesis
      using k by (simp add: file_extents_def Let_def)
  qed
  then show ?thesis
    using assms(1,4) i c k by (simp add: efs_file_def)
qed

definition efs_frame :: "u32 set \<Rightarrow> ('f, 'h) efs_run \<Rightarrow> ('f, 'h) efs_run \<Rightarrow> bool" where
  "efs_frame A s s' \<longleftrightarrow> (\<exists>sb ad ct lo. fsb s' = (fsb s)\<lparr>io_StartBlock := sb, io_Address := ad, io_Count := ct,
     io_Offset_lo := lo\<rparr>) \<and> same_on (- A) (core s) (core s') \<and>
     indirectExtents (glob s') = indirectExtents (glob s) \<and> heap (glob s') = heap (glob s)"

lemma efs_frame_refl: "efs_frame A s s"
proof -
  have "fsb s = (fsb s)\<lparr>io_StartBlock := io_StartBlock (fsb s), io_Address := io_Address (fsb s),
      io_Count := io_Count (fsb s), io_Offset_lo := io_Offset_lo (fsb s)\<rparr>"
    by simp
  then show ?thesis
    unfolding efs_frame_def same_on_def by blast
qed

lemma same_on_trans:
  "same_on (- A) m m' \<Longrightarrow> same_on (- B) m' m'' \<Longrightarrow> A \<union> B \<subseteq> C \<Longrightarrow> same_on (- C) m m''"
  unfolding same_on_def by (metis Compl_iff Un_iff subset_iff)

lemma same_on_sym: "same_on A m m' \<Longrightarrow> same_on A m' m"
  by (simp add: same_on_def)

lemma efs_frame_trans: "efs_frame A s s' \<Longrightarrow> efs_frame B s' s'' \<Longrightarrow> A \<union> B \<subseteq> C \<Longrightarrow> efs_frame C s s''"
proof -
  assume a: "efs_frame A s s'" and b: "efs_frame B s' s''" and c: "A \<union> B \<subseteq> C"
  obtain sb ad ct lo where f: "fsb s' = (fsb s)\<lparr>io_StartBlock := sb, io_Address := ad, io_Count := ct, io_Offset_lo := lo\<rparr>"
    using a by (auto simp: efs_frame_def)
  obtain sb' ad' ct' lo' where g: "fsb s'' = (fsb s')\<lparr>io_StartBlock := sb', io_Address := ad', io_Count := ct',
      io_Offset_lo := lo'\<rparr>"
    using b by (auto simp: efs_frame_def)
  have "fsb s'' = (fsb s)\<lparr>io_StartBlock := sb', io_Address := ad', io_Count := ct', io_Offset_lo := lo'\<rparr>"
    unfolding g f by simp
  moreover have "same_on (- C) (core s) (core s'')"
    using a b c same_on_trans unfolding efs_frame_def by blast
  ultimately show ?thesis
    using a b unfolding efs_frame_def by (metis (no_types))
qed

lemma efs_frame_fsb:
  assumes "efs_frame A s s'"
  shows "fsb_FsPtr (fsb s') = fsb_FsPtr (fsb s)" "dev_Key (fsb s') = dev_Key (fsb s)"
    "fsb_Buffer (fsb s') = fsb_Buffer (fsb s)" "kept_area di s' = kept_area di s" "key_of s' = key_of s"
  using assms by (auto simp: efs_frame_def kept_area_def key_of_def)

lemma fetched_cache:
  assumes f: "efs_file ev di es sz s" and i: "indirect (core s) di" "\<not> cached di s"
  shows "\<exists>s1. load_indirect ev di s = Some (Some (indirectExtents (glob s)), s1) \<and> efs_file ev di es sz s1 \<and>
    table (core s1) (indirectExtents (glob s)) MAXEXTENTS = es \<and> cached di s1 \<and>
    efs_frame (cache_area di s) s s1 \<and> io_Offset_lo (fsb s1) = io_Offset_lo (fsb s) \<and>
    (\<forall>b. block_of es b \<noteq> Some (unat (io_StartBlock (fsb s1)))) \<and> cache_area di s1 = cache_area di s"
proof -
  let ?g = "glob s" and ?iex = "extent_at (core s) (di_extents di)"
  let ?ix = "indirectExtents ?g" and ?n = "512 * unat (ex_length ?iex)"
  let ?count = "BBTOB (ex_length ?iex)"
  let ?io = "(fsb s)\<lparr>io_StartBlock := ex_bn ?iex, io_Address := ?ix, io_Count := ?count\<rparr>"
  define off where "off = (key_of s + ex_bn ?iex) * 512"
  let ?m = "with_disk (efs_disk ev) off ?n ?ix (core s)"
  let ?s1 = "s\<lparr>fsb := ?io, core := ?m, glob := ?g\<lparr>indirectExtentsValid := True,
    indirectExtentsIno := ld32 (core s) (di_gen di)\<rparr>\<rparr>"
  have ok: "indirect_ok ev di s" and ib: "\<forall>b. block_of es b \<noteq> Some (unat (ex_bn ?iex))"
    using f i by (auto simp: efs_file_def)
  have x: "ex_offset ?iex \<le> 1" "unat (ex_length ?iex) \<le> 32" "sint (di_numextents (core s) di) \<le> 2048"
    and r: "readable (efs_disk ev) off ?n"
    using ok by (simp_all add: indirect_ok_def Let_def off_def)
  have n: "unat ?count = ?n"
    using x(2) by (simp add: unat_BBTOB)
  then have small: "smin (8 * of_nat MAXEXTENTS) ?count = ?count"
    using x(2) unat_smin [of "8 * of_nat MAXEXTENTS" ?count] by (simp add: MAXEXTENTS_def word_unat_eq_iff)
  have sub: "area ?ix ?n \<subseteq> cache_area di s"
    using x(2) i(1) by (simp add: cache_area_def MAXEXTENTS_def area_mono)
  have disj: "cache_area di s \<inter> kept_area di s = {}"
    using f by (simp add: efs_file_def)
  have same: "same_on (- cache_area di s) (core s) ?m"
    using sub by (intro same_on_sym [OF with_disk_same]) blast
  then have kept: "same_on (area di 128) (core s) ?m" "same_on (area (fsb_FsPtr (fsb s)) 8) (core s) ?m"
    using disj by (auto simp: same_on_def kept_area_def)
  note k = kept_fields [OF kept(1)]
  have dev: "DEVREAD ev (s\<lparr>fsb := ?io\<rparr>) = Some (?count, s\<lparr>fsb := ?io, core := ?m\<rparr>)"
    using DEVREAD_set [of ev s "ex_bn ?iex" ?count ?ix] r unfolding n off_def by simp
  have lim: "\<not> ex_offset ?iex > 1" "\<not> ex_length ?iex > BTOBB (of_nat MAXEXTENTS * 8)"
    "\<not> sint (di_numextents (core s) di) > int MAXEXTENTS"
    using x by (simp_all add: not_less BTOBB_def MAXEXTENTS_def word_le_nat_alt)
  have run: "load_indirect ev di s = Some (Some ?ix, ?s1)"
    using i(2) lim
    by (simp add: load_indirect_def cached_def Let_def small set_io_def dev k(3) [symmetric])
  have t: "table ?m ?ix MAXEXTENTS = es"
    using f i by (simp add: efs_file_def file_extents_def Let_def off_def)
  have c: "cached di ?s1" "cache_area di ?s1 = cache_area di s" "kept_area di ?s1 = kept_area di s"
    using k by (simp_all add: cached_def cache_area_def kept_area_def)
  have "efs_file ev di es sz ?s1"
    using f t c k i kept_inode [OF kept(2)]
    by (simp add: efs_file_def file_extents_def Let_def fsb_to_inode_def key_of_def)
  moreover have "efs_frame (cache_area di s) s ?s1"
  proof -
    have "fsb ?s1 = (fsb s)\<lparr>io_StartBlock := ex_bn ?iex, io_Address := ?ix, io_Count := ?count,
        io_Offset_lo := io_Offset_lo (fsb s)\<rparr>"
      by simp
    then show ?thesis
      unfolding efs_frame_def using same by fastforce
  qed
  ultimately show ?thesis
    using run t c ib by (intro exI [of _ ?s1]) simp
qed



lemma block_of_bound: "wf_extents es \<Longrightarrow> block_of es b = Some n \<Longrightarrow> n < 2 ^ 24"
proof -
  assume w: "wf_extents es" and b: "block_of es b = Some n"
  obtain e where "List.find (\<lambda>e. holds e b) es = Some e" and n: "n = unat (ex_bn e) + (b - unat (ex_offset e))"
    using b by (auto simp: block_of_def)
  then have "e \<in> set es" "holds e b"
    by (auto simp: find_Some_iff)
  moreover from this(1) have "unat (ex_bn e) + unat (ex_length e) \<le> 2 ^ 24"
    using w unfolding wf_extents_def by blast
  ultimately show ?thesis
    using n by (auto simp: holds_def)
qed

lemma block_of_inj: "wf_extents es \<Longrightarrow> block_of es b = Some n \<Longrightarrow> block_of es b' = Some n \<Longrightarrow> b = b'"
  unfolding wf_extents_def by blast

lemma bmap_run:
  assumes f: "efs_file ev di es sz s" and b: "block_of es (unat (io_Offset_lo (fsb s)) div 512) = Some bn"
    and n: "0 < sint n"
  shows "\<exists>s1 len. bmap ev n s = Some (Some \<lparr>ex_bn = of_nat bn, ex_length = of_nat len,
        ex_offset = BTOBBT (io_Offset_lo (fsb s))\<rparr>, s1) \<and>
    0 < len \<and> len < 256 \<and> len \<le> unat n \<and>
    (\<forall>k < len. block_of es (unat (io_Offset_lo (fsb s)) div 512 + k) = Some (bn + k)) \<and>
    efs_file ev di es sz s1 \<and> efs_frame (cache_area di s) s s1 \<and>
    io_Offset_lo (fsb s1) = io_Offset_lo (fsb s) \<and> cache_area di s1 = cache_area di s \<and>
    (io_StartBlock (fsb s1) = io_StartBlock (fsb s) \<or>
      (\<forall>b. block_of es b \<noteq> Some (unat (io_StartBlock (fsb s1)))))"
proof -
  let ?off = "BTOBBT (io_Offset_lo (fsb s))"
  have o: "unat ?off = unat (io_Offset_lo (fsb s)) div 512" "unat ?off < 2 ^ 23"
    using unat_lt_32 [of "io_Offset_lo (fsb s)"] by (simp_all add: unat_BTOBBT)
  have di: "fsb_to_inode s = di" and wf: "wf_extents es"
    using f by (simp_all add: efs_file_def)
  have main: "\<exists>len. find_extent m ex k ?off n = Some \<lparr>ex_bn = of_nat bn, ex_length = of_nat len,
        ex_offset = ?off\<rparr> \<and> 0 < len \<and> len < 256 \<and> len \<le> unat n \<and>
      (\<forall>k < len. block_of es (unat (io_Offset_lo (fsb s)) div 512 + k) = Some (bn + k))"
    if t: "table m ex k = es" for m ex k
    using find_extent_block [of m ex k ?off bn n] wf b n unfolding t o(1)
    using o(2) unfolding o(1) by blast
  show ?thesis
  proof (cases "indirect (core s) di")
    case False
    then have "table (core s) (di_extents di) EFS_DIRECTEXTENTS = es"
      using f by (simp add: efs_file_def file_extents_def Let_def)
    from main [OF this] show ?thesis
      using False f efs_frame_refl by (fastforce simp: bmap_def di indirect_def [symmetric])
  next
    case True
    note i = this
    show ?thesis
    proof (cases "cached di s")
      case True
      then have "table (core s) (indirectExtents (glob s)) MAXEXTENTS = es"
        using f i by (simp add: efs_file_def file_extents_def Let_def)
      from main [OF this] show ?thesis
        using True i f efs_frame_refl
        by (fastforce simp: bmap_def di indirect_def [symmetric] load_indirect_def cached_def Let_def)
    next
      case False
      obtain s1 where r: "load_indirect ev di s = Some (Some (indirectExtents (glob s)), s1)"
        and f1: "efs_file ev di es sz s1" and t: "table (core s1) (indirectExtents (glob s)) MAXEXTENTS = es"
        and e: "efs_frame (cache_area di s) s s1" "io_Offset_lo (fsb s1) = io_Offset_lo (fsb s)"
          "\<forall>b. block_of es b \<noteq> Some (unat (io_StartBlock (fsb s1)))" "cache_area di s1 = cache_area di s"
        using fetched_cache [OF f i False] by blast
      obtain len where l: "find_extent (core s1) (indirectExtents (glob s)) MAXEXTENTS ?off n =
          Some \<lparr>ex_bn = of_nat bn, ex_length = of_nat len, ex_offset = ?off\<rparr>"
        "0 < len" "len < 256" "len \<le> unat n"
        "\<forall>k < len. block_of es (unat (io_Offset_lo (fsb s)) div 512 + k) = Some (bn + k)"
        using main [OF t] by blast
      have "bmap ev n s = Some (Some \<lparr>ex_bn = of_nat bn, ex_length = of_nat len, ex_offset = ?off\<rparr>, s1)"
        using i l(1) by (simp add: bmap_def di indirect_def [symmetric] r e(2))
      then show ?thesis
        using l f1 e by blast
    qed
  qed
qed

lemma file_run:
  assumes "\<forall>k < len. block_of es (b + k) = Some (bn + k)" "j < 512 * len"
  shows "file_byte dev key es (512 * b + j) = disk_byte dev ((key + of_nat bn) * 512 + of_nat j)"
proof -
  have "(512 * b + j) div 512 = b + j div 512" "(512 * b + j) mod 512 = j mod 512"
    by simp_all
  moreover have "j div 512 < len"
    using assms(2) by (simp add: less_mult_imp_div_less)
  ultimately have "file_byte dev key es (512 * b + j) =
      disk_byte dev ((key + of_nat (bn + j div 512)) * 512 + of_nat (j mod 512))"
    using assms(1) by (simp add: file_byte_def del: distrib_right_numeral)
  moreover have "(key + of_nat (bn + j div 512)) * 512 + of_nat (j mod 512) =
      (key + of_nat bn) * 512 + (of_nat (512 * (j div 512) + j mod 512) :: u32)"
    by (simp only: of_nat_add of_nat_mult) (simp add: algebra_simps)
  ultimately show ?thesis
    by (simp only: mult_div_mod_eq)
qed

text \<open>A read of blocks of the file, to \<open>dst\<close>.\<close>

lemma efs_fetch_run:
  assumes f: "efs_file ev di es sz s" and e: "\<forall>k < len. block_of es (b + k) = Some (bn + k)"
    and l: "0 < len" "len < 256" "512 * (b + len) \<le> 512 * ((sz + 511) div 512)"
    and ne: "io_StartBlock (fsb s) \<noteq> of_nat bn \<or> i \<noteq> 512"
  shows "efs_fetch ev i dst \<lparr>ex_bn = of_nat bn, ex_length = of_nat len, ex_offset = x\<rparr> s =
    Some (Some (of_nat (512 * len)), s\<lparr>fsb := (fsb s)\<lparr>io_StartBlock := of_nat bn, io_Address := dst,
        io_Count := of_nat (512 * len)\<rparr>,
      core := with_disk (efs_disk ev) ((key_of s + of_nat bn) * 512) (512 * len) dst (core s)\<rparr>)"
proof -
  define off where "off = (key_of s + of_nat bn) * 512"
  have n: "unat (of_nat (512 * len) :: u32) = 512 * len"
    using l(2) by (subst unat_of_nat_32) simp_all
  have "BBTOB (of_nat len) = of_nat (512 * len)"
    by (simp add: BBTOB_def push_bit_eq_mult)
  note c = this
  have "readable (efs_disk ev) off (512 * len)"
    unfolding readable_def
  proof (intro allI impI)
    fix j
    assume j: "j < 512 * len"
    then have "512 * b + j < 512 * ((sz + 511) div 512)"
      using l(3) by simp
    then have "file_byte (efs_disk ev) (key_of s) es (512 * b + j) \<noteq> None"
      using f by (simp add: efs_file_def)
    then show "disk_byte (efs_disk ev) (off + of_nat j) \<noteq> None"
      using file_run [OF e j] by (simp add: off_def)
  qed
  then have "readable (efs_disk ev) ((key_of s + of_nat bn) * 512) (unat (of_nat (512 * len) :: u32))"
    unfolding n off_def .
  note d = DEVREAD_set [OF this, of dst, unfolded n]
  show ?thesis
    using ne unfolding efs_fetch_def extent.simps c set_io_def Let_def d by simp
qed



text \<open>From \<open>s\<close> to \<open>s'\<close>, \<open>n\<close> bytes of the file have been stored at \<open>buf\<close>, and otherwise only
the block buffer and the cache of extents have changed.\<close>

definition efs_moved ::
  "'h efs_env \<Rightarrow> u32 \<Rightarrow> extent list \<Rightarrow> nat \<Rightarrow> u32 \<Rightarrow> nat \<Rightarrow> ('f, 'h) efs_run \<Rightarrow> ('f, 'h) efs_run \<Rightarrow> bool"
where
  "efs_moved ev di es sz buf n s s' \<longleftrightarrow>
    efs_file ev di es sz s' \<and> io_Offset_lo (fsb s') = io_Offset_lo (fsb s) + of_nat n \<and>
    (\<forall>k < n. core s' (buf + of_nat k) =
       the (file_byte (efs_disk ev) (key_of s) es (unat (io_Offset_lo (fsb s)) + k))) \<and>
    efs_frame (cache_area di s \<union> area (fsb_Buffer (fsb s)) 512 \<union> area buf n) s s' \<and>
    cache_area di s' = cache_area di s"

text \<open>Where a read may store.\<close>

definition dst_ok :: "u32 \<Rightarrow> u32 \<Rightarrow> nat \<Rightarrow> ('f, 'h) efs_run \<Rightarrow> bool" where
  "dst_ok di buf n s \<longleftrightarrow>
    area buf n \<inter> (kept_area di s \<union> cache_area di s \<union> area (fsb_Buffer (fsb s)) 512) = {}"

text \<open>The block at the offset is no longer the one the device was last asked for.\<close>

definition other_block :: "extent list \<Rightarrow> ('f, 'h) efs_run \<Rightarrow> bool" where
  "other_block es s \<longleftrightarrow> (\<forall>bn. unat (io_Offset_lo (fsb s)) mod 512 = 0 \<longrightarrow>
     block_of es (unat (io_Offset_lo (fsb s)) div 512) = Some bn \<longrightarrow> io_StartBlock (fsb s) \<noteq> of_nat bn)"

lemma efs_frame_run:
  "efs_frame A s (s\<lparr>fsb := (fsb s)\<lparr>io_StartBlock := sb, io_Address := ad, io_Count := ct, io_Offset_lo := lo\<rparr>,
     core := m\<rparr>) \<longleftrightarrow> same_on (- A) (core s) m"
  by (auto simp: efs_frame_def)

lemma aligned_unat: "x AND BBMASK = 0 \<longleftrightarrow> unat x mod 512 = 0"
  using and_mask_unat(3) [of x] by (simp add: BBMASK_def unat_eq_0 [symmetric] del: unat_eq_0)

lemma block_at_offset:
  assumes "efs_file ev di es sz s" "unat (io_Offset_lo (fsb s)) < sz"
  obtains bn where "block_of es (unat (io_Offset_lo (fsb s)) div 512) = Some bn" "bn < 2 ^ 24"
proof -
  let ?lo = "unat (io_Offset_lo (fsb s))"
  have "?lo < 512 * ((sz + 511) div 512)"
    using assms(2) by linarith
  then have "file_byte (efs_disk ev) (key_of s) es ?lo \<noteq> None"
    using assms(1) unfolding efs_file_def by blast
  then obtain bn where "block_of es (?lo div 512) = Some bn"
    by (auto simp: file_byte_def split: option.splits)
  then show thesis
    using that block_of_bound assms(1) unfolding efs_file_def by blast
qed

lemma other_block_bn:
  assumes "block_of es b = Some bn" "\<forall>b. block_of es b \<noteq> Some (unat sb)" "bn < 2 ^ 24"
  shows "sb \<noteq> (of_nat bn :: u32)"
proof
  assume "sb = of_nat bn"
  moreover have "unat (of_nat bn :: u32) = bn"
    using assms(3) by (intro unat_of_nat_32) simp
  ultimately show False
    using assms(1,2) by metis
qed

lemma blocks_le: "512 * k \<le> n + 511 \<Longrightarrow> 512 * k \<le> 512 * ((n + 511) div (512 :: nat))"
  by (simp add: less_eq_div_iff_mult_less_eq mult.commute)

lemma efs_direct_step:
  assumes f: "efs_file ev di es sz s" and d: "efs_direct count buf s" and c: "unat count < 2 ^ 31"
    and e: "unat (io_Offset_lo (fsb s)) + unat count \<le> sz" and o: "dst_ok di buf (unat count) s"
    and ne: "unat count div 512 = 512 \<longrightarrow> other_block es s"
  shows "\<exists>i s'. efs_read_step ev count buf s = Some (Some (of_nat i), s') \<and> 0 < i \<and> i \<le> unat count \<and>
    efs_moved ev di es sz buf i s s' \<and> other_block es s'"
proof -
  let ?lo = "io_Offset_lo (fsb s)" and ?n = "BTOBBT count"
  have n: "unat ?n = unat count div 512"
    by (rule unat_BTOBBT)
  have "0 < unat ?n"
    using d by (simp add: efs_direct_def unat_gt_0)
  note n = n this
  then have p: "0 < sint ?n"
    using c unfolding sint_pos_iff n(1) by simp
  have wf: "wf_extents es"
    using f by (simp add: efs_file_def)
  have al: "unat ?lo mod 512 = 0"
    using d by (simp add: efs_direct_def aligned_unat)
  have "unat ?lo < sz"
    using e n by (cases "unat count") simp_all
  then obtain bn where bn: "block_of es (unat ?lo div 512) = Some bn" "bn < 2 ^ 24"
    using block_at_offset [OF f] by blast
  obtain s1 len where b: "bmap ev ?n s = Some (Some \<lparr>ex_bn = of_nat bn, ex_length = of_nat len, ex_offset = BTOBBT ?lo\<rparr>, s1)"
    and l: "0 < len" "len < 256" "len \<le> unat ?n" "\<forall>k < len. block_of es (unat ?lo div 512 + k) = Some (bn + k)"
    and s1: "efs_file ev di es sz s1" "efs_frame (cache_area di s) s s1" "io_Offset_lo (fsb s1) = ?lo"
      "cache_area di s1 = cache_area di s"
      "io_StartBlock (fsb s1) = io_StartBlock (fsb s) \<or> (\<forall>b. block_of es b \<noteq> Some (unat (io_StartBlock (fsb s1))))"
    using bmap_run [OF f bn(1) p] by blast
  let ?i = "512 * len"
  have i1: "unat (of_nat ?i :: u32) = ?i"
    using l(2) by (intro unat_of_nat_32) simp
  have "?i \<le> unat count"
    using l(3) n(1) by (simp add: less_eq_div_iff_mult_less_eq mult.commute)
  note i = i1 this
  have sb: "io_StartBlock (fsb s1) \<noteq> of_nat bn \<or> ?n \<noteq> 512"
  proof (rule ccontr)
    assume a: "\<not> ?thesis"
    then have "?n = 512" "io_StartBlock (fsb s1) = of_nat bn"
      by simp_all
    moreover from this(1) have "unat count div 512 = 512"
      using n(1) by simp
    ultimately show False
      using ne al bn other_block_bn [OF bn(1) _ bn(2), of "io_StartBlock (fsb s1)"] s1(5)
      by (auto simp: other_block_def)
  qed
  have "512 * (unat ?lo div 512) = unat ?lo"
    using al by auto
  then have last: "512 * (unat ?lo div 512 + len) \<le> 512 * ((sz + 511) div 512)"
    using e i(2) by (intro blocks_le) simp
  let ?off = "(key_of s1 + of_nat bn) * 512"
  define m where "m = with_disk (efs_disk ev) ?off ?i buf (core s1)"
  let ?s' = "s1\<lparr>fsb := (fsb s1)\<lparr>io_StartBlock := -1, io_Address := buf, io_Count := of_nat ?i,
     io_Offset_lo := ?lo + of_nat ?i\<rparr>, core := m\<rparr>"
  have run: "efs_read_step ev count buf s = Some (Some (of_nat ?i), ?s')"
    using d efs_fetch_run [OF s1(1) l(4,1,2) last sb, of buf "BTOBBT ?lo"]
    by (simp add: efs_read_step_def b efs_deliver_def set_io_def s1(3) m_def)
  have fr: "efs_frame (area buf ?i) s1 ?s'"
    unfolding efs_frame_run m_def by (rule same_on_sym [OF with_disk_same]) blast
  have sub: "area buf ?i \<subseteq> area buf (unat count)"
    using i(2) by (rule area_mono)
  have o1: "area buf ?i \<inter> (kept_area di s1 \<union> cache_area di s1) = {}"
    using o sub efs_frame_fsb(4) [OF s1(2), of di] unfolding dst_ok_def s1(4) by blast
  have same: "same_on (kept_area di s1 \<union> cache_area di s1) (core s1) (core ?s')"
    using fr o1 unfolding efs_frame_def same_on_def by blast
  have fl: "efs_file ev di es sz ?s'"
    by (rule efs_file_frame [OF s1(1)]) (use same in simp_all)
  have cd: "cache_area di ?s' = cache_area di s"
    using kept_fields(6) [of di "core s1" m] same unfolding s1(4) [symmetric]
    by (auto simp: cache_area_def kept_area_def same_on_def)
  have key: "key_of s1 = key_of s"
    by (rule efs_frame_fsb(5) [OF s1(2)])
  have "efs_moved ev di es sz buf ?i s ?s'"
    unfolding efs_moved_def
  proof (intro conjI allI impI fl cd)
    show "io_Offset_lo (fsb ?s') = ?lo + of_nat ?i"
      by simp
    fix k
    assume k: "k < ?i"
    then have "unat (of_nat k :: u32) = k"
      using l(2) by (subst unat_of_nat_32) simp_all
    then have "m (buf + of_nat k) = the (disk_byte (efs_disk ev) (?off + of_nat k))"
      using k by (simp add: m_def with_disk_def)
    moreover have "512 * (unat ?lo div 512) = unat ?lo"
      using al by auto
    ultimately show "core ?s' (buf + of_nat k) = the (file_byte (efs_disk ev) (key_of s) es (unat ?lo + k))"
      using file_run [OF l(4) k, of "efs_disk ev" "key_of s"] unfolding key by simp
  next
    show "efs_frame (cache_area di s \<union> area (fsb_Buffer (fsb s)) 512 \<union> area buf ?i) s ?s'"
      by (rule efs_frame_trans [OF s1(2) fr]) blast
  qed
  moreover have "other_block es ?s'"
  proof -
    have "(-1 :: u32) \<noteq> of_nat b" if "b < 2 ^ 24" for b
    proof
      assume "(-1 :: u32) = of_nat b"
      then have "of_nat b + 1 = (0 :: u32)"
        by (metis add.left_inverse)
      then have "of_nat (b + 1) = (0 :: u32)"
        by (simp only: of_nat_add of_nat_1)
      then show False
        using that unat_of_nat_32 [of "b + 1"] by simp
    qed
    then show ?thesis
      using block_of_bound [OF wf] unfolding other_block_def by simp
  qed
  ultimately show ?thesis
    using run l(1) i(2) by (intro exI [of _ ?i] exI [of _ ?s']) simp
qed

lemma with_disk_inside:
  assumes "d < n" "n \<le> 2 ^ 32"
  shows "with_disk dev off n p m (p + of_nat d) = the (disk_byte dev (off + of_nat d))"
  using assms by (simp add: with_disk_def unat_of_nat_32)

lemma efs_buffered_step:
  assumes f: "efs_file ev di es sz s" and d: "\<not> efs_direct count buf s" and c: "0 < unat count" "unat count < 2 ^ 31"
    and e: "unat (io_Offset_lo (fsb s)) + unat count \<le> sz" and o: "dst_ok di buf (unat count) s"
  shows "\<exists>i s'. efs_read_step ev count buf s = Some (Some (of_nat i), s') \<and> 0 < i \<and> i \<le> unat count \<and>
    efs_moved ev di es sz buf i s s' \<and> other_block es s'"
proof -
  let ?lo = "io_Offset_lo (fsb s)" and ?B = "fsb_Buffer (fsb s)"
  have wf: "wf_extents es"
    using f by (simp add: efs_file_def)
  have lt: "unat ?lo < sz"
    using e c by linarith
  then obtain bn where bn: "block_of es (unat ?lo div 512) = Some bn" "bn < 2 ^ 24"
    using block_at_offset [OF f] by blast
  have one: "0 < sint (1 :: u32)"
    by simp
  obtain s1 len where b: "bmap ev 1 s = Some (Some \<lparr>ex_bn = of_nat bn, ex_length = of_nat len, ex_offset = BTOBBT ?lo\<rparr>, s1)"
    and "0 < len" "len < 256" "len \<le> unat (1 :: u32)" and ls: "\<forall>k < len. block_of es (unat ?lo div 512 + k) = Some (bn + k)"
    and s1: "efs_file ev di es sz s1" "efs_frame (cache_area di s) s s1" "io_Offset_lo (fsb s1) = ?lo"
      "cache_area di s1 = cache_area di s"
    using bmap_run [OF f bn(1) one] by blast
  then have l: "len = 1"
    by simp
  have key: "key_of s1 = key_of s" and buffer: "fsb_Buffer (fsb s1) = ?B"
    by (rule efs_frame_fsb [OF s1(2)])+
  have last: "512 * (unat ?lo div 512 + 1) \<le> 512 * ((sz + 511) div 512)"
    using lt by (intro blocks_le) simp
  let ?off = "(key_of s1 + of_nat bn) * 512"
  let ?w = "with_disk (efs_disk ev) ?off 512 ?B (core s1)"
  have nb: "?B \<noteq> buf"
  proof
    assume "?B = buf"
    then have "buf \<in> area buf (unat count)" "buf \<in> area ?B 512"
      using c by (simp_all add: area_def)
    then show False
      using o unfolding dst_ok_def by blast
  qed
  define skip where "skip = unat ?lo mod 512"
  define i where "i = min (512 - skip) (unat count)"
  have sk: "skip < 512"
    by (simp add: skip_def)
  have i: "0 < i" "i \<le> unat count" "skip + i \<le> 512"
    using c(1) sk by (simp_all add: i_def)
  have ui: "unat (of_nat i :: u32) = i"
    using i c by (intro unat_of_nat_32) simp
  have bt: "unat (BBTOB (BTOBBT ?lo)) = 512 * (unat ?lo div 512)"
    using unat_lt_32 [of ?lo] by (subst unat_BBTOB) (simp_all add: unat_BTOBBT)
  then have so: "unat (?lo - BBTOB (BTOBBT ?lo)) = skip"
    by (subst unat_sub) (simp_all add: word_le_nat_alt skip_def minus_mult_div_eq_mod)
  have off1: "?lo - BBTOB (BTOBBT ?lo) = of_nat skip"
    by (simp only: so [symmetric]) simp
  have off2: "unat (of_nat skip :: u32) = skip"
    using sk by (intro unat_of_nat_32) simp
  note off = off1 off2
  have rest: "unat (512 - of_nat skip :: u32) = 512 - skip"
    using sk off(2) by (subst unat_sub) (simp_all add: word_le_nat_alt)
  have sm: "smin (512 - of_nat skip) count = of_nat i"
    using c sk ui unfolding word_unat_eq_iff by (subst unat_smin) (simp_all add: rest i_def)
  have pos: "\<not> sint (of_nat skip :: u32) < 0" "\<not> sint (of_nat i :: u32) \<le> 0"
    using sk i c sint_of_nat_32 [of skip] sint_of_nat_32 [of i] by simp_all
  define m where "m = bcopy (?B + of_nat skip) buf (of_nat i) ?w"
  let ?s' = "s1\<lparr>fsb := (fsb s1)\<lparr>io_StartBlock := of_nat bn, io_Address := ?B, io_Count := 512,
     io_Offset_lo := ?lo + of_nat i\<rparr>, core := m\<rparr>"
  have run: "efs_read_step ev count buf s = Some (Some (of_nat i), ?s')"
    using d efs_fetch_run [OF s1(1) ls [unfolded l] _ _ last, of 1 ?B "BTOBBT ?lo"] nb pos
    by (simp add: efs_read_step_def b l efs_deliver_def set_io_def s1(3) m_def off BBTOB_def [of 1] sm buffer Let_def)
  have "unat (a - buf) < i" if "a - buf < of_nat i" for a :: u32
    using that ui by (simp add: word_less_nat_alt)
  then have bc: "a \<notin> area buf i \<Longrightarrow> m a = ?w a" for a
    unfolding m_def bcopy_def area_def by auto
  have "same_on (- (area ?B 512 \<union> area buf i)) (core s1) m"
    using bc with_disk_same [of "- area ?B 512" ?B 512 "efs_disk ev" ?off "core s1"]
    by (auto simp: same_on_def)
  then have fr: "efs_frame (area ?B 512 \<union> area buf i) s1 ?s'"
    unfolding efs_frame_run .
  have sub: "area buf i \<subseteq> area buf (unat count)"
    using i(2) by (rule area_mono)
  have "kept_area di s1 = kept_area di s"
    by (rule efs_frame_fsb [OF s1(2)])
  moreover have "area ?B 512 \<inter> (kept_area di s \<union> cache_area di s) = {}"
    using f unfolding efs_file_def by blast
  ultimately have "(area ?B 512 \<union> area buf i) \<inter> (kept_area di s1 \<union> cache_area di s1) = {}"
    using o sub unfolding dst_ok_def s1(4) by blast
  then have same: "same_on (kept_area di s1 \<union> cache_area di s1) (core s1) (core ?s')"
    using fr unfolding efs_frame_def same_on_def by blast
  have fl: "efs_file ev di es sz ?s'"
    by (rule efs_file_frame [OF s1(1)]) (use same in simp_all)
  have cd: "cache_area di ?s' = cache_area di s"
    using kept_fields(6) [of di "core s1" m] same unfolding s1(4) [symmetric]
    by (auto simp: cache_area_def kept_area_def same_on_def)
  have "efs_moved ev di es sz buf i s ?s'"
    unfolding efs_moved_def
  proof (intro conjI allI impI fl cd)
    show "io_Offset_lo (fsb ?s') = ?lo + of_nat i"
      by simp
    fix k
    assume k: "k < i"
    then have uk: "unat (of_nat k :: u32) = k"
      using i c by (intro unat_of_nat_32) simp
    have ks: "skip + k < 512"
      using k i by simp
    have "m (buf + of_nat k) = ?w (?B + of_nat skip + of_nat k)"
      using k uk ui by (simp add: m_def bcopy_def word_less_nat_alt)
    also have "\<dots> = ?w (?B + of_nat (skip + k))"
      by (simp add: add.assoc)
    also have "\<dots> = the (disk_byte (efs_disk ev) (?off + of_nat (skip + k)))"
      using ks by (intro with_disk_inside) simp_all
    also have "\<dots> = the (file_byte (efs_disk ev) (key_of s) es (512 * (unat ?lo div 512) + (skip + k)))"
      using file_run [OF ls, of "skip + k" "efs_disk ev" "key_of s"] ks unfolding key l by simp
    also have "512 * (unat ?lo div 512) + (skip + k) = unat ?lo + k"
      by (simp add: skip_def)
    finally show "core ?s' (buf + of_nat k) = the (file_byte (efs_disk ev) (key_of s) es (unat ?lo + k))"
      by simp
  next
    show "efs_frame (cache_area di s \<union> area ?B 512 \<union> area buf i) s ?s'"
      by (rule efs_frame_trans [OF s1(2) fr]) blast
  qed
  moreover have "other_block es ?s'"
    unfolding other_block_def
  proof (intro allI impI)
    fix bn'
    assume a: "unat (io_Offset_lo (fsb ?s')) mod 512 = 0"
      and b': "block_of es (unat (io_Offset_lo (fsb ?s')) div 512) = Some bn'"
    have "sz < 2 ^ 31"
      using f by (simp add: efs_file_def)
    then have u: "unat (io_Offset_lo (fsb ?s')) = unat ?lo + i"
      using e i(2) unat_add_small [of ?lo i] by simp
    have "unat ?lo = 512 * (unat ?lo div 512) + skip"
      by (simp add: skip_def)
    then have lo: "unat ?lo + i = 512 * (unat ?lo div 512) + (skip + i)"
      by simp
    have "(skip + i) mod 512 = 0"
      using a unfolding u lo by simp
    then have "skip + i = 512"
      using i by (cases "skip + i = 512") simp_all
    then have "(unat ?lo + i) div 512 = unat ?lo div 512 + 1"
      unfolding lo by simp
    then have "block_of es (unat ?lo div 512 + 1) = Some bn'"
      using b' unfolding u by simp
    then have "bn' \<noteq> bn" "bn' < 2 ^ 24"
      using block_of_inj [OF wf bn(1)] block_of_bound [OF wf] by fastforce+
    then show "io_StartBlock (fsb ?s') \<noteq> of_nat bn'"
      using bn(2) by (simp add: word_unat_eq_iff unat_of_nat_32)
  qed
  ultimately show ?thesis
    using run i(1,2) by (intro exI [of _ i] exI [of _ ?s']) simp
qed



lemma area_tail:
  assumes "i \<le> n" "n \<le> 2 ^ 31"
  shows "area (buf + of_nat i) (n - i) \<subseteq> area buf n"
    "k < i \<Longrightarrow> buf + of_nat k \<notin> area (buf + of_nat i) (n - i)"
proof -
  have ui: "unat (of_nat i :: u32) = i"
    using assms by (intro unat_of_nat_32) simp
  show "area (buf + of_nat i) (n - i) \<subseteq> area buf n"
  proof
    fix a
    assume "a \<in> area (buf + of_nat i) (n - i)"
    then have "unat (a - (buf + of_nat i)) + i < n"
      by (simp add: area_def)
    moreover from this assms have "unat (a - (buf + of_nat i) + of_nat i) = unat (a - (buf + of_nat i)) + i"
      by (intro unat_add_small) simp
    ultimately show "a \<in> area buf n"
      by (simp add: area_def)
  qed
  show "buf + of_nat k \<notin> area (buf + of_nat i) (n - i)" if "k < i"
  proof
    assume "buf + of_nat k \<in> area (buf + of_nat i) (n - i)"
    then have "unat (of_nat k - of_nat i :: u32) < n - i"
      by (simp add: area_def)
    moreover have "unat (of_nat k - of_nat i :: u32) = 2 ^ 32 + k - i"
      using that ui assms unat_of_nat_32 [of k] by (simp add: unat_sub_if')
    ultimately show False
      using that assms by simp
  qed
qed

lemma efs_moved_trans:
  assumes a: "efs_moved ev di es sz buf i s s1" and b: "efs_moved ev di es sz (buf + of_nat i) (n - i) s1 s'"
    and o: "dst_ok di buf n s" and n: "i \<le> n" "n < 2 ^ 31" and lo: "unat (io_Offset_lo (fsb s)) + n < 2 ^ 31"
  shows "efs_moved ev di es sz buf n s s'"
proof -
  let ?lo = "io_Offset_lo (fsb s)"
  have fr: "efs_frame (cache_area di s \<union> area (fsb_Buffer (fsb s)) 512 \<union> area buf i) s s1"
    and c1: "cache_area di s1 = cache_area di s" and lo1: "io_Offset_lo (fsb s1) = ?lo + of_nat i"
    using a by (simp_all add: efs_moved_def)
  note k = efs_frame_fsb [OF fr]
  have fr1: "efs_frame (cache_area di s \<union> area (fsb_Buffer (fsb s)) 512 \<union> area (buf + of_nat i) (n - i)) s1 s'"
    using b k(3) c1 by (simp add: efs_moved_def)
  have n31: "n \<le> 2 ^ 31"
    using n(2) by simp
  note t = area_tail [OF n(1) n31, where buf = buf]
  have u1: "unat (io_Offset_lo (fsb s1)) = unat ?lo + i"
    unfolding lo1 using lo n by (intro unat_add_small) simp
  show ?thesis
    unfolding efs_moved_def
  proof (intro conjI allI impI)
    show "efs_file ev di es sz s'" "cache_area di s' = cache_area di s"
      using b c1 by (simp_all add: efs_moved_def)
    have "of_nat i + of_nat (n - i) = (of_nat n :: u32)"
      using n(1) by (simp add: of_nat_diff)
    then show "io_Offset_lo (fsb s') = ?lo + of_nat n"
      using b lo1 by (simp add: efs_moved_def add.assoc)
    have "area buf i \<subseteq> area buf n"
      using n(1) by (rule area_mono)
    then show "efs_frame (cache_area di s \<union> area (fsb_Buffer (fsb s)) 512 \<union> area buf n) s s'"
      using t(1) by (intro efs_frame_trans [OF fr fr1]) blast
  next
    fix j
    assume j: "j < n"
    let ?b = "the (file_byte (efs_disk ev) (key_of s) es (unat ?lo + j))"
    show "core s' (buf + of_nat j) = ?b"
    proof (cases "j < i")
      case True
      have "buf + of_nat j \<in> area buf n"
        using j n by (simp add: area_def unat_of_nat_32)
      then have "buf + of_nat j \<notin> cache_area di s \<union> area (fsb_Buffer (fsb s)) 512 \<union> area (buf + of_nat i) (n - i)"
        using o t(2) [OF True] unfolding dst_ok_def by blast
      then have "core s' (buf + of_nat j) = core s1 (buf + of_nat j)"
        using fr1 unfolding efs_frame_def same_on_def by (metis ComplI)
      then show ?thesis
        using a True by (simp add: efs_moved_def)
    next
      case False
      then have "core s' (buf + of_nat i + of_nat (j - i)) =
          the (file_byte (efs_disk ev) (key_of s1) es (unat (io_Offset_lo (fsb s1)) + (j - i)))"
        using b j unfolding efs_moved_def by (metis diff_less_mono not_less)
      moreover have "buf + of_nat i + of_nat (j - i) = buf + of_nat j"
        using False by (simp add: of_nat_diff)
      ultimately show ?thesis
        using False u1 k(5) by simp
    qed
  qed
qed

lemma efs_moved_none: "efs_file ev di es sz s \<Longrightarrow> efs_moved ev di es sz buf 0 s s"
  by (simp add: efs_moved_def efs_frame_refl)

lemma dst_ok_tail:
  assumes "dst_ok di buf n s" "efs_moved ev di es sz buf i s s1" "i \<le> n" "n \<le> 2 ^ 31"
  shows "dst_ok di (buf + of_nat i) (n - i) s1"
proof -
  have fr: "efs_frame (cache_area di s \<union> area (fsb_Buffer (fsb s)) 512 \<union> area buf i) s s1"
    and c1: "cache_area di s1 = cache_area di s"
    using assms(2) by (simp_all add: efs_moved_def)
  note k = efs_frame_fsb [OF fr]
  show ?thesis
    using assms(1) area_tail(1) [OF assms(3,4), where buf = buf] unfolding dst_ok_def k(3,4) c1 by blast
qed

lemma efs_read_loop_run:
  assumes "efs_file ev di es sz s" "unat (io_Offset_lo (fsb s)) + unat count \<le> sz" "dst_ok di buf (unat count) s"
    and "unat count div 512 = 512 \<longrightarrow> other_block es s"
  shows "\<exists>s'. efs_read_loop ev count buf s = Some (True, s') \<and> efs_moved ev di es sz buf (unat count) s s' \<and>
    (count \<noteq> 0 \<longrightarrow> other_block es s')"
  using assms
proof (induction "unat count" arbitrary: count buf s rule: less_induct)
  case less
  have sz: "sz < 2 ^ 31"
    using less.prems(1) by (simp add: efs_file_def)
  then have c: "unat count < 2 ^ 31"
    using less.prems(2) by simp
  show ?case
  proof (cases "count = 0")
    case True
    then show ?thesis
      using efs_moved_none [OF less.prems(1)] by (simp add: efs_read_loop.simps)
  next
    case False
    then have p: "0 < unat count" "0 < sint count"
      using c by (simp_all add: unat_gt_0 sint_pos_iff)
    obtain i s1 where st: "efs_read_step ev count buf s = Some (Some (of_nat i), s1)" and i: "0 < i" "i \<le> unat count"
      and m: "efs_moved ev di es sz buf i s s1" and ob: "other_block es s1"
      using efs_direct_step [OF less.prems(1) _ c less.prems(2-4)]
        efs_buffered_step [OF less.prems(1) _ p(1) c less.prems(2,3)] by blast
    have ui: "unat (of_nat i :: u32) = i"
      using i c by (intro unat_of_nat_32) simp
    then have cnt: "unat (count - of_nat i) = unat count - i"
      using i(2) by (subst unat_sub) (simp_all add: word_le_nat_alt)
    have f1: "efs_file ev di es sz s1" and "io_Offset_lo (fsb s1) = io_Offset_lo (fsb s) + of_nat i"
      using m by (simp_all add: efs_moved_def)
    then have lo1: "unat (io_Offset_lo (fsb s1)) = unat (io_Offset_lo (fsb s)) + i"
      using less.prems(2) i(2) sz unat_add_small [of "io_Offset_lo (fsb s)" i] by simp
    have "\<exists>s'. efs_read_loop ev (count - of_nat i) (buf + of_nat i) s1 = Some (True, s') \<and>
        efs_moved ev di es sz (buf + of_nat i) (unat (count - of_nat i)) s1 s' \<and>
        (count - of_nat i \<noteq> 0 \<longrightarrow> other_block es s')"
    proof (rule less.hyps)
      show "unat (count - of_nat i) < unat count"
        using i by (simp add: cnt)
      show "efs_file ev di es sz s1"
        by (rule f1)
      show "unat (io_Offset_lo (fsb s1)) + unat (count - of_nat i) \<le> sz"
        using less.prems(2) i(2) by (simp add: cnt lo1)
      show "dst_ok di (buf + of_nat i) (unat (count - of_nat i)) s1"
        unfolding cnt using dst_ok_tail [OF less.prems(3) m i(2)] c by simp
      show "unat (count - of_nat i) div 512 = 512 \<longrightarrow> other_block es s1"
        by (simp add: ob)
    qed
    then obtain s' where r: "efs_read_loop ev (count - of_nat i) (buf + of_nat i) s1 = Some (True, s')"
      and m1: "efs_moved ev di es sz (buf + of_nat i) (unat count - i) s1 s'"
      and ob1: "count - of_nat i \<noteq> 0 \<longrightarrow> other_block es s'"
      unfolding cnt by blast
    have "efs_read_loop ev count buf s = Some (True, s')"
      using p st r by (subst efs_read_loop.simps) simp
    moreover have "efs_moved ev di es sz buf (unat count) s s'"
      using less.prems(2) sz by (intro efs_moved_trans [OF m m1 less.prems(3) i(2) c]) simp
    moreover have "other_block es s'"
    proof (cases "count - of_nat i = 0")
      case True
      then have "s' = s1"
        using r by (simp add: efs_read_loop.simps)
      then show ?thesis
        using ob by simp
    qed (use ob1 in blast)
    ultimately show ?thesis
      by blast
  qed
qed

lemma efs_moved_count:
  assumes "efs_moved ev di es sz buf n s s'"
  shows "efs_moved ev di es sz buf n s (set_io (\<lambda>io. io\<lparr>io_Count := k\<rparr>) s')"
proof -
  let ?t = "set_io (\<lambda>io. io\<lparr>io_Count := k\<rparr>) s'"
  have "efs_file ev di es sz s'"
    using assms by (simp add: efs_moved_def)
  then have "efs_file ev di es sz ?t"
    by (rule efs_file_frame) (simp_all add: set_io_def same_on_def)
  moreover have fr: "efs_frame {} s' ?t"
    using efs_frame_run [where A = "{}" and s = s' and sb = "io_StartBlock (fsb s')" and ad = "io_Address (fsb s')"
      and ct = k and lo = "io_Offset_lo (fsb s')" and m = "core s'"]
    by (simp add: set_io_def same_on_def)
  moreover have "efs_frame A s s' \<Longrightarrow> efs_frame A s ?t" for A
    by (erule efs_frame_trans [OF _ fr]) simp
  moreover have "cache_area di ?t = cache_area di s'" "core ?t = core s'"
    "io_Offset_lo (fsb ?t) = io_Offset_lo (fsb s')"
    by (simp_all add: cache_area_def set_io_def)
  ultimately show ?thesis
    using assms by (simp add: efs_moved_def)
qed

text \<open>\<open>_efs_read\<close> on an open file: what is left of the file from the offset on, and not more
than asked for.\<close>

lemma efs_read_amount:
  assumes f: "efs_file ev di es sz s" and lo: "unat (io_Offset_lo (fsb s)) < 2 ^ 31"
    "unat (io_Offset_lo (fsb s)) + unat (io_Count (fsb s)) < 2 ^ 32"
    and n_def: "n = min (unat (io_Count (fsb s))) (sz - unat (io_Offset_lo (fsb s)))"
  shows "efs_read ev s = (if n = 0 then Some (0, set_io (\<lambda>io. io\<lparr>io_Count := 0\<rparr>) s)
    else do { (ok, s) \<leftarrow> efs_read_loop ev (of_nat n) (io_Address (fsb s)) s;
      Some (if ok then (0, set_io (\<lambda>io. io\<lparr>io_Count := of_nat n\<rparr>) s) else (EIO, s)) })"
proof -
  let ?lo = "io_Offset_lo (fsb s)" and ?cnt = "io_Count (fsb s)" and ?size = "di_size (core s) (fsb_to_inode s)"
  have sz: "unat ?size = sz" "sz < 2 ^ 31"
    using f by (simp_all add: efs_file_def)
  define count where "count = (if ?lo + ?cnt > ?size then ?size - ?lo else ?cnt)"
  have over: "?lo + ?cnt > ?size \<longleftrightarrow> sz < unat ?lo + unat ?cnt"
    using lo(2) sz(1) by (simp add: word_less_nat_alt unat_word_ariths)
  have c: "if n = 0 then sint count \<le> 0 else unat count = n"
  proof (cases "sz < unat ?lo + unat ?cnt")
    case True
    then have k: "count = ?size - ?lo"
      by (simp add: count_def over)
    show ?thesis
    proof (cases "unat ?lo < sz")
      case True
      then have "unat count = sz - unat ?lo"
        using sz(1) unfolding k by (simp add: unat_sub word_le_nat_alt)
      then show ?thesis
        using True \<open>sz < unat ?lo + unat ?cnt\<close> by (simp add: n_def)
    next
      case False
      have "\<not> 0 < sint count"
      proof (cases "unat ?lo = sz")
        case True
        then have "?size = ?lo"
          using sz(1) by (simp add: word_unat_eq_iff)
        then show ?thesis
          by (simp add: k)
      next
        case False
        then have "unat count = 2 ^ 32 + sz - unat ?lo"
          using \<open>\<not> unat ?lo < sz\<close> sz(1) unfolding k by (simp add: unat_sub_if')
        then show ?thesis
          using lo(1) unfolding sint_pos_iff by simp
      qed
      then show ?thesis
        using False by (simp add: n_def)
    qed
  next
    case False
    then have "count = ?cnt" "n = unat ?cnt"
      by (simp_all add: count_def over n_def)
    then show ?thesis
      using sint_pos_iff [of count] by auto
  qed
  have run: "efs_read ev s = (if sint count \<le> 0 then Some (0, set_io (\<lambda>io. io\<lparr>io_Count := 0\<rparr>) s)
      else do { (ok, s) \<leftarrow> efs_read_loop ev count (io_Address (fsb s)) s;
        Some (if ok then (0, set_io (\<lambda>io. io\<lparr>io_Count := count\<rparr>) s) else (EIO, s)) })"
    by (simp only: efs_read_def count_def Let_def)
  show ?thesis
  proof (cases "n = 0")
    case True
    then show ?thesis
      using c run by simp
  next
    case False
    then have "unat count = n"
      using c by simp
    moreover from this have "\<not> sint count \<le> 0"
      using False sz(2) sint_pos_iff [of count] by (simp add: n_def not_le)
    moreover from calculation(1) have ce: "count = of_nat n"
      by auto
    ultimately show ?thesis
      using False run unfolding ce by simp
  qed
qed

lemma efs_read_run:
  assumes f: "efs_file ev di es sz s" and lo: "unat (io_Offset_lo (fsb s)) < 2 ^ 31"
    "unat (io_Offset_lo (fsb s)) + unat (io_Count (fsb s)) < 2 ^ 32"
    and n: "n = min (unat (io_Count (fsb s))) (sz - unat (io_Offset_lo (fsb s)))"
    and o: "dst_ok di (io_Address (fsb s)) n s" and ne: "n div 512 = 512 \<longrightarrow> other_block es s"
  shows "\<exists>s'. efs_read ev s = Some (0, s') \<and> efs_moved ev di es sz (io_Address (fsb s)) n s s'"
proof (cases "n = 0")
  case True
  then show ?thesis
    using efs_read_amount [OF f lo n] efs_moved_count [OF efs_moved_none [OF f]] by simp
next
  case False
  have le: "unat (io_Offset_lo (fsb s)) + n \<le> sz"
    using False n by auto
  moreover have "sz < 2 ^ 31"
    using f by (simp add: efs_file_def)
  ultimately have u: "unat (of_nat n :: u32) = n"
    by (intro unat_of_nat_32) simp
  obtain s' where "efs_read_loop ev (of_nat n) (io_Address (fsb s)) s = Some (True, s')"
    and m: "efs_moved ev di es sz (io_Address (fsb s)) n s s'"
    using efs_read_loop_run [OF f, of "of_nat n" "io_Address (fsb s)", unfolded u, OF le o ne] by blast
  then show ?thesis
    using efs_read_amount [OF f lo n] False efs_moved_count [OF m] by simp
qed



section \<open>The skipped read\<close>

text \<open>With exactly 512 whole blocks to go, and the block at the offset the one the device was
last asked for, nothing is read, and the number of blocks is taken for the number of bytes.\<close>

lemma efs_skip_step:
  assumes f: "efs_file ev di es sz s" and d: "efs_direct count buf s" and n: "unat count div 512 = 512"
    and c: "\<not> indirect (core s) di \<or> cached di s"
    and b: "block_of es (unat (io_Offset_lo (fsb s)) div 512) = Some bn" "io_StartBlock (fsb s) = of_nat bn"
  shows "efs_read_step ev count buf s =
    Some (Some 512, s\<lparr>fsb := (fsb s)\<lparr>io_StartBlock := -1, io_Offset_lo := io_Offset_lo (fsb s) + 512\<rparr>\<rparr>)"
proof -
  have cnt: "BTOBBT count = 512"
    using n by (simp add: word_unat_eq_iff unat_BTOBBT)
  have p: "0 < sint (BTOBBT count)"
    by (simp add: cnt)
  obtain s1 len where bm: "bmap ev (BTOBBT count) s = Some (Some \<lparr>ex_bn = of_nat bn, ex_length = of_nat len,
      ex_offset = BTOBBT (io_Offset_lo (fsb s))\<rparr>, s1)"
    using bmap_run [OF f b(1) p] by blast
  moreover have "snd (the (bmap ev (BTOBBT count) s)) = s"
    using c f by (auto simp: bmap_def efs_file_def Let_def indirect_def [symmetric] load_indirect_def cached_def)
  ultimately have "s1 = s"
    by simp
  then show ?thesis
    using d b(2) bm by (simp add: efs_read_step_def efs_fetch_def cnt efs_deliver_def set_io_def)
qed

section \<open>Reading a descriptor\<close>

definition run_of :: "('f, 'h efs_globals) io \<Rightarrow> ('f, 'h) efs_run" where
  "run_of s = \<lparr>fsb = s_xfs_eiob s, core = mem s, glob = fs_state s\<rparr>"

text \<open>Descriptor \<open>fd\<close> is open on a file of the file system: inode \<open>di\<close>, extents \<open>es\<close>, length \<open>sz\<close>.\<close>

definition efs_fd :: "('f, 'h efs_globals) platform \<Rightarrow> 'h efs_env \<Rightarrow> nat \<Rightarrow> u32 \<Rightarrow> extent list \<Rightarrow> nat \<Rightarrow>
    ('f, 'h efs_globals) io \<Rightarrow> bool" where
  "efs_fd pl ev fd di es sz s \<longleftrightarrow> io_ok s \<and> 2 \<le> fd \<and> fd < MAX_FDS \<and>
     fd_Type (fd_table s ! fd) = FD_TYPE_XFS \<and> xfs_data (fd_table s ! fd) \<and>
     (\<exists>f. fsstrat (s_xfs_eiob s) = Some f \<and> strategy_of pl f = efs_strategy ev) \<and>
     efs_file ev di es sz (run_of s)"

text \<open>The control block as \<open>Read\<close> sets it.\<close>

definition asked :: "u32 \<Rightarrow> u32 \<Rightarrow> u32 \<Rightarrow> ('f, 'h) efs_run \<Rightarrow> ('f, 'h) efs_run" where
  "asked buf len pos s = s\<lparr>fsb := (fsb s)\<lparr>io_Address := buf, io_Count := len, io_Offset_lo := pos,
     io_Offset_hi := 0, fsb_FunctionCode := FS_READ\<rparr>\<rparr>"

lemma asked_simps [simp]:
  "core (asked buf len pos s) = core s" "glob (asked buf len pos s) = glob s"
  "io_Address (fsb (asked buf len pos s)) = buf" "io_Count (fsb (asked buf len pos s)) = len"
  "io_Offset_lo (fsb (asked buf len pos s)) = pos" "io_Offset_hi (fsb (asked buf len pos s)) = 0"
  "io_StartBlock (fsb (asked buf len pos s)) = io_StartBlock (fsb s)"
  "fsb_Buffer (fsb (asked buf len pos s)) = fsb_Buffer (fsb s)"
  "key_of (asked buf len pos s) = key_of s" "kept_area di (asked buf len pos s) = kept_area di s"
  "cache_area di (asked buf len pos s) = cache_area di s"
  "cached di (asked buf len pos s) = cached di s"
  "efs_file ev di es sz (asked buf len pos s) = efs_file ev di es sz s"
  by (simp_all add: asked_def key_of_def kept_area_def cache_area_def cached_def efs_file_def fsb_to_inode_def
      file_extents_def indirect_ok_def Let_def)

lemma Read_efs:
  assumes "efs_fd pl ev fd di es sz s" "buf \<noteq> 0"
  shows "Read pl fd buf len s = (case efs_read ev (asked buf len (fd_pos fd s) (run_of s)) of
      None \<Rightarrow> None
    | Some (r, t) \<Rightarrow>
        (let s' = s\<lparr>s_xfs_eiob := fsb t, mem := core t, fs_state := glob t\<rparr>; off = io_Offset_lo (fsb t) in
         Some (if r = 0 then (0, off - fd_pos fd s, set_fd fd (\<lambda>e. e\<lparr>position := off\<rparr>) s') else (r, 0, s'))))"
proof -
  obtain f where f: "fsstrat (s_xfs_eiob s) = Some f" "strategy_of pl f = efs_strategy ev"
    using assms(1) by (auto simp: efs_fd_def)
  have fd: "fd \<noteq> 0" "fd < MAX_FDS" "fd_Type (fd_table s ! fd) = FD_TYPE_XFS" "xfs_data (fd_table s ! fd)"
    "ensure_fd_table s = s"
    using assms(1) by (auto simp: efs_fd_def io_ok_def ensure_fd_table_def)
  have e: "efs_strategy ev ((s_xfs_eiob s)\<lparr>io_Address := buf, io_Count := len, io_Offset_lo := fd_pos fd s,
      io_Offset_hi := 0, fsb_FunctionCode := FS_READ\<rparr>) (mem s) (fs_state s) =
    map_option (\<lambda>(r, t). (r, fsb t, core t, glob t)) (efs_read ev (asked buf len (fd_pos fd s) (run_of s)))"
    by (simp add: efs_strategy_def efs_strat_def run_of_def asked_def split: option.splits bind_splits)
  show ?thesis
    using fd assms(2) by (auto simp: Read_def Let_def call_strategy_def f e fd_pos_def [symmetric] split: option.splits)
qed

lemma file_byte_defined:
  assumes "efs_file ev di es sz s" "i < sz"
  shows "file_byte (efs_disk ev) (key_of s) es i \<noteq> None"
proof -
  have "i < 512 * ((sz + 511) div 512)"
    using assms(2) by linarith
  then show ?thesis
    using assms(1) unfolding efs_file_def by blast
qed

text \<open>The state after \<open>Read\<close> from the run of \<open>_efs_read\<close>.\<close>

lemma Read_efs_moved:
  assumes fd: "efs_fd pl ev fd di es sz s" and r: "efs_read ev (asked buf len (fd_pos fd s) (run_of s)) = Some (0, t)"
    and m: "efs_moved ev di es sz b k u t" and "buf \<noteq> 0" and u: "fsstrat (fsb u) = fsstrat (s_xfs_eiob s)"
    and pos: "io_Offset_lo (fsb u) + of_nat k = fd_pos fd s + of_nat n"
  shows "\<exists>s'. Read pl fd buf len s = Some (0, of_nat n, s') \<and> mem s' = core t \<and> run_of s' = t \<and>
    fd_pos fd s' = fd_pos fd s + of_nat n \<and> efs_fd pl ev fd di es sz s' \<and>
    (\<forall>j. j \<noteq> fd \<longrightarrow> fd_table s' ! j = fd_table s ! j)"
proof -
  let ?s' = "set_fd fd (\<lambda>e. e\<lparr>position := io_Offset_lo (fsb t)\<rparr>)
    (s\<lparr>s_xfs_eiob := fsb t, mem := core t, fs_state := glob t\<rparr>)"
  have off: "io_Offset_lo (fsb t) = fd_pos fd s + of_nat n"
    using m pos by (simp add: efs_moved_def)
  have l: "fd < length (fd_table s)" and g: "2 \<le> fd"
    using fd by (simp_all add: efs_fd_def io_ok_def)
  have t: "run_of ?s' = t"
    by (simp add: run_of_def set_fd_def)
  have strat: "fsstrat (fsb t) = fsstrat (s_xfs_eiob s)"
    using m u by (auto simp: efs_moved_def efs_frame_def)
  have "efs_file ev di es sz t"
    using m by (simp add: efs_moved_def)
  moreover have "io_ok ?s'"
    using fd g by (intro io_ok_set_fd) (simp_all add: efs_fd_def io_ok_def)
  moreover have "s_xfs_eiob ?s' = fsb t"
    by (simp add: set_fd_def)
  ultimately have "efs_fd pl ev fd di es sz ?s'"
    using fd l strat t by (auto simp: efs_fd_def)
  moreover have "Read pl fd buf len s = Some (0, of_nat n, ?s')"
    using Read_efs [OF fd assms(4), of len] r off by (simp add: Let_def)
  moreover have "fd_pos fd ?s' = fd_pos fd s + of_nat n"
    using l off by (simp add: fd_pos_def)
  ultimately show ?thesis
    using t by (intro exI [of _ ?s']) simp
qed

section \<open>Properties\<close>

text \<open>C5: \<open>Read\<close> on a descriptor of an EFS file.  It returns, with the smaller of the count
asked for and the rest of the file; the bytes in the destination are those the extents of the
inode point to on the disk; the position moves by their number, and the descriptor stays open
on the same file.  Nothing else in memory changes but the block buffer and, where the inode
has indirect extents, their cache.  The last hypothesis excludes one case: exactly 512 whole
blocks to read from the block the device was last asked for.\<close>

theorem efs_descriptor_reads:
  assumes "efs_fd pl ev fd di es sz s" "buf \<noteq> 0" "unat (fd_pos fd s) + unat len < 2 ^ 31"
    and "n = min (unat len) (sz - unat (fd_pos fd s))" "dst_ok di buf n (run_of s)"
    and "n div 512 = 512 \<longrightarrow>
      block_of es (unat (fd_pos fd s) div 512) \<noteq> Some (unat (io_StartBlock (s_xfs_eiob s)))"
  shows "\<exists>s'. Read pl fd buf len s = Some (0, of_nat n, s') \<and>
    (\<forall>i < n. Some (mem s' (buf + of_nat i)) =
       file_byte (efs_disk ev) (dev_Key (s_xfs_eiob s)) es (unat (fd_pos fd s) + i)) \<and>
    (\<forall>a. a \<notin> area buf n \<longrightarrow> a \<notin> area (fsb_Buffer (s_xfs_eiob s)) 512 \<longrightarrow> a \<notin> cache_area di (run_of s) \<longrightarrow>
       mem s' a = mem s a) \<and>
    fd_pos fd s' = fd_pos fd s + of_nat n \<and> efs_fd pl ev fd di es sz s' \<and>
    (\<forall>j. j \<noteq> fd \<longrightarrow> fd_table s' ! j = fd_table s ! j)"
proof -
  let ?s = "asked buf len (fd_pos fd s) (run_of s)"
  have f: "efs_file ev di es sz ?s" and fs: "efs_file ev di es sz (run_of s)"
    using assms(1) by (simp_all add: efs_fd_def)
  have "dst_ok di buf n ?s"
    using assms(5) by (simp add: dst_ok_def)
  moreover have "n div 512 = 512 \<longrightarrow> other_block es ?s"
  proof
    assume "n div 512 = 512"
    then have b: "block_of es (unat (fd_pos fd s) div 512) \<noteq> Some (unat (io_StartBlock (s_xfs_eiob s)))"
      using assms(6) by simp
    have "wf_extents es"
      using f by (simp add: efs_file_def)
    then have "unat (of_nat bn :: u32) = bn" if "block_of es (unat (fd_pos fd s) div 512) = Some bn" for bn
      using block_of_bound [OF _ that] by (intro unat_of_nat_32) simp
    then show "other_block es ?s"
      using b by (auto simp: other_block_def run_of_def)
  qed
  ultimately obtain t where r: "efs_read ev ?s = Some (0, t)"
    and m: "efs_moved ev di es sz buf n ?s t"
    using efs_read_run [OF f] assms(3,4) by auto
  obtain s' where s': "Read pl fd buf len s = Some (0, of_nat n, s')" "mem s' = core t"
    "fd_pos fd s' = fd_pos fd s + of_nat n" "efs_fd pl ev fd di es sz s'"
    "\<forall>j. j \<noteq> fd \<longrightarrow> fd_table s' ! j = fd_table s ! j"
    using Read_efs_moved [OF assms(1) r m assms(2)] by (auto simp: asked_def run_of_def)
  have key: "key_of (run_of s) = dev_Key (s_xfs_eiob s)" and buffer: "fsb_Buffer (fsb (run_of s)) = fsb_Buffer (s_xfs_eiob s)"
    and core: "core (run_of s) = mem s"
    by (simp_all add: run_of_def key_of_def)
  have "Some (mem s' (buf + of_nat i)) = file_byte (efs_disk ev) (dev_Key (s_xfs_eiob s)) es (unat (fd_pos fd s) + i)"
    if "i < n" for i
    using m that s'(2) file_byte_defined [OF fs, of "unat (fd_pos fd s) + i"] assms(4)
    by (auto simp: efs_moved_def key)
  moreover have "same_on (- (cache_area di (run_of s) \<union> area (fsb_Buffer (s_xfs_eiob s)) 512 \<union> area buf n)) (mem s) (mem s')"
    using m s'(2) by (simp add: efs_moved_def efs_frame_def buffer core)
  ultimately show ?thesis
    using s' unfolding same_on_def by (intro exI [of _ s']) simp
qed

text \<open>C23: the case excluded above.  \<open>_efs_read\<close> compares a number of blocks with the number of bytes
of one (\<open>i != BBSIZE\<close>), so of a read of 512 whole blocks that begins at the block last read, to an
aligned destination, the first turn of the loop reads nothing and advances by 512 bytes.  \<open>Read\<close>
reports success and the full count, the first 512 bytes of the destination are what they were,
and the bytes after them are right.\<close>

theorem efs_skips_block:
  assumes "efs_fd pl ev fd di es sz s" "buf \<noteq> 0" "unat (fd_pos fd s) + unat len < 2 ^ 31"
    and "n = min (unat len) (sz - unat (fd_pos fd s))" "dst_ok di buf n (run_of s)"
    and "n div 512 = 512" "unat (fd_pos fd s) mod 512 = 0" "unat buf mod 4 = 0"
    and "\<not> indirect (mem s) di \<or> cached di (run_of s)"
    and "block_of es (unat (fd_pos fd s) div 512) = Some (unat (io_StartBlock (s_xfs_eiob s)))"
  shows "\<exists>s'. Read pl fd buf len s = Some (0, of_nat n, s') \<and>
    (\<forall>i < 512. mem s' (buf + of_nat i) = mem s (buf + of_nat i)) \<and>
    (\<forall>i < n. 512 \<le> i \<longrightarrow> Some (mem s' (buf + of_nat i)) =
       file_byte (efs_disk ev) (dev_Key (s_xfs_eiob s)) es (unat (fd_pos fd s) + i))"
proof -
  let ?pos = "fd_pos fd s"
  let ?s = "asked buf len ?pos (run_of s)"
  let ?s1 = "?s\<lparr>fsb := (fsb ?s)\<lparr>io_StartBlock := -1, io_Offset_lo := ?pos + 512\<rparr>\<rparr>"
  have f: "efs_file ev di es sz ?s" and sz: "sz < 2 ^ 31"
    using assms(1) unfolding efs_fd_def by (simp, simp add: efs_file_def)
  have n: "512 * 512 \<le> n" "n < 513 * 512" "unat ?pos + n \<le> sz"
    using assms(4,6) by (auto simp: less_eq_div_iff_mult_less_eq div_less_iff_less_mult dest: eq_refl)
  have nd: "(n - 512) div 512 \<noteq> 512"
    using n(2) div_less_iff_less_mult [of 512 "n - 512" 512] by simp
  have un: "unat (of_nat n :: u32) = n" "unat (of_nat n - 512 :: u32) = n - 512"
    using n(1,2) unat_of_nat_32 [of n] unat_of_nat_32 [of "n - 512"] by (simp_all add: of_nat_diff)
  have lo1: "unat (?pos + 512) = unat ?pos + 512"
    using n sz unat_add_small [of ?pos 512] by simp
  have d: "efs_direct (of_nat n) buf ?s"
  proof -
    have "?pos AND BBMASK = 0"
      using assms(7) by (simp only: aligned_unat)
    moreover have "buf AND 3 = 0"
      using assms(8) and_mask_unat(4) [of buf] by (simp add: word_unat_eq_iff)
    moreover have "unat (BTOBBT (of_nat n)) = 512"
      using assms(6) by (simp add: unat_BTOBBT un)
    ultimately show ?thesis
      by (auto simp: efs_direct_def)
  qed
  have step: "efs_read_step ev (of_nat n) buf ?s = Some (Some 512, ?s1)"
    using efs_skip_step [OF f d, of "unat (io_StartBlock (s_xfs_eiob s))"] assms(6,9,10)
    by (simp add: un run_of_def)
  have f1: "efs_file ev di es sz ?s1"
    by (rule efs_file_frame [OF f]) (simp_all add: same_on_def)
  have area: "cache_area di ?s1 = cache_area di (run_of s)" "kept_area di ?s1 = kept_area di (run_of s)"
    "fsb_Buffer (fsb ?s1) = fsb_Buffer (s_xfs_eiob s)" "key_of ?s1 = dev_Key (s_xfs_eiob s)" "core ?s1 = mem s"
    "fsstrat (fsb ?s1) = fsstrat (s_xfs_eiob s)"
    by (simp_all add: cache_area_def kept_area_def asked_def run_of_def key_of_def)
  have n512: "512 \<le> n" "n \<le> 2 ^ 31"
    using n by simp_all
  have o: "dst_ok di (buf + 512) (n - 512) ?s1"
    using assms(5) area_tail(1) [OF n512, where buf = buf] unfolding dst_ok_def area by (simp add: run_of_def) blast
  obtain t where l: "efs_read_loop ev (of_nat n - 512) (buf + 512) ?s1 = Some (True, t)"
    and m: "efs_moved ev di es sz (buf + 512) (n - 512) ?s1 t"
    using efs_read_loop_run [OF f1, of "of_nat n - 512" "buf + 512", unfolded un] o n nd lo1 by auto
  let ?t = "set_io (\<lambda>io. io\<lparr>io_Count := of_nat n\<rparr>) t"
  have "efs_read_loop ev (of_nat n) buf ?s = Some (True, t)"
    using n un(1) step l by (subst efs_read_loop.simps) (simp add: sint_pos_iff)
  moreover have amount: "unat (io_Offset_lo (fsb ?s)) < 2 ^ 31"
    "unat (io_Offset_lo (fsb ?s)) + unat (io_Count (fsb ?s)) < 2 ^ 32"
    "n = min (unat (io_Count (fsb ?s))) (sz - unat (io_Offset_lo (fsb ?s)))"
    using assms(3,4) by simp_all
  ultimately have r: "efs_read ev ?s = Some (0, ?t)"
    using efs_read_amount [OF f amount] n(1) by simp
  have m': "efs_moved ev di es sz (buf + 512) (n - 512) ?s1 ?t"
    by (rule efs_moved_count [OF m])
  have pos: "io_Offset_lo (fsb ?s1) + of_nat (n - 512) = ?pos + of_nat n"
    using n by (simp add: of_nat_diff)
  obtain s' where s': "Read pl fd buf len s = Some (0, of_nat n, s')" "mem s' = core ?t"
    using Read_efs_moved [OF assms(1) r m' assms(2) area(6) pos] by blast
  have "mem s' (buf + of_nat i) = mem s (buf + of_nat i)" if "i < 512" for i
  proof -
    have "buf + of_nat i \<in> area buf n"
      using that n by (simp add: area_def unat_of_nat_32)
    then have "buf + of_nat i \<notin> cache_area di ?s1 \<union> area (fsb_Buffer (fsb ?s1)) 512 \<union> area (buf + 512) (n - 512)"
      using assms(5) area_tail(2) [OF n512 that, where buf = buf] unfolding dst_ok_def area by (simp add: run_of_def) blast
    then show ?thesis
      using m' s'(2) area(5) unfolding efs_moved_def efs_frame_def same_on_def by (metis ComplI)
  qed
  moreover have "Some (mem s' (buf + of_nat i)) = file_byte (efs_disk ev) (dev_Key (s_xfs_eiob s)) es (unat ?pos + i)"
    if "i < n" "512 \<le> i" for i
  proof -
    have "core ?t (buf + 512 + of_nat (i - 512)) =
        the (file_byte (efs_disk ev) (key_of ?s1) es (unat (io_Offset_lo (fsb ?s1)) + (i - 512)))"
      using m' that unfolding efs_moved_def by (metis diff_less_mono)
    moreover have "buf + 512 + of_nat (i - 512) = buf + of_nat i"
      using that by (simp add: of_nat_diff)
    moreover have "unat ?pos + i < sz"
      using that n by simp
    ultimately show ?thesis
      using s'(2) that lo1 file_byte_defined [OF f1, of "unat ?pos + i"] by (auto simp: area)
  qed
  ultimately show ?thesis
    using s'(1) by blast
qed

section \<open>A file of three extents\<close>

lemma area_disjoint:
  assumes "unat p + n \<le> unat q" "unat q + m \<le> 2 ^ 32"
  shows "area p n \<inter> area q m = {}"
proof -
  have False if "unat (a - p) < n" "unat (a - q) < m" for a
  proof -
    have "unat a = unat q + unat (a - q)"
      using unat_add_small [of q "unat (a - q)"] that(2) assms(2) by simp
    moreover have "unat (a - p) = unat a - unat p"
      using calculation assms(1) by (intro unat_sub) (simp add: word_le_nat_alt)
    ultimately show False
      using that(1) assms(1) by simp
  qed
  then show ?thesis
    by (auto simp: area_def)
qed

definition efs_sample_disk :: bootdisk where
  "efs_sample_disk k = ([BD_STATUS_READY], map (\<lambda>i. of_nat i + ucast k) [0..<512])"

definition efs_sample_mem :: memory where
  "efs_sample_mem = (\<lambda>_. 0)(0x1009 := 4, 0x100A := 0xB0, 0x101D := 3,
     0x1023 := 100, 0x1024 := 200, 0x102A := 1, 0x102B := 0x90, 0x102C := 200, 0x102F := 200,
     0x1032 := 2, 0x1033 := 0xBC, 0x1034 := 200, 0x1036 := 1, 0x1037 := 0x90, 0x2002 := 0x30, 0x2006 := 0x10)"

definition efs_sample_env :: "unit efs_env" where
  "efs_sample_env = \<lparr>efs_disk = efs_sample_disk, malloc_of = (\<lambda>_ h. (0x4000, h)),
     dmabuf_malloc_of = (\<lambda>_ h. (0x5000, h)), free_of = (\<lambda>_ h. h), dmabuf_free_of = (\<lambda>_ h. h), blksz_at = 0x3F00,
     getdirent_di = 0x3E00\<rparr>"

definition efs_sample_platform :: "(unit, unit efs_globals) platform" where
  "efs_sample_platform = \<lparr>disk = efs_sample_disk, strategy_of = (\<lambda>f. efs_strategy efs_sample_env), fs_installs = [],
     local_at = local_at sample_platform\<rparr>"

text \<open>The device was last asked for block \<open>sb\<close>.\<close>

definition efs_sample_io :: "u32 \<Rightarrow> (unit, unit efs_globals) io" where
  "efs_sample_io sb = \<lparr>mem = efs_sample_mem,
     fd_table = [sample_fd FD_TYPE_CONSOLE, sample_fd FD_TYPE_CONSOLE,
       (sample_fd FD_TYPE_XFS)\<lparr>position := 0, xfs_data := True\<rparr>] @ replicate 5 (sample_fd FD_TYPE_UNUSED),
     fd_table_inited = True, s_fs_init_done = True, fs_list = [],
     s_xfs_eiob = (s_xfs_eiob sample_io)\<lparr>io_StartBlock := sb, fsb_Buffer := 0x8000, fsb_FsPtr := 0x2000, fsstrat := Some ()\<rparr>,
     fs_state = \<lparr>indirectExtentsValid = False, indirectExtentsIno = 0, indirectExtents = 0x6000, heap = ()\<rparr>,
     uart_in = [], uart_out = []\<rparr>"

definition efs_sample_extents :: "extent list" where
  "efs_sample_extents = [\<lparr>ex_bn = 100, ex_length = 200, ex_offset = 0\<rparr>, \<lparr>ex_bn = 400, ex_length = 200, ex_offset = 200\<rparr>,
     \<lparr>ex_bn = 700, ex_length = 200, ex_offset = 400\<rparr>] @ replicate 9 \<lparr>ex_bn = 0, ex_length = 0, ex_offset = 0\<rparr>"

lemma efs_sample_table: "table efs_sample_mem 0x1020 12 = efs_sample_extents"
  by code_simp

lemma find_padded:
  "List.find (\<lambda>e. holds e b) (es @ replicate n \<lparr>ex_bn = x, ex_length = 0, ex_offset = y\<rparr>) =
    List.find (\<lambda>e. holds e b) es"
  by (induction es) (auto simp: find_None_iff holds_def)

lemma efs_sample_block:
  "block_of efs_sample_extents b = (if b < 200 then Some (100 + b) else if b < 400 then Some (200 + b)
     else if b < 600 then Some (300 + b) else None)"
  unfolding block_of_def efs_sample_extents_def find_padded by (auto simp: holds_def)

lemma efs_sample_wf: "wf_extents efs_sample_extents"
proof -
  have "\<forall>e \<in> set efs_sample_extents. unat (ex_bn e) + unat (ex_length e) \<le> 2 ^ 24"
    "\<forall>e \<in> set efs_sample_extents. \<forall>e' \<in> set efs_sample_extents. \<forall>b. holds e b \<longrightarrow> holds e' b \<longrightarrow> e = e'"
    by (auto simp: efs_sample_extents_def holds_def)
  moreover have "\<forall>b b' n. block_of efs_sample_extents b = Some n \<longrightarrow> block_of efs_sample_extents b' = Some n \<longrightarrow> b = b'"
    unfolding efs_sample_block by (auto split: if_splits)
  ultimately show ?thesis
    by (simp add: wf_extents_def)
qed

lemma efs_sample_byte: "disk_byte efs_sample_disk a \<noteq> None"
  by (simp add: disk_byte_def bd_read_sector_def efs_sample_disk_def BD_STATUS_READY_def BD_STATUS_ERROR_def)

lemma efs_sample_fd: "efs_fd efs_sample_platform efs_sample_env 2 0x1000 efs_sample_extents 307200 (efs_sample_io sb)"
proof -
  have "\<not> indirect efs_sample_mem 0x1000"
    by (simp add: indirect_def di_numextents_def lds16_def ld16_def efs_sample_mem_def EFS_DIRECTEXTENTS_def)
  moreover have "unat (di_size efs_sample_mem 0x1000) = 307200"
    by (simp add: di_size_def ld32_def efs_sample_mem_def)
  moreover have "ld32 efs_sample_mem 0x2004 = 0x1000"
    by (simp add: ld32_def efs_sample_mem_def)
  moreover have "file_byte efs_sample_disk k efs_sample_extents i \<noteq> None" if "i < 307200" for k i
    using that efs_sample_byte by (simp add: file_byte_def efs_sample_block less_mult_imp_div_less)
  moreover have "area 0x8000 512 \<inter> (area 0x2000 8 \<union> area 0x1000 128) = {}"
    using area_disjoint [of "0x2000" 8 "0x8000" 512] area_disjoint [of "0x1000" 128 "0x8000" 512] by auto
  ultimately have "efs_file efs_sample_env 0x1000 efs_sample_extents 307200 (run_of (efs_sample_io sb))"
    using efs_sample_table efs_sample_wf
    by (simp add: efs_file_def run_of_def efs_sample_io_def fsb_to_inode_def file_extents_def di_extents_def
        EFS_DIRECTEXTENTS_def cache_area_def kept_area_def efs_sample_env_def Let_def)
  then show ?thesis
    by (simp add: efs_fd_def io_ok_def efs_sample_platform_def) (simp add: efs_sample_io_def sample_fd_def MAX_FDS_def)
qed

lemma efs_sample_pos: "fd_pos 2 (efs_sample_io sb) = 0" "s_xfs_eiob (efs_sample_io sb) =
    (s_xfs_eiob sample_io)\<lparr>io_StartBlock := sb, fsb_Buffer := 0x8000, fsb_FsPtr := 0x2000, fsstrat := Some ()\<rparr>"
  by (simp_all add: fd_pos_def efs_sample_io_def)

lemma efs_sample_direct: "\<not> indirect (mem (efs_sample_io sb)) 0x1000"
  by (simp add: indirect_def di_numextents_def lds16_def ld16_def efs_sample_mem_def EFS_DIRECTEXTENTS_def efs_sample_io_def)

lemma efs_sample_dst:
  assumes "n \<le> 2 ^ 31"
  shows "dst_ok 0x1000 0x100000 n (run_of (efs_sample_io sb))"
proof -
  have "area 0x2000 8 \<inter> area 0x100000 n = {}" "area 0x1000 128 \<inter> area 0x100000 n = {}"
    "area 0x8000 512 \<inter> area 0x100000 n = {}"
    using assms by (intro area_disjoint; simp)+
  then show ?thesis
    using efs_sample_direct [of sb] by (auto simp: dst_ok_def kept_area_def cache_area_def run_of_def efs_sample_pos)
qed

lemma efs_sample_above: "0x3000 \<le> unat a \<Longrightarrow> efs_sample_mem a = 0"
  by (auto simp: efs_sample_mem_def)

lemma efs_descriptor_reads_witness:
  "\<exists>s'. Read efs_sample_platform 2 0x100000 1000 (efs_sample_io 0) = Some (0, 1000, s') \<and> fd_pos 2 s' = 1000"
proof -
  have p: "unat (fd_pos 2 (efs_sample_io 0)) + unat (1000 :: u32) < 2 ^ 31"
    "1000 = min (unat (1000 :: u32)) (307200 - unat (fd_pos 2 (efs_sample_io 0)))"
    "dst_ok 0x1000 0x100000 1000 (run_of (efs_sample_io 0))"
    by (simp_all add: efs_sample_pos efs_sample_dst)
  have "\<exists>s'. Read efs_sample_platform 2 0x100000 1000 (efs_sample_io 0) = Some (0, of_nat 1000, s') \<and>
      fd_pos 2 s' = fd_pos 2 (efs_sample_io 0) + of_nat 1000"
    using efs_descriptor_reads [OF efs_sample_fd _ p] by fastforce
  then show ?thesis
    by (simp add: efs_sample_pos)
qed

lemma efs_skips_block_witness:
  "\<exists>s'. Read efs_sample_platform 2 0x100000 262144 (efs_sample_io 100) = Some (0, 262144, s') \<and>
    (\<forall>i < 512. mem s' (0x100000 + of_nat i) = 0)"
proof -
  have p: "unat (fd_pos 2 (efs_sample_io 100)) + unat (262144 :: u32) < 2 ^ 31"
    "262144 = min (unat (262144 :: u32)) (307200 - unat (fd_pos 2 (efs_sample_io 100)))"
    "dst_ok 0x1000 0x100000 262144 (run_of (efs_sample_io 100))" "(262144 :: nat) div 512 = 512"
    "unat (fd_pos 2 (efs_sample_io 100)) mod 512 = 0" "unat (0x100000 :: u32) mod 4 = 0"
    "\<not> indirect (mem (efs_sample_io 100)) 0x1000 \<or> cached 0x1000 (run_of (efs_sample_io 100))"
    "block_of efs_sample_extents (unat (fd_pos 2 (efs_sample_io 100)) div 512) =
      Some (unat (io_StartBlock (s_xfs_eiob (efs_sample_io 100))))"
    using efs_sample_direct [of 100] by (simp_all add: efs_sample_pos efs_sample_dst efs_sample_block)
  have "mem (efs_sample_io 100) (0x100000 + of_nat i) = 0" if "i < 512" for i
    using that unat_add_small [of "0x100000" i] by (simp add: efs_sample_io_def efs_sample_above)
  moreover have "\<exists>s'. Read efs_sample_platform 2 0x100000 262144 (efs_sample_io 100) = Some (0, of_nat 262144, s') \<and>
      (\<forall>i < 512. mem s' (0x100000 + of_nat i) = mem (efs_sample_io 100) (0x100000 + of_nat i))"
    using efs_skips_block [OF efs_sample_fd _ p] by fastforce
  ultimately show ?thesis
    by simp
qed

end
