(* ===== verification/Xfs.thy ===== *)
theory Xfs
imports Efs "HOL-Library.Signed_Division"
begin

text \<open>The XFS file system: \<open>src/libsc/xfs/xfs.c\<close>, \<open>xfs_inode.c\<close> and \<open>xfs_bit.c\<close>, over the layouts of
\<open>sys/fs/xfs_*.h\<close>.  \<open>Xfsdir\<close> has the directories and \<open>Xfsopen\<close> what is built on them.

Structures on the disk are read out of buffers in memory.  The structures of the driver
(\<open>xfs_info_t\<close>, and of \<open>xfs_mount_t\<close> and \<open>xfs_inode_t\<close> the fields it reads) are records in stores of
their own, at the addresses the allocator gave, since their layout depends on kernel lock types;
what their pointers point to (lists of extents, inline data, roots of trees) is in memory, the
inline part of an inode at its offset in the structure.  The allocator and the disk are
parameters, as in \<open>Efs\<close>.  \<open>None\<close> is a routine that does not return, or that stores through a null
pointer.  A shift count beyond the width, which C leaves undefined and only a damaged superblock
gives, shifts everything out.  Messages are left out.\<close>

unbundle bit_operations_syntax

section \<open>Layout\<close>

definition ld64 :: "memory \<Rightarrow> u32 \<Rightarrow> u64" where
  "ld64 m a = push_bit 32 (ucast (ld32 m a)) OR ucast (ld32 m (a + 4))"

definition st16 :: "u32 \<Rightarrow> u32 \<Rightarrow> memory \<Rightarrow> memory" where
  "st16 a v m = m(a := ucast (drop_bit 8 v), a + 1 := ucast v)"

definition bzero :: "u32 \<Rightarrow> u32 \<Rightarrow> memory \<Rightarrow> memory" where
  "bzero p n m = (\<lambda>a. if a - p < n then 0 else m a)"

subsection \<open>Bits\<close>

definition highbit_runs :: "(nat \<times> int) list" where
  "highbit_runs = [(1, -1), (1, 0), (2, 1), (4, 2), (8, 3), (16, 4), (32, 5), (64, 6), (128, 7)]"

definition xfs_highbit :: "int list" where
  "xfs_highbit = concat (map (\<lambda>(n, v). replicate n v) highbit_runs)"

definition xfs_highbit32 :: "u32 \<Rightarrow> int" where
  "xfs_highbit32 v =
    (if v AND 0xffff0000 \<noteq> 0 then
       if v AND 0xff000000 \<noteq> 0 then 24 + xfs_highbit ! unat (drop_bit 24 v AND 0xff)
       else 16 + xfs_highbit ! unat (drop_bit 16 v AND 0xff)
     else if v AND 0x0000ffff \<noteq> 0 then
       if v AND 0x0000ff00 \<noteq> 0 then 8 + xfs_highbit ! unat (drop_bit 8 v AND 0xff)
       else xfs_highbit ! unat (v AND 0xff)
     else -1)"

definition XFS_MASK32LO :: "nat \<Rightarrow> u32" where "XFS_MASK32LO n = push_bit n 1 - 1"
definition XFS_INO_MASK :: "nat \<Rightarrow> u32" where "XFS_INO_MASK k = ucast (push_bit k (1 :: u64) - 1)"

subsection \<open>The superblock\<close>

record xfs_sb =
  sb_magicnum :: u32
  sb_blocksize :: u32
  sb_dblocks :: u64
  sb_rootino :: u64
  sb_agblocks :: u32
  sb_agcount :: u32
  sb_versionnum :: u32
  sb_inodesize :: u32
  sb_blocklog :: nat
  sb_inodelog :: nat
  sb_inopblog :: nat
  sb_agblklog :: nat
  sb_dirblklog :: nat

definition xfs_sb_at :: "memory \<Rightarrow> u32 \<Rightarrow> xfs_sb" where
  "xfs_sb_at m a = \<lparr>sb_magicnum = ld32 m a, sb_blocksize = ld32 m (a + 4), sb_dblocks = ld64 m (a + 8),
     sb_rootino = ld64 m (a + 56), sb_agblocks = ld32 m (a + 84), sb_agcount = ld32 m (a + 88),
     sb_versionnum = ld16 m (a + 100), sb_inodesize = ld16 m (a + 104), sb_blocklog = unat (m (a + 120)),
     sb_inodelog = unat (m (a + 122)), sb_inopblog = unat (m (a + 123)), sb_agblklog = unat (m (a + 124)),
     sb_dirblklog = unat (m (a + 192))\<rparr>"

definition sizeof_sb :: u32 where "sizeof_sb = 200"

definition XFS_SB_MAGIC :: u32 where "XFS_SB_MAGIC = 0x58465342"
definition XFS_SB_VERSION_NUMBITS :: u32 where "XFS_SB_VERSION_NUMBITS = 0x000f"
definition XFS_SB_VERSION_OKSASHBITS :: u32 where "XFS_SB_VERSION_OKSASHBITS = 0x000f OR 0x0ff0 OR (0x1000 OR 0x2000)"

definition XFS_SB_VERSION_NUM :: "xfs_sb \<Rightarrow> u32" where
  "XFS_SB_VERSION_NUM sbp = sb_versionnum sbp AND XFS_SB_VERSION_NUMBITS"

definition XFS_SB_GOOD_SASH_VERSION :: "xfs_sb \<Rightarrow> bool" where
  "XFS_SB_GOOD_SASH_VERSION sbp \<longleftrightarrow>
    (sb_versionnum sbp \<ge> 1 \<and> sb_versionnum sbp \<le> 3) \<or>
    (XFS_SB_VERSION_NUM sbp = 4 \<and> sb_versionnum sbp AND NOT XFS_SB_VERSION_OKSASHBITS = 0)"

definition XFS_SB_VERSION_HASDIRV2 :: "xfs_sb \<Rightarrow> bool" where
  "XFS_SB_VERSION_HASDIRV2 sbp \<longleftrightarrow> XFS_SB_VERSION_NUM sbp = 4 \<and> sb_versionnum sbp AND 0x2000 \<noteq> 0"

subsection \<open>The mount structure\<close>

record xfs_mount =
  m_sb :: xfs_sb
  m_blkbb_log :: nat
  m_agno_log :: nat
  m_agino_log :: nat
  m_litino :: u32
  m_blockmask :: u32
  m_bmap_dmxr :: "u32 \<times> u32"
  m_dirblksize :: u32
  m_dirblkfsbs :: u32

definition XFS_FSB_TO_BB :: "xfs_mount \<Rightarrow> u32 \<Rightarrow> u32" where
  "XFS_FSB_TO_BB mp n = push_bit (m_blkbb_log mp) n"

definition XFS_FSB_TO_B :: "xfs_mount \<Rightarrow> u32 \<Rightarrow> u64" where
  "XFS_FSB_TO_B mp n = push_bit (sb_blocklog (m_sb mp)) (scast n)"

definition XFS_B_TO_FSB :: "xfs_mount \<Rightarrow> u64 \<Rightarrow> u64" where
  "XFS_B_TO_FSB mp b = drop_bit (sb_blocklog (m_sb mp)) (b + ucast (m_blockmask mp))"

definition XFS_B_TO_FSBT :: "xfs_mount \<Rightarrow> u64 \<Rightarrow> u64" where
  "XFS_B_TO_FSBT mp b = drop_bit (sb_blocklog (m_sb mp)) b"

definition XFS_B_FSB_OFFSET :: "xfs_mount \<Rightarrow> u32 \<Rightarrow> u32" where
  "XFS_B_FSB_OFFSET mp b = b AND m_blockmask mp"

definition XFS_AGB_TO_FSB :: "xfs_mount \<Rightarrow> u32 \<Rightarrow> u32 \<Rightarrow> u32" where
  "XFS_AGB_TO_FSB mp agno agbno = push_bit (sb_agblklog (m_sb mp)) agno OR agbno"

definition XFS_AGB_TO_DADDR :: "xfs_mount \<Rightarrow> u32 \<Rightarrow> u32 \<Rightarrow> u32" where
  "XFS_AGB_TO_DADDR mp agno agbno = XFS_FSB_TO_BB mp (agno * sb_agblocks (m_sb mp) + agbno)"

definition XFS_FSB_TO_AGNO :: "xfs_mount \<Rightarrow> u32 \<Rightarrow> u32" where
  "XFS_FSB_TO_AGNO mp fsbno = drop_bit (sb_agblklog (m_sb mp)) fsbno"

definition XFS_FSB_TO_AGBNO :: "xfs_mount \<Rightarrow> u32 \<Rightarrow> u32" where
  "XFS_FSB_TO_AGBNO mp fsbno = fsbno AND XFS_MASK32LO (sb_agblklog (m_sb mp))"

definition XFS_FSB_TO_DADDR :: "xfs_mount \<Rightarrow> u32 \<Rightarrow> u32" where
  "XFS_FSB_TO_DADDR mp fsbno = XFS_AGB_TO_DADDR mp (XFS_FSB_TO_AGNO mp fsbno) (XFS_FSB_TO_AGBNO mp fsbno)"

definition XFS_INO_TO_AGNO :: "xfs_mount \<Rightarrow> u64 \<Rightarrow> u32" where
  "XFS_INO_TO_AGNO mp i = ucast (drop_bit (m_agino_log mp) i)"

definition XFS_INO_TO_AGBNO :: "xfs_mount \<Rightarrow> u64 \<Rightarrow> u32" where
  "XFS_INO_TO_AGBNO mp i = drop_bit (sb_inopblog (m_sb mp)) (ucast i) AND XFS_INO_MASK (sb_agblklog (m_sb mp))"

definition XFS_INO_TO_OFFSET :: "xfs_mount \<Rightarrow> u64 \<Rightarrow> u32" where
  "XFS_INO_TO_OFFSET mp i = ucast i AND XFS_INO_MASK (sb_inopblog (m_sb mp))"

subsection \<open>Inodes\<close>

record xfs_dinode_core =
  xdi_magic :: u32
  xdi_mode :: u32
  xdi_version :: int
  xdi_format :: int
  xdi_onlink :: u32
  xdi_nlink :: u32
  xdi_size :: u64
  xdi_nextents :: u32
  xdi_forkoff :: u32

definition dinode_core_at :: "memory \<Rightarrow> u32 \<Rightarrow> xfs_dinode_core" where
  "dinode_core_at m a = \<lparr>xdi_magic = ld16 m a, xdi_mode = ld16 m (a + 2), xdi_version = sint (m (a + 4)),
     xdi_format = sint (m (a + 5)), xdi_onlink = ld16 m (a + 6), xdi_nlink = ld32 m (a + 16),
     xdi_size = ld64 m (a + 56), xdi_nextents = ld32 m (a + 76), xdi_forkoff = ucast (m (a + 82))\<rparr>"

text \<open>The literal area of an inode, after the core and \<open>di_next_unlinked\<close>.\<close>

definition di_u :: "u32 \<Rightarrow> u32" where "di_u dip = dip + 100"

definition XFS_DINODE_MAGIC :: u32 where "XFS_DINODE_MAGIC = 0x494e"
definition XFS_DINODE_FMT_DEV :: int where "XFS_DINODE_FMT_DEV = 0"
definition XFS_DINODE_FMT_LOCAL :: int where "XFS_DINODE_FMT_LOCAL = 1"
definition XFS_DINODE_FMT_EXTENTS :: int where "XFS_DINODE_FMT_EXTENTS = 2"
definition XFS_DINODE_FMT_BTREE :: int where "XFS_DINODE_FMT_BTREE = 3"

definition mode_special :: "u32 \<Rightarrow> bool" where
  "mode_special mode \<longleftrightarrow> mode AND IFMT \<in> {0x1000, 0x2000, 0x6000, 0xC000}"

definition mode_data :: "u32 \<Rightarrow> bool" where
  "mode_data mode \<longleftrightarrow> mode AND IFMT \<in> {0x8000, 0xA000, 0x4000}"

definition XFS_CFORK_DSIZE :: "xfs_dinode_core \<Rightarrow> xfs_mount \<Rightarrow> u32" where
  "XFS_CFORK_DSIZE dcp mp = (if xdi_forkoff dcp \<noteq> 0 then push_bit 3 (xdi_forkoff dcp) else m_litino mp)"

definition XFS_IFINLINE :: u8 where "XFS_IFINLINE = 1"
definition XFS_IFEXTENTS :: u8 where "XFS_IFEXTENTS = 2"
definition XFS_IFBROOT :: u8 where "XFS_IFBROOT = 4"
definition XFS_INLINE_EXTS :: int where "XFS_INLINE_EXTS = 2"
definition XFS_INLINE_DATA :: u32 where "XFS_INLINE_DATA = 32"

text \<open>The in-core inode, and the offset of the union with its inline data.\<close>

record xfs_inode =
  i_mount :: u32
  i_ino :: u64
  i_d :: xfs_dinode_core
  if_bytes :: u32
  if_real_bytes :: u32
  if_broot :: u32
  if_broot_bytes :: u16
  if_flags :: u8
  if_lastex :: u32
  if_u1 :: u32

definition if_u2 :: "u32 \<Rightarrow> u32" where "if_u2 ip = ip + 96"

section \<open>State\<close>

record xfs_info =
  xfs_mp :: u32
  xfs_ip :: u32

record 'h xfs_globals =
  xinfos :: "u32 \<Rightarrow> xfs_info"
  mounts :: "u32 \<Rightarrow> xfs_mount"
  inodes :: "u32 \<Rightarrow> xfs_inode"
  xheap :: 'h

text \<open>Parameters: the disk, the allocator, the sizes of the two kernel structures, the address of
the inode on the stack of \<open>_xfs_getdirent\<close>, and what the stack holds where \<open>_xfs_read\<close> keeps the
offset of its extent and \<open>_xfs_dirv1_node_lookup\<close> its result before they set it.\<close>

record 'h xfs_env =
  xfs_disk :: bootdisk
  xmalloc_of :: "u32 \<Rightarrow> 'h \<Rightarrow> u32 \<times> 'h"
  xdmabuf_malloc_of :: "u32 \<Rightarrow> 'h \<Rightarrow> u32 \<times> 'h"
  xfree_of :: "u32 \<Rightarrow> 'h \<Rightarrow> 'h"
  xdmabuf_free_of :: "u32 \<Rightarrow> 'h \<Rightarrow> 'h"
  sizeof_mount :: u32
  sizeof_inode :: u32
  dirent_ip :: u32
  stack_offset :: u32
  stack_retval :: bool

record ('f, 'h) xfs_run =
  blk :: "'f eiob"
  ram :: memory
  xg :: "'h xfs_globals"

definition set_blk :: "('f eiob \<Rightarrow> 'f eiob) \<Rightarrow> ('f, 'h) xfs_run \<Rightarrow> ('f, 'h) xfs_run" where
  "set_blk f s = s\<lparr>blk := f (blk s)\<rparr>"

definition set_xg :: "('h xfs_globals \<Rightarrow> 'h xfs_globals) \<Rightarrow> ('f, 'h) xfs_run \<Rightarrow> ('f, 'h) xfs_run" where
  "set_xg f s = s\<lparr>xg := f (xg s)\<rparr>"

definition set_ram :: "(memory \<Rightarrow> memory) \<Rightarrow> ('f, 'h) xfs_run \<Rightarrow> ('f, 'h) xfs_run" where
  "set_ram f s = s\<lparr>ram := f (ram s)\<rparr>"

definition xfs_error :: "int \<Rightarrow> ('f, 'h) xfs_run \<Rightarrow> int \<times> ('f, 'h) xfs_run" where
  "xfs_error e s = (e, set_blk (\<lambda>io. io\<lparr>io_ErrorNumber := e\<rparr>) s)"

definition fsb_mount :: "('f, 'h) xfs_run \<Rightarrow> u32" where
  "fsb_mount s = xfs_mp (xinfos (xg s) (fsb_FsPtr (blk s)))"

definition fsb_inode :: "('f, 'h) xfs_run \<Rightarrow> u32" where
  "fsb_inode s = xfs_ip (xinfos (xg s) (fsb_FsPtr (blk s)))"

definition mount_at :: "('f, 'h) xfs_run \<Rightarrow> u32 \<Rightarrow> xfs_mount" where
  "mount_at s p = mounts (xg s) p"

definition inode_at :: "('f, 'h) xfs_run \<Rightarrow> u32 \<Rightarrow> xfs_inode" where
  "inode_at s p = inodes (xg s) p"

definition set_inode :: "u32 \<Rightarrow> (xfs_inode \<Rightarrow> xfs_inode) \<Rightarrow> ('f, 'h) xfs_run \<Rightarrow> ('f, 'h) xfs_run" where
  "set_inode ip f = set_xg (\<lambda>g. g\<lparr>inodes := (inodes g)(ip := f (inodes g ip))\<rparr>)"

definition set_mount :: "u32 \<Rightarrow> (xfs_mount \<Rightarrow> xfs_mount) \<Rightarrow> ('f, 'h) xfs_run \<Rightarrow> ('f, 'h) xfs_run" where
  "set_mount mp f = set_xg (\<lambda>g. g\<lparr>mounts := (mounts g)(mp := f (mounts g mp))\<rparr>)"

definition xalloc :: "(u32 \<Rightarrow> 'h \<Rightarrow> u32 \<times> 'h) \<Rightarrow> u32 \<Rightarrow> ('f, 'h) xfs_run \<Rightarrow> u32 \<times> ('f, 'h) xfs_run" where
  "xalloc al n s = (case al n (xheap (xg s)) of (p, h) \<Rightarrow> (p, set_xg (\<lambda>g. g\<lparr>xheap := h\<rparr>) s))"

definition xrelease :: "(u32 \<Rightarrow> 'h \<Rightarrow> 'h) \<Rightarrow> u32 \<Rightarrow> ('f, 'h) xfs_run \<Rightarrow> ('f, 'h) xfs_run" where
  "xrelease fr p = set_xg (\<lambda>g. g\<lparr>xheap := fr p (xheap g)\<rparr>)"

section \<open>Reading the device\<close>

definition xfs_devread :: "'h xfs_env \<Rightarrow> ('f, 'h) xfs_run \<Rightarrow> (u32 \<times> ('f, 'h) xfs_run) option" where
  "xfs_devread ev s = do {
     (r, m) \<leftarrow> pv_disk_strategy (xfs_disk ev) (dev_Key (blk s)) (io_StartBlock (blk s)) (io_Count (blk s))
       (io_Address (blk s)) True (ram s);
     Some (if r = 0 then io_Count (blk s) else -1, s\<lparr>ram := m\<rparr>) }"

definition xfs_lbread ::
  "'h xfs_env \<Rightarrow> u32 \<Rightarrow> u32 \<Rightarrow> u32 \<Rightarrow> ('f, 'h) xfs_run \<Rightarrow> (bool \<times> ('f, 'h) xfs_run) option" where
  "xfs_lbread ev bn buf len s = do {
     let len = BBTOB (BTOBB len);
     (r, s) \<leftarrow> xfs_devread ev (set_blk (\<lambda>io. io\<lparr>io_Count := len, io_Address := buf, io_StartBlock := bn\<rparr>) s);
     Some (r = len, s) }"

text \<open>The superblock goes to a buffer, which is never freed, and from there to \<open>sbp\<close>.\<close>

definition xfs_get_superblock ::
  "'h xfs_env \<Rightarrow> (u32 \<Rightarrow> ('f, 'h) xfs_run \<Rightarrow> ('f, 'h) xfs_run) \<Rightarrow> ('f, 'h) xfs_run \<Rightarrow>
    (bool \<times> ('f, 'h) xfs_run) option"
where
  "xfs_get_superblock ev copy_to_sbp s =
    (case xalloc (xdmabuf_malloc_of ev) (BBTOB (BTOBB sizeof_sb)) s of (buf, s) \<Rightarrow>
       if buf = 0 then Some (False, s)
       else do {
         (ret, s) \<leftarrow> xfs_lbread ev 0 buf sizeof_sb s;
         Some (ret, if ret then copy_to_sbp buf s else s) })"

definition good_sb :: "xfs_sb \<Rightarrow> bool" where
  "good_sb sbp \<longleftrightarrow> sb_magicnum sbp = XFS_SB_MAGIC \<and> XFS_SB_GOOD_SASH_VERSION sbp"

definition xfs_checkfs :: "'h xfs_env \<Rightarrow> ('f, 'h) xfs_run \<Rightarrow> (int \<times> ('f, 'h) xfs_run) option" where
  "xfs_checkfs ev s =
    (case xalloc (xdmabuf_malloc_of ev) (BBTOB (BTOBB sizeof_sb)) s of (sbp, s) \<Rightarrow>
       if sbp = 0 then Some (ENOMEM, s)
       else do {
         let s = set_ram (bzero sbp sizeof_sb) s;
         (ok, s) \<leftarrow> xfs_get_superblock ev (\<lambda>buf. set_ram (bcopy buf sbp sizeof_sb)) s;
         let ret = (if ok \<and> good_sb (xfs_sb_at (ram s) sbp) then 0 else EINVAL);
         Some (ret, xrelease (xdmabuf_free_of ev) sbp s) })"

section \<open>Inodes of the disk\<close>

definition xfs_dilocate :: "xfs_mount \<Rightarrow> u64 \<Rightarrow> u32 \<times> u32" where
  "xfs_dilocate mp ino = (XFS_AGB_TO_FSB mp (XFS_INO_TO_AGNO mp ino) (XFS_INO_TO_AGBNO mp ino), XFS_INO_TO_OFFSET mp ino)"

record xfs_imap_t =
  im_blkno :: u32
  im_len :: u32
  im_agblkno :: u32
  im_ioffset :: u16
  im_boffset :: u16

definition xfs_imap :: "xfs_mount \<Rightarrow> u64 \<Rightarrow> xfs_imap_t" where
  "xfs_imap mp ino =
    (case xfs_dilocate mp ino of (fsbno, off) \<Rightarrow>
       \<lparr>im_blkno = XFS_FSB_TO_DADDR mp fsbno, im_len = XFS_FSB_TO_BB mp 1, im_agblkno = XFS_FSB_TO_AGBNO mp fsbno,
        im_ioffset = ucast off, im_boffset = ucast (push_bit (sb_inodelog (m_sb mp)) off)\<rparr>)"

section \<open>The list of extents\<close>

definition bmdr_level :: "memory \<Rightarrow> u32 \<Rightarrow> u32" where "bmdr_level m db = ld16 m db"
definition bmdr_numrecs :: "memory \<Rightarrow> u32 \<Rightarrow> u32" where "bmdr_numrecs m db = ld16 m (db + 2)"
definition bb_level :: "memory \<Rightarrow> u32 \<Rightarrow> u32" where "bb_level m bb = ld16 m (bb + 4)"
definition bb_numrecs :: "memory \<Rightarrow> u32 \<Rightarrow> u32" where "bb_numrecs m bb = ld16 m (bb + 6)"
definition bb_rightsib :: "memory \<Rightarrow> u32 \<Rightarrow> u64" where "bb_rightsib m bb = ld64 m (bb + 16)"

definition XFS_BMAP_MAGIC :: u32 where "XFS_BMAP_MAGIC = 0x424d4150"

text \<open>Records, or pairs of a key and a pointer, take 16 bytes; \<open>hdr\<close> is the size of the header.\<close>

definition XFS_BTREE_BLOCK_MAXRECS :: "u32 \<Rightarrow> u32 \<Rightarrow> u32" where
  "XFS_BTREE_BLOCK_MAXRECS bsz hdr = (bsz - hdr) div 16"

definition XFS_BTREE_PTR_ADDR :: "u32 \<Rightarrow> u32 \<Rightarrow> u32 \<Rightarrow> u32" where
  "XFS_BTREE_PTR_ADDR hdr bb mxr = bb + hdr + mxr * 8"

definition XFS_BMAP_BROOT_PTR_ADDR :: "u32 \<Rightarrow> u32 \<Rightarrow> u32" where
  "XFS_BMAP_BROOT_PTR_ADDR bb sz = XFS_BTREE_PTR_ADDR 24 bb (XFS_BTREE_BLOCK_MAXRECS sz 24)"

definition xfs_bmdr_to_bmbt :: "u32 \<Rightarrow> u32 \<Rightarrow> u32 \<Rightarrow> u32 \<Rightarrow> memory \<Rightarrow> memory" where
  "xfs_bmdr_to_bmbt dblock dblocklen rblock rblocklen m =
    (let m = st32 rblock XFS_BMAP_MAGIC m;
         m = st16 (rblock + 4) (bmdr_level m dblock) m;
         m = st16 (rblock + 6) (bmdr_numrecs m dblock) m;
         m = st32 (rblock + 16) (-1) (st32 (rblock + 20) (-1) m);
         m = st32 (rblock + 8) (-1) (st32 (rblock + 12) (-1) m);
         dmxr = XFS_BTREE_BLOCK_MAXRECS dblocklen 4;
         m = bcopy (dblock + 4) (rblock + 24) (8 * bmdr_numrecs m dblock) m
     in bcopy (XFS_BTREE_PTR_ADDR 4 dblock dmxr) (XFS_BMAP_BROOT_PTR_ADDR rblock rblocklen)
          (8 * bmdr_numrecs m dblock) m)"

text \<open>Down the tree from \<open>level\<close> to its leftmost leaf, in \<open>buf\<close>.\<close>

fun bmap_leftmost ::
  "'h xfs_env \<Rightarrow> xfs_mount \<Rightarrow> nat \<Rightarrow> u32 \<Rightarrow> u32 \<Rightarrow> ('f, 'h) xfs_run \<Rightarrow> (bool \<times> ('f, 'h) xfs_run) option"
where
  "bmap_leftmost ev mp 0 bno buf s = Some (True, s)"
| "bmap_leftmost ev mp (Suc level) bno buf s = do {
     (ok, s) \<leftarrow> xfs_lbread ev (XFS_FSB_TO_DADDR mp bno) buf (ucast (XFS_FSB_TO_B mp 1)) s;
     if \<not> ok then Some (False, s)
     else if unat (bb_level (ram s) buf) \<noteq> level then Some (False, s)
     else if level = 0 then Some (True, s)
     else bmap_leftmost ev mp level (ucast (ld64 (ram s) (XFS_BTREE_PTR_ADDR 24 buf (snd (m_bmap_dmxr mp))))) buf s }"

text \<open>Along the leaves, whose records go to \<open>trp\<close>.  The number is that of the records copied.  A
ring of empty leaves is walked for ever.\<close>

partial_function (option) bmap_leaves ::
  "'h xfs_env \<Rightarrow> xfs_mount \<Rightarrow> u32 \<Rightarrow> u32 \<Rightarrow> u32 \<Rightarrow> u32 \<Rightarrow> ('f, 'h) xfs_run \<Rightarrow> (u32 option \<times> ('f, 'h) xfs_run) option"
where
  "bmap_leaves ev mp buf room i trp s =
    (let n = bb_numrecs (ram s) buf in
     if sint (i + n) > sint room then Some (None, s)
     else do {
       let s = set_ram (bcopy (buf + 24) trp (n * 16)) s;
       let n = bb_numrecs (ram s) buf;
       let bno = ucast (bb_rightsib (ram s) buf);
       if bno = -1 then Some (Some (i + n), s)
       else do {
         (ok, s) \<leftarrow> xfs_lbread ev (XFS_FSB_TO_DADDR mp bno) buf (ucast (XFS_FSB_TO_B mp 1)) s;
         if \<not> ok then Some (None, s)
         else bmap_leaves ev mp buf room (i + n) (trp + n * 16) s } })"

definition xfs_bmap_read_extents ::
  "'h xfs_env \<Rightarrow> u32 \<Rightarrow> ('f, 'h) xfs_run \<Rightarrow> (bool \<times> ('f, 'h) xfs_run) option" where
  "xfs_bmap_read_extents ev ip s =
    (let mp = mount_at s (fsb_mount s); block = if_broot (inode_at s ip) in
     case xalloc (xdmabuf_malloc_of ev) (ucast (XFS_FSB_TO_B mp 1)) s of (buf, s) \<Rightarrow>
       if buf = 0 then Some (False, s)
       else if bb_level (ram s) block = 0 then Some (False, xrelease (xdmabuf_free_of ev) buf s)
       else do {
         let pp = XFS_BMAP_BROOT_PTR_ADDR block (scast (if_broot_bytes (inode_at s ip)));
         (ok, s) \<leftarrow> bmap_leftmost ev mp (unat (bb_level (ram s) block)) (ucast (ld64 (ram s) pp)) buf s;
         if \<not> ok then Some (False, xrelease (xdmabuf_free_of ev) buf s)
         else do {
           let room = if_bytes (inode_at s ip) div 16;
           (i, s) \<leftarrow> bmap_leaves ev mp buf room 0 (if_u1 (inode_at s ip)) s;
           let s = xrelease (xdmabuf_free_of ev) buf s;
           Some (case i of None \<Rightarrow> False
               | Some i \<Rightarrow> i = if_bytes (inode_at s ip) div 16 \<and> i = xdi_nextents (i_d (inode_at s ip)), s) } })"

text \<open>What \<open>_xfs_bmap_read_extents\<close> returns is ignored.\<close>

definition xfs_iread_extents :: "'h xfs_env \<Rightarrow> u32 \<Rightarrow> ('f, 'h) xfs_run \<Rightarrow> ('f, 'h) xfs_run option" where
  "xfs_iread_extents ev ip s =
    (let size = xdi_nextents (i_d (inode_at s ip)) * 16 in
     case xalloc (xmalloc_of ev) size s of (p, s) \<Rightarrow>
       let s = set_inode ip (\<lambda>i. i\<lparr>if_u1 := p\<rparr>) s in
       if p = 0 then Some s
       else do {
         let s = set_inode ip (\<lambda>i. i\<lparr>if_lastex := -1, if_bytes := size, if_real_bytes := size,
           if_flags := if_flags i OR XFS_IFEXTENTS\<rparr>) s;
         (_, s) \<leftarrow> xfs_bmap_read_extents ev ip s;
         Some s })"

text \<open>The in-core form of the literal area of an inode on the disk.\<close>

definition iformat_local ::
  "'h xfs_env \<Rightarrow> u32 \<Rightarrow> u32 \<Rightarrow> ('f, 'h) xfs_run \<Rightarrow> ('f, 'h) xfs_run option" where
  "iformat_local ev ip dip s =
    (let size = ucast (xdi_size (i_d (inode_at s ip))); words = (size + 3) AND NOT 3 in
     case (if size = 0 then ((0, 0), s)
           else if size \<le> XFS_INLINE_DATA then ((if_u2 ip, 0), s)
           else case xalloc (xmalloc_of ev) words s of (p, s) \<Rightarrow> ((p, words), s)) of
       ((data, real_size), s) \<Rightarrow>
         let s = set_inode ip (\<lambda>i. i\<lparr>if_u1 := data, if_bytes := size, if_real_bytes := real_size\<rparr>) s in
         if size \<noteq> 0 \<and> data = 0 then None
         else Some (set_inode ip (\<lambda>i. i\<lparr>if_flags := if_flags i AND NOT XFS_IFEXTENTS OR XFS_IFINLINE\<rparr>)
           (set_ram (bcopy (di_u dip) data size) s)))"

definition iformat_extents ::
  "'h xfs_env \<Rightarrow> u32 \<Rightarrow> u32 \<Rightarrow> ('f, 'h) xfs_run \<Rightarrow> ('f, 'h) xfs_run option" where
  "iformat_extents ev ip dip s =
    (let nex = xdi_nextents (dinode_core_at (ram s) dip); size = nex * 16 in
     case (if nex = 0 then ((0, 0), s)
           else if sint nex \<le> XFS_INLINE_EXTS then ((if_u2 ip, 0), s)
           else case xalloc (xmalloc_of ev) size s of (p, s) \<Rightarrow> ((p, size), s)) of
       ((exts, real_size), s) \<Rightarrow>
         let s = set_inode ip (\<lambda>i. i\<lparr>if_u1 := exts, if_bytes := size, if_real_bytes := real_size\<rparr>) s in
         if size \<noteq> 0 \<and> exts = 0 then None
         else Some (set_inode ip (\<lambda>i. i\<lparr>if_flags := if_flags i OR XFS_IFEXTENTS\<rparr>)
           (set_ram (bcopy (di_u dip) exts size) s)))"

definition iformat_btree ::
  "'h xfs_env \<Rightarrow> xfs_mount \<Rightarrow> u32 \<Rightarrow> u32 \<Rightarrow> ('f, 'h) xfs_run \<Rightarrow> ('f, 'h) xfs_run option" where
  "iformat_btree ev mp ip dip s =
    (let nrecs = bmdr_numrecs (ram s) (di_u dip); size = 24 + nrecs * 16 in
     if nrecs = 0 then Some s
     else case xalloc (xmalloc_of ev) size s of (p, s) \<Rightarrow>
       let s = set_inode ip (\<lambda>i. i\<lparr>if_broot_bytes := ucast size, if_broot := p\<rparr>) s in
       if p = 0 then None
       else Some (set_inode ip (\<lambda>i. i\<lparr>if_flags := if_flags i AND NOT XFS_IFEXTENTS OR XFS_IFBROOT\<rparr>)
         (set_ram (xfs_bmdr_to_bmbt (di_u dip) (XFS_CFORK_DSIZE (dinode_core_at (ram s) dip) mp) p size) s)))"

definition xfs_iformat ::
  "'h xfs_env \<Rightarrow> xfs_mount \<Rightarrow> u32 \<Rightarrow> u32 \<Rightarrow> ('f, 'h) xfs_run \<Rightarrow> ('f, 'h) xfs_run option" where
  "xfs_iformat ev mp ip dip s =
    (let mode = xdi_mode (i_d (inode_at s ip)); fmt = xdi_format (dinode_core_at (ram s) dip) in
     if mode_special mode then
       if fmt \<noteq> XFS_DINODE_FMT_DEV then Some s
       else Some (set_ram (\<lambda>m. st32 (if_u2 ip) (ld32 m (di_u dip)) m)
         (set_inode ip (\<lambda>i. i\<lparr>i_d := (i_d i)\<lparr>xdi_size := 0\<rparr>\<rparr>) s))
     else if mode_data mode then
       if fmt = XFS_DINODE_FMT_LOCAL then iformat_local ev ip dip s
       else if fmt = XFS_DINODE_FMT_EXTENTS then iformat_extents ev ip dip s
       else if fmt = XFS_DINODE_FMT_BTREE then iformat_btree ev mp ip dip s
       else Some s
     else Some s)"

definition xfs_ifree :: "'h xfs_env \<Rightarrow> u32 \<Rightarrow> ('f, 'h) xfs_run \<Rightarrow> ('f, 'h) xfs_run" where
  "xfs_ifree ev ip s =
    (let i = inode_at s ip in
     if \<not> mode_data (xdi_mode (i_d i)) then s
     else if xdi_format (i_d i) = XFS_DINODE_FMT_EXTENTS then
       if sint (xdi_nextents (i_d i)) > XFS_INLINE_EXTS then xrelease (xfree_of ev) (if_u1 i) s else s
     else if xdi_format (i_d i) = XFS_DINODE_FMT_BTREE then
       xrelease (xfree_of ev) (if_u1 i) (xrelease (xfree_of ev) (if_broot i) s)
     else s)"

definition xfs_iread ::
  "'h xfs_env \<Rightarrow> u32 \<Rightarrow> u64 \<Rightarrow> u32 \<Rightarrow> ('f, 'h) xfs_run \<Rightarrow> (bool \<times> ('f, 'h) xfs_run) option" where
  "xfs_iread ev mp ino ip s =
    (let mt = mount_at s mp; imap = xfs_imap mt ino in
     case xalloc (xdmabuf_malloc_of ev) (BBTOB (im_len imap)) s of (buf, s) \<Rightarrow>
       if buf = 0 then Some (False, s)
       else do {
         (ok, s) \<leftarrow> xfs_lbread ev (im_blkno imap) buf (BBTOB (im_len imap)) s;
         let dip = buf + ucast (im_boffset imap);
         if \<not> ok then Some (False, xrelease (xdmabuf_free_of ev) buf s)
         else if xdi_magic (dinode_core_at (ram s) dip) \<noteq> XFS_DINODE_MAGIC then
           Some (False, xrelease (xdmabuf_free_of ev) buf s)
         else do {
           let core = dinode_core_at (ram s) dip;
           let s = set_inode ip (\<lambda>i. i\<lparr>i_d := core\<rparr>) s;
           s \<leftarrow> xfs_iformat ev mt ip dip s;
           let s = set_inode ip (\<lambda>i. i\<lparr>i_mount := mp, i_ino := ino\<rparr>) s;
           s \<leftarrow> (if xdi_format (i_d (inode_at s ip)) = XFS_DINODE_FMT_BTREE then xfs_iread_extents ev ip s else Some s);
           Some (True, xrelease (xdmabuf_free_of ev) buf s) } })"

section \<open>From an offset to a block\<close>

record bmbt_irec =
  br_startoff :: u64
  br_startblock :: u64
  br_blockcount :: u64

definition xfs_convert_extent :: "memory \<Rightarrow> u32 \<Rightarrow> bmbt_irec" where
  "xfs_convert_extent m rp =
    (let l0 = ld32 m rp; l1 = ld32 m (rp + 4); l2 = ld32 m (rp + 8); l3 = ld32 m (rp + 12) in
     \<lparr>br_startoff = push_bit 23 (ucast l0) OR drop_bit 9 (ucast l1),
      br_startblock = push_bit 43 (ucast (l1 AND 0x1ff)) OR push_bit 11 (ucast l2) OR drop_bit 21 (ucast l3),
      br_blockcount = ucast (l3 AND 0x1fffff)\<rparr>)"

text \<open>The block of the disk, and how many blocks are left of the extent.\<close>

fun find_block :: "memory \<Rightarrow> u32 \<Rightarrow> nat \<Rightarrow> u32 \<Rightarrow> (u32 \<times> u32) option" where
  "find_block m ep 0 off = None"
| "find_block m ep (Suc n) off =
    (let e = xfs_convert_extent m ep; extentb = br_startoff e; extente = extentb + br_blockcount e in
     if (ucast off :: u64) < extentb then None
     else if (ucast off :: u64) \<ge> extentb \<and> (ucast off :: u64) < extente then
       (let len = off - ucast extentb in
        Some (ucast (br_startblock e) + len, ucast (br_blockcount e) - len))
     else find_block m (ep + 16) n off)"

definition NULLFSBLOCK :: u32 where "NULLFSBLOCK = -1"

text \<open>The second number is what is stored through \<open>rlen\<close>, \<open>None\<close> when nothing is.\<close>

definition xfs_get_blockno :: "xfs_inode \<Rightarrow> u32 \<Rightarrow> memory \<Rightarrow> u32 \<times> u32 option" where
  "xfs_get_blockno ip off m =
    (if if_flags ip AND XFS_IFEXTENTS = 0 then (NULLFSBLOCK, None)
     else case find_block m (if_u1 ip) (nat (sint (if_bytes ip div 16))) off of
         None \<Rightarrow> (NULLFSBLOCK, None) | Some (b, l) \<Rightarrow> (b, Some l))"

record xfs_extent =
  xe_bn :: u32
  xe_length :: u32
  xe_offset :: u32

definition MAX_XFS_DMA :: u32 where "MAX_XFS_DMA = 64 * 1024"

text \<open>\<open>None\<close> for an offset behind the end of the file; for a hole the block -1 and the offset of
\<open>result\<close> as it was.\<close>

definition xfs_bmap :: "u32 \<Rightarrow> xfs_extent \<Rightarrow> ('f, 'h) xfs_run \<Rightarrow> xfs_extent option" where
  "xfs_bmap maxvblks result s =
    (let mp = mount_at s (fsb_mount s); ip = inode_at s (fsb_inode s);
         off = ucast (XFS_B_TO_FSBT mp (ucast (io_Offset_lo (blk s)))) in
     case xfs_get_blockno ip off (ram s) of
       (dbno, len) \<Rightarrow>
         if dbno = NULLFSBLOCK then
           if (ucast off :: u64) < XFS_B_TO_FSB mp (xdi_size (i_d ip)) then
             Some (result\<lparr>xe_bn := -1, xe_length := sb_blocksize (m_sb mp)\<rparr>)
           else None
         else Some \<lparr>xe_bn = XFS_FSB_TO_DADDR mp dbno,
           xe_length = smin (sb_blocksize (m_sb mp) * smin (the len) maxvblks) MAX_XFS_DMA, xe_offset = off\<rparr>)"

section \<open>Reading a file\<close>

text \<open>One turn of the loop of \<open>_xfs_read\<close>, in two parts: the blocks at the offset are read, or
cleared for a hole, and what the caller asked for is copied out of the block buffer unless it was
read in place.  \<open>result\<close> keeps its value from turn to turn.\<close>

definition xfs_direct :: "xfs_mount \<Rightarrow> u32 \<Rightarrow> u32 \<Rightarrow> u32 \<Rightarrow> bool" where
  "xfs_direct mp lo count buf \<longleftrightarrow>
    XFS_B_FSB_OFFSET mp lo = 0 \<and> buf AND 3 = 0 \<and> (ucast (XFS_B_TO_FSBT mp (scast count)) :: u32) \<noteq> 0"

definition xfs_fetch ::
  "'h xfs_env \<Rightarrow> u32 \<Rightarrow> xfs_extent \<Rightarrow> ('f, 'h) xfs_run \<Rightarrow> (bool \<times> ('f, 'h) xfs_run) option" where
  "xfs_fetch ev dmaaddr result s =
    (let s = set_blk (\<lambda>io. io\<lparr>io_StartBlock := xe_bn result, io_Address := dmaaddr, io_Count := xe_length result\<rparr>) s in
     if xe_bn result = -1 then Some (True, set_ram (bzero dmaaddr (xe_length result)) s)
     else do { (r, s) \<leftarrow> xfs_devread ev s; Some (r = xe_length result, s) })"

definition xfs_deliver ::
  "xfs_mount \<Rightarrow> u32 \<Rightarrow> u32 \<Rightarrow> u32 \<Rightarrow> xfs_extent \<Rightarrow> ('f, 'h) xfs_run \<Rightarrow> u32 option \<times> ('f, 'h) xfs_run" where
  "xfs_deliver mp count buf dmaaddr result s =
    (if dmaaddr \<noteq> buf then
       (let off = io_Offset_lo (blk s) - ucast (XFS_FSB_TO_B mp (xe_offset result)) in
        if sint off < 0 then (None, s)
        else let i = smin (xe_length result - off) count in
          if sint i \<le> 0 then (None, s)
          else (Some i, set_ram (bcopy (fsb_Buffer (blk s) + off) buf i) s))
     else (Some (xe_length result), set_blk (\<lambda>io. io\<lparr>io_StartBlock := -1\<rparr>) s))"

definition xfs_read_step ::
  "'h xfs_env \<Rightarrow> u32 \<Rightarrow> u32 \<Rightarrow> xfs_extent \<Rightarrow> ('f, 'h) xfs_run \<Rightarrow>
    ((u32 \<times> xfs_extent) option \<times> ('f, 'h) xfs_run) option"
where
  "xfs_read_step ev count buf result s =
    (let mp = mount_at s (fsb_mount s); direct = xfs_direct mp (io_Offset_lo (blk s)) count buf;
         dmaaddr = (if direct then buf else fsb_Buffer (blk s)) in
     case xfs_bmap (if direct then ucast (XFS_B_TO_FSBT mp (scast count)) else 1) result s of
       None \<Rightarrow> Some (None, s)
     | Some result \<Rightarrow> do {
         (ok, s) \<leftarrow> xfs_fetch ev dmaaddr result s;
         if \<not> ok then Some (None, s)
         else (case xfs_deliver mp count buf dmaaddr result s of
             (None, s) \<Rightarrow> Some (None, s)
           | (Some i, s) \<Rightarrow>
               Some (Some (i, result), set_blk (\<lambda>io. io\<lparr>io_Offset_lo := io_Offset_lo io + i\<rparr>) s)) })"

text \<open>With a block size of 0 a turn can transfer nothing, and the loop need not end.\<close>

partial_function (option) xfs_read_loop ::
  "'h xfs_env \<Rightarrow> u32 \<Rightarrow> u32 \<Rightarrow> xfs_extent \<Rightarrow> ('f, 'h) xfs_run \<Rightarrow> (bool \<times> ('f, 'h) xfs_run) option"
where
  "xfs_read_loop ev count buf result s =
    (if 0 < sint count then do {
       (r, s) \<leftarrow> xfs_read_step ev count buf result s;
       (case r of
          None \<Rightarrow> Some (False, s)
        | Some (i, result) \<Rightarrow> xfs_read_loop ev (count - i) (buf + i) result s) }
     else Some (True, s))"

definition xfs_read :: "'h xfs_env \<Rightarrow> ('f, 'h) xfs_run \<Rightarrow> (int \<times> ('f, 'h) xfs_run) option" where
  "xfs_read ev s =
    (let lo = io_Offset_lo (blk s); size = xdi_size (i_d (inode_at s (fsb_inode s))); count = io_Count (blk s);
         count = (if sint (ucast (lo + count) :: u64) > sint size then ucast (size - ucast lo) else count)
     in if sint count \<le> 0 then Some (0, set_blk (\<lambda>io. io\<lparr>io_Count := 0\<rparr>) s)
        else do {
          (ok, s) \<leftarrow> xfs_read_loop ev count (io_Address (blk s))
            \<lparr>xe_bn = 0, xe_length = 0, xe_offset = stack_offset ev\<rparr> s;
          Some (if ok then (0, set_blk (\<lambda>io. io\<lparr>io_Count := count\<rparr>) s) else xfs_error EIO s) })"

definition xfs_grs :: "('f, 'h) xfs_run \<Rightarrow> int \<times> ('f, 'h) xfs_run" where
  "xfs_grs s =
    (let lo = io_Offset_lo (blk s); size = xdi_size (i_d (inode_at s (fsb_inode s))) in
     if sint (ucast lo :: u64) \<ge> sint size then xfs_error EAGAIN s
     else (0, set_blk (\<lambda>io. io\<lparr>io_Count := ucast (size - ucast lo)\<rparr>) s))"

end
