(* ===== verification/Xfsdir.thy ===== *)
theory Xfsdir
imports Xfs
begin

text \<open>The directories of XFS: \<open>src/libsc/xfs/xfs_dir.c\<close> (version 1: shortform, one leaf, a tree of
leaves) and \<open>xfs_dir2.c\<close> (version 2: shortform, data blocks).

A name is the list of its characters, its length \<open>args->namelen\<close>.  The lookups give the inode
number, \<open>None\<close> for the value 0.  Loops that a damaged directory can keep going for ever are
\<open>partial_function\<close>s.\<close>

unbundle bit_operations_syntax

definition MAXNAMELEN :: nat where "MAXNAMELEN = 256"

section \<open>Version 1\<close>

definition xfs_dir_hashname :: "string \<Rightarrow> u32" where
  "xfs_dir_hashname name =
    fold (\<lambda>c hash. word_of_int (schar c) XOR (push_bit 7 hash OR drop_bit (32 - 7) hash)) name 0"

subsection \<open>Shortform\<close>

definition sf_count :: "memory \<Rightarrow> u32 \<Rightarrow> nat" where "sf_count m sf = unat (m (sf + 8))"
definition sfe_namelen :: "memory \<Rightarrow> u32 \<Rightarrow> nat" where "sfe_namelen m sfe = unat (m (sfe + 8))"

definition XFS_DIR_SF_NEXTENTRY :: "memory \<Rightarrow> u32 \<Rightarrow> u32" where
  "XFS_DIR_SF_NEXTENTRY m sfe = sfe + (10 - 1 + of_nat (sfe_namelen m sfe))"

fun sf_search :: "memory \<Rightarrow> string \<Rightarrow> nat \<Rightarrow> u32 \<Rightarrow> u64 option" where
  "sf_search m name 0 sfe = None"
| "sf_search m name (Suc i) sfe =
    (if sfe_namelen m sfe = length name \<and> mem_str m (sfe + 9) (length name) = name then Some (ld64 m sfe)
     else sf_search m name i (XFS_DIR_SF_NEXTENTRY m sfe))"

definition dirv1_shortform_lookup :: "memory \<Rightarrow> xfs_inode \<Rightarrow> string \<Rightarrow> u64 option" where
  "dirv1_shortform_lookup m dp name =
    (if if_flags dp AND XFS_IFINLINE = 0 then None
     else if name = ''..'' then Some (ld64 m (if_u1 dp))
     else if name = ''.'' then Some (i_ino dp)
     else sf_search m name (sf_count m (if_u1 dp)) (if_u1 dp + 9))"

subsection \<open>A leaf\<close>

definition XFS_DA_NODE_MAGIC :: u32 where "XFS_DA_NODE_MAGIC = 0xfebe"
definition XFS_DIR_LEAF_MAGIC :: u32 where "XFS_DIR_LEAF_MAGIC = 0xfeeb"

definition leaf_magic :: "memory \<Rightarrow> u32 \<Rightarrow> u32" where "leaf_magic m leaf = ld16 m (leaf + 8)"
definition leaf_count :: "memory \<Rightarrow> u32 \<Rightarrow> int" where "leaf_count m leaf = uint (ld16 m (leaf + 12))"
definition leaf_entry :: "u32 \<Rightarrow> int \<Rightarrow> u32" where "leaf_entry leaf i = leaf + 32 + 8 * of_int i"
definition entry_hashval :: "memory \<Rightarrow> u32 \<Rightarrow> int \<Rightarrow> u32" where "entry_hashval m leaf i = ld32 m (leaf_entry leaf i)"
definition entry_namelen :: "memory \<Rightarrow> u32 \<Rightarrow> int \<Rightarrow> nat" where
  "entry_namelen m leaf i = unat (m (leaf_entry leaf i + 6))"

definition XFS_DIR_LEAF_NAMESTRUCT :: "memory \<Rightarrow> u32 \<Rightarrow> int \<Rightarrow> u32" where
  "XFS_DIR_LEAF_NAMESTRUCT m leaf i = leaf + ld16 m (leaf_entry leaf i + 4)"

definition entry_ino :: "memory \<Rightarrow> u32 \<Rightarrow> int \<Rightarrow> u64" where
  "entry_ino m leaf i = ld64 m (XFS_DIR_LEAF_NAMESTRUCT m leaf i)"

definition entry_name :: "memory \<Rightarrow> u32 \<Rightarrow> int \<Rightarrow> nat \<Rightarrow> string" where
  "entry_name m leaf i n = mem_str m (XFS_DIR_LEAF_NAMESTRUCT m leaf i + 8) n"

definition entry_is :: "memory \<Rightarrow> u32 \<Rightarrow> string \<Rightarrow> int \<Rightarrow> bool" where
  "entry_is m leaf name i \<longleftrightarrow>
    entry_namelen m leaf i = length name \<and> entry_name m leaf i (length name) = name"

text \<open>The searches of a leaf, over the hash values \<open>H\<close> of its entries.\<close>

function linear_search :: "(int \<Rightarrow> u32) \<Rightarrow> (int \<Rightarrow> bool) \<Rightarrow> u32 \<Rightarrow> int \<Rightarrow> int \<Rightarrow> int option" where
  "linear_search H is_it h count i =
    (if i < count then
       if H i > h then None
       else if H i = h \<and> is_it i then Some i
       else linear_search H is_it h count (i + 1)
     else None)"
  by pat_completeness auto
termination
  by (relation "measure (\<lambda>(_, _, _, count, i). nat (count - i))") auto

function bin_probe :: "(int \<Rightarrow> u32) \<Rightarrow> u32 \<Rightarrow> int \<Rightarrow> int \<Rightarrow> int" where
  "bin_probe H h probe span =
    (let span = span div 2 in
     if H probe = h then probe
     else let probe = (if H probe < h then probe + span else probe - span) in
       if span > 4 then bin_probe H h probe span else probe)"
  by pat_completeness auto
termination
  by (relation "measure (\<lambda>(_, _, _, span). nat span)") auto

function scan_back :: "(int \<Rightarrow> u32) \<Rightarrow> u32 \<Rightarrow> int \<Rightarrow> int" where
  "scan_back H h probe = (if probe > 0 \<and> H probe > h then scan_back H h (probe - 1) else probe)"
  by pat_completeness auto
termination
  by (relation "measure (\<lambda>(_, _, probe). nat probe)") auto

function scan_forward :: "(int \<Rightarrow> u32) \<Rightarrow> u32 \<Rightarrow> int \<Rightarrow> int \<Rightarrow> int" where
  "scan_forward H h count probe =
    (if probe < count \<and> H probe < h then scan_forward H h count (probe + 1) else probe)"
  by pat_completeness auto
termination
  by (relation "measure (\<lambda>(_, _, count, probe). nat (count - probe))") auto

text \<open>Back over the entries with the value; the loop ends one below the first of them.\<close>

function before_first :: "(int \<Rightarrow> u32) \<Rightarrow> u32 \<Rightarrow> int \<Rightarrow> int" where
  "before_first H h probe = (if probe \<ge> 0 \<and> H probe = h then before_first H h (probe - 1) else probe)"
  by pat_completeness auto
termination
  by (relation "measure (\<lambda>(_, _, probe). nat (probe + 1))") auto

function search_equal :: "(int \<Rightarrow> u32) \<Rightarrow> (int \<Rightarrow> bool) \<Rightarrow> u32 \<Rightarrow> int \<Rightarrow> int \<Rightarrow> int option" where
  "search_equal H is_it h count probe =
    (if probe < count \<and> H probe = h then
       if is_it probe then Some probe else search_equal H is_it h count (probe + 1)
     else None)"
  by pat_completeness auto
termination
  by (relation "measure (\<lambda>(_, _, _, count, probe). nat (count - probe))") auto

declare linear_search.simps [simp del] bin_probe.simps [simp del] scan_back.simps [simp del]
  scan_forward.simps [simp del] before_first.simps [simp del] search_equal.simps [simp del]

definition binary_search :: "(int \<Rightarrow> u32) \<Rightarrow> (int \<Rightarrow> bool) \<Rightarrow> u32 \<Rightarrow> int \<Rightarrow> int option" where
  "binary_search H is_it h count =
    (let probe = bin_probe H h (count div 2) (count div 2);
         probe = scan_back H h probe;
         probe = scan_forward H h count probe in
     if probe = count \<or> H probe \<noteq> h then None
     else search_equal H is_it h count (before_first H h probe + 1))"

definition leaf_search :: "(int \<Rightarrow> u32) \<Rightarrow> (int \<Rightarrow> bool) \<Rightarrow> u32 \<Rightarrow> int \<Rightarrow> int option" where
  "leaf_search H is_it h count =
    (if count < 64 then linear_search H is_it h count 0 else binary_search H is_it h count)"

definition dirv1_leaf_lookup_int :: "memory \<Rightarrow> u32 \<Rightarrow> string \<Rightarrow> u64 option" where
  "dirv1_leaf_lookup_int m leaf name =
    (if leaf_magic m leaf \<noteq> XFS_DIR_LEAF_MAGIC then None
     else map_option (entry_ino m leaf)
       (leaf_search (entry_hashval m leaf) (entry_is m leaf name) (xfs_dir_hashname name) (leaf_count m leaf)))"

definition dirv1_read_buf ::
  "'h xfs_env \<Rightarrow> u32 \<Rightarrow> u32 \<Rightarrow> ('f, 'h) xfs_run \<Rightarrow> (bool \<times> ('f, 'h) xfs_run) option" where
  "dirv1_read_buf ev bno buf s =
    (let mp = mount_at s (fsb_mount s) in xfs_lbread ev (XFS_FSB_TO_DADDR mp bno) buf (ucast (XFS_FSB_TO_B mp 1)) s)"

text \<open>A buffer of one block.\<close>

definition block_bytes :: "xfs_mount \<Rightarrow> u32" where
  "block_bytes mp = BBTOB (BTOBB (ucast (XFS_FSB_TO_B mp 1)))"

definition dirv1_leaf_lookup ::
  "'h xfs_env \<Rightarrow> string \<Rightarrow> ('f, 'h) xfs_run \<Rightarrow> (u64 option \<times> ('f, 'h) xfs_run) option" where
  "dirv1_leaf_lookup ev name s =
    (case xalloc (xdmabuf_malloc_of ev) (block_bytes (mount_at s (fsb_mount s))) s of (buf, s) \<Rightarrow>
       if buf = 0 then Some (None, s)
       else let bno = fst (xfs_get_blockno (inode_at s (fsb_inode s)) 0 (ram s)) in
         if bno = NULLFSBLOCK then Some (None, s)
         else do {
           (ok, s) \<leftarrow> dirv1_read_buf ev bno buf s;
           if \<not> ok then Some (None, s)
           else Some (dirv1_leaf_lookup_int (ram s) buf name, xrelease (xdmabuf_free_of ev) buf s) })"

definition dirv1_numblocks :: "xfs_mount \<Rightarrow> u64 \<Rightarrow> u32" where
  "dirv1_numblocks mp sz =
    word_of_int (sint (sz + ucast (sb_blocksize (m_sb mp)) - 1) sdiv int (unat (sb_blocksize (m_sb mp))))"

text \<open>The blocks from \<open>dbno\<close> on, \<open>n\<close> of them; \<open>retval\<close> is what the variable holds.  The outer
\<open>None\<close> of the result is the return in the middle, which does not free the buffer.\<close>

fun dirv1_node_blocks ::
  "'h xfs_env \<Rightarrow> u32 \<Rightarrow> string \<Rightarrow> nat \<Rightarrow> u32 \<Rightarrow> u64 option \<Rightarrow> ('f, 'h) xfs_run \<Rightarrow>
    (u64 option option \<times> ('f, 'h) xfs_run) option"
where
  "dirv1_node_blocks ev buf name 0 dbno retval s = Some (Some retval, s)"
| "dirv1_node_blocks ev buf name (Suc n) dbno retval s =
    (let bno = fst (xfs_get_blockno (inode_at s (fsb_inode s)) dbno (ram s)) in
     if bno = NULLFSBLOCK \<and> dbno = 0 then Some (None, s)
     else if bno = NULLFSBLOCK then dirv1_node_blocks ev buf name n (dbno + 1) retval s
     else do {
       (ok, s) \<leftarrow> dirv1_read_buf ev bno buf s;
       if \<not> ok then Some (None, s)
       else if leaf_magic (ram s) buf = XFS_DA_NODE_MAGIC then dirv1_node_blocks ev buf name n (dbno + 1) retval s
       else (case dirv1_leaf_lookup_int (ram s) buf name of
           Some ino \<Rightarrow> Some (Some (Some ino), s)
         | None \<Rightarrow> dirv1_node_blocks ev buf name n (dbno + 1) None s) })"

definition dirv1_node_lookup ::
  "'h xfs_env \<Rightarrow> string \<Rightarrow> ('f, 'h) xfs_run \<Rightarrow> (u64 option \<times> ('f, 'h) xfs_run) option" where
  "dirv1_node_lookup ev name s =
    (let mp = mount_at s (fsb_mount s) in
     case xalloc (xdmabuf_malloc_of ev) (block_bytes mp) s of (buf, s) \<Rightarrow>
       if buf = 0 then Some (None, s)
       else do {
         let numblocks = dirv1_numblocks mp (xdi_size (i_d (inode_at s (fsb_inode s))));
         (r, s) \<leftarrow> dirv1_node_blocks ev buf name (unat numblocks) 0 (if stack_retval ev then Some 0 else None) s;
         Some (case r of None \<Rightarrow> (None, s) | Some r \<Rightarrow> (r, xrelease (xdmabuf_free_of ev) buf s)) })"

definition dir_is_shortform :: "xfs_mount \<Rightarrow> xfs_inode \<Rightarrow> bool" where
  "dir_is_shortform mp dp \<longleftrightarrow> sint (xdi_size (i_d dp)) \<le> sint (XFS_CFORK_DSIZE (i_d dp) mp)"

definition dir_is_leaf :: "xfs_mount \<Rightarrow> xfs_inode \<Rightarrow> bool" where
  "dir_is_leaf mp dp \<longleftrightarrow> xdi_size (i_d dp) = ucast (sb_blocksize (m_sb mp))"

definition dirv1_lookup ::
  "'h xfs_env \<Rightarrow> u32 \<Rightarrow> string \<Rightarrow> ('f, 'h) xfs_run \<Rightarrow> (u64 option \<times> ('f, 'h) xfs_run) option" where
  "dirv1_lookup ev ip name s =
    (let dp = inode_at s ip; mp = mount_at s (i_mount dp) in
     if length name \<ge> MAXNAMELEN then Some (None, s)
     else if dir_is_shortform mp dp then Some (dirv1_shortform_lookup (ram s) dp name, s)
     else if dir_is_leaf mp dp then dirv1_leaf_lookup ev name s
     else dirv1_node_lookup ev name s)"

section \<open>Version 2\<close>

subsection \<open>Shortform\<close>

definition sf2_count :: "memory \<Rightarrow> u32 \<Rightarrow> nat" where "sf2_count m sf = unat (m sf)"
definition sf2_i8count :: "memory \<Rightarrow> u32 \<Rightarrow> u8" where "sf2_i8count m sf = m (sf + 1)"
definition sfe2_namelen :: "memory \<Rightarrow> u32 \<Rightarrow> nat" where "sfe2_namelen m sfe = unat (m sfe)"
definition sfe2_name :: "u32 \<Rightarrow> u32" where "sfe2_name sfe = sfe + 3"

definition XFS_DIR2_SF_HDR_SIZE :: "u8 \<Rightarrow> u32" where
  "XFS_DIR2_SF_HDR_SIZE i8count = 10 - (if i8count = 0 then 4 else 0)"

definition XFS_DIR2_SF_INUMBERP :: "memory \<Rightarrow> u32 \<Rightarrow> u32" where
  "XFS_DIR2_SF_INUMBERP m sfe = sfe2_name sfe + of_nat (sfe2_namelen m sfe)"

text \<open>Four bytes, or the low four of eight.\<close>

definition XFS_DIR2_SF_GET_INUMBER :: "memory \<Rightarrow> u32 \<Rightarrow> u32 \<Rightarrow> u64" where
  "XFS_DIR2_SF_GET_INUMBER m sf p = (if sf2_i8count m sf = 0 then ucast (ld32 m p) else ucast (ld32 m (p + 4)))"

definition XFS_DIR2_SF_GET_OFFSET :: "memory \<Rightarrow> u32 \<Rightarrow> u32" where
  "XFS_DIR2_SF_GET_OFFSET m sfe = ld16 m (sfe + 1)"

definition XFS_DIR2_SF_FIRSTENTRY :: "memory \<Rightarrow> u32 \<Rightarrow> u32" where
  "XFS_DIR2_SF_FIRSTENTRY m sf = sf + XFS_DIR2_SF_HDR_SIZE (sf2_i8count m sf)"

definition XFS_DIR2_SF_NEXTENTRY :: "memory \<Rightarrow> u32 \<Rightarrow> u32 \<Rightarrow> u32" where
  "XFS_DIR2_SF_NEXTENTRY m sf sfe =
    sfe + (12 - 1 + of_nat (sfe2_namelen m sfe) - (if sf2_i8count m sf = 0 then 4 else 0))"

fun sf2_search :: "memory \<Rightarrow> u32 \<Rightarrow> string \<Rightarrow> nat \<Rightarrow> u32 \<Rightarrow> u64 option" where
  "sf2_search m sf name 0 sfe = None"
| "sf2_search m sf name (Suc i) sfe =
    (if sfe2_namelen m sfe = length name \<and> mem_str m (sfe2_name sfe) (length name) = name
     then Some (XFS_DIR2_SF_GET_INUMBER m sf (XFS_DIR2_SF_INUMBERP m sfe))
     else sf2_search m sf name i (XFS_DIR2_SF_NEXTENTRY m sf sfe))"

definition dirv2_sf_lookup :: "memory \<Rightarrow> xfs_inode \<Rightarrow> string \<Rightarrow> u64 option" where
  "dirv2_sf_lookup m dp name =
    (let sf = if_u1 dp in
     if if_flags dp AND XFS_IFINLINE = 0 then None
     else if name = ''..'' then Some (XFS_DIR2_SF_GET_INUMBER m sf (sf + 2))
     else if name = ''.'' then Some (i_ino dp)
     else sf2_search m sf name (sf2_count m sf) (XFS_DIR2_SF_FIRSTENTRY m sf))"

subsection \<open>Data blocks\<close>

definition XFS_DIR2_DATA_MAGIC :: u32 where "XFS_DIR2_DATA_MAGIC = 0x58443244"
definition XFS_DIR2_BLOCK_MAGIC :: u32 where "XFS_DIR2_BLOCK_MAGIC = 0x58443242"
definition XFS_DIR2_DATA_FREE_TAG :: u32 where "XFS_DIR2_DATA_FREE_TAG = 0xffff"

definition data_freetag :: "memory \<Rightarrow> u32 \<Rightarrow> u32" where "data_freetag m dup = ld16 m dup"
definition data_length :: "memory \<Rightarrow> u32 \<Rightarrow> u32" where "data_length m dup = ld16 m (dup + 2)"
definition data_inumber :: "memory \<Rightarrow> u32 \<Rightarrow> u64" where "data_inumber m dep = ld64 m dep"
definition data_namelen :: "memory \<Rightarrow> u32 \<Rightarrow> nat" where "data_namelen m dep = unat (m (dep + 8))"
definition data_name :: "u32 \<Rightarrow> u32" where "data_name dep = dep + 9"

definition XFS_DIR2_DATA_ENTSIZE :: "nat \<Rightarrow> u32" where
  "XFS_DIR2_DATA_ENTSIZE n = (9 + of_nat n + 2 + (8 - 1)) div 8 * 8"

text \<open>The end of the entries: of the block, or the embedded leaf before its tail.\<close>

definition XFS_DIR2_BLOCK_TAIL_P :: "xfs_mount \<Rightarrow> u32 \<Rightarrow> u32" where
  "XFS_DIR2_BLOCK_TAIL_P mp block = block + m_dirblksize mp - 8"

definition XFS_DIR2_BLOCK_LEAF_P :: "memory \<Rightarrow> u32 \<Rightarrow> u32" where
  "XFS_DIR2_BLOCK_LEAF_P m btp = btp - 8 * ld32 m btp"

partial_function (option) data_scan :: "memory \<Rightarrow> string \<Rightarrow> u32 \<Rightarrow> u32 \<Rightarrow> u64 option option" where
  "data_scan m name ptr endptr =
    (if ptr < endptr then
       if data_freetag m ptr = XFS_DIR2_DATA_FREE_TAG then data_scan m name (ptr + data_length m ptr) endptr
       else if data_namelen m ptr = length name \<and> mem_str m (data_name ptr) (length name) = name
       then Some (Some (data_inumber m ptr))
       else data_scan m name (ptr + XFS_DIR2_DATA_ENTSIZE (data_namelen m ptr)) endptr
     else Some None)"

definition dirv2_data_lookup_int :: "xfs_mount \<Rightarrow> memory \<Rightarrow> u32 \<Rightarrow> string \<Rightarrow> u64 option option" where
  "dirv2_data_lookup_int mp m buf name =
    (if ld32 m buf = XFS_DIR2_DATA_MAGIC then data_scan m name (buf + 16) (buf + m_dirblksize mp)
     else if ld32 m buf = XFS_DIR2_BLOCK_MAGIC then
       data_scan m name (buf + 16) (XFS_DIR2_BLOCK_LEAF_P m (XFS_DIR2_BLOCK_TAIL_P mp buf))
     else Some None)"

definition XFS_DIR2_DB_TO_DA :: "xfs_mount \<Rightarrow> u32 \<Rightarrow> u32" where
  "XFS_DIR2_DB_TO_DA mp db = push_bit (sb_dirblklog (m_sb mp)) db"

text \<open>The extents of a directory block, from \<open>off\<close> on, go to \<open>buf\<close>; an extent is read to its end.
The number is the first block, \<open>NULLFSBLOCK\<close> for a hole.\<close>

partial_function (option) dirv2_read_extents ::
  "'h xfs_env \<Rightarrow> u32 \<Rightarrow> u32 \<Rightarrow> u32 \<Rightarrow> u32 \<Rightarrow> u32 \<Rightarrow> ('f, 'h) xfs_run \<Rightarrow> (bool \<times> u32 \<times> ('f, 'h) xfs_run) option"
where
  "dirv2_read_extents ev dp off len buf first s =
    (let mp = mount_at s (fsb_mount s) in
     if sint len < sint (m_dirblkfsbs mp) then
       (case xfs_get_blockno (inode_at s dp) off (ram s) of
          (bno, rlen) \<Rightarrow>
            if bno = NULLFSBLOCK then Some (True, NULLFSBLOCK, s)
            else do {
              let first = (if len = 0 then bno else first);
              let rlen = the rlen;
              (ok, s) \<leftarrow> xfs_lbread ev (XFS_FSB_TO_DADDR mp bno) buf (ucast (XFS_FSB_TO_B mp rlen)) s;
              if \<not> ok then Some (False, first, s)
              else dirv2_read_extents ev dp (off + rlen) (len + rlen) (buf + ucast (XFS_FSB_TO_B mp rlen)) first s })
     else Some (True, first, s))"

definition dirv2_read_block ::
  "'h xfs_env \<Rightarrow> u32 \<Rightarrow> u32 \<Rightarrow> u32 \<Rightarrow> ('f, 'h) xfs_run \<Rightarrow> (bool \<times> u32 \<times> ('f, 'h) xfs_run) option" where
  "dirv2_read_block ev dp dbno buf s =
    dirv2_read_extents ev dp (XFS_DIR2_DB_TO_DA (mount_at s (fsb_mount s)) dbno) 0 buf NULLFSBLOCK s"

definition dirv2_numblocks :: "xfs_mount \<Rightarrow> u64 \<Rightarrow> u32" where
  "dirv2_numblocks mp sz = word_of_int (sint sz sdiv sint (m_dirblksize mp))"

fun dirv2_data_blocks ::
  "'h xfs_env \<Rightarrow> u32 \<Rightarrow> u32 \<Rightarrow> string \<Rightarrow> nat \<Rightarrow> u32 \<Rightarrow> u64 option \<Rightarrow> ('f, 'h) xfs_run \<Rightarrow>
    (u64 option \<times> ('f, 'h) xfs_run) option"
where
  "dirv2_data_blocks ev dp buf name 0 dbno retval s = Some (retval, s)"
| "dirv2_data_blocks ev dp buf name (Suc n) dbno retval s = do {
     (ok, bno, s) \<leftarrow> dirv2_read_block ev dp dbno buf s;
     if \<not> ok then Some (None, s)
     else if bno = NULLFSBLOCK then dirv2_data_blocks ev dp buf name n (dbno + 1) retval s
     else do {
       r \<leftarrow> dirv2_data_lookup_int (mount_at s (fsb_mount s)) (ram s) buf name;
       (case r of Some ino \<Rightarrow> Some (Some ino, s) | None \<Rightarrow> dirv2_data_blocks ev dp buf name n (dbno + 1) None s) } }"

definition dirv2_data_lookup ::
  "'h xfs_env \<Rightarrow> u32 \<Rightarrow> string \<Rightarrow> ('f, 'h) xfs_run \<Rightarrow> (u64 option \<times> ('f, 'h) xfs_run) option" where
  "dirv2_data_lookup ev dp name s =
    (let mp = mount_at s (fsb_mount s) in
     case xalloc (xdmabuf_malloc_of ev) (m_dirblksize mp) s of (buf, s) \<Rightarrow>
       if buf = 0 then Some (None, s)
       else do {
         let numblocks = dirv2_numblocks mp (xdi_size (i_d (inode_at s dp)));
         (r, s) \<leftarrow> dirv2_data_blocks ev dp buf name (unat numblocks) 0 (if stack_retval ev then Some 0 else None) s;
         Some (r, xrelease (xdmabuf_free_of ev) buf s) })"

definition dirv2_lookup ::
  "'h xfs_env \<Rightarrow> u32 \<Rightarrow> string \<Rightarrow> ('f, 'h) xfs_run \<Rightarrow> (u64 option \<times> ('f, 'h) xfs_run) option" where
  "dirv2_lookup ev dp name s =
    (if length name \<ge> MAXNAMELEN then Some (None, s)
     else if xdi_format (i_d (inode_at s dp)) = XFS_DINODE_FMT_LOCAL
     then Some (dirv2_sf_lookup (ram s) (inode_at s dp) name, s)
     else dirv2_data_lookup ev dp name s)"

definition xfs_dir_lookup ::
  "'h xfs_env \<Rightarrow> u32 \<Rightarrow> string \<Rightarrow> ('f, 'h) xfs_run \<Rightarrow> (u64 option \<times> ('f, 'h) xfs_run) option" where
  "xfs_dir_lookup ev dp name s =
    (if XFS_SB_VERSION_HASDIRV2 (m_sb (mount_at s (i_mount (inode_at s dp)))) then dirv2_lookup ev dp name s
     else dirv1_lookup ev dp name s)"

end
