(* ===== verification/Xfsopen.thy ===== *)
theory Xfsopen
imports Xfsdir
begin

text \<open>Opening files of XFS, listing its directories, and its strategy: the rest of
\<open>src/libsc/xfs/xfs.c\<close>, with the \<open>getdent\<close> routines of \<open>xfs_dir.c\<close> and \<open>xfs_dir2.c\<close>.\<close>

unbundle bit_operations_syntax

section \<open>Opening and closing\<close>

definition EFAULT :: int where "EFAULT = 6"

definition get_xfsinfo :: "'h xfs_env \<Rightarrow> ('f, 'h) xfs_run \<Rightarrow> u32 \<times> ('f, 'h) xfs_run" where
  "get_xfsinfo ev s =
    (case xalloc (xmalloc_of ev) 8 s of (infop, s) \<Rightarrow>
       if infop = 0 then (0, s)
       else case xalloc (xdmabuf_malloc_of ev) (BBTOB (BTOBB (sizeof_mount ev))) s of (mp, s) \<Rightarrow>
         let s = set_xg (\<lambda>g. g\<lparr>xinfos := (xinfos g)(infop := (xinfos g infop)\<lparr>xfs_mp := mp\<rparr>)\<rparr>) s in
         if mp = 0 then (0, xrelease (xfree_of ev) infop s)
         else case xalloc (xdmabuf_malloc_of ev) (BBTOB (BTOBB (sizeof_inode ev))) s of (ip, s) \<Rightarrow>
           let s = set_xg (\<lambda>g. g\<lparr>xinfos := (xinfos g)(infop := (xinfos g infop)\<lparr>xfs_ip := ip\<rparr>)\<rparr>) s in
           if ip = 0 then (0, xrelease (xfree_of ev) infop (xrelease (xdmabuf_free_of ev) mp s))
           else (infop, s))"

definition free_xfsinfo :: "'h xfs_env \<Rightarrow> u32 \<Rightarrow> ('f, 'h) xfs_run \<Rightarrow> ('f, 'h) xfs_run" where
  "free_xfsinfo ev infop s =
    (let s = xrelease (xdmabuf_free_of ev) (xfs_mp (xinfos (xg s) infop)) s;
         s = xrelease (xdmabuf_free_of ev) (xfs_ip (xinfos (xg s) infop)) s;
         s = set_xg (\<lambda>g. g\<lparr>xinfos := (xinfos g)(infop := \<lparr>xfs_mp = 0, xfs_ip = 0\<rparr>)\<rparr>) s
     in xrelease (xfree_of ev) infop s)"

definition xfs_next_part :: "string \<Rightarrow> (string \<times> string) option" where
  "xfs_next_part sp = do {
     (name, sp) \<leftarrow> path_part MAXNAMELEN sp;
     sp \<leftarrow> (if length name \<ge> MAXNAMELEN then skip_part sp else Some sp);
     sp \<leftarrow> skip_slashes sp;
     Some (name, sp) }"

definition no_links :: "xfs_dinode_core \<Rightarrow> bool" where
  "no_links d \<longleftrightarrow> (xdi_version d = 1 \<and> xdi_onlink d = 0) \<or> (xdi_version d = 2 \<and> xdi_nlink d = 0)"

lemma path_part_progress:
  assumes "path_part n sp = Some (name, sp1)" "0 < n" "rd sp 0 = Some c" "c \<noteq> NUL" "c \<noteq> CHR ''/''"
  shows "length sp1 < length sp"
proof -
  obtain s where "sp = c # s"
    using assms(3) by (cases sp) (auto simp: rd_def)
  then show ?thesis
    using path_part_shorter [OF assms(1)] assms by (cases name) auto
qed

lemma xfs_next_part_shorter:
  assumes "xfs_next_part sp = Some (name, r)" "rd sp 0 = Some c" "c \<noteq> NUL"
  shows "length r < length sp"
proof -
  obtain sp1 sp2 where p: "path_part MAXNAMELEN sp = Some (name, sp1)" "skip_slashes sp2 = Some r"
    and k: "(if length name \<ge> MAXNAMELEN then skip_part sp1 else Some sp1) = Some sp2"
    using assms(1) by (auto simp: xfs_next_part_def Option.bind_eq_Some_conv)
  have l: "length sp2 \<le> length sp1"
    using k skip_part_shorter [of sp1 sp2] by (auto split: if_splits)
  show ?thesis
  proof (cases "c = CHR ''/''")
    case False
    then show ?thesis
      using path_part_progress [OF p(1) _ assms(2,3)] skip_slashes_shorter [OF p(2)] l by (simp add: MAXNAMELEN_def)
  next
    case True
    obtain s where s: "sp = c # s"
      using assms(2) by (cases sp) (auto simp: rd_def)
    then have "name = []" "sp1 = sp"
      using p(1) True by (simp_all add: MAXNAMELEN_def path_part.simps(3) [of "255", simplified])
    then show ?thesis
      using k skip_slashes_shorter [OF p(2)] s True by (auto simp: MAXNAMELEN_def)
  qed
qed

text \<open>The loop of \<open>_xfs_lookup_name\<close>.  \<open>ret\<close> is what the last lookup gave; the loop does not look at it.\<close>

function xfs_walk ::
  "'h xfs_env \<Rightarrow> u32 \<Rightarrow> u32 \<Rightarrow> string \<Rightarrow> bool \<Rightarrow> ('f, 'h) xfs_run \<Rightarrow> (bool \<times> ('f, 'h) xfs_run) option"
where
  "xfs_walk ev mp ip sp ret s =
    (case rd sp 0 of
       None \<Rightarrow> None
     | Some c \<Rightarrow>
         if c = NUL then Some (ret, s)
         else if xdi_mode (i_d (inode_at s ip)) AND IFMT \<noteq> IFDIR then Some (False, s)
         else if no_links (i_d (inode_at s ip)) then Some (False, s)
         else (case xfs_next_part sp of
             None \<Rightarrow> None
           | Some (name, sp) \<Rightarrow> do {
               (found, s) \<leftarrow> xfs_dir_lookup ev ip name s;
               let s = xfs_ifree ev ip s;
               (case found of
                  None \<Rightarrow> xfs_walk ev mp ip sp False s
                | Some inum \<Rightarrow> do {
                    (ok, s) \<leftarrow> xfs_iread ev mp inum ip s;
                    if \<not> ok then Some (False, s) else xfs_walk ev mp ip sp True s }) }))"
  by pat_completeness auto
termination
  by (relation "measure (\<lambda>(_, _, _, sp, _, _). length sp)") (auto intro: xfs_next_part_shorter)

declare xfs_walk.simps [simp del]

definition xfs_lookup_name ::
  "'h xfs_env \<Rightarrow> string \<Rightarrow> ('f, 'h) xfs_run \<Rightarrow> (bool \<times> ('f, 'h) xfs_run) option" where
  "xfs_lookup_name ev filename s = do {
     let ip = fsb_inode s;
     let mp = fsb_mount s;
     let s = set_blk (\<lambda>io. io\<lparr>io_Offset_hi := 0, io_Offset_lo := 0\<rparr>) s;
     sp \<leftarrow> skip_leading filename;
     let rootino = sb_rootino (m_sb (mount_at s mp));
     if rootino = -1 then Some (False, s)
     else do {
       (ok, s) \<leftarrow> xfs_iread ev mp rootino ip s;
       if \<not> ok then Some (False, s) else xfs_walk ev mp ip sp True s } }"

text \<open>The fields of the mount structure that are computed from the superblock.\<close>

definition setup_mount :: "xfs_mount \<Rightarrow> xfs_mount" where
  "setup_mount mp =
    (let sb = m_sb mp; mxr = XFS_BTREE_BLOCK_MAXRECS (sb_blocksize sb) 24;
         v2 = XFS_SB_VERSION_HASDIRV2 sb in
     mp\<lparr>m_blkbb_log := (sb_blocklog sb + 256 - 9) mod 256,
        m_agno_log := nat ((xfs_highbit32 (sb_agcount sb - 1) + 1) mod 256),
        m_agino_log := (sb_inopblog sb + sb_agblklog sb) mod 256,
        m_litino := sb_inodesize sb - (96 + 4),
        m_blockmask := sb_blocksize sb - 1,
        m_bmap_dmxr := (mxr, mxr),
        m_dirblksize := (if v2 then push_bit (sb_blocklog sb + sb_dirblklog sb) 1 else sb_blocksize sb),
        m_dirblkfsbs := (if v2 then push_bit (sb_dirblklog sb) 1 else 1)\<rparr>)"

text \<open>The last block of the file system, as a \<open>long\<close>.\<close>

definition last_block :: "xfs_mount \<Rightarrow> u32" where
  "last_block mp = ucast (push_bit (m_blkbb_log mp) (sb_dblocks (m_sb mp)) - 1)"

definition xfs_open :: "'h xfs_env \<Rightarrow> ('f, 'h) xfs_run \<Rightarrow> (int \<times> ('f, 'h) xfs_run) option" where
  "xfs_open ev s =
    (if io_Flags (blk s) AND F_WRITE \<noteq> 0 then Some (xfs_error EIO s)
     else case get_xfsinfo ev s of (infop, s) \<Rightarrow>
       let s = set_blk (\<lambda>io. io\<lparr>fsb_FsPtr := infop\<rparr>) s in
       if infop = 0 then Some (xfs_error ENOMEM s)
       else do {
         let mp = fsb_mount s;
         (ok, s) \<leftarrow> xfs_get_superblock ev (\<lambda>buf s. set_mount mp (\<lambda>m. m\<lparr>m_sb := xfs_sb_at (ram s) buf\<rparr>) s) s;
         if \<not> ok \<or> \<not> good_sb (m_sb (mount_at s mp)) then Some (xfs_error ENXIO s)
         else do {
           let s = set_mount mp setup_mount s;
           let len = ucast (XFS_FSB_TO_B (mount_at s mp) 1);
           (case xalloc (xdmabuf_malloc_of ev) len s of (b, s) \<Rightarrow>
             let s = set_blk (\<lambda>io. io\<lparr>fsb_Buffer := b\<rparr>) s in
             if b = 0 then Some (xfs_error ENOMEM s)
             else case xalloc (xdmabuf_malloc_of ev) len s of (buf, s) \<Rightarrow>
               if buf = 0 then Some (xfs_error ENOMEM s)
               else do {
                 (ok, s) \<leftarrow> xfs_lbread ev (last_block (mount_at s mp)) buf 512 s;
                 let s = xrelease (xdmabuf_free_of ev) buf s;
                 if \<not> ok then Some (xfs_error EFAULT s)
                 else do {
                   filename \<leftarrow> fsb_Filename (blk s);
                   (found, s) \<leftarrow> xfs_lookup_name ev filename s;
                   Some (xfs_error (if found then 0 else ENOENT) s) } }) } })"

definition xfs_close :: "'h xfs_env \<Rightarrow> ('f, 'h) xfs_run \<Rightarrow> int \<times> ('f, 'h) xfs_run" where
  "xfs_close ev s =
    (let s = xfs_ifree ev (fsb_inode s) s;
         s = xrelease (xdmabuf_free_of ev) (fsb_Buffer (blk s)) s;
         s = set_blk (\<lambda>io. io\<lparr>fsb_Buffer := 0\<rparr>) s;
         s = free_xfsinfo ev (fsb_FsPtr (blk s)) s
     in (0, set_blk (\<lambda>io. io\<lparr>fsb_FsPtr := 0\<rparr>) s))"

section \<open>Directory entries\<close>

record xfs_dirent =
  de_ino :: u64
  de_name :: string

definition next_offset :: "('f, 'h) xfs_run \<Rightarrow> ('f, 'h) xfs_run" where
  "next_offset s = set_blk (\<lambda>io. io\<lparr>io_Offset_lo := io_Offset_lo io + 1\<rparr>) s"

text \<open>Entry \<open>ix\<close> of the leaf in the block buffer, where it has one.\<close>

definition leaf_dirent :: "int \<Rightarrow> ('f, 'h) xfs_run \<Rightarrow> xfs_dirent option \<times> ('f, 'h) xfs_run" where
  "leaf_dirent ix s =
    (let leaf = fsb_Buffer (blk s); m = ram s in
     if ix \<ge> leaf_count m leaf then (None, s)
     else (Some \<lparr>de_ino = entry_ino m leaf ix, de_name = entry_name m leaf ix (entry_namelen m leaf ix)\<rparr>,
           next_offset s))"

definition dirv1_leaf_getdent ::
  "'h xfs_env \<Rightarrow> ('f, 'h) xfs_run \<Rightarrow> (xfs_dirent option \<times> ('f, 'h) xfs_run) option" where
  "dirv1_leaf_getdent ev s = do {
     (_, s) \<leftarrow> (if io_Offset_lo (blk s) = 0
       then dirv1_read_buf ev (fst (xfs_get_blockno (inode_at s (fsb_inode s)) 0 (ram s))) (fsb_Buffer (blk s)) s
       else Some (True, s));
     Some (if leaf_magic (ram s) (fsb_Buffer (blk s)) \<noteq> XFS_DIR_LEAF_MAGIC then (None, s)
       else leaf_dirent (uint (io_Offset_lo (blk s))) s) }"

text \<open>The leaf with the entry at the offset: \<open>totalcount\<close> entries are before block \<open>whichblock\<close>.  The
number is that of the entries before the leaf in the buffer.\<close>

partial_function (option) dirv1_find_leaf ::
  "'h xfs_env \<Rightarrow> u32 \<Rightarrow> u32 \<Rightarrow> u32 \<Rightarrow> ('f, 'h) xfs_run \<Rightarrow> (u32 option \<times> ('f, 'h) xfs_run) option"
where
  "dirv1_find_leaf ev numblocks totalcount whichblock s =
    (if totalcount \<le> io_Offset_lo (blk s) then
       if whichblock > numblocks then Some (None, s)
       else let bno = fst (xfs_get_blockno (inode_at s (fsb_inode s)) whichblock (ram s)) in
         if bno = NULLFSBLOCK then dirv1_find_leaf ev numblocks totalcount (whichblock + 1) s
         else do {
           (_, s) \<leftarrow> dirv1_read_buf ev bno (fsb_Buffer (blk s)) s;
           let leaf = fsb_Buffer (blk s);
           if leaf_magic (ram s) leaf = XFS_DA_NODE_MAGIC then dirv1_find_leaf ev numblocks totalcount (whichblock + 1) s
           else if leaf_magic (ram s) leaf \<noteq> XFS_DIR_LEAF_MAGIC then Some (None, s)
           else dirv1_find_leaf ev numblocks (totalcount + of_int (leaf_count (ram s) leaf)) (whichblock + 1) s }
     else Some (Some (totalcount - of_int (leaf_count (ram s) (fsb_Buffer (blk s)))), s))"

definition dirv1_node_getdent ::
  "'h xfs_env \<Rightarrow> ('f, 'h) xfs_run \<Rightarrow> (xfs_dirent option \<times> ('f, 'h) xfs_run) option" where
  "dirv1_node_getdent ev s = do {
     let mp = mount_at s (fsb_mount s);
     (r, s) \<leftarrow> dirv1_find_leaf ev (dirv1_numblocks mp (xdi_size (i_d (inode_at s (fsb_inode s))))) 0 0 s;
     Some (case r of None \<Rightarrow> (None, s) | Some totalcount \<Rightarrow> leaf_dirent (uint (io_Offset_lo (blk s) - totalcount)) s) }"

definition dirv1_shortform_getdent :: "('f, 'h) xfs_run \<Rightarrow> xfs_dirent option \<times> ('f, 'h) xfs_run" where
  "dirv1_shortform_getdent s =
    (let m = ram s; sf = if_u1 (inode_at s (fsb_inode s)); index = unat (io_Offset_lo (blk s)) in
     if index < sf_count m sf then
       (let sfe = (XFS_DIR_SF_NEXTENTRY m ^^ index) (sf + 9) in
        (Some \<lparr>de_ino = ld64 m sfe, de_name = mem_str m (sfe + 9) (sfe_namelen m sfe)\<rparr>, next_offset s))
     else (None, s))"

definition dirv1_getdent ::
  "'h xfs_env \<Rightarrow> ('f, 'h) xfs_run \<Rightarrow> (xfs_dirent option \<times> ('f, 'h) xfs_run) option" where
  "dirv1_getdent ev s =
    (let ip = inode_at s (fsb_inode s) in
     if dir_is_shortform (mount_at s (i_mount ip)) ip then Some (dirv1_shortform_getdent s)
     else if dir_is_leaf (mount_at s (fsb_mount s)) ip then dirv1_leaf_getdent ev s
     else dirv1_node_getdent ev s)"

subsection \<open>Version 2\<close>

definition XFS_DIR2_DATA_DOT_OFFSET :: u32 where "XFS_DIR2_DATA_DOT_OFFSET = 16"
definition XFS_DIR2_DATA_DOTDOT_OFFSET :: u32 where
  "XFS_DIR2_DATA_DOTDOT_OFFSET = XFS_DIR2_DATA_DOT_OFFSET + XFS_DIR2_DATA_ENTSIZE 1"
definition XFS_DIR2_DATA_FIRST_OFFSET :: u32 where
  "XFS_DIR2_DATA_FIRST_OFFSET = XFS_DIR2_DATA_DOTDOT_OFFSET + XFS_DIR2_DATA_ENTSIZE 2"

fun sf2_getdent ::
  "memory \<Rightarrow> u32 \<Rightarrow> u32 \<Rightarrow> nat \<Rightarrow> u32 \<Rightarrow> (xfs_dirent \<times> u32) option" where
  "sf2_getdent m sf offset 0 sfe = None"
| "sf2_getdent m sf offset (Suc i) sfe =
    (if sint offset > sint (XFS_DIR2_SF_GET_OFFSET m sfe) then
       sf2_getdent m sf offset i (XFS_DIR2_SF_NEXTENTRY m sf sfe)
     else let n = sfe2_namelen m sfe in
       Some (\<lparr>de_ino = XFS_DIR2_SF_GET_INUMBER m sf (XFS_DIR2_SF_INUMBERP m sfe),
              de_name = mem_str m (sfe2_name sfe) n\<rparr>,
             XFS_DIR2_SF_GET_OFFSET m sfe + XFS_DIR2_DATA_ENTSIZE n))"

definition dirv2_sf_getdent :: "('f, 'h) xfs_run \<Rightarrow> xfs_dirent option \<times> ('f, 'h) xfs_run" where
  "dirv2_sf_getdent s =
    (let m = ram s; dp = inode_at s (fsb_inode s); sf = if_u1 dp; offset = io_Offset_lo (blk s);
         at = (\<lambda>off. set_blk (\<lambda>io. io\<lparr>io_Offset_lo := off\<rparr>) s) in
     if offset \<le> XFS_DIR2_DATA_DOT_OFFSET then
       (Some \<lparr>de_ino = i_ino dp, de_name = ''.''\<rparr>, at XFS_DIR2_DATA_DOTDOT_OFFSET)
     else if offset \<le> XFS_DIR2_DATA_DOTDOT_OFFSET then
       (Some \<lparr>de_ino = XFS_DIR2_SF_GET_INUMBER m sf (sf + 2), de_name = ''..''\<rparr>, at XFS_DIR2_DATA_FIRST_OFFSET)
     else case sf2_getdent m sf offset (sf2_count m sf) (XFS_DIR2_SF_FIRSTENTRY m sf) of
         None \<Rightarrow> (None, s)
       | Some (de, off) \<Rightarrow> (Some de, at off))"

text \<open>The first entry of the block at \<open>data\<close> that is not before \<open>boff\<close>, and what follows it.\<close>

partial_function (option) data_getdent ::
  "memory \<Rightarrow> u32 \<Rightarrow> u32 \<Rightarrow> u32 \<Rightarrow> u32 \<Rightarrow> (xfs_dirent \<times> u32) option option" where
  "data_getdent m data boff ptr endptr =
    (if ptr < endptr then
       if data_freetag m ptr = XFS_DIR2_DATA_FREE_TAG then data_getdent m data boff (ptr + data_length m ptr) endptr
       else let n = data_namelen m ptr; rest = ptr + XFS_DIR2_DATA_ENTSIZE n in
         if sint (ptr - data) < sint boff then data_getdent m data boff rest endptr
         else Some (Some (\<lparr>de_ino = data_inumber m ptr, de_name = mem_str m (data_name ptr) n\<rparr>, rest))
     else Some None)"

definition dir2_shift :: "xfs_mount \<Rightarrow> nat" where
  "dir2_shift mp = sb_blocklog (m_sb mp) + sb_dirblklog (m_sb mp)"

text \<open>The blocks from \<open>db\<close> on, \<open>n\<close> of them, looked at through \<open>data\<close>.  The outer \<open>None\<close> of the result is the
return after a failed read, which does not free the buffer.\<close>

fun data_getdent_blocks ::
  "'h xfs_env \<Rightarrow> u32 \<Rightarrow> nat \<Rightarrow> u32 \<Rightarrow> u32 \<Rightarrow> ('f, 'h) xfs_run \<Rightarrow>
    (xfs_dirent option option \<times> ('f, 'h) xfs_run) option"
where
  "data_getdent_blocks ev data 0 db boff s = Some (Some None, s)"
| "data_getdent_blocks ev data (Suc n) db boff s = do {
     (ok, bno, s) \<leftarrow> dirv2_read_block ev (fsb_inode s) db data s;
     if \<not> ok then Some (None, s)
     else if bno = NULLFSBLOCK then data_getdent_blocks ev data n (db + 1) 0 s
     else do {
       let m = ram s;
       let mp = mount_at s (fsb_mount s);
       let endptr = (if ld32 m data = XFS_DIR2_DATA_MAGIC then data + m_dirblksize mp
         else XFS_DIR2_BLOCK_LEAF_P m (XFS_DIR2_BLOCK_TAIL_P mp data));
       r \<leftarrow> data_getdent m data boff (data + 16) endptr;
       (case r of
          None \<Rightarrow> data_getdent_blocks ev data n (db + 1) 0 s
        | Some (de, rest) \<Rightarrow>
            Some (Some (Some de), set_blk (\<lambda>io. io\<lparr>io_Offset_lo := push_bit (dir2_shift mp) db + (rest - data)\<rparr>) s)) } }"

definition dirv2_data_getdent ::
  "'h xfs_env \<Rightarrow> ('f, 'h) xfs_run \<Rightarrow> (xfs_dirent option \<times> ('f, 'h) xfs_run) option" where
  "dirv2_data_getdent ev s =
    (let mp = mount_at s (fsb_mount s); offset = io_Offset_lo (blk s);
         numblocks = dirv2_numblocks mp (xdi_size (i_d (inode_at s (fsb_inode s))));
         db = signed_drop_bit (dir2_shift mp) offset; boff = offset AND (push_bit (dir2_shift mp) 1 - 1) in
     case xalloc (xdmabuf_malloc_of ev) (m_dirblksize mp) s of (data, s) \<Rightarrow>
       if data = 0 then Some (None, s)
       else do {
         (r, s) \<leftarrow> data_getdent_blocks ev data (unat numblocks - unat db) db boff s;
         Some (case r of None \<Rightarrow> (None, s) | Some r \<Rightarrow> (r, xrelease (xdmabuf_free_of ev) data s)) })"

definition dirv2_getdent ::
  "'h xfs_env \<Rightarrow> ('f, 'h) xfs_run \<Rightarrow> (xfs_dirent option \<times> ('f, 'h) xfs_run) option" where
  "dirv2_getdent ev s =
    (if xdi_format (i_d (inode_at s (fsb_inode s))) = XFS_DINODE_FMT_LOCAL then Some (dirv2_sf_getdent s)
     else dirv2_data_getdent ev s)"

definition xfs_getdent ::
  "'h xfs_env \<Rightarrow> ('f, 'h) xfs_run \<Rightarrow> (xfs_dirent option \<times> ('f, 'h) xfs_run) option" where
  "xfs_getdent ev s =
    (if XFS_SB_VERSION_HASDIRV2 (m_sb (mount_at s (fsb_mount s))) then dirv2_getdent ev s else dirv1_getdent ev s)"

subsection \<open>The entries the caller gets\<close>

definition st_str :: "u32 \<Rightarrow> string \<Rightarrow> memory \<Rightarrow> memory" where
  "st_str p str m = (\<lambda>a. if unat (a - p) < length str then of_char (str ! unat (a - p)) else m a)"

partial_function (option) xfs_getdirents ::
  "'h xfs_env \<Rightarrow> u32 \<Rightarrow> u32 \<Rightarrow> ('f, 'h) xfs_run \<Rightarrow> (u32 \<times> ('f, 'h) xfs_run) option"
where
  "xfs_getdirents ev dp left s =
    (if left = 0 then Some (left, s)
     else do {
       (dep, s) \<leftarrow> xfs_getdent ev s;
       (case dep of
          None \<Rightarrow> Some (left, s)
        | Some dep \<Rightarrow> do {
            let name = take (FileNameLengthMax - 1) (de_name dep);
            let n = of_nat (length name);
            let s = set_ram (\<lambda>m. m(dp + 4 := ReadOnlyFile)) s;
            (ok, s) \<leftarrow> xfs_iread ev (fsb_mount s) (de_ino dep) (dirent_ip ev) s;
            if \<not> ok then Some (left, snd (xfs_error EIO s))
            else do {
              let isdir = (xdi_mode (i_d (inode_at s (dirent_ip ev))) AND IFMT = IFDIR);
              let s = set_ram (\<lambda>m. if isdir then m(dp + 4 := m (dp + 4) OR DirectoryFile) else m) s;
              let s = set_ram (\<lambda>m. (st_str (dp + 5) name (st32 dp n m))(dp + 5 + n := 0)) s;
              xfs_getdirents ev (dp + 40) (left - 1) (xfs_ifree ev (dirent_ip ev) s) } }) })"

definition xfs_getdirent :: "'h xfs_env \<Rightarrow> ('f, 'h) xfs_run \<Rightarrow> (int \<times> ('f, 'h) xfs_run) option" where
  "xfs_getdirent ev s =
    (let count = io_Count (blk s) in
     if count = 0 then Some (xfs_error EINVAL s)
     else do {
       (left, s) \<leftarrow> xfs_getdirents ev (io_Address (blk s)) count s;
       let s = set_blk (\<lambda>io. io\<lparr>io_Count := count - left\<rparr>) s;
       Some (if count - left = 0 then xfs_error ENOTDIR s else (0, s)) })"

section \<open>The strategy\<close>

definition xfs_strat :: "'h xfs_env \<Rightarrow> ('f, 'h) xfs_run \<Rightarrow> (int \<times> ('f, 'h) xfs_run) option" where
  "xfs_strat ev s =
    (case fsb_FunctionCode (blk s) of
       FS_CHECK \<Rightarrow> xfs_checkfs ev s
     | FS_OPEN \<Rightarrow> xfs_open ev s
     | FS_CLOSE \<Rightarrow> Some (xfs_close ev s)
     | FS_READ \<Rightarrow> xfs_read ev s
     | FS_WRITE \<Rightarrow> Some (xfs_error EROFS s)
     | FS_GETDIRENT \<Rightarrow> xfs_getdirent ev s
     | FS_GETREADSTATUS \<Rightarrow> Some (xfs_grs s)
     | _ \<Rightarrow> Some (xfs_error ENXIO s))"

definition xfs_strategy :: "'h xfs_env \<Rightarrow> 'f eiob \<Rightarrow> memory \<Rightarrow> 'h xfs_globals \<Rightarrow>
    (int \<times> 'f eiob \<times> memory \<times> 'h xfs_globals) option" where
  "xfs_strategy ev eb m g = do {
     (r, s) \<leftarrow> xfs_strat ev \<lparr>blk = eb, ram = m, xg = g\<rparr>;
     Some (r, blk s, ram s, xg s) }"

definition xfs_install :: "'f \<Rightarrow> string option \<Rightarrow> 'f fs_entry list \<Rightarrow> (int \<times> 'f fs_entry list) option" where
  "xfs_install strat room l = fs_register strat (cstr ''xfs'') DTFS_EFS room l"

end
