(* ===== verification/Xfsread.thy ===== *)
theory Xfsread
imports Xfsopen Efsread
begin

text \<open>Reading files of XFS: what \<open>_xfs_read\<close> of \<open>src/libsc/xfs/xfs.c\<close> stores, and what \<open>Read\<close> of
\<open>src/fw/pv_stubs.c\<close> gives on a descriptor of such a file.

The contents of a file are the bytes its extents point to, and zeros in its holes (\<open>xfs_byte\<close>).
\<open>_xfs_get_blockno\<close> is a lookup in the list of extents where that is ordered (\<open>find_block_recs\<close>);
the locale \<open>block_reader\<close> has the loop, and its interpretation the turns of \<open>_xfs_read\<close>.\<close>

unbundle bit_operations_syntax

section \<open>Extents\<close>

definition recs :: "memory \<Rightarrow> u32 \<Rightarrow> nat \<Rightarrow> bmbt_irec list" where
  "recs m p n = map (\<lambda>i. xfs_convert_extent m (p + 16 * of_nat i)) [0..<n]"

definition in_rec :: "bmbt_irec \<Rightarrow> nat \<Rightarrow> bool" where
  "in_rec e b \<longleftrightarrow> unat (br_startoff e) \<le> b \<and> b < unat (br_startoff e) + unat (br_blockcount e)"

definition block_at :: "bmbt_irec list \<Rightarrow> nat \<Rightarrow> nat option" where
  "block_at es b = map_option (\<lambda>e. unat (br_startblock e) + (b - unat (br_startoff e))) (List.find (\<lambda>e. in_rec e b) es)"

text \<open>In the order of the file and without overlap.\<close>

definition ordered :: "bmbt_irec list \<Rightarrow> bool" where
  "ordered es \<longleftrightarrow> sorted_wrt (\<lambda>e f. unat (br_startoff e) + unat (br_blockcount e) \<le> unat (br_startoff f)) es"

lemma recs_Suc: "recs m p (Suc n) = xfs_convert_extent m p # recs m (p + 16) n"
  unfolding recs_def upt_conv_Cons [OF zero_less_Suc]
  by (simp add: map_Suc_upt [symmetric] algebra_simps del: upt_Suc)

lemma unat_or_less:
  fixes a b :: "'a::len word"
  assumes "unat a < 2 ^ n" "unat b < 2 ^ n"
  shows "unat (a OR b) < 2 ^ n"
proof -
  have "int (unat a) < 2 ^ n" "int (unat b) < 2 ^ n"
    using assms by (metis of_nat_less_iff of_nat_numeral of_nat_power)+
  then have "int (unat a) OR int (unat b) < 2 ^ n"
    by (intro OR_upper) simp_all
  moreover have "int (unat (a OR b)) = int (unat a) OR int (unat b)"
    by (simp only: unsigned_or_eq of_nat_or_eq)
  ultimately show ?thesis
    by (metis of_nat_less_iff of_nat_numeral of_nat_power)
qed

lemma unat_ucast64: "unat (ucast (x :: u32) :: u64) = unat x"
  using unat_lt_32 [of x] by (simp add: unsigned_ucast_eq take_bit_nat_eq_self)

lemma unat_drop_bit_64: "unat (drop_bit n (x :: u64)) = unat x div 2 ^ n"
  using unat_drop_bit_eq [of n x] by (simp only: drop_bit_eq_div)

lemma convert_bounds:
  "unat (br_startoff (xfs_convert_extent m p)) < 2 ^ 55" "unat (br_blockcount (xfs_convert_extent m p)) < 2 ^ 21"
proof -
  let ?l0 = "ld32 m p" and ?l1 = "ld32 m (p + 4)" and ?l3 = "ld32 m (p + 12)"
  have "unat (push_bit 23 (ucast ?l0 :: u64)) = unat ?l0 * 2 ^ 23"
    using unat_lt_32 [of ?l0] by (simp add: push_bit_eq_mult unat_word_ariths unat_ucast64)
  moreover have "unat (drop_bit 9 (ucast ?l1 :: u64)) < 2 ^ 55"
    using unat_lt_32 [of ?l1] by (simp add: unat_drop_bit_64 unat_ucast64)
  ultimately show "unat (br_startoff (xfs_convert_extent m p)) < 2 ^ 55"
    using unat_lt_32 [of ?l0] unfolding xfs_convert_extent_def Let_def bmbt_irec.simps
    by (intro unat_or_less) simp_all
  have "unat (?l3 AND mask 21) = unat ?l3 mod 2 ^ 21"
    using unsigned_take_bit_eq [of 21 ?l3, where ?'a = nat]
    by (simp only: take_bit_eq_mask [of 21 ?l3, symmetric] take_bit_eq_mod [of 21 "unat ?l3"])
  then show "unat (br_blockcount (xfs_convert_extent m p)) < 2 ^ 21"
    by (simp add: xfs_convert_extent_def Let_def unat_ucast64 mask_eq_exp_minus_1)
qed

lemma of_nat_neq_minus_one: "b + 1 < 2 ^ 32 \<Longrightarrow> (of_nat b :: u32) \<noteq> -1"
  using unat_of_nat_32 [of "b + 1"] by (metis add.commute add.left_inverse add_is_0 of_nat_1 of_nat_add one_neq_zero unat_0)

lemma find_none: "(\<And>e. e \<in> set es \<Longrightarrow> \<not> P e) \<Longrightarrow> List.find P es = None"
  by (simp add: find_None_iff)

text \<open>The search stops at the first extent behind the offset; in an ordered list nothing that
follows holds it.\<close>

lemma find_block_recs:
  assumes "ordered (recs m p n)"
  shows "find_block m p n off =
    map_option (\<lambda>e. (ucast (br_startblock e) + (off - ucast (br_startoff e)),
        ucast (br_blockcount e) - (off - ucast (br_startoff e))))
      (List.find (\<lambda>e. in_rec e (unat off)) (recs m p n))"
  using assms
proof (induction n arbitrary: p)
  case 0
  then show ?case
    by (simp add: recs_def)
next
  case (Suc n)
  let ?e = "xfs_convert_extent m p"
  have o: "ordered (recs m (p + 16) n)"
    and later: "\<And>f. f \<in> set (recs m (p + 16) n) \<Longrightarrow> unat (br_startoff ?e) + unat (br_blockcount ?e) \<le> unat (br_startoff f)"
    using Suc.prems by (auto simp: ordered_def recs_Suc)
  have lt: "(ucast off :: u64) < br_startoff ?e \<longleftrightarrow> unat off < unat (br_startoff ?e)"
    "(ucast off :: u64) < br_startoff ?e + br_blockcount ?e \<longleftrightarrow> unat off < unat (br_startoff ?e) + unat (br_blockcount ?e)"
    using convert_bounds [of m p] by (simp_all add: word_less_nat_alt unat_ucast64 unat_word_ariths)
  have "List.find (\<lambda>e. in_rec e (unat off)) (recs m (p + 16) n) = None" if "unat off < unat (br_startoff ?e)"
    using later that by (intro find_none) (fastforce simp: in_rec_def)
  then show ?case
    using Suc.IH [OF o] lt by (auto simp: recs_Suc in_rec_def Let_def not_less)
qed

lemma recs_same:
  assumes "same_on (area p (16 * n)) m m'" "16 * n \<le> 2 ^ 32"
  shows "recs m p n = recs m' p n"
proof -
  have "xfs_convert_extent m (p + 16 * of_nat i) = xfs_convert_extent m' (p + 16 * of_nat i)" if "i < n" for i
  proof -
    have "16 * i < 2 ^ 32"
      using that assms(2) by simp
    then have u: "unat (16 * of_nat i :: u32) = 16 * i"
      using unat_of_nat_32 [of "16 * i"] by simp
    have "ld32 m (p + (16 * of_nat i + of_nat k)) = ld32 m' (p + (16 * of_nat i + of_nat k))" if "k \<le> 12" for k
      using that \<open>i < n\<close> assms(2) u unat_add_small [of "16 * of_nat i" k] by (intro ld32_same [OF assms(1)]) simp_all
    from this [of 0] this [of 4] this [of 8] this [of 12] show ?thesis
      by (simp add: xfs_convert_extent_def add.assoc)
  qed
  then show ?thesis
    by (simp add: recs_def)
qed

lemma ordered_unique:
  "ordered es \<Longrightarrow> e \<in> set es \<Longrightarrow> f \<in> set es \<Longrightarrow> in_rec e c \<Longrightarrow> in_rec f c \<Longrightarrow> e = f"
  by (induction es) (force simp: ordered_def in_rec_def)+

lemma find_in_ordered:
  assumes "ordered es" "List.find (\<lambda>e. in_rec e b) es = Some e" "in_rec e c"
  shows "List.find (\<lambda>e. in_rec e c) es = Some e"
proof -
  have e: "e \<in> set es"
    using assms(2) by (auto simp: find_Some_iff)
  then obtain f where f: "List.find (\<lambda>e. in_rec e c) es = Some f"
    using assms(3) by (cases "List.find (\<lambda>e. in_rec e c) es") (auto simp: find_None_iff)
  then have "f \<in> set es" "in_rec f c"
    by (auto simp: find_Some_iff)
  then show ?thesis
    using ordered_unique [OF assms(1) e] assms(3) f by blast
qed

text \<open>Extents of a sound file: 32-bit block numbers, each within one allocation group.\<close>

definition ag_blocks :: "xfs_mount \<Rightarrow> nat" where "ag_blocks mt = 2 ^ sb_agblklog (m_sb mt)"

definition wf_recs :: "xfs_mount \<Rightarrow> bmbt_irec list \<Rightarrow> bool" where
  "wf_recs mt es \<longleftrightarrow> ordered es \<and> (\<forall>e \<in> set es.
     unat (br_startblock e) + unat (br_blockcount e) < 2 ^ 32 \<and>
     unat (br_startblock e) mod ag_blocks mt + unat (br_blockcount e) \<le> ag_blocks mt)"

definition file_recs :: "u32 \<Rightarrow> ('f, 'h) xfs_run \<Rightarrow> bmbt_irec list" where
  "file_recs ip s = recs (ram s) (if_u1 (inode_at s ip)) (unat (if_bytes (inode_at s ip)) div 16)"

lemma ext_count: "nat (sint (if_bytes ip div 16)) = unat (if_bytes ip) div 16"
proof -
  have "unat (if_bytes ip div 16) = unat (if_bytes ip) div 16"
    by (simp add: unat_div)
  moreover have "unat (if_bytes ip) div 16 < 2 ^ 31"
    using unat_lt_32 [of "if_bytes ip"] by simp
  ultimately show ?thesis
    using sint_small [of "if_bytes ip div 16"] by simp
qed

text \<open>What \<open>_xfs_get_blockno\<close> gives: the block, and that those up to the end of the extent follow.\<close>

lemma get_blockno_run:
  assumes es: "es = recs m (if_u1 ip) (unat (if_bytes ip) div 16)" and wf: "wf_recs mt es"
    and fl: "if_flags ip AND XFS_IFEXTENTS \<noteq> 0" and at: "block_at es (unat off) = Some b"
  shows "\<exists>len. xfs_get_blockno ip off m = (of_nat b, Some (of_nat len)) \<and> 0 < len \<and> len < 2 ^ 21 \<and>
    b + len < 2 ^ 32 \<and> b mod ag_blocks mt + len \<le> ag_blocks mt \<and>
    (\<forall>k < len. block_at es (unat off + k) = Some (b + k)) \<and>
    (\<forall>e. List.find (\<lambda>e. in_rec e (unat off)) es = Some e \<longrightarrow>
       len = unat (br_blockcount e) - (unat off - unat (br_startoff e)))"
proof -
  have o: "ordered es"
    using wf by (simp add: wf_recs_def)
  obtain e where e: "List.find (\<lambda>e. in_rec e (unat off)) es = Some e"
    and b: "b = unat (br_startblock e) + (unat off - unat (br_startoff e))"
    using at by (auto simp: block_at_def)
  have h: "e \<in> set es" "in_rec e (unat off)"
    using e by (auto simp: find_Some_iff)
  then have c: "unat (br_blockcount e) < 2 ^ 21"
    using convert_bounds(2) by (auto simp: es recs_def)
  have w: "unat (br_startblock e) + unat (br_blockcount e) < 2 ^ 32"
    "unat (br_startblock e) mod ag_blocks mt + unat (br_blockcount e) \<le> ag_blocks mt"
    using wf h(1) by (auto simp: wf_recs_def)
  let ?d = "unat off - unat (br_startoff e)"
  define len where "len = unat (br_blockcount e) - ?d"
  have l: "0 < len" "len < 2 ^ 21" "b + len < 2 ^ 32" "?d + len = unat (br_blockcount e)"
    using h(2) c w(1) by (auto simp: len_def in_rec_def b)
  have "b mod ag_blocks mt = unat (br_startblock e) mod ag_blocks mt + ?d"
    using w(2) l(1,4) unfolding b mod_add_left_eq [symmetric, of "unat (br_startblock e)"] by simp
  then have ag: "b mod ag_blocks mt + len \<le> ag_blocks mt"
    using w(2) l(4) by simp
  have "unat (br_startoff e) \<le> unat off" "unat (br_startoff e) < 2 ^ 32"
    using h(2) unat_lt_32 [of off] by (auto simp: in_rec_def)
  then have su: "unat (ucast (br_startoff e) :: u32) = unat (br_startoff e)"
    by (simp add: unsigned_ucast_eq take_bit_nat_eq_self)
  then have d: "off - ucast (br_startoff e) = of_nat ?d"
    using \<open>unat (br_startoff e) \<le> unat off\<close> by (simp add: of_nat_diff su [symmetric])
  have uc: "(ucast x :: u32) = of_nat (unat x)" for x :: u64
    by (simp add: word_unat_eq_iff unsigned_ucast_eq unat_of_nat)
  have "ucast (br_startblock e) + (of_nat ?d :: u32) = of_nat b"
    by (simp only: uc of_nat_add b)
  moreover have "ucast (br_blockcount e) - (of_nat ?d :: u32) = of_nat len"
    using l(4) by (simp only: uc len_def of_nat_diff [of ?d, symmetric] le_add1 [of ?d len, unfolded l(4)])
  ultimately have "xfs_get_blockno ip off m = (of_nat b, Some (of_nat len))"
    using find_block_recs [OF o [unfolded es], of off] e l(4) fl
    by (simp add: xfs_get_blockno_def ext_count es [symmetric] d)
  moreover have "block_at es (unat off + k) = Some (b + k)" if "k < len" for k
  proof -
    have "in_rec e (unat off + k)"
      using that h(2) by (auto simp: len_def in_rec_def)
    then show ?thesis
      using find_in_ordered [OF o e] h(2) by (simp add: block_at_def b in_rec_def)
  qed
  moreover have "len = unat (br_blockcount f) - (unat off - unat (br_startoff f))"
    if "List.find (\<lambda>e. in_rec e (unat off)) es = Some f" for f
    using that e by (simp add: len_def)
  ultimately show ?thesis
    using l ag by blast
qed

lemma get_blockno_hole:
  assumes "es = recs m (if_u1 ip) (unat (if_bytes ip) div 16)" "ordered es"
    and "block_at es (unat off) = None"
  shows "xfs_get_blockno ip off m = (NULLFSBLOCK, None)"
  using find_block_recs [OF assms(2) [unfolded assms(1)], of off] assms(3)
  by (simp add: xfs_get_blockno_def ext_count assms(1) [symmetric] block_at_def)

section \<open>Blocks of the disk\<close>

definition blk_bytes :: "xfs_mount \<Rightarrow> nat" where "blk_bytes mt = 2 ^ sb_blocklog (m_sb mt)"

text \<open>A mount structure as \<open>_xfs_open\<close> sets it up, for the block sizes of XFS.\<close>

definition wf_mount :: "xfs_mount \<Rightarrow> bool" where
  "wf_mount mt \<longleftrightarrow> 9 \<le> sb_blocklog (m_sb mt) \<and> sb_blocklog (m_sb mt) \<le> 16 \<and> unat (sb_blocksize (m_sb mt)) = blk_bytes mt \<and>
     m_blkbb_log mt = sb_blocklog (m_sb mt) - 9 \<and> m_blockmask mt = sb_blocksize (m_sb mt) - 1 \<and> sb_agblklog (m_sb mt) < 32"

lemma wf_mount_setup:
  assumes "9 \<le> sb_blocklog (m_sb mt)" "sb_blocklog (m_sb mt) \<le> 16" "unat (sb_blocksize (m_sb mt)) = 2 ^ sb_blocklog (m_sb mt)"
    "sb_agblklog (m_sb mt) < 32"
  shows "wf_mount (setup_mount mt)"
proof -
  have "(sb_blocklog (m_sb mt) + 256 - 9) mod 256 = (sb_blocklog (m_sb mt) - 9 + 256) mod 256"
    using assms(1) by simp
  also have "\<dots> = sb_blocklog (m_sb mt) - 9"
    using assms(2) by (simp only: mod_add_self2) simp
  finally show ?thesis
    using assms by (simp add: wf_mount_def setup_mount_def blk_bytes_def Let_def)
qed

lemma daddr_word:
  assumes "sb_agblklog (m_sb mt) < 32" "b < 2 ^ 32"
  shows "XFS_FSB_TO_DADDR mt (of_nat b) =
    of_nat ((b div ag_blocks mt * unat (sb_agblocks (m_sb mt)) + b mod ag_blocks mt) * 2 ^ m_blkbb_log mt)"
proof -
  let ?n = "sb_agblklog (m_sb mt)"
  have u: "unat (of_nat b :: u32) = b"
    using assms(2) by (rule unat_of_nat_32)
  have "XFS_FSB_TO_AGNO mt (of_nat b) = of_nat (b div ag_blocks mt)"
    using assms(2) less_imp_le_nat
    by (simp add: word_unat_eq_iff XFS_FSB_TO_AGNO_def unat_drop_bit_32 u ag_blocks_def unat_of_nat_32
        div_le_dividend [THEN order.strict_trans1])
  moreover have "unat (take_bit ?n (of_nat b :: u32)) = b mod ag_blocks mt"
    by (simp only: unsigned_take_bit_eq u take_bit_eq_mod [of ?n b] ag_blocks_def)
  then have "XFS_FSB_TO_AGBNO mt (of_nat b) = of_nat (b mod ag_blocks mt)"
    using assms(2) mod_less_eq_dividend [THEN order.strict_trans1]
    by (simp only: XFS_FSB_TO_AGBNO_def XFS_MASK32LO_def take_bit_eq_mask mask_eq_decr_exp push_bit_eq_mult mult_1
        word_unat_eq_iff unat_of_nat_32)
  ultimately show ?thesis
    by (simp add: XFS_FSB_TO_DADDR_def XFS_AGB_TO_DADDR_def XFS_FSB_TO_BB_def push_bit_eq_mult)
qed

text \<open>Blocks that follow each other within a group follow each other on the disk.\<close>

lemma daddr_run:
  assumes "sb_agblklog (m_sb mt) < 32" "b + k < 2 ^ 32" "b mod ag_blocks mt + k < ag_blocks mt"
  shows "XFS_FSB_TO_DADDR mt (of_nat (b + k)) = XFS_FSB_TO_DADDR mt (of_nat b) + of_nat k * 2 ^ m_blkbb_log mt"
proof -
  have "(b + k) mod ag_blocks mt = b mod ag_blocks mt + k"
    using assms(3) by (metis mod_add_left_eq mod_less)
  moreover have "(b + k) div ag_blocks mt = b div ag_blocks mt"
    using assms(3) div_add1_eq [of b k "ag_blocks mt"] by simp
  ultimately show ?thesis
    using daddr_word [OF assms(1), of "b + k"] daddr_word [OF assms(1), of b] assms(2)
    by (simp add: algebra_simps)
qed

section \<open>Readers of blocks\<close>

text \<open>From memory \<open>m\<close> to \<open>m'\<close>, \<open>n\<close> bytes of the contents \<open>c\<close> from \<open>lo\<close> on have been stored at \<open>buf\<close>, and
besides only \<open>A\<close> has changed.\<close>

definition stored :: "(nat \<Rightarrow> u8 option) \<Rightarrow> u32 set \<Rightarrow> u32 \<Rightarrow> nat \<Rightarrow> nat \<Rightarrow> memory \<Rightarrow> memory \<Rightarrow> bool" where
  "stored c A buf lo n m m' \<longleftrightarrow>
    (\<forall>k < n. Some (m' (buf + of_nat k)) = c (lo + k)) \<and> same_on (- (A \<union> area buf n)) m m'"

lemma stored_none: "stored c A buf lo 0 m m"
  by (simp add: stored_def same_on_def)

lemma stored_trans:
  assumes a: "stored c A buf lo i m m1" and b: "stored c A (buf + of_nat i) (lo + i) (n - i) m1 m'"
    and o: "area buf n \<inter> A = {}" and n: "i \<le> n" "n \<le> 2 ^ 31"
  shows "stored c A buf lo n m m'"
proof -
  note t = area_tail [OF n, where buf = buf]
  have "Some (m' (buf + of_nat j)) = c (lo + j)" if j: "j < n" for j
  proof (cases "j < i")
    case True
    have "buf + of_nat j \<in> area buf n"
      using j n by (simp add: area_def unat_of_nat_32)
    then have "buf + of_nat j \<notin> A \<union> area (buf + of_nat i) (n - i)"
      using o t(2) [OF True] by blast
    then have "m1 (buf + of_nat j) = m' (buf + of_nat j)"
      using b unfolding stored_def same_on_def by blast
    then show ?thesis
      using a True by (metis stored_def)
  next
    case False
    then have "Some (m' (buf + of_nat i + of_nat (j - i))) = c (lo + i + (j - i))"
      using b j unfolding stored_def by (metis diff_less_mono not_less)
    moreover have "buf + of_nat i + of_nat (j - i) = buf + of_nat j"
      using False by (simp add: of_nat_diff)
    ultimately show ?thesis
      using False by simp
  qed
  moreover have "area buf i \<subseteq> area buf n"
    using n(1) by (rule area_mono)
  then have "same_on (- (A \<union> area buf n)) m m'"
    using a b t(1) unfolding stored_def by (elim conjE) (erule (1) same_on_trans, blast)
  ultimately show ?thesis
    by (simp add: stored_def)
qed

text \<open>A loop that reads a file in turns: \<open>step\<close> is a turn that transfers something, and the number of
bytes it has transferred.  \<open>good b n s\<close>: the next \<open>n\<close> bytes of the file can be read to \<open>b\<close>.\<close>

locale block_reader =
  fixes step :: "u32 \<Rightarrow> u32 \<Rightarrow> 's \<Rightarrow> (u32 \<times> 's) option"
    and loop :: "u32 \<Rightarrow> u32 \<Rightarrow> 's \<Rightarrow> (bool \<times> 't) option"
    and out :: "'s \<Rightarrow> 't"
    and rmem :: "'s \<Rightarrow> memory"
    and rpos :: "'s \<Rightarrow> u32"
    and key :: "'s \<Rightarrow> 'k"
    and scratch :: "'k \<Rightarrow> u32 set"
    and contents :: "'k \<Rightarrow> nat \<Rightarrow> u8 option"
    and good :: "u32 \<Rightarrow> nat \<Rightarrow> 's \<Rightarrow> bool"
  assumes loop_end: "loop 0 b s = Some (True, out s)"
    and loop_step: "0 < n \<Longrightarrow> n < 2 ^ 31 \<Longrightarrow> step (of_nat n) b s = Some (i, s') \<Longrightarrow>
      loop (of_nat n) b s = loop (of_nat n - i) (b + i) s'"
    and good_range: "good b n s \<Longrightarrow> unat (rpos s) + n < 2 ^ 31 \<and> area b n \<inter> scratch (key s) = {}"
    and step_ok: "good b n s \<Longrightarrow> 0 < n \<Longrightarrow>
      \<exists>i s'. step (of_nat n) b s = Some (of_nat i, s') \<and> 0 < i \<and> i \<le> n \<and> good (b + of_nat i) (n - i) s' \<and>
        key s' = key s \<and> rpos s' = rpos s + of_nat i \<and>
        stored (contents (key s)) (scratch (key s)) b (unat (rpos s)) i (rmem s) (rmem s')"

context block_reader begin

text \<open>The loop ends, and has transferred everything.\<close>

lemma loop_run:
  assumes "good b n s"
  shows "\<exists>s'. loop (of_nat n) b s = Some (True, out s') \<and> good (b + of_nat n) 0 s' \<and> key s' = key s \<and>
    rpos s' = rpos s + of_nat n \<and> stored (contents (key s)) (scratch (key s)) b (unat (rpos s)) n (rmem s) (rmem s')"
  using assms
proof (induction n arbitrary: b s rule: less_induct)
  case (less n)
  note r = good_range [OF less.prems]
  show ?case
  proof (cases "n = 0")
    case True
    then show ?thesis
      using less.prems loop_end stored_none by (intro exI [of _ s]) simp
  next
    case False
    then obtain i s1 where st: "step (of_nat n) b s = Some (of_nat i, s1)" and i: "0 < i" "i \<le> n"
      and g: "good (b + of_nat i) (n - i) s1" and k: "key s1 = key s" "rpos s1 = rpos s + of_nat i"
      and m: "stored (contents (key s)) (scratch (key s)) b (unat (rpos s)) i (rmem s) (rmem s1)"
      using step_ok [OF less.prems] by blast
    have "n - i < n"
      using i by simp
    from less.IH [OF this g] obtain s' where l: "loop (of_nat (n - i)) (b + of_nat i) s1 = Some (True, out s')"
      and g': "good (b + of_nat i + of_nat (n - i)) 0 s'" and k': "key s' = key s" "rpos s' = rpos s1 + of_nat (n - i)"
      and m': "stored (contents (key s)) (scratch (key s)) (b + of_nat i) (unat (rpos s1)) (n - i) (rmem s1) (rmem s')"
      unfolding k(1) by blast
    have u: "unat (rpos s1) = unat (rpos s) + i"
      using r i(2) unfolding k(2) by (intro unat_add_small) simp
    have d: "of_nat n - of_nat i = (of_nat (n - i) :: u32)" "of_nat i + of_nat (n - i) = (of_nat n :: u32)"
      using i(2) by (simp_all add: of_nat_diff)
    have n: "n < 2 ^ 31" "0 < n"
      using r False by simp_all
    have "loop (of_nat n) b s = Some (True, out s')"
      using loop_step [OF n(2,1) st] l d(1) by simp
    moreover have "stored (contents (key s)) (scratch (key s)) b (unat (rpos s)) n (rmem s) (rmem s')"
      using r m' n(1) i(2) unfolding u by (intro stored_trans [OF m]) simp_all
    moreover have "b + of_nat i + of_nat (n - i) = b + of_nat n" "rpos s' = rpos s + of_nat n"
      using d(2) k(2) k'(2) by (simp_all add: add.assoc)
    ultimately show ?thesis
      using g' k'(1) d(2) by (intro exI [of _ s']) (simp add: add.assoc)
  qed
qed

end

section \<open>An open file\<close>

definition xfs_byte :: "bootdisk \<Rightarrow> u32 \<Rightarrow> xfs_mount \<Rightarrow> bmbt_irec list \<Rightarrow> nat \<Rightarrow> u8 option" where
  "xfs_byte dev k mt es i =
    (case block_at es (i div blk_bytes mt) of
       None \<Rightarrow> Some 0
     | Some b \<Rightarrow> disk_byte dev ((k + XFS_FSB_TO_DADDR mt (of_nat b)) * 512 + of_nat (i mod blk_bytes mt)))"

definition table_area :: "('f, 'h) xfs_run \<Rightarrow> u32 set" where
  "table_area s = (let ip = inode_at s (fsb_inode s) in area (if_u1 ip) (16 * (unat (if_bytes ip) div 16)))"

text \<open>An open file: mount structure \<open>mt\<close>, extents \<open>es\<close>, length \<open>sz\<close>.\<close>

definition xfs_file :: "'h xfs_env \<Rightarrow> xfs_mount \<Rightarrow> bmbt_irec list \<Rightarrow> nat \<Rightarrow> ('f, 'h) xfs_run \<Rightarrow> bool" where
  "xfs_file ev mt es sz s \<longleftrightarrow>
    mount_at s (fsb_mount s) = mt \<and> wf_mount mt \<and> file_recs (fsb_inode s) s = es \<and> wf_recs mt es \<and>
    if_flags (inode_at s (fsb_inode s)) AND XFS_IFEXTENTS \<noteq> 0 \<and>
    unat (xdi_size (i_d (inode_at s (fsb_inode s)))) = sz \<and> sz < 2 ^ 31 \<and>
    (\<forall>x b. block_at es x = Some b \<longrightarrow> XFS_FSB_TO_DADDR mt (of_nat b) \<noteq> -1) \<and>
    (\<forall>i < blk_bytes mt * ((sz + blk_bytes mt - 1) div blk_bytes mt). xfs_byte (xfs_disk ev) (dev_Key (blk s)) mt es i \<noteq> None) \<and>
    area (fsb_Buffer (blk s)) (blk_bytes mt) \<inter> table_area s = {}"

text \<open>What a read leaves as it is in the control block and in the structures of the driver.\<close>

definition xfs_key :: "('f, 'h) xfs_run \<Rightarrow> 'f eiob \<times> 'h xfs_globals" where
  "xfs_key s = ((blk s)\<lparr>io_StartBlock := 0, io_Address := 0, io_Count := 0, io_Offset_lo := 0\<rparr>, xg s)"

lemma xfs_key_simps:
  assumes "xfs_key s' = xfs_key s"
  shows "xg s' = xg s" "dev_Key (blk s') = dev_Key (blk s)" "fsb_Buffer (blk s') = fsb_Buffer (blk s)"
    "fsb_FsPtr (blk s') = fsb_FsPtr (blk s)" "fsb_mount s' = fsb_mount s" "fsb_inode s' = fsb_inode s"
    "mount_at s' = mount_at s" "inode_at s' = inode_at s" "table_area s' = table_area s" "fsstrat (blk s') = fsstrat (blk s)"
proof -
  have "xg s' = xg s" "dev_Key (blk s') = dev_Key (blk s)" "fsb_Buffer (blk s') = fsb_Buffer (blk s)"
    "fsb_FsPtr (blk s') = fsb_FsPtr (blk s)" "fsstrat (blk s') = fsstrat (blk s)"
    using assms by (cases "blk s", cases "blk s'", simp add: xfs_key_def)+
  then show "xg s' = xg s" "dev_Key (blk s') = dev_Key (blk s)" "fsb_Buffer (blk s') = fsb_Buffer (blk s)"
    "fsb_FsPtr (blk s') = fsb_FsPtr (blk s)" "fsb_mount s' = fsb_mount s" "fsb_inode s' = fsb_inode s"
    "mount_at s' = mount_at s" "inode_at s' = inode_at s" "table_area s' = table_area s" "fsstrat (blk s') = fsstrat (blk s)"
    by (simp_all add: fsb_mount_def fsb_inode_def mount_at_def inode_at_def table_area_def fun_eq_iff)
qed

lemma xfs_file_frame:
  assumes "xfs_file ev mt es sz s" "xfs_key s' = xfs_key s" "same_on (table_area s) (ram s) (ram s')"
  shows "xfs_file ev mt es sz s'"
proof -
  note k = xfs_key_simps [OF assms(2)]
  let ?ip = "inode_at s (fsb_inode s)"
  have "16 * (unat (if_bytes ?ip) div 16) \<le> 2 ^ 32"
    using unat_lt_32 [of "if_bytes ?ip"] by linarith
  then have "file_recs (fsb_inode s') s' = file_recs (fsb_inode s) s"
    using recs_same assms(3) unfolding file_recs_def k table_area_def Let_def by metis
  then show ?thesis
    using assms(1) by (simp add: xfs_file_def k)
qed

lemma blk_bytes_bounds:
  assumes "wf_mount mt"
  shows "512 \<le> blk_bytes mt" "blk_bytes mt \<le> 65536" "blk_bytes mt dvd 65536" "4 dvd blk_bytes mt"
proof -
  have l: "9 \<le> sb_blocklog (m_sb mt)" "sb_blocklog (m_sb mt) \<le> 16"
    using assms by (simp_all add: wf_mount_def)
  have "(2 :: nat) ^ 9 \<le> 2 ^ sb_blocklog (m_sb mt)" "(2 :: nat) ^ sb_blocklog (m_sb mt) \<le> 2 ^ 16"
    "(2 :: nat) ^ sb_blocklog (m_sb mt) dvd 2 ^ 16" "(2 :: nat) ^ 2 dvd 2 ^ sb_blocklog (m_sb mt)"
    using l by (intro power_increasing le_imp_power_dvd; simp)+
  then show "512 \<le> blk_bytes mt" "blk_bytes mt \<le> 65536" "blk_bytes mt dvd 65536" "4 dvd blk_bytes mt"
    by (simp_all add: blk_bytes_def)
qed

text \<open>A run of blocks of the file is a run of bytes of the disk.\<close>

lemma xfs_file_run:
  assumes mt: "wf_mount mt" and r: "\<forall>k < len. block_at es (x + k) = Some (b + k)" "b + len < 2 ^ 32"
    "b mod ag_blocks mt + len \<le> ag_blocks mt" and j: "j < blk_bytes mt * len"
  shows "xfs_byte dev ky mt es (blk_bytes mt * x + j) =
    disk_byte dev ((ky + XFS_FSB_TO_DADDR mt (of_nat b)) * 512 + of_nat j)"
proof -
  let ?B = "blk_bytes mt"
  have B: "0 < ?B"
    by (simp add: blk_bytes_def)
  have q: "j div ?B < len"
    using j by (simp add: less_mult_imp_div_less mult.commute)
  have "(?B * x + j) div ?B = x + j div ?B" "(?B * x + j) mod ?B = j mod ?B"
    using B by simp_all
  then have e: "xfs_byte dev ky mt es (?B * x + j) =
      disk_byte dev ((ky + XFS_FSB_TO_DADDR mt (of_nat (b + j div ?B))) * 512 + of_nat (j mod ?B))"
    using r(1) q by (simp add: xfs_byte_def del: distrib_right_numeral)
  have d: "XFS_FSB_TO_DADDR mt (of_nat (b + j div ?B)) = XFS_FSB_TO_DADDR mt (of_nat b) + of_nat (j div ?B) * 2 ^ m_blkbb_log mt"
    using mt r(2,3) q by (intro daddr_run) (simp_all add: wf_mount_def)
  have "m_blkbb_log mt + 9 = sb_blocklog (m_sb mt)"
    using mt by (simp add: wf_mount_def)
  then have "(2 :: nat) ^ m_blkbb_log mt * 512 = ?B"
    using power_add [of "2 :: nat" "m_blkbb_log mt" 9] by (simp add: blk_bytes_def)
  then have w: "(2 :: u32) ^ m_blkbb_log mt * 512 = of_nat ?B"
    by (metis of_nat_mult of_nat_numeral of_nat_power)
  have "of_nat (j div ?B) * 2 ^ m_blkbb_log mt * 512 = (of_nat (?B * (j div ?B)) :: u32)"
    unfolding mult.assoc w by (simp add: mult.commute)
  then have "of_nat (j div ?B) * 2 ^ m_blkbb_log mt * 512 + of_nat (j mod ?B) = (of_nat (?B * (j div ?B) + j mod ?B) :: u32)"
    by (simp only: of_nat_add)
  then show ?thesis
    unfolding e d by (simp add: distrib_right add.assoc del: distrib_right_numeral)
qed

text \<open>The arithmetic of blocks and offsets.\<close>

lemma unat_ucast32: "unat (x :: u64) < 2 ^ 32 \<Longrightarrow> unat (ucast x :: u32) = unat x"
  by (simp add: unsigned_ucast_eq take_bit_nat_eq_self)

lemma scast_small: "unat (x :: u32) < 2 ^ 31 \<Longrightarrow> unat (scast x :: u64) = unat x"
proof -
  assume "unat x < 2 ^ 31"
  then have "sint x = int (unat x)"
    by (rule sint_small)
  then have "(scast x :: u64) = of_nat (unat x)"
    by (simp only: scast_eq of_int_of_nat_eq)
  then show ?thesis
    using \<open>unat x < 2 ^ 31\<close> by (simp add: unat_of_nat_64 unat_ucast64)
qed

lemma unat_push_bit_64:
  assumes "unat (x :: u64) * 2 ^ n < 2 ^ 64"
  shows "unat (push_bit n x) = unat x * 2 ^ n"
proof -
  have "push_bit n x = x * of_nat (2 ^ n)"
    by (simp add: push_bit_eq_mult)
  then show ?thesis
    using assms by (simp add: unat_word_ariths unat_of_nat mod_mult_right_eq del: of_nat_power)
qed

lemma block_number:
  fixes lo count :: u32
  assumes "wf_mount mt"
  shows "unat (ucast (XFS_B_TO_FSBT mt (ucast lo)) :: u32) = unat lo div blk_bytes mt"
    "unat count < 2 ^ 31 \<Longrightarrow> unat (ucast (XFS_B_TO_FSBT mt (scast count)) :: u32) = unat count div blk_bytes mt"
proof -
  have "n div blk_bytes mt < 2 ^ 32" if "n < 2 ^ 32" for n :: nat
    using that by (rule le_less_trans [OF div_le_dividend])
  then show "unat (ucast (XFS_B_TO_FSBT mt (ucast lo)) :: u32) = unat lo div blk_bytes mt"
    "unat count < 2 ^ 31 \<Longrightarrow> unat (ucast (XFS_B_TO_FSBT mt (scast count)) :: u32) = unat count div blk_bytes mt"
    using unat_lt_32 [of lo] unat_lt_32 [of count]
    by (simp_all add: unat_ucast32 XFS_B_TO_FSBT_def unat_drop_bit_64 unat_ucast64 scast_small blk_bytes_def)
qed

lemma block_start:
  assumes "wf_mount mt" "unat lo < 2 ^ 31" "unat off = unat lo div blk_bytes mt"
  shows "ucast (XFS_FSB_TO_B mt off) = (of_nat (blk_bytes mt * (unat lo div blk_bytes mt)) :: u32)"
proof -
  have lt: "blk_bytes mt * (unat lo div blk_bytes mt) < 2 ^ 31"
    using assms(2) by (rule le_less_trans [OF times_div_less_eq_dividend])
  have "unat lo div blk_bytes mt < 2 ^ 31"
    using assms(2) by (rule le_less_trans [OF div_le_dividend])
  then have "unat (XFS_FSB_TO_B mt off) = blk_bytes mt * (unat lo div blk_bytes mt)"
    using lt assms(3) unfolding XFS_FSB_TO_B_def blk_bytes_def
    by (subst unat_push_bit_64) (simp_all add: scast_small mult.commute)
  then show ?thesis
    using lt by (simp add: word_unat_eq_iff unat_ucast32 unat_of_nat_32 del: of_nat_mult)
qed

lemma offset_in_block:
  assumes "wf_mount mt"
  shows "unat (XFS_B_FSB_OFFSET mt lo) = unat lo mod blk_bytes mt"
proof -
  have "sb_blocksize (m_sb mt) = of_nat (2 ^ sb_blocklog (m_sb mt))"
    using assms by (simp only: wf_mount_def blk_bytes_def) (metis of_nat_unat ucast_id word_unat_eq_iff unat_of_nat_32 unat_lt_32)
  then have "m_blockmask mt = mask (sb_blocklog (m_sb mt))"
    using assms by (simp add: wf_mount_def mask_eq_decr_exp)
  then show ?thesis
    by (simp only: XFS_B_FSB_OFFSET_def take_bit_eq_mask [symmetric] unsigned_take_bit_eq take_bit_eq_mod [of _ "unat lo"] blk_bytes_def)
qed

lemma xfs_devread_run:
  assumes "readable (xfs_disk ev) ((dev_Key (blk s) + io_StartBlock (blk s)) * 512) (unat (io_Count (blk s)))"
  shows "xfs_devread ev s = Some (io_Count (blk s), s\<lparr>ram := with_disk (xfs_disk ev)
    ((dev_Key (blk s) + io_StartBlock (blk s)) * 512) (unat (io_Count (blk s))) (io_Address (blk s)) (ram s)\<rparr>)"
  unfolding xfs_devread_def pv_disk_strategy_def if_True bd_read_bytes_all [OF assms] by simp

text \<open>A read of blocks of the file, to \<open>dst\<close>.\<close>

lemma xfs_fetch_run:
  assumes f: "xfs_file ev mt es sz s" and r: "\<forall>k < len. block_at es (x + k) = Some (b + k)" "b + len < 2 ^ 32"
    "b mod ag_blocks mt + len \<le> ag_blocks mt" and l: "0 < len" "k \<le> len" "blk_bytes mt * k < 2 ^ 31"
    "blk_bytes mt * (x + k) \<le> blk_bytes mt * ((sz + blk_bytes mt - 1) div blk_bytes mt)"
  shows "xfs_fetch ev dst \<lparr>xe_bn = XFS_FSB_TO_DADDR mt (of_nat b), xe_length = of_nat (blk_bytes mt * k), xe_offset = o'\<rparr> s =
    Some (True, s\<lparr>blk := (blk s)\<lparr>io_StartBlock := XFS_FSB_TO_DADDR mt (of_nat b), io_Address := dst,
        io_Count := of_nat (blk_bytes mt * k)\<rparr>,
      ram := with_disk (xfs_disk ev) ((dev_Key (blk s) + XFS_FSB_TO_DADDR mt (of_nat b)) * 512) (blk_bytes mt * k) dst (ram s)\<rparr>)"
proof -
  have mt: "wf_mount mt" and nd: "XFS_FSB_TO_DADDR mt (of_nat b) \<noteq> -1"
    using f r(1) l(1) by (auto simp: xfs_file_def)
  define off where "off = (dev_Key (blk s) + XFS_FSB_TO_DADDR mt (of_nat b)) * 512"
  define n where "n = blk_bytes mt * k"
  have n: "unat (of_nat n :: u32) = n"
    using l(3) by (intro unat_of_nat_32) (simp add: n_def)
  have rd: "readable (xfs_disk ev) off n"
    unfolding readable_def
  proof (intro allI impI)
    fix j
    assume "j < n"
    then have j: "j < blk_bytes mt * k"
      by (simp add: n_def)
    also have "\<dots> \<le> blk_bytes mt * len"
      using l(2) by simp
    finally have jl: "j < blk_bytes mt * len" .
    have "blk_bytes mt * x + j < blk_bytes mt * ((sz + blk_bytes mt - 1) div blk_bytes mt)"
      using j l(4) by (simp add: distrib_left)
    then have "xfs_byte (xfs_disk ev) (dev_Key (blk s)) mt es (blk_bytes mt * x + j) \<noteq> None"
      using f unfolding xfs_file_def by blast
    then show "disk_byte (xfs_disk ev) (off + of_nat j) \<noteq> None"
      using xfs_file_run [OF mt r jl] by (simp add: off_def)
  qed
  let ?s = "set_blk (\<lambda>io. io\<lparr>io_StartBlock := XFS_FSB_TO_DADDR mt (of_nat b), io_Address := dst, io_Count := of_nat n\<rparr>) s"
  have "xfs_devread ev ?s = Some (of_nat n, ?s\<lparr>ram := with_disk (xfs_disk ev) off n dst (ram s)\<rparr>)"
    using xfs_devread_run [of ev ?s] rd n by (simp add: set_blk_def off_def del: distrib_right_numeral)
  then show ?thesis
    using nd by (simp add: xfs_fetch_def set_blk_def off_def n_def [symmetric] Let_def del: distrib_right_numeral)
qed

text \<open>\<open>_xfs_bmap\<close> on an open file.\<close>

lemma xfs_bmap_mapped:
  assumes f: "xfs_file ev mt es sz s" and b: "block_at es (unat (io_Offset_lo (blk s)) div blk_bytes mt) = Some b"
    and mx: "0 < unat maxv" "blk_bytes mt * unat maxv < 2 ^ 31"
  shows "\<exists>len k off. xfs_bmap maxv result s = Some \<lparr>xe_bn = XFS_FSB_TO_DADDR mt (of_nat b),
      xe_length = of_nat (blk_bytes mt * k), xe_offset = off\<rparr> \<and> 0 < len \<and> 0 < k \<and> k \<le> len \<and> k \<le> unat maxv \<and>
    (\<forall>j < len. block_at es (unat (io_Offset_lo (blk s)) div blk_bytes mt + j) = Some (b + j)) \<and> b + len < 2 ^ 32 \<and>
    b mod ag_blocks mt + len \<le> ag_blocks mt \<and> unat off = unat (io_Offset_lo (blk s)) div blk_bytes mt"
proof -
  let ?ip = "inode_at s (fsb_inode s)" and ?B = "blk_bytes mt" and ?lo = "io_Offset_lo (blk s)"
  have mt: "wf_mount mt" "mount_at s (fsb_mount s) = mt"
    using f by (simp_all add: xfs_file_def)
  note B = blk_bytes_bounds [OF mt(1)]
  have es: "es = recs (ram s) (if_u1 ?ip) (unat (if_bytes ?ip) div 16)" and wf: "wf_recs mt es"
    and fl: "if_flags ?ip AND XFS_IFEXTENTS \<noteq> 0"
    using f by (simp_all add: xfs_file_def file_recs_def)
  define off where "off = (ucast (XFS_B_TO_FSBT mt (ucast ?lo)) :: u32)"
  have off: "unat off = unat ?lo div ?B"
    unfolding off_def by (rule block_number(1) [OF mt(1)])
  obtain len where r: "xfs_get_blockno ?ip off (ram s) = (of_nat b, Some (of_nat len))" and l: "0 < len" "len < 2 ^ 21"
    "b + len < 2 ^ 32" "b mod ag_blocks mt + len \<le> ag_blocks mt" "\<forall>j < len. block_at es (unat off + j) = Some (b + j)"
    using get_blockno_run [OF es wf fl] b off by metis
  have nb: "of_nat b \<noteq> NULLFSBLOCK"
    using l(1,3) of_nat_neq_minus_one [of b] by (simp add: NULLFSBLOCK_def)
  have ul: "unat (of_nat len :: u32) = len"
    using l(2) by (intro unat_of_nat_32) simp
  define k0 where "k0 = min len (unat maxv)"
  define k where "k = min k0 (65536 div ?B)"
  have "unat maxv < 2 ^ 31"
    using mx(2) B by (metis le_less_trans le_add1 mult_le_mono1 mult_1 order_trans one_le_numeral)
  then have s1: "unat (smin (of_nat len) maxv) = k0"
    using l(2) ul by (subst unat_smin) (simp_all add: k0_def)
  have bk: "?B * k0 < 2 ^ 31"
    using mx(2) by (rule le_less_trans [rotated]) (simp add: k0_def)
  then have s2: "unat (sb_blocksize (m_sb mt) * smin (of_nat len) maxv) = ?B * k0"
    using mt(1) s1 by (simp add: unat_word_ariths wf_mount_def)
  have "?B * k = min (?B * k0) (?B * (65536 div ?B))"
    unfolding k_def by (rule nat_mult_min_right)
  then have "?B * k = min (?B * k0) 65536"
    using B(3) by simp
  then have "unat (smin (sb_blocksize (m_sb mt) * smin (of_nat len) maxv) MAX_XFS_DMA) = ?B * k"
    using bk s2 by (subst unat_smin) (simp_all add: MAX_XFS_DMA_def)
  then have len: "smin (sb_blocksize (m_sb mt) * smin (of_nat len) maxv) MAX_XFS_DMA = of_nat (?B * k)"
    by (metis of_nat_unat ucast_id)
  have "0 < 65536 div ?B"
    using B by (simp add: div_greater_zero_iff)
  then have k: "0 < k" "k \<le> len" "k \<le> unat maxv"
    using l(1) mx(1) by (simp_all add: k_def k0_def)
  have "xfs_bmap maxv result s = Some \<lparr>xe_bn = XFS_FSB_TO_DADDR mt (of_nat b), xe_length = of_nat (?B * k), xe_offset = off\<rparr>"
    using nb by (simp add: xfs_bmap_def mt(2) off_def [symmetric] r len Let_def)
  then show ?thesis
    using k l off by (intro exI [of _ len] exI [of _ k] exI [of _ off]) simp
qed

lemma xfs_bmap_hole:
  assumes f: "xfs_file ev mt es sz s" and b: "block_at es (unat (io_Offset_lo (blk s)) div blk_bytes mt) = None"
    and lo: "unat (io_Offset_lo (blk s)) < sz"
  shows "xfs_bmap maxv result s = Some (result\<lparr>xe_bn := -1, xe_length := sb_blocksize (m_sb mt)\<rparr>)"
proof -
  let ?ip = "inode_at s (fsb_inode s)" and ?B = "blk_bytes mt" and ?lo = "io_Offset_lo (blk s)"
  have mt: "wf_mount mt" "mount_at s (fsb_mount s) = mt"
    using f by (simp_all add: xfs_file_def)
  have es: "es = recs (ram s) (if_u1 ?ip) (unat (if_bytes ?ip) div 16)" and wf: "ordered es"
    and sz: "unat (xdi_size (i_d ?ip)) = sz" "sz < 2 ^ 31"
    using f by (simp_all add: xfs_file_def file_recs_def wf_recs_def)
  note B = blk_bytes_bounds [OF mt(1)]
  define off where "off = (ucast (XFS_B_TO_FSBT mt (ucast ?lo)) :: u32)"
  have off: "unat off = unat ?lo div ?B"
    unfolding off_def by (rule block_number(1) [OF mt(1)])
  have "xfs_get_blockno ?ip off (ram s) = (NULLFSBLOCK, None)"
    using get_blockno_hole [OF es wf] b off by simp
  moreover have "m_blockmask mt = of_nat (?B - 1)"
    using mt(1) B by (simp add: wf_mount_def of_nat_diff) (metis of_nat_unat ucast_id)
  then have um: "unat (m_blockmask mt) = ?B - 1"
    using B unat_of_nat_32 [of "?B - 1"] by simp
  have "unat (XFS_B_TO_FSB mt (xdi_size (i_d ?ip))) = (sz + (?B - 1)) div ?B"
    using sz(2) B
    unfolding XFS_B_TO_FSB_def unat_drop_bit_64 unat_word_ariths unat_ucast64 um sz(1) blk_bytes_def [symmetric] by simp
  moreover have "unat ?lo div ?B < (sz + (?B - 1)) div ?B"
  proof -
    have "unat ?lo div ?B * ?B + ?B \<le> sz + (?B - 1)"
      using lo B div_mult_mod_eq [of "unat ?lo" ?B] by linarith
    then have "(unat ?lo div ?B + 1) * ?B \<le> sz + (?B - 1)"
      by simp
    then show ?thesis
      using B by (metis Suc_eq_plus1 Suc_le_lessD div_le_mono nonzero_mult_div_cancel_right not_numeral_le_zero)
  qed
  ultimately show ?thesis
    using off by (simp add: xfs_bmap_def mt(2) off_def [symmetric] word_less_nat_alt unat_ucast64 Let_def)
qed

text \<open>A turn of the loop, of either kind.\<close>

definition xfs_dst_ok :: "xfs_mount \<Rightarrow> u32 \<Rightarrow> nat \<Rightarrow> ('f, 'h) xfs_run \<Rightarrow> bool" where
  "xfs_dst_ok mt buf n s \<longleftrightarrow> area buf n \<inter> (table_area s \<union> area (fsb_Buffer (blk s)) (blk_bytes mt)) = {}"

abbreviation xfs_contents :: "'h xfs_env \<Rightarrow> xfs_mount \<Rightarrow> bmbt_irec list \<Rightarrow> 'f eiob \<times> 'h xfs_globals \<Rightarrow> nat \<Rightarrow> u8 option" where
  "xfs_contents ev mt es k \<equiv> xfs_byte (xfs_disk ev) (dev_Key (fst k)) mt es"

abbreviation xfs_scratch :: "xfs_mount \<Rightarrow> 'f eiob \<times> 'h xfs_globals \<Rightarrow> u32 set" where
  "xfs_scratch mt k \<equiv> area (fsb_Buffer (fst k)) (blk_bytes mt)"

lemma xfs_key_proj [simp]: "dev_Key (fst (xfs_key s)) = dev_Key (blk s)" "fsb_Buffer (fst (xfs_key s)) = fsb_Buffer (blk s)"
  by (simp_all add: xfs_key_def)

definition xfs_turn ::
  "'h xfs_env \<Rightarrow> xfs_mount \<Rightarrow> bmbt_irec list \<Rightarrow> u32 \<Rightarrow> nat \<Rightarrow> ('f, 'h) xfs_run \<Rightarrow> ('f, 'h) xfs_run \<Rightarrow> bool"
where
  "xfs_turn ev mt es buf i s s' \<longleftrightarrow> xfs_key s' = xfs_key s \<and>
    io_Offset_lo (blk s') = io_Offset_lo (blk s) + of_nat i \<and>
    stored (xfs_contents ev mt es (xfs_key s)) (xfs_scratch mt (xfs_key s)) buf (unat (io_Offset_lo (blk s))) i (ram s) (ram s')"

lemma xfs_direct_step:
  assumes f: "xfs_file ev mt es sz s" and d: "xfs_direct mt (io_Offset_lo (blk s)) count buf" and c: "unat count < 2 ^ 31"
    and e: "unat (io_Offset_lo (blk s)) + unat count \<le> sz" and o: "xfs_dst_ok mt buf (unat count) s"
  shows "\<exists>i r s'. xfs_read_step ev count buf result s = Some (Some (of_nat i, r), s') \<and> 0 < i \<and> i \<le> unat count \<and>
    blk_bytes mt dvd i \<and> xfs_turn ev mt es buf i s s'"
proof -
  let ?B = "blk_bytes mt" and ?lo = "io_Offset_lo (blk s)"
  have mt: "wf_mount mt" "mount_at s (fsb_mount s) = mt" and sz: "sz < 2 ^ 31"
    using f by (simp_all add: xfs_file_def)
  note B = blk_bytes_bounds [OF mt(1)]
  define maxv where "maxv = (ucast (XFS_B_TO_FSBT mt (scast count)) :: u32)"
  have mv: "unat maxv = unat count div ?B"
    unfolding maxv_def by (rule block_number(2) [OF mt(1) c])
  have al: "unat ?lo mod ?B = 0" and "maxv \<noteq> 0"
    using d offset_in_block [OF mt(1), of ?lo] by (simp_all add: xfs_direct_def maxv_def)
  then have mx: "0 < unat maxv" "?B * unat maxv \<le> unat count"
    by (simp add: unat_gt_0) (simp add: mv)
  have lo: "?B * (unat ?lo div ?B) = unat ?lo"
    using al by auto
  have cb: "?B \<le> unat count"
    using mx B by (metis Suc_leI le_trans mult_le_mono2 nat_mult_1_right One_nat_def)
  have nb: "buf \<noteq> fsb_Buffer (blk s)"
  proof
    assume "buf = fsb_Buffer (blk s)"
    then have "buf \<in> area buf (unat count)" "buf \<in> area (fsb_Buffer (blk s)) ?B"
      using cb B by (simp_all add: area_def)
    then show False
      using o unfolding xfs_dst_ok_def by blast
  qed
  have moved: "xfs_turn ev mt es buf i s s'"
    if i: "i \<le> unat count" and M: "\<And>a. a \<notin> area buf i \<Longrightarrow> M a = ram s a"
      "\<And>k. k < i \<Longrightarrow> Some (M (buf + of_nat k)) = xfs_byte (xfs_disk ev) (dev_Key (blk s)) mt es (unat ?lo + k)"
      and s': "s' = s\<lparr>blk := (blk s)\<lparr>io_StartBlock := -1, io_Address := ad, io_Count := ct, io_Offset_lo := ?lo + of_nat i\<rparr>, ram := M\<rparr>"
    for i M s' ad ct
    using M by (simp add: xfs_turn_def xfs_key_def stored_def same_on_def s')
  show ?thesis
  proof (cases "block_at es (unat ?lo div ?B)")
    case (Some b)
    have "?B * unat maxv < 2 ^ 31"
      using mx(2) c by simp
    then obtain len k off where r: "xfs_bmap maxv result s = Some \<lparr>xe_bn = XFS_FSB_TO_DADDR mt (of_nat b),
        xe_length = of_nat (?B * k), xe_offset = off\<rparr>" and l: "0 < len" "0 < k" "k \<le> len" "k \<le> unat maxv"
      "\<forall>j < len. block_at es (unat ?lo div ?B + j) = Some (b + j)" "b + len < 2 ^ 32"
      "b mod ag_blocks mt + len \<le> ag_blocks mt"
      using xfs_bmap_mapped [OF f Some mx(1)] by blast
    let ?i = "?B * k" and ?off = "(dev_Key (blk s) + XFS_FSB_TO_DADDR mt (of_nat b)) * 512"
    have i1: "?i \<le> unat count"
      using mult_le_mono2 [OF l(4), of ?B] mx(2) by (rule le_trans)
    then have i: "?i \<le> unat count" "?i < 2 ^ 31" "0 < ?i"
      using c l(2) B by simp_all
    have "?B * (unat ?lo div ?B + k) \<le> sz"
      using i(1) e lo by (simp add: distrib_left)
    then have "unat ?lo div ?B + k \<le> (sz + ?B - 1) div ?B"
      using B by (simp add: less_eq_div_iff_mult_less_eq mult.commute)
    then have last: "?B * (unat ?lo div ?B + k) \<le> ?B * ((sz + ?B - 1) div ?B)"
      by (rule mult_le_mono2)
    note ft = xfs_fetch_run [OF f l(5,6,7,1,3) i(2) last, of buf off]
    let ?M = "with_disk (xfs_disk ev) ?off ?i buf (ram s)"
    let ?s' = "s\<lparr>blk := (blk s)\<lparr>io_StartBlock := -1, io_Address := buf, io_Count := of_nat ?i, io_Offset_lo := ?lo + of_nat ?i\<rparr>, ram := ?M\<rparr>"
    have "xfs_read_step ev count buf result s = Some (Some (of_nat ?i, \<lparr>xe_bn = XFS_FSB_TO_DADDR mt (of_nat b),
        xe_length = of_nat ?i, xe_offset = off\<rparr>), ?s')"
      using d by (simp add: xfs_read_step_def mt(2) maxv_def [symmetric] r ft xfs_deliver_def set_blk_def Let_def
          del: of_nat_mult distrib_right_numeral)
    moreover have "xfs_turn ev mt es buf ?i s ?s'"
    proof (rule moved [OF i(1) _ _ refl])
      show "?M a = ram s a" if "a \<notin> area buf ?i" for a
        using that by (simp add: with_disk_def area_def)
      show "Some (?M (buf + of_nat j)) = xfs_byte (xfs_disk ev) (dev_Key (blk s)) mt es (unat ?lo + j)" if "j < ?i" for j
      proof -
        have "j < ?B * len"
          using that l(3) by (metis less_le_trans mult_le_mono2)
        from xfs_file_run [OF mt(1) l(5,6,7) this, of "xfs_disk ev" "dev_Key (blk s)"]
        have "xfs_byte (xfs_disk ev) (dev_Key (blk s)) mt es (unat ?lo + j) = disk_byte (xfs_disk ev) (?off + of_nat j)"
          unfolding lo .
        moreover have "unat ?lo + j < ?B * ((sz + ?B - 1) div ?B)"
          using that last lo by (simp add: distrib_left)
        then have "xfs_byte (xfs_disk ev) (dev_Key (blk s)) mt es (unat ?lo + j) \<noteq> None"
          using f unfolding xfs_file_def by blast
        moreover have "?M (buf + of_nat j) = the (disk_byte (xfs_disk ev) (?off + of_nat j))"
          using that i(2) by (intro with_disk_inside) simp_all
        ultimately show ?thesis
          by simp
      qed
    qed
    ultimately show ?thesis
      using i by (intro exI [of _ ?i]) auto
  next
    case None
    have lt: "unat ?lo < sz"
      using e cb B by linarith
    note r = xfs_bmap_hole [OF f None lt, of maxv result]
    let ?M = "bzero buf (sb_blocksize (m_sb mt)) (ram s)"
    let ?s' = "s\<lparr>blk := (blk s)\<lparr>io_StartBlock := -1, io_Address := buf, io_Count := sb_blocksize (m_sb mt), io_Offset_lo := ?lo + of_nat ?B\<rparr>, ram := ?M\<rparr>"
    have bs: "sb_blocksize (m_sb mt) = of_nat ?B"
      using mt(1) by (metis of_nat_unat ucast_id wf_mount_def)
    have uB: "unat (of_nat ?B :: u32) = ?B"
      using B by (intro unat_of_nat_32) simp
    have "xfs_read_step ev count buf result s = Some (Some (of_nat ?B, result\<lparr>xe_bn := -1, xe_length := sb_blocksize (m_sb mt)\<rparr>), ?s')"
      using d by (simp add: xfs_read_step_def mt(2) maxv_def [symmetric] r xfs_fetch_def xfs_deliver_def set_blk_def set_ram_def
          bs Let_def)
    moreover have "xfs_turn ev mt es buf ?B s ?s'"
    proof (rule moved [OF cb _ _ refl])
      show "?M a = ram s a" if "a \<notin> area buf ?B" for a
        using that uB by (simp add: bzero_def area_def bs word_less_nat_alt)
      show "Some (?M (buf + of_nat j)) = xfs_byte (xfs_disk ev) (dev_Key (blk s)) mt es (unat ?lo + j)" if "j < ?B" for j
      proof -
        have "(unat ?lo + j) div ?B = unat ?lo div ?B"
          using that lo by (metis add_cancel_right_right div_less div_mult_self4 not_less_zero)
        moreover have "unat (of_nat j :: u32) = j"
          using that B by (intro unat_of_nat_32) simp
        ultimately show ?thesis
          using that None uB by (simp add: xfs_byte_def bzero_def bs word_less_nat_alt)
      qed
    qed
    ultimately show ?thesis
      using cb B by (intro exI [of _ ?B]) auto
  qed
qed

lemma xfs_direct_iff:
  assumes "wf_mount mt" "unat count < 2 ^ 31"
  shows "xfs_direct mt lo count buf \<longleftrightarrow>
    unat lo mod blk_bytes mt = 0 \<and> unat buf mod 4 = 0 \<and> blk_bytes mt \<le> unat count"
proof -
  have "(ucast (XFS_B_TO_FSBT mt (scast count)) :: u32) \<noteq> 0 \<longleftrightarrow> 0 < unat count div blk_bytes mt"
    using block_number(2) [OF assms] by (metis unat_gt_0)
  moreover have "0 < unat count div blk_bytes mt \<longleftrightarrow> blk_bytes mt \<le> unat count"
    using blk_bytes_bounds(1) [OF assms(1)] by (simp add: div_greater_zero_iff)
  moreover have "XFS_B_FSB_OFFSET mt lo = 0 \<longleftrightarrow> unat lo mod blk_bytes mt = 0"
    using offset_in_block [OF assms(1), of lo] by (metis unat_eq_zero)
  moreover have "buf AND 3 = 0 \<longleftrightarrow> unat buf mod 4 = 0"
    using and_mask_unat(4) [of buf] by (metis unat_eq_zero)
  ultimately show ?thesis
    by (simp add: xfs_direct_def)
qed

lemma xfs_buffered_step:
  assumes f: "xfs_file ev mt es sz s" and d: "\<not> xfs_direct mt (io_Offset_lo (blk s)) count buf"
    and c: "0 < unat count" "unat count < 2 ^ 31" and e: "unat (io_Offset_lo (blk s)) + unat count \<le> sz"
    and o: "xfs_dst_ok mt buf (unat count) s" and b: "block_at es (unat (io_Offset_lo (blk s)) div blk_bytes mt) = Some b"
  shows "\<exists>i r s'. xfs_read_step ev count buf result s = Some (Some (of_nat i, r), s') \<and> 0 < i \<and> i \<le> unat count \<and>
    xfs_turn ev mt es buf i s s'"
proof -
  let ?B = "blk_bytes mt" and ?lo = "io_Offset_lo (blk s)" and ?b = "fsb_Buffer (blk s)"
  have mt: "wf_mount mt" "mount_at s (fsb_mount s) = mt" and sz: "sz < 2 ^ 31"
    using f by (simp_all add: xfs_file_def)
  note B = blk_bytes_bounds [OF mt(1)]
  have lo31: "unat ?lo < 2 ^ 31"
    using e sz by simp
  have nb: "?b \<noteq> buf"
  proof
    assume "?b = buf"
    then have "buf \<in> area buf (unat count)" "buf \<in> area ?b ?B"
      using c B by (simp_all add: area_def)
    then show False
      using o unfolding xfs_dst_ok_def by blast
  qed
  obtain len k off where r: "xfs_bmap 1 result s = Some \<lparr>xe_bn = XFS_FSB_TO_DADDR mt (of_nat b),
      xe_length = of_nat (?B * k), xe_offset = off\<rparr>" and l: "0 < len" "0 < k" "k \<le> unat (1 :: u32)"
    "\<forall>j < len. block_at es (unat ?lo div ?B + j) = Some (b + j)" "b + len < 2 ^ 32"
    "b mod ag_blocks mt + len \<le> ag_blocks mt" and off: "unat off = unat ?lo div ?B"
    using xfs_bmap_mapped [OF f b, of 1 result] B by auto
  have k: "k = 1"
    using l(2,3) by simp
  have "?B * (unat ?lo div ?B) \<le> unat ?lo" "unat ?lo < sz"
    using e c by simp_all
  then have "?B * (unat ?lo div ?B + 1) \<le> sz + ?B - 1"
    unfolding distrib_left mult_1_right by linarith
  then have "unat ?lo div ?B + 1 \<le> (sz + ?B - 1) div ?B"
    using B by (simp add: less_eq_div_iff_mult_less_eq mult.commute)
  then have last: "?B * (unat ?lo div ?B + 1) \<le> ?B * ((sz + ?B - 1) div ?B)"
    by (rule mult_le_mono2)
  have "1 \<le> len" "?B * 1 < 2 ^ 31"
    using l(1) B by simp_all
  note ft = xfs_fetch_run [OF f l(4,5,6,1) this last, of ?b off]
  let ?off = "(dev_Key (blk s) + XFS_FSB_TO_DADDR mt (of_nat b)) * 512"
  let ?w = "with_disk (xfs_disk ev) ?off ?B ?b (ram s)"
  define skip where "skip = unat ?lo mod ?B"
  define i where "i = min (?B - skip) (unat count)"
  have sk: "skip < ?B"
    using B by (simp add: skip_def)
  have i: "0 < i" "i \<le> unat count" "skip + i \<le> ?B"
    using c(1) sk by (simp_all add: i_def)
  have ui: "unat (of_nat i :: u32) = i" and uB: "unat (of_nat ?B :: u32) = ?B" and us: "unat (of_nat skip :: u32) = skip"
    using i c sk B by (auto intro!: unat_of_nat_32)
  have at: "?B * (unat ?lo div ?B) + skip = unat ?lo"
    by (simp add: skip_def)
  have "?lo = of_nat (?B * (unat ?lo div ?B) + skip)"
    by (simp add: at del: of_nat_add of_nat_mult)
  then have off1: "?lo - ucast (XFS_FSB_TO_B mt off) = of_nat skip"
    unfolding block_start [OF mt(1) lo31 off] of_nat_add by (metis add_diff_cancel_left')
  have rest: "unat (of_nat ?B - of_nat skip :: u32) = ?B - skip"
    using sk uB us by (subst unat_sub) (simp_all add: word_le_nat_alt)
  have sm: "smin (of_nat ?B - of_nat skip) count = of_nat i"
    using c sk ui B unfolding word_unat_eq_iff by (subst unat_smin) (simp_all add: rest i_def)
  have pos: "\<not> sint (of_nat skip :: u32) < 0" "\<not> sint (of_nat i :: u32) \<le> 0"
    using sk i c B sint_of_nat_32 [of skip] sint_of_nat_32 [of i] by simp_all
  define m where "m = bcopy (?b + of_nat skip) buf (of_nat i) ?w"
  let ?s' = "s\<lparr>blk := (blk s)\<lparr>io_StartBlock := XFS_FSB_TO_DADDR mt (of_nat b), io_Address := ?b, io_Count := of_nat ?B,
     io_Offset_lo := ?lo + of_nat i\<rparr>, ram := m\<rparr>"
  have run: "xfs_read_step ev count buf result s = Some (Some (of_nat i, \<lparr>xe_bn = XFS_FSB_TO_DADDR mt (of_nat b),
      xe_length = of_nat ?B, xe_offset = off\<rparr>), ?s')"
    using d nb pos ft by (simp add: xfs_read_step_def mt(2) r k xfs_deliver_def set_blk_def set_ram_def off1 sm m_def Let_def
        del: distrib_right_numeral)
  have bc: "m a = ?w a" if "a \<notin> area buf i" for a
    using that ui unfolding m_def bcopy_def area_def word_less_nat_alt by auto
  have "same_on (- (area ?b ?B \<union> area buf i)) (ram s) m"
    using bc with_disk_same [of "- area ?b ?B" ?b ?B "xfs_disk ev" ?off "ram s"] by (auto simp: same_on_def)
  moreover have "Some (m (buf + of_nat j)) = xfs_byte (xfs_disk ev) (dev_Key (blk s)) mt es (unat ?lo + j)" if j: "j < i" for j
  proof -
    have uj: "unat (of_nat j :: u32) = j"
      using j i c by (intro unat_of_nat_32) simp
    have js: "skip + j < ?B" "skip + j < ?B * len"
      using j i l(1) by (simp, metis add_less_mono1 less_le_trans add.commute l(1) mult_le_mono2 nat_mult_1_right Suc_leI One_nat_def)
    have "m (buf + of_nat j) = ?w (?b + of_nat skip + of_nat j)"
      using j uj ui by (simp add: m_def bcopy_def word_less_nat_alt)
    also have "\<dots> = ?w (?b + of_nat (skip + j))"
      by (simp add: add.assoc)
    also have "\<dots> = the (disk_byte (xfs_disk ev) (?off + of_nat (skip + j)))"
      using js B by (intro with_disk_inside) simp_all
    also have "disk_byte (xfs_disk ev) (?off + of_nat (skip + j)) =
        xfs_byte (xfs_disk ev) (dev_Key (blk s)) mt es (?B * (unat ?lo div ?B) + (skip + j))"
      using xfs_file_run [OF mt(1) l(4,5,6) js(2)] by simp
    also have "?B * (unat ?lo div ?B) + (skip + j) = unat ?lo + j"
      using at by simp
    finally have "m (buf + of_nat j) = the (xfs_byte (xfs_disk ev) (dev_Key (blk s)) mt es (unat ?lo + j))" .
    moreover have "unat ?lo + j < ?B * (unat ?lo div ?B + 1)"
      using at js(1) by (simp add: distrib_left)
    then have "unat ?lo + j < ?B * ((sz + ?B - 1) div ?B)"
      using last by (rule less_le_trans)
    then have "xfs_byte (xfs_disk ev) (dev_Key (blk s)) mt es (unat ?lo + j) \<noteq> None"
      using f unfolding xfs_file_def by blast
    ultimately show ?thesis
      by simp
  qed
  ultimately have "xfs_turn ev mt es buf i s ?s'"
    by (simp add: xfs_turn_def xfs_key_def stored_def)
  then show ?thesis
    using run i by (intro exI [of _ i]) auto
qed

section \<open>The loop\<close>

text \<open>A hole is only read in place: every block of it the read touches is read whole, to an aligned
destination.\<close>

definition holes_ok :: "xfs_mount \<Rightarrow> bmbt_irec list \<Rightarrow> u32 \<Rightarrow> nat \<Rightarrow> nat \<Rightarrow> bool" where
  "holes_ok mt es buf lo n \<longleftrightarrow>
    (\<forall>x. lo div blk_bytes mt \<le> x \<longrightarrow> x * blk_bytes mt < lo + n \<longrightarrow> block_at es x = None \<longrightarrow>
       lo mod blk_bytes mt = 0 \<and> unat buf mod 4 = 0 \<and> (x + 1) * blk_bytes mt \<le> lo + n)"

definition xfs_good ::
  "'h xfs_env \<Rightarrow> xfs_mount \<Rightarrow> bmbt_irec list \<Rightarrow> nat \<Rightarrow> u32 \<Rightarrow> nat \<Rightarrow> xfs_extent \<times> ('f, 'h) xfs_run \<Rightarrow> bool"
where
  "xfs_good ev mt es sz buf n rs \<longleftrightarrow>
    xfs_file ev mt es sz (snd rs) \<and> unat (io_Offset_lo (blk (snd rs))) + n \<le> sz \<and> xfs_dst_ok mt buf n (snd rs) \<and>
    holes_ok mt es buf (unat (io_Offset_lo (blk (snd rs)))) n"

definition reader_step ::
  "'h xfs_env \<Rightarrow> u32 \<Rightarrow> u32 \<Rightarrow> xfs_extent \<times> ('f, 'h) xfs_run \<Rightarrow> (u32 \<times> xfs_extent \<times> ('f, 'h) xfs_run) option"
where
  "reader_step ev count buf rs =
    (case xfs_read_step ev count buf (fst rs) (snd rs) of Some (Some (i, r), s) \<Rightarrow> Some (i, r, s) | _ \<Rightarrow> None)"

lemma mapped_ahead:
  assumes "holes_ok mt es buf lo n" "\<not> (lo mod blk_bytes mt = 0 \<and> unat buf mod 4 = 0 \<and> blk_bytes mt \<le> n)"
    and x: "lo div blk_bytes mt \<le> x" "x * blk_bytes mt < lo + n"
  shows "block_at es x \<noteq> None"
proof
  assume "block_at es x = None"
  then have h: "lo mod blk_bytes mt = 0" "unat buf mod 4 = 0" "(x + 1) * blk_bytes mt \<le> lo + n"
    using assms(1) x unfolding holes_ok_def by blast+
  have "lo div blk_bytes mt * blk_bytes mt + blk_bytes mt \<le> (x + 1) * blk_bytes mt"
    using x(1) by simp
  then have "blk_bytes mt \<le> n"
    using h(1,3) div_mult_mod_eq [of lo "blk_bytes mt"] by linarith
  then show False
    using assms(2) h by blast
qed

lemma holes_ok_tail:
  assumes mt: "wf_mount mt" and h: "holes_ok mt es buf lo n" and i: "i \<le> n" "n < 2 ^ 31"
    and d: "lo mod blk_bytes mt = 0 \<and> unat buf mod 4 = 0 \<and> blk_bytes mt \<le> n \<Longrightarrow> blk_bytes mt dvd i"
  shows "holes_ok mt es (buf + of_nat i) (lo + i) (n - i)"
  unfolding holes_ok_def
proof (intro allI impI)
  fix x
  assume x: "(lo + i) div blk_bytes mt \<le> x" "x * blk_bytes mt < lo + i + (n - i)" and none: "block_at es x = None"
  have x': "lo div blk_bytes mt \<le> x" "x * blk_bytes mt < lo + n"
    using x i le_trans [OF div_le_mono [of lo "lo + i"]] by simp_all
  then have al: "lo mod blk_bytes mt = 0 \<and> unat buf mod 4 = 0 \<and> blk_bytes mt \<le> n"
    using mapped_ahead [OF h] none by blast
  then have dv: "blk_bytes mt dvd i"
    by (rule d)
  then have "4 dvd i"
    using blk_bytes_bounds(4) [OF mt] by (rule dvd_trans [rotated])
  then have "4 dvd unat buf + i" "blk_bytes mt dvd lo + i"
    using al dv by (intro dvd_add; simp add: dvd_eq_mod_eq_0)+
  moreover have "unat (buf + of_nat i) mod 4 = (unat buf + i) mod 4"
    using i by (simp add: unat_word_ariths unat_of_nat_32 mod_mod_cancel)
  moreover have "(x + 1) * blk_bytes mt \<le> lo + n"
    using h x' none unfolding holes_ok_def by blast
  ultimately show "(lo + i) mod blk_bytes mt = 0 \<and> unat (buf + of_nat i) mod 4 = 0 \<and> (x + 1) * blk_bytes mt \<le> lo + i + (n - i)"
    using i(1) by (simp add: dvd_eq_mod_eq_0)
qed

lemma xfs_read_turn:
  assumes g: "xfs_good ev mt es sz buf n rs" and n: "0 < n"
  shows "\<exists>i rs'. reader_step ev (of_nat n) buf rs = Some (of_nat i, rs') \<and> 0 < i \<and> i \<le> n \<and>
    xfs_good ev mt es sz (buf + of_nat i) (n - i) rs' \<and> xfs_turn ev mt es buf i (snd rs) (snd rs')"
proof -
  let ?s = "snd rs"
  let ?lo = "io_Offset_lo (blk ?s)"
  have f: "xfs_file ev mt es sz ?s" and e: "unat ?lo + n \<le> sz" and o: "xfs_dst_ok mt buf n ?s"
    and h: "holes_ok mt es buf (unat ?lo) n"
    using g by (simp_all add: xfs_good_def)
  have mt: "wf_mount mt" and sz: "sz < 2 ^ 31"
    using f by (simp_all add: xfs_file_def)
  have n31: "n < 2 ^ 31"
    using e sz by simp
  then have un: "unat (of_nat n :: u32) = n"
    by (intro unat_of_nat_32) simp
  note di = xfs_direct_iff [OF mt, of "of_nat n", unfolded un, OF n31, of ?lo buf]
  have "\<exists>i r s'. xfs_read_step ev (of_nat n) buf (fst rs) ?s = Some (Some (of_nat i, r), s') \<and> 0 < i \<and> i \<le> n \<and>
    (xfs_direct mt ?lo (of_nat n) buf \<longrightarrow> blk_bytes mt dvd i) \<and> xfs_turn ev mt es buf i ?s s'"
  proof (cases "xfs_direct mt ?lo (of_nat n) buf")
    case True
    then show ?thesis
      using xfs_direct_step [OF f True, unfolded un, OF n31 e o] by blast
  next
    case False
    have "unat ?lo div blk_bytes mt * blk_bytes mt < unat ?lo + n"
      using n div_mult_mod_eq [of "unat ?lo" "blk_bytes mt"] by linarith
    then obtain b where "block_at es (unat ?lo div blk_bytes mt) = Some b"
      using mapped_ahead [OF h] False di by blast
    then show ?thesis
      using False xfs_buffered_step [OF f False, unfolded un, OF n n31 e o] by blast
  qed
  then obtain i r s' where st: "xfs_read_step ev (of_nat n) buf (fst rs) ?s = Some (Some (of_nat i, r), s')"
    and i: "0 < i" "i \<le> n" and dv: "xfs_direct mt ?lo (of_nat n) buf \<longrightarrow> blk_bytes mt dvd i"
    and t: "xfs_turn ev mt es buf i ?s s'"
    by blast
  have k: "xfs_key s' = xfs_key ?s" and lo: "io_Offset_lo (blk s') = ?lo + of_nat i"
    and so: "same_on (- (area (fsb_Buffer (blk ?s)) (blk_bytes mt) \<union> area buf i)) (ram ?s) (ram s')"
    using t by (simp_all add: xfs_turn_def stored_def)
  have ulo: "unat (io_Offset_lo (blk s')) = unat ?lo + i"
    unfolding lo using e sz i by (intro unat_add_small) simp
  have sub: "area buf i \<subseteq> area buf n"
    using i(2) by (rule area_mono)
  have "(area (fsb_Buffer (blk ?s)) (blk_bytes mt) \<union> area buf i) \<inter> table_area ?s = {}"
    using f o sub unfolding xfs_file_def xfs_dst_ok_def by blast
  then have "same_on (table_area ?s) (ram ?s) (ram s')"
    by (intro same_on_sub [OF so]) blast
  then have f': "xfs_file ev mt es sz s'"
    by (rule xfs_file_frame [OF f k])
  have "area (buf + of_nat i) (n - i) \<subseteq> area buf n"
    using i n31 by (intro area_tail) simp_all
  then have "xfs_dst_ok mt (buf + of_nat i) (n - i) s'"
    using o unfolding xfs_dst_ok_def xfs_key_simps [OF k] by blast
  moreover have "holes_ok mt es (buf + of_nat i) (unat ?lo + i) (n - i)"
    using dv di by (intro holes_ok_tail [OF mt h i(2) n31]) blast
  ultimately have "xfs_good ev mt es sz (buf + of_nat i) (n - i) (r, s')"
    using f' e i by (simp add: xfs_good_def ulo)
  then show ?thesis
    using st i t by (intro exI [of _ i] exI [of _ "(r, s')"]) (simp add: reader_step_def)
qed

interpretation xfs_reader: block_reader "reader_step ev" "\<lambda>count buf rs. xfs_read_loop ev count buf (fst rs) (snd rs)" snd
  "\<lambda>rs. ram (snd rs)" "\<lambda>rs. io_Offset_lo (blk (snd rs))" "\<lambda>rs. xfs_key (snd rs)" "xfs_scratch mt" "xfs_contents ev mt es"
  "xfs_good ev mt es sz" for ev :: "'h xfs_env" and mt es sz
proof
  show "xfs_read_loop ev 0 b (fst rs) (snd rs) = Some (True, snd rs)" for b and rs :: "xfs_extent \<times> ('f, 'h) xfs_run"
    by (simp add: xfs_read_loop.simps)
  show "xfs_read_loop ev (of_nat n) b (fst rs) (snd rs) = xfs_read_loop ev (of_nat n - i) (b + i) (fst rs') (snd rs')"
    if "0 < n" "n < 2 ^ 31" "reader_step ev (of_nat n) b rs = Some (i, rs')" for n b i and rs rs' :: "xfs_extent \<times> ('f, 'h) xfs_run"
  proof -
    have "0 < sint (of_nat n :: u32)"
      using that(1,2) by (simp add: sint_of_nat_32)
    then show ?thesis
      using that(3) by (subst xfs_read_loop.simps) (auto simp: reader_step_def split: option.splits)
  qed
  show "unat (io_Offset_lo (blk (snd rs))) + n < 2 ^ 31 \<and> area b n \<inter> xfs_scratch mt (xfs_key (snd rs)) = {}"
    if "xfs_good ev mt es sz b n rs" for b n and rs :: "xfs_extent \<times> ('f, 'h) xfs_run"
    using that by (auto simp: xfs_good_def xfs_file_def xfs_dst_ok_def)
  show "\<exists>i rs'. reader_step ev (of_nat n) b rs = Some (of_nat i, rs') \<and> 0 < i \<and> i \<le> n \<and>
      xfs_good ev mt es sz (b + of_nat i) (n - i) rs' \<and> xfs_key (snd rs') = xfs_key (snd rs) \<and>
      io_Offset_lo (blk (snd rs')) = io_Offset_lo (blk (snd rs)) + of_nat i \<and>
      stored (xfs_contents ev mt es (xfs_key (snd rs))) (xfs_scratch mt (xfs_key (snd rs))) b
        (unat (io_Offset_lo (blk (snd rs)))) i (ram (snd rs)) (ram (snd rs'))"
    if "xfs_good ev mt es sz b n rs" "0 < n" for b n and rs :: "xfs_extent \<times> ('f, 'h) xfs_run"
    using xfs_read_turn [OF that] unfolding xfs_turn_def by blast
qed



text \<open>\<open>_xfs_read\<close> on an open file: what is left of the file from the offset on, and not more
than asked for.\<close>

lemma sint_small_64: "unat (x :: u64) < 2 ^ 63 \<Longrightarrow> sint x = int (unat x)"
proof -
  assume a: "unat x < 2 ^ 63"
  have "sint x = signed_take_bit 63 (uint x)"
    by (simp add: sint_uint)
  also have "uint x = int (unat x)"
    by simp
  also have "signed_take_bit 63 (int (unat x)) = int (unat x)"
  proof (rule signed_take_bit_int_eq_self)
    show "- (2 ^ 63) \<le> int (unat x)"
      by (rule order_trans [of _ 0]) simp_all
    show "int (unat x) < 2 ^ 63"
      using a by (metis of_nat_less_iff of_nat_numeral of_nat_power)
  qed
  finally show ?thesis .
qed

lemma xfs_read_amount:
  assumes f: "xfs_file ev mt es sz s" and lo: "unat (io_Offset_lo (blk s)) < 2 ^ 31"
    "unat (io_Offset_lo (blk s)) + unat (io_Count (blk s)) < 2 ^ 32"
    and n_def: "n = min (unat (io_Count (blk s))) (sz - unat (io_Offset_lo (blk s)))"
  shows "xfs_read ev s = (if n = 0 then Some (0, set_blk (\<lambda>io. io\<lparr>io_Count := 0\<rparr>) s)
    else do { (ok, s) \<leftarrow> xfs_read_loop ev (of_nat n) (io_Address (blk s)) \<lparr>xe_bn = 0, xe_length = 0, xe_offset = stack_offset ev\<rparr> s;
      Some (if ok then (0, set_blk (\<lambda>io. io\<lparr>io_Count := of_nat n\<rparr>) s) else xfs_error EIO s) })"
proof -
  let ?lo = "io_Offset_lo (blk s)" and ?cnt = "io_Count (blk s)" and ?size = "xdi_size (i_d (inode_at s (fsb_inode s)))"
  have sz: "unat ?size = sz" "sz < 2 ^ 31"
    using f by (simp_all add: xfs_file_def)
  define count where "count = (if sint (ucast (?lo + ?cnt) :: u64) > sint ?size then ucast (?size - ucast ?lo) else ?cnt)"
  have sum: "unat (?lo + ?cnt) = unat ?lo + unat ?cnt"
    using lo(2) by (simp add: unat_word_ariths)
  have "sint (ucast (?lo + ?cnt) :: u64) = int (unat ?lo + unat ?cnt)" "sint ?size = int sz"
    using lo(2) sz by (simp_all add: sint_small_64 unat_ucast64 sum)
  then have over: "sint (ucast (?lo + ?cnt) :: u64) > sint ?size \<longleftrightarrow> sz < unat ?lo + unat ?cnt"
    by (simp only: of_nat_less_iff)
  have c: "if n = 0 then sint count \<le> 0 else unat count = n"
  proof (cases "sz < unat ?lo + unat ?cnt")
    case True
    then have k: "count = ucast (?size - ucast ?lo)"
      by (simp add: count_def over)
    show ?thesis
    proof (cases "unat ?lo < sz")
      case True
      then have "unat (?size - ucast ?lo) = sz - unat ?lo"
        using sz(1) by (simp add: unat_sub word_le_nat_alt unat_ucast64)
      then have "unat count = sz - unat ?lo"
        using sz(2) unfolding k by (subst unat_ucast32) simp_all
      then show ?thesis
        using True \<open>sz < unat ?lo + unat ?cnt\<close> by (simp add: n_def)
    next
      case False
      have u: "unat count = (if unat ?lo = sz then 0 else 2 ^ 32 + sz - unat ?lo)"
      proof (cases "unat ?lo = sz")
        case True
        then have "unat (?size - ucast ?lo) = 0"
          using sz(1) by (simp add: unat_sub_if' unat_ucast64)
        then show ?thesis
          using True unfolding k by (subst unat_ucast32) simp_all
      next
        case False
        then have "unat (?size - ucast ?lo) = (2 ^ 32 + sz - unat ?lo) + 2 ^ 32 * (2 ^ 32 - 1)"
          using \<open>\<not> unat ?lo < sz\<close> sz(1) lo(1) by (simp add: unat_sub_if' unat_ucast64)
        then have "unat (ucast (?size - ucast ?lo) :: u32) = (2 ^ 32 + sz - unat ?lo) mod 2 ^ 32"
          using mod_mult_self2 [of "2 ^ 32 + sz - unat ?lo" "2 ^ 32" "2 ^ 32 - 1"] by (simp add: unsigned_ucast_eq take_bit_eq_mod)
        then show ?thesis
          using False \<open>\<not> unat ?lo < sz\<close> lo(1) unfolding k by simp
      qed
      have "\<not> 0 < sint count"
        using lo(1) False unfolding sint_pos_iff u by auto
      then show ?thesis
        using False by (simp add: n_def)
    qed
  next
    case False
    then have "count = ?cnt" "n = unat ?cnt"
      by (simp_all add: count_def over n_def)
    then show ?thesis
      using sint_pos_iff [of count] by auto
  qed
  have run: "xfs_read ev s = (if sint count \<le> 0 then Some (0, set_blk (\<lambda>io. io\<lparr>io_Count := 0\<rparr>) s)
      else do { (ok, s) \<leftarrow> xfs_read_loop ev count (io_Address (blk s)) \<lparr>xe_bn = 0, xe_length = 0, xe_offset = stack_offset ev\<rparr> s;
        Some (if ok then (0, set_blk (\<lambda>io. io\<lparr>io_Count := count\<rparr>) s) else xfs_error EIO s) })"
    by (simp only: xfs_read_def count_def Let_def)
  show ?thesis
  proof (cases "n = 0")
    case True
    then show ?thesis
      using c run by simp
  next
    case False
    then have "unat count = n"
      using c by simp
    moreover from this have "\<not> sint count \<le> 0"
      using False sz(2) sint_pos_iff [of count] by (simp add: n_def not_le)
    moreover from calculation(1) have ce: "count = of_nat n"
      by auto
    ultimately show ?thesis
      using False run unfolding ce by simp
  qed
qed

lemma xfs_read_run:
  assumes f: "xfs_file ev mt es sz s" and lo: "unat (io_Offset_lo (blk s)) < 2 ^ 31"
    "unat (io_Offset_lo (blk s)) + unat (io_Count (blk s)) < 2 ^ 32"
    and n: "n = min (unat (io_Count (blk s))) (sz - unat (io_Offset_lo (blk s)))"
    and o: "xfs_dst_ok mt (io_Address (blk s)) n s" and h: "holes_ok mt es (io_Address (blk s)) (unat (io_Offset_lo (blk s))) n"
  shows "\<exists>s'. xfs_read ev s = Some (0, s') \<and> xfs_file ev mt es sz s' \<and> xfs_turn ev mt es (io_Address (blk s)) n s s'"
proof -
  let ?r = "\<lparr>xe_bn = 0, xe_length = 0, xe_offset = stack_offset ev\<rparr>" and ?c = "\<lambda>k. set_blk (\<lambda>io. io\<lparr>io_Count := k\<rparr>)"
  have count: "xfs_file ev mt es sz (?c k s')" "xfs_turn ev mt es buf n s (?c k s')"
    if "xfs_file ev mt es sz s'" "xfs_turn ev mt es buf n s s'" for s' k buf
    using that xfs_file_frame [OF that(1), of "?c k s'"]
    by (simp_all add: xfs_turn_def xfs_key_def set_blk_def same_on_def)
  show ?thesis
  proof (cases "n = 0")
    case True
    have "xfs_turn ev mt es (io_Address (blk s)) 0 s s"
      by (simp add: xfs_turn_def stored_none)
    then show ?thesis
      using True xfs_read_amount [OF f lo n] count [OF f] by simp
  next
    case False
    have "unat (io_Offset_lo (blk s)) + n \<le> sz"
      using False n by auto
    then have "xfs_good ev mt es sz (io_Address (blk s)) n (?r, s)"
      using f o h by (simp add: xfs_good_def)
    from xfs_reader.loop_run [OF this] obtain rs' where
      "xfs_read_loop ev (of_nat n) (io_Address (blk s)) ?r s = Some (True, snd rs')"
      and g: "xfs_good ev mt es sz (io_Address (blk s) + of_nat n) 0 rs'"
      and t: "xfs_turn ev mt es (io_Address (blk s)) n s (snd rs')"
      unfolding xfs_turn_def by auto
    moreover have "xfs_file ev mt es sz (snd rs')"
      using g by (simp add: xfs_good_def)
    ultimately show ?thesis
      using False xfs_read_amount [OF f lo n] count by simp
  qed
qed

section \<open>Reading a descriptor\<close>

lemma Read_file:
  assumes "io_ok s" "2 \<le> fd" "fd < MAX_FDS" "fd_Type (fd_table s ! fd) = FD_TYPE_XFS" "xfs_data (fd_table s ! fd)"
    "fsstrat (s_xfs_eiob s) = Some f" "buf \<noteq> 0"
  shows "Read pl fd buf len s = (case strategy_of pl f ((s_xfs_eiob s)\<lparr>io_Address := buf, io_Count := len,
      io_Offset_lo := fd_pos fd s, io_Offset_hi := 0, fsb_FunctionCode := FS_READ\<rparr>) (mem s) (fs_state s) of
      None \<Rightarrow> None
    | Some (r, eb, m, g) \<Rightarrow>
        (let s' = s\<lparr>s_xfs_eiob := eb, mem := m, fs_state := g\<rparr>; off = io_Offset_lo eb in
         Some (if r = 0 then (0, off - fd_pos fd s, set_fd fd (\<lambda>e. e\<lparr>position := off\<rparr>) s') else (r, 0, s'))))"
proof -
  have fd: "fd \<noteq> 0" "ensure_fd_table s = s"
    using assms(1,2) by (auto simp: io_ok_def ensure_fd_table_def)
  show ?thesis
    using fd assms(3-7)
    by (auto simp: Read_def Let_def call_strategy_def fd_pos_def [symmetric] split: option.splits)
qed

definition xfs_run_of :: "('f, 'h xfs_globals) io \<Rightarrow> ('f, 'h) xfs_run" where
  "xfs_run_of s = \<lparr>blk = s_xfs_eiob s, ram = mem s, xg = fs_state s\<rparr>"

text \<open>Descriptor \<open>fd\<close> is open on a file of the file system: mount \<open>mt\<close>, extents \<open>es\<close>, length \<open>sz\<close>.\<close>

definition xfs_fd :: "('f, 'h xfs_globals) platform \<Rightarrow> 'h xfs_env \<Rightarrow> nat \<Rightarrow> xfs_mount \<Rightarrow> bmbt_irec list \<Rightarrow> nat \<Rightarrow>
    ('f, 'h xfs_globals) io \<Rightarrow> bool" where
  "xfs_fd pl ev fd mt es sz s \<longleftrightarrow> io_ok s \<and> 2 \<le> fd \<and> fd < MAX_FDS \<and>
     fd_Type (fd_table s ! fd) = FD_TYPE_XFS \<and> xfs_data (fd_table s ! fd) \<and>
     (\<exists>f. fsstrat (s_xfs_eiob s) = Some f \<and> strategy_of pl f = xfs_strategy ev) \<and>
     xfs_file ev mt es sz (xfs_run_of s)"

text \<open>The control block as \<open>Read\<close> sets it.\<close>

definition xfs_asked :: "u32 \<Rightarrow> u32 \<Rightarrow> u32 \<Rightarrow> ('f, 'h) xfs_run \<Rightarrow> ('f, 'h) xfs_run" where
  "xfs_asked buf len pos s = set_blk (\<lambda>io. io\<lparr>io_Address := buf, io_Count := len, io_Offset_lo := pos,
     io_Offset_hi := 0, fsb_FunctionCode := FS_READ\<rparr>) s"

lemma xfs_asked_simps [simp]:
  "ram (xfs_asked buf len pos s) = ram s" "xg (xfs_asked buf len pos s) = xg s"
  "io_Address (blk (xfs_asked buf len pos s)) = buf" "io_Count (blk (xfs_asked buf len pos s)) = len"
  "io_Offset_lo (blk (xfs_asked buf len pos s)) = pos" "fsstrat (blk (xfs_asked buf len pos s)) = fsstrat (blk s)"
  "fsb_Buffer (blk (xfs_asked buf len pos s)) = fsb_Buffer (blk s)" "dev_Key (blk (xfs_asked buf len pos s)) = dev_Key (blk s)"
  "mount_at (xfs_asked buf len pos s) = mount_at s" "inode_at (xfs_asked buf len pos s) = inode_at s"
  "fsb_mount (xfs_asked buf len pos s) = fsb_mount s" "fsb_inode (xfs_asked buf len pos s) = fsb_inode s"
  "table_area (xfs_asked buf len pos s) = table_area s" "xfs_dst_ok mt d n (xfs_asked buf len pos s) = xfs_dst_ok mt d n s"
  "xfs_file ev mt es sz (xfs_asked buf len pos s) = xfs_file ev mt es sz s"
  by (simp_all add: xfs_asked_def set_blk_def table_area_def xfs_dst_ok_def xfs_file_def mount_at_def inode_at_def
      fsb_mount_def fsb_inode_def file_recs_def fun_eq_iff Let_def)

lemma Read_xfs:
  assumes "xfs_fd pl ev fd mt es sz s" "buf \<noteq> 0"
  shows "Read pl fd buf len s = (case xfs_read ev (xfs_asked buf len (fd_pos fd s) (xfs_run_of s)) of
      None \<Rightarrow> None
    | Some (r, t) \<Rightarrow>
        (let s' = s\<lparr>s_xfs_eiob := blk t, mem := ram t, fs_state := xg t\<rparr>; off = io_Offset_lo (blk t) in
         Some (if r = 0 then (0, off - fd_pos fd s, set_fd fd (\<lambda>e. e\<lparr>position := off\<rparr>) s') else (r, 0, s'))))"
proof -
  obtain f where f: "fsstrat (s_xfs_eiob s) = Some f" "strategy_of pl f = xfs_strategy ev"
    using assms(1) by (auto simp: xfs_fd_def)
  have e: "xfs_strategy ev ((s_xfs_eiob s)\<lparr>io_Address := buf, io_Count := len, io_Offset_lo := fd_pos fd s,
      io_Offset_hi := 0, fsb_FunctionCode := FS_READ\<rparr>) (mem s) (fs_state s) =
    map_option (\<lambda>(r, t). (r, blk t, ram t, xg t)) (xfs_read ev (xfs_asked buf len (fd_pos fd s) (xfs_run_of s)))"
    by (simp add: xfs_strategy_def xfs_strat_def xfs_run_of_def xfs_asked_def set_blk_def split: option.splits bind_splits)
  have "Read pl fd buf len s = (case xfs_strategy ev ((s_xfs_eiob s)\<lparr>io_Address := buf, io_Count := len,
      io_Offset_lo := fd_pos fd s, io_Offset_hi := 0, fsb_FunctionCode := FS_READ\<rparr>) (mem s) (fs_state s) of
      None \<Rightarrow> None
    | Some (r, eb, m, g) \<Rightarrow>
        (let s' = s\<lparr>s_xfs_eiob := eb, mem := m, fs_state := g\<rparr>; off = io_Offset_lo eb in
         Some (if r = 0 then (0, off - fd_pos fd s, set_fd fd (\<lambda>e. e\<lparr>position := off\<rparr>) s') else (r, 0, s'))))"
    using assms by (subst f(2) [symmetric], intro Read_file f(1)) (simp_all add: xfs_fd_def)
  then show ?thesis
    unfolding e by (simp split: option.splits)
qed

section \<open>Properties\<close>

text \<open>C6: \<open>Read\<close> on a descriptor of an XFS file.  It returns, with the smaller of the count asked for
and the rest of the file; the destination holds the bytes the extents point to on the disk, and
zeros where the file has a hole; the position moves by their number, and the descriptor stays open
on the same file.  Nothing else in memory changes but the block buffer.  Every block of a hole the
read touches must be read whole, to an aligned destination (\<open>holes_ok\<close>).\<close>

theorem xfs_descriptor_reads:
  assumes "xfs_fd pl ev fd mt es sz s" "buf \<noteq> 0" "unat (fd_pos fd s) + unat len < 2 ^ 31"
    and "n = min (unat len) (sz - unat (fd_pos fd s))" "xfs_dst_ok mt buf n (xfs_run_of s)"
    and "holes_ok mt es buf (unat (fd_pos fd s)) n"
  shows "\<exists>s'. Read pl fd buf len s = Some (0, of_nat n, s') \<and>
    (\<forall>i < n. Some (mem s' (buf + of_nat i)) =
       xfs_byte (xfs_disk ev) (dev_Key (s_xfs_eiob s)) mt es (unat (fd_pos fd s) + i)) \<and>
    (\<forall>a. a \<notin> area buf n \<longrightarrow> a \<notin> area (fsb_Buffer (s_xfs_eiob s)) (blk_bytes mt) \<longrightarrow> mem s' a = mem s a) \<and>
    fd_pos fd s' = fd_pos fd s + of_nat n \<and> xfs_fd pl ev fd mt es sz s' \<and>
    (\<forall>j. j \<noteq> fd \<longrightarrow> fd_table s' ! j = fd_table s ! j)"
proof -
  let ?pos = "fd_pos fd s"
  let ?s = "xfs_asked buf len ?pos (xfs_run_of s)"
  have "xfs_file ev mt es sz ?s" "io_ok s" "2 \<le> fd" and l: "fd < length (fd_table s)"
    using assms(1) by (simp_all add: xfs_fd_def io_ok_def)
  then obtain t where r: "xfs_read ev ?s = Some (0, t)" and f: "xfs_file ev mt es sz t" and m: "xfs_turn ev mt es buf n ?s t"
    using xfs_read_run [of ev mt es sz ?s n] assms(3-6) by auto
  let ?s' = "set_fd fd (\<lambda>e. e\<lparr>position := io_Offset_lo (blk t)\<rparr>) (s\<lparr>s_xfs_eiob := blk t, mem := ram t, fs_state := xg t\<rparr>)"
  have k: "xfs_key t = xfs_key ?s" and off: "io_Offset_lo (blk t) = ?pos + of_nat n"
    and st: "stored (xfs_byte (xfs_disk ev) (dev_Key (s_xfs_eiob s)) mt es)
      (area (fsb_Buffer (s_xfs_eiob s)) (blk_bytes mt)) buf (unat ?pos) n (mem s) (ram t)"
    using m by (simp_all add: xfs_turn_def) (simp add: xfs_run_of_def)
  have "xfs_run_of ?s' = t"
    by (simp add: xfs_run_of_def set_fd_def)
  moreover have "s_xfs_eiob ?s' = blk t"
    by (simp add: set_fd_def)
  moreover have "io_ok ?s'"
    using assms(1) by (intro io_ok_set_fd) (simp_all add: xfs_fd_def io_ok_def)
  moreover have "fsstrat (blk t) = fsstrat (s_xfs_eiob s)"
    using xfs_key_simps(10) [OF k] by (simp add: xfs_run_of_def)
  ultimately have "xfs_fd pl ev fd mt es sz ?s'"
    using assms(1) f l by (auto simp: xfs_fd_def)
  moreover have "Read pl fd buf len s = Some (0, of_nat n, ?s')"
    using Read_xfs [OF assms(1,2), of len] r off by (simp add: Let_def)
  moreover have "fd_pos fd ?s' = ?pos + of_nat n"
    using l off by (simp add: fd_pos_def)
  moreover have "a \<notin> area buf n \<Longrightarrow> a \<notin> area (fsb_Buffer (s_xfs_eiob s)) (blk_bytes mt) \<Longrightarrow> ram t a = mem s a" for a
    using st by (simp add: stored_def same_on_def)
  ultimately show ?thesis
    using st by (intro exI [of _ ?s']) (simp add: stored_def)
qed

lemma block_multiple:
  assumes "wf_mount mt"
  shows "unat (ucast (XFS_FSB_TO_B mt off) :: u32) mod blk_bytes mt = 0"
proof -
  let ?l = "sb_blocklog (m_sb mt)"
  have "ucast (XFS_FSB_TO_B mt off) = (push_bit ?l (ucast (scast off :: u64)) :: u32)"
    unfolding XFS_FSB_TO_B_def by (rule bit_word_eqI) (auto simp: bit_simps)
  then have "unat (ucast (XFS_FSB_TO_B mt off) :: u32) = unat (ucast (scast off :: u64) :: u32) * 2 ^ ?l mod 2 ^ 32"
    by (simp only: unsigned_push_bit_eq) (simp add: take_bit_eq_mod push_bit_eq_mult)
  moreover have "blk_bytes mt dvd 2 ^ 32"
    using blk_bytes_bounds(3) [OF assms] by (rule dvd_trans) (simp add: dvd_def)
  ultimately show ?thesis
    by (simp add: blk_bytes_def mod_mod_cancel)
qed

text \<open>A hole read through the block buffer: the offset of the extent is the one left in the variable.\<close>

lemma hole_not_delivered:
  assumes mt: "wf_mount mt" and lo: "unat (io_Offset_lo (blk s)) < 2 ^ 31" and nb: "dmaaddr \<noteq> buf"
    and len: "xe_length result = sb_blocksize (m_sb mt)"
    and ne: "ucast (XFS_FSB_TO_B mt (xe_offset result)) \<noteq>
      (of_nat (blk_bytes mt * (unat (io_Offset_lo (blk s)) div blk_bytes mt)) :: u32)"
  shows "xfs_deliver mt count buf dmaaddr result s = (None, s)"
proof -
  let ?B = "blk_bytes mt" and ?lo = "io_Offset_lo (blk s)" and ?w = "ucast (XFS_FSB_TO_B mt (xe_offset result)) :: u32"
  note B = blk_bytes_bounds [OF mt]
  define off where "off = ?lo - ?w"
  have dv: "?B dvd 2 ^ 32"
    using B(3) by (rule dvd_trans) (simp add: dvd_def)
  have "unat ?lo = (unat off + unat ?w) mod 2 ^ 32"
    using unat_word_ariths(1) [of off ?w] by (simp add: off_def)
  then have "unat ?lo mod ?B = (unat off + unat ?w) mod ?B"
    using dv by (simp only: mod_mod_cancel)
  then have m: "unat off mod ?B = unat ?lo mod ?B"
    using block_multiple [OF mt, of "xe_offset result"] mod_add_right_eq [of "unat off" "unat ?w" ?B] by simp
  have "unat off \<noteq> unat ?lo mod ?B"
  proof
    assume a: "unat off = unat ?lo mod ?B"
    have "?w = ?lo - off"
      by (simp add: off_def)
    moreover have "unat (?lo - off) = ?B * (unat ?lo div ?B)"
      using a by (subst unat_sub) (simp_all add: word_le_nat_alt minus_mod_eq_mult_div)
    moreover have "?B * (unat ?lo div ?B) < 2 ^ 32"
      using lo by (intro le_less_trans [OF times_div_less_eq_dividend]) simp
    ultimately show False
      using ne by (simp add: word_unat_eq_iff unat_of_nat_32 del: of_nat_mult)
  qed
  then have ge: "?B \<le> unat off"
    using m by (metis mod_less not_le)
  have uB: "unat (sb_blocksize (m_sb mt)) = ?B"
    using mt by (simp add: wf_mount_def)
  have "sint (smin (sb_blocksize (m_sb mt) - off) count) \<le> 0" if "\<not> sint off < 0"
  proof -
    have "unat off < 2 ^ 31"
      using that sint_large [of off] by linarith
    moreover have "unat (sb_blocksize (m_sb mt) - off) = (if unat off = ?B then 0 else 2 ^ 32 + ?B - unat off)"
      using ge unfolding unat_sub_if' uB by auto
    ultimately have "\<not> 0 < sint (sb_blocksize (m_sb mt) - off)"
      unfolding sint_pos_iff by auto
    then show ?thesis
      by (simp add: smin_def)
  qed
  then show ?thesis
    using nb by (simp add: xfs_deliver_def len off_def [symmetric] Let_def)
qed

text \<open>C24: the case excluded above.  Where the file has a hole, \<open>_xfs_bmap\<close> leaves the offset of the
extent as it is, and the copy out of the block buffer uses it: a read that begins in a hole and is
not made in place fails, unless what the stack held was by chance the offset of that block.\<close>

theorem xfs_hole_fails:
  assumes "xfs_fd pl ev fd mt es sz s" "buf \<noteq> 0" "unat (fd_pos fd s) + unat len < 2 ^ 31"
    and "n = min (unat len) (sz - unat (fd_pos fd s))" "0 < n" "buf \<noteq> fsb_Buffer (s_xfs_eiob s)"
    and "block_at es (unat (fd_pos fd s) div blk_bytes mt) = None"
    and "unat (fd_pos fd s) mod blk_bytes mt \<noteq> 0 \<or> unat buf mod 4 \<noteq> 0 \<or> n < blk_bytes mt"
    and "ucast (XFS_FSB_TO_B mt (stack_offset ev)) \<noteq> (of_nat (blk_bytes mt * (unat (fd_pos fd s) div blk_bytes mt)) :: u32)"
  shows "\<exists>s'. Read pl fd buf len s = Some (EIO, 0, s') \<and> fd_table s' = fd_table s \<and>
    (\<forall>a. a \<notin> area (fsb_Buffer (s_xfs_eiob s)) (blk_bytes mt) \<longrightarrow> mem s' a = mem s a)"
proof -
  let ?pos = "fd_pos fd s" and ?r = "\<lparr>xe_bn = 0, xe_length = 0, xe_offset = stack_offset ev\<rparr>"
  let ?s = "xfs_asked buf len ?pos (xfs_run_of s)"
  have f: "xfs_file ev mt es sz ?s" and bf: "fsb_Buffer (blk ?s) = fsb_Buffer (s_xfs_eiob s)" "ram ?s = mem s"
    using assms(1) by (simp_all add: xfs_fd_def) (simp_all add: xfs_run_of_def)
  have mt: "wf_mount mt" "mount_at ?s (fsb_mount ?s) = mt" and sz: "sz < 2 ^ 31" and us: "unat (sb_blocksize (m_sb mt)) = blk_bytes mt"
    using f by (simp_all add: xfs_file_def wf_mount_def)
  have lt: "unat (io_Offset_lo (blk ?s)) < sz" and n31: "n < 2 ^ 31" and n: "unat (of_nat n :: u32) = n" "0 < sint (of_nat n :: u32)"
    using assms(3-5) by (auto simp: unat_of_nat_32 sint_of_nat_32)
  have nd: "\<not> xfs_direct mt ?pos (of_nat n) buf"
    using xfs_direct_iff [OF mt(1), of "of_nat n"] n n31 assms(8) by auto
  define q where "q = ?r\<lparr>xe_bn := -1, xe_length := sb_blocksize (m_sb mt)\<rparr>"
  let ?t = "set_ram (bzero (fsb_Buffer (blk ?s)) (sb_blocksize (m_sb mt)))
    (set_blk (\<lambda>io. io\<lparr>io_StartBlock := -1, io_Address := fsb_Buffer (blk ?s), io_Count := sb_blocksize (m_sb mt)\<rparr>) ?s)"
  have "block_at es (unat (io_Offset_lo (blk ?s)) div blk_bytes mt) = None"
    using assms(7) by simp
  note b = xfs_bmap_hole [OF f this lt, of 1 ?r, folded q_def]
  have "xfs_deliver mt (of_nat n) buf (fsb_Buffer (blk ?s)) q ?t = (None, ?t)"
    using assms(3,6,9) bf by (intro hole_not_delivered mt(1)) (simp_all add: q_def set_ram_def set_blk_def)
  then have "xfs_read_step ev (of_nat n) buf ?r ?s = Some (None, ?t)"
    using nd b by (simp add: xfs_read_step_def mt(2) [simplified] xfs_fetch_def Let_def) (simp add: q_def)
  then have l: "xfs_read_loop ev (of_nat n) buf ?r ?s = Some (False, ?t)"
    using n(2) by (simp add: xfs_read_loop.simps)
  have "n \<noteq> 0"
    using assms(5) by simp
  then have "xfs_read ev ?s = Some (xfs_error EIO ?t)"
    using xfs_read_amount [OF f, of n] assms(3) assms(4) [symmetric] l by simp
  then obtain s' where "Read pl fd buf len s = Some (EIO, 0, s')" "fd_table s' = fd_table s" "mem s' = ram ?t"
    using Read_xfs [OF assms(1,2), of len] by (auto simp: xfs_error_def EIO_def Let_def set_blk_def)
  moreover have "ram ?t a = mem s a" if "a \<notin> area (fsb_Buffer (s_xfs_eiob s)) (blk_bytes mt)" for a
    using that us bf by (simp add: set_ram_def set_blk_def bzero_def area_def word_less_nat_alt)
  ultimately show ?thesis
    by (intro exI [of _ s']) simp
qed

section \<open>A file with a hole\<close>

text \<open>Five blocks of 4096 bytes: two at block 100, a hole, two at block 200.\<close>

definition xfs_sample_mount :: xfs_mount where
  "xfs_sample_mount = \<lparr>m_sb = \<lparr>sb_magicnum = XFS_SB_MAGIC, sb_blocksize = 4096, sb_dblocks = 4096, sb_rootino = 128,
       sb_agblocks = 4096, sb_agcount = 1, sb_versionnum = 4, sb_inodesize = 256, sb_blocklog = 12, sb_inodelog = 8,
       sb_inopblog = 4, sb_agblklog = 12, sb_dirblklog = 0\<rparr>,
     m_blkbb_log = 3, m_agno_log = 0, m_agino_log = 16, m_litino = 156, m_blockmask = 4095, m_bmap_dmxr = (254, 254),
     m_dirblksize = 4096, m_dirblkfsbs = 1\<rparr>"

definition xfs_sample_inode :: xfs_inode where
  "xfs_sample_inode = \<lparr>i_mount = 0x4000, i_ino = 131, i_d = \<lparr>xdi_magic = XFS_DINODE_MAGIC, xdi_mode = 0x81A4,
       xdi_version = 1, xdi_format = XFS_DINODE_FMT_EXTENTS, xdi_onlink = 1, xdi_nlink = 0, xdi_size = 20480,
       xdi_nextents = 2, xdi_forkoff = 0\<rparr>,
     if_bytes = 32, if_real_bytes = 0, if_broot = 0, if_broot_bytes = 0, if_flags = XFS_IFEXTENTS, if_lastex = -1,
     if_u1 = 0x3000\<rparr>"

definition xfs_sample_mem :: memory where
  "xfs_sample_mem = (\<lambda>_. 0)(0x300C := 0x0C, 0x300D := 0x80, 0x300F := 2, 0x3016 := 6, 0x301C := 0x19, 0x301F := 2)"

definition xfs_sample_env :: "unit xfs_env" where
  "xfs_sample_env = \<lparr>xfs_disk = efs_sample_disk, xmalloc_of = (\<lambda>_ h. (0x6000, h)), xdmabuf_malloc_of = (\<lambda>_ h. (0x7000, h)),
     xfree_of = (\<lambda>_ h. h), xdmabuf_free_of = (\<lambda>_ h. h), sizeof_mount = 1024, sizeof_inode = 512, dirent_ip = 0x3F00,
     stack_offset = 0, stack_retval = False\<rparr>"

definition xfs_sample_platform :: "(unit, unit xfs_globals) platform" where
  "xfs_sample_platform = \<lparr>disk = efs_sample_disk, strategy_of = (\<lambda>f. xfs_strategy xfs_sample_env), fs_installs = [],
     local_at = local_at sample_platform\<rparr>"

definition xfs_sample_io :: "u32 \<Rightarrow> (unit, unit xfs_globals) io" where
  "xfs_sample_io pos = \<lparr>mem = xfs_sample_mem,
     fd_table = [sample_fd FD_TYPE_CONSOLE, sample_fd FD_TYPE_CONSOLE,
       (sample_fd FD_TYPE_XFS)\<lparr>position := pos, xfs_data := True\<rparr>] @ replicate 5 (sample_fd FD_TYPE_UNUSED),
     fd_table_inited = True, s_fs_init_done = True, fs_list = [],
     s_xfs_eiob = (s_xfs_eiob sample_io)\<lparr>fsb_Buffer := 0x8000, fsb_FsPtr := 0x2000, fsstrat := Some ()\<rparr>,
     fs_state = \<lparr>xinfos = (\<lambda>_. \<lparr>xfs_mp = 0x4000, xfs_ip = 0x5000\<rparr>), mounts = (\<lambda>_. xfs_sample_mount),
       inodes = (\<lambda>_. xfs_sample_inode), xheap = ()\<rparr>,
     uart_in = [], uart_out = []\<rparr>"

definition xfs_sample_recs :: "bmbt_irec list" where
  "xfs_sample_recs = [\<lparr>br_startoff = 0, br_startblock = 100, br_blockcount = 2\<rparr>, \<lparr>br_startoff = 3, br_startblock = 200, br_blockcount = 2\<rparr>]"

lemma xfs_sample_recs: "recs xfs_sample_mem 0x3000 2 = xfs_sample_recs"
  by code_simp

lemma xfs_sample_bytes: "blk_bytes xfs_sample_mount = 4096" "ag_blocks xfs_sample_mount = 4096" "wf_mount xfs_sample_mount"
  by (simp_all add: blk_bytes_def ag_blocks_def wf_mount_def xfs_sample_mount_def)

lemma xfs_sample_block: "block_at xfs_sample_recs b = (if b < 2 then Some (100 + b) else if 3 \<le> b \<and> b < 5 then Some (197 + b) else None)"
  by (auto simp: block_at_def xfs_sample_recs_def in_rec_def)

lemma xfs_sample_fd: "xfs_fd xfs_sample_platform xfs_sample_env 2 xfs_sample_mount xfs_sample_recs 20480 (xfs_sample_io pos)"
proof -
  have w: "wf_recs xfs_sample_mount xfs_sample_recs"
    by (simp add: wf_recs_def ordered_def xfs_sample_recs_def xfs_sample_bytes)
  have d: "XFS_FSB_TO_DADDR xfs_sample_mount (of_nat b) \<noteq> -1" if "b < 4096" for b
  proof -
    have "XFS_FSB_TO_DADDR xfs_sample_mount (of_nat b) = of_nat (b * 8)"
      using that daddr_word [of xfs_sample_mount b]
      by (simp add: xfs_sample_bytes) (simp add: xfs_sample_mount_def)
    then show ?thesis
      using that of_nat_neq_minus_one [of "b * 8"] by simp
  qed
  have b: "b < 4096" if "block_at xfs_sample_recs x = Some b" for x b
    using that by (auto simp: xfs_sample_block split: if_splits)
  have y: "xfs_byte efs_sample_disk k xfs_sample_mount xfs_sample_recs i \<noteq> None" for k i
    using efs_sample_byte by (simp add: xfs_byte_def split: option.splits)
  have "area 0x8000 4096 \<inter> area 0x3000 32 = {}"
    using area_disjoint [of "0x3000" 32 "0x8000" 4096] by auto
  then have "xfs_file xfs_sample_env xfs_sample_mount xfs_sample_recs 20480 (xfs_run_of (xfs_sample_io pos))"
    using w d b y xfs_sample_recs
    by (simp add: xfs_file_def xfs_sample_bytes xfs_run_of_def xfs_sample_io_def mount_at_def inode_at_def fsb_mount_def
        fsb_inode_def file_recs_def table_area_def xfs_sample_inode_def xfs_sample_env_def XFS_IFEXTENTS_def Let_def)
  then show ?thesis
    by (simp add: xfs_fd_def io_ok_def xfs_sample_platform_def) (simp add: xfs_sample_io_def sample_fd_def MAX_FDS_def)
qed

lemma xfs_sample_pos: "fd_pos 2 (xfs_sample_io pos) = pos" "fsb_Buffer (s_xfs_eiob (xfs_sample_io pos)) = 0x8000"
  by (simp_all add: fd_pos_def xfs_sample_io_def)

lemma xfs_descriptor_reads_witness:
  "\<exists>s'. Read xfs_sample_platform 2 0x100000 30000 (xfs_sample_io 0) = Some (0, 20480, s') \<and>
    (\<forall>i < 4096. mem s' (0x100000 + of_nat (8192 + i)) = 0)"
proof -
  have p: "unat (fd_pos 2 (xfs_sample_io 0)) + unat (30000 :: u32) < 2 ^ 31"
    "20480 = min (unat (30000 :: u32)) (20480 - unat (fd_pos 2 (xfs_sample_io 0)))"
    by (simp_all add: xfs_sample_pos)
  have "area 0x100000 20480 \<inter> area 0x3000 32 = {}" "area 0x100000 20480 \<inter> area 0x8000 4096 = {}"
    using area_disjoint [of "0x3000" 32 "0x100000" 20480] area_disjoint [of "0x8000" 4096 "0x100000" 20480] by auto
  then have d: "xfs_dst_ok xfs_sample_mount 0x100000 20480 (xfs_run_of (xfs_sample_io 0))"
    unfolding xfs_dst_ok_def Int_Un_distrib
    by (simp add: xfs_sample_bytes table_area_def xfs_run_of_def xfs_sample_io_def inode_at_def xfs_sample_inode_def)
  have h: "holes_ok xfs_sample_mount xfs_sample_recs 0x100000 (unat (fd_pos 2 (xfs_sample_io 0))) 20480"
    by (auto simp: holes_ok_def xfs_sample_bytes xfs_sample_block xfs_sample_pos)
  obtain s' where "Read xfs_sample_platform 2 0x100000 30000 (xfs_sample_io 0) = Some (0, of_nat 20480, s')"
    and c: "\<forall>i < 20480. Some (mem s' (0x100000 + of_nat i)) =
       xfs_byte efs_sample_disk (dev_Key (s_xfs_eiob (xfs_sample_io 0))) xfs_sample_mount xfs_sample_recs i"
    using xfs_descriptor_reads [OF xfs_sample_fd _ p d h] by (auto simp: xfs_sample_env_def xfs_sample_pos)
  moreover have "mem s' (0x100000 + of_nat (8192 + i)) = 0" if "i < 4096" for i
    using c [rule_format, of "8192 + i"] that
    by (simp add: xfs_byte_def xfs_sample_bytes xfs_sample_block div_add1_eq)
  ultimately show ?thesis
    by auto
qed

lemma xfs_hole_fails_witness:
  "\<exists>s'. Read xfs_sample_platform 2 0x100000 100 (xfs_sample_io 8192) = Some (EIO, 0, s')"
proof -
  have p: "unat (fd_pos 2 (xfs_sample_io 8192)) + unat (100 :: u32) < 2 ^ 31"
    "100 = min (unat (100 :: u32)) (20480 - unat (fd_pos 2 (xfs_sample_io 8192)))" "0 < (100 :: nat)"
    "0x100000 \<noteq> fsb_Buffer (s_xfs_eiob (xfs_sample_io 8192))"
    "block_at xfs_sample_recs (unat (fd_pos 2 (xfs_sample_io 8192)) div blk_bytes xfs_sample_mount) = None"
    "unat (fd_pos 2 (xfs_sample_io 8192)) mod blk_bytes xfs_sample_mount \<noteq> 0 \<or> unat (0x100000 :: u32) mod 4 \<noteq> 0 \<or>
      100 < blk_bytes xfs_sample_mount"
    "ucast (XFS_FSB_TO_B xfs_sample_mount (stack_offset xfs_sample_env)) \<noteq>
      (of_nat (blk_bytes xfs_sample_mount * (unat (fd_pos 2 (xfs_sample_io 8192)) div blk_bytes xfs_sample_mount)) :: u32)"
    by (simp_all add: xfs_sample_pos xfs_sample_bytes xfs_sample_block xfs_sample_env_def XFS_FSB_TO_B_def)
  show ?thesis
    using xfs_hole_fails [OF xfs_sample_fd _ p] by auto
qed

end
