(* ===== verification/Xfslook.thy ===== *)
theory Xfslook
imports Xfsread
begin

text \<open>What the lookups of the directories of XFS find: \<open>xfs_dir.c\<close> and \<open>xfs_dir2.c\<close> against the list of
the entries in the order of the directory, and what the walk of \<open>_xfs_lookup_name\<close> makes of them.\<close>

unbundle bit_operations_syntax

section \<open>The search of a leaf\<close>

definition sorted_upto :: "(int \<Rightarrow> u32) \<Rightarrow> int \<Rightarrow> bool" where
  "sorted_upto H count \<longleftrightarrow> (\<forall>i j. 0 \<le> i \<longrightarrow> i \<le> j \<longrightarrow> j < count \<longrightarrow> H i \<le> H j)"

lemma sorted_uptoD: "sorted_upto H count \<Longrightarrow> 0 \<le> i \<Longrightarrow> i \<le> j \<Longrightarrow> j < count \<Longrightarrow> H i \<le> H j"
  by (simp add: sorted_upto_def)

text \<open>The first index with the hash value that \<open>is_it\<close>.\<close>

definition first_match :: "(int \<Rightarrow> u32) \<Rightarrow> (int \<Rightarrow> bool) \<Rightarrow> u32 \<Rightarrow> int \<Rightarrow> int \<Rightarrow> int option" where
  "first_match H is_it h i count = List.find (\<lambda>j. H j = h \<and> is_it j) [i..count - 1]"

lemma first_match_simps:
  "count \<le> i \<Longrightarrow> first_match H is_it h i count = None"
  "i < count \<Longrightarrow> first_match H is_it h i count = (if H i = h \<and> is_it i then Some i else first_match H is_it h (i + 1) count)"
  by (simp_all add: first_match_def upto_rec1)

lemma first_match_none: "(\<And>j. i \<le> j \<Longrightarrow> j < count \<Longrightarrow> H j \<noteq> h) \<Longrightarrow> first_match H is_it h i count = None"
  by (auto simp: first_match_def find_None_iff)

lemma first_match_skip:
  assumes "i \<le> k" "k \<le> count" "\<And>j. i \<le> j \<Longrightarrow> j < k \<Longrightarrow> H j \<noteq> h"
  shows "first_match H is_it h i count = first_match H is_it h k count"
  using assms
proof (induction "nat (k - i)" arbitrary: i)
  case 0
  then show ?case
    by simp
next
  case (Suc n)
  show ?case
  proof (cases "i < k")
    case True
    have "first_match H is_it h i count = first_match H is_it h (i + 1) count"
      using True Suc.prems by (subst first_match_simps(2)) simp_all
    also have "\<dots> = first_match H is_it h k count"
      using True Suc.hyps(2) Suc.prems by (intro Suc.hyps(1)) simp_all
    finally show ?thesis .
  qed (use Suc.prems in simp)
qed

lemma linear_search_run:
  assumes "sorted_upto H count" "0 \<le> i"
  shows "linear_search H is_it h count i = first_match H is_it h i count"
  using assms(2)
proof (induction "nat (count - i)" arbitrary: i)
  case 0
  then show ?case
    by (simp add: linear_search.simps first_match_simps(1))
next
  case (Suc n)
  have i: "i < count"
    using Suc.hyps(2) by simp
  have none: "first_match H is_it h i count = None" if "H i > h"
  proof (rule first_match_none)
    show "H j \<noteq> h" if "i \<le> j" "j < count" for j
      using sorted_uptoD [OF assms(1) Suc.prems that] \<open>H i > h\<close> by auto
  qed
  have "linear_search H is_it h count (i + 1) = first_match H is_it h (i + 1) count"
    using Suc.hyps(2) Suc.prems by (intro Suc.hyps(1)) simp_all
  then show ?case
    using i none first_match_simps(2) [OF i] by (subst linear_search.simps) auto
qed

text \<open>The probes stay inside the leaf.\<close>

lemma bin_probe_range: "1 \<le> span \<Longrightarrow> \<bar>bin_probe H h probe span - probe\<bar> \<le> span - 1"
proof (induction H h probe span rule: bin_probe.induct)
  case (1 H h probe span)
  let ?s = "span div 2" and ?p = "if H probe < h then probe + span div 2 else probe - span div 2"
  have s: "?s \<le> span - 1"
    using "1.prems" by linarith
  show ?case
  proof (cases "H probe \<noteq> h \<and> 4 < ?s")
    case True
    then have "\<bar>bin_probe H h ?p ?s - ?p\<bar> \<le> ?s - 1"
      using "1.IH" by simp
    moreover have "bin_probe H h probe span = bin_probe H h ?p ?s"
      using True by (subst bin_probe.simps) (simp add: Let_def)
    moreover have "?s + ?s \<le> span"
      by linarith
    ultimately show ?thesis
      by (cases "H probe < h"; simp; linarith)
  next
    case False
    then show ?thesis
      using s "1.prems" by (subst bin_probe.simps) (auto simp: Let_def)
  qed
qed

lemma scan_back_run:
  assumes "0 \<le> p"
  shows "0 \<le> scan_back H h p \<and> scan_back H h p \<le> p \<and> (scan_back H h p = 0 \<or> H (scan_back H h p) \<le> h)"
  using assms
proof (induction H h p rule: scan_back.induct)
  case (1 H h p)
  then show ?case
    by (subst (1 2 3 4) scan_back.simps) (auto simp: not_less)
qed

lemma scan_forward_run:
  assumes "p \<le> count"
  shows "p \<le> scan_forward H h count p \<and> scan_forward H h count p \<le> count \<and>
    (scan_forward H h count p = count \<or> h \<le> H (scan_forward H h count p)) \<and>
    (\<forall>j. p \<le> j \<longrightarrow> j < scan_forward H h count p \<longrightarrow> H j < h)"
  using assms
proof (induction H h count p rule: scan_forward.induct)
  case (1 H h count p)
  show ?case
  proof (cases "p < count \<and> H p < h")
    case True
    then have "scan_forward H h count p = scan_forward H h count (p + 1)"
      by (subst scan_forward.simps) simp
    moreover have "j = p \<or> p + 1 \<le> j" if "p \<le> j" for j
      using that by linarith
    ultimately show ?thesis
      using "1.IH" True by fastforce
  next
    case False
    then have "scan_forward H h count p = p"
      by (subst scan_forward.simps) auto
    then show ?thesis
      using False "1.prems" by auto
  qed
qed

lemma before_first_run:
  assumes "-1 \<le> p"
  shows "-1 \<le> before_first H h p \<and> before_first H h p \<le> p \<and> (before_first H h p = -1 \<or> H (before_first H h p) \<noteq> h) \<and>
    (\<forall>j. before_first H h p < j \<longrightarrow> j \<le> p \<longrightarrow> H j = h)"
  using assms
proof (induction H h p rule: before_first.induct)
  case (1 H h p)
  show ?case
  proof (cases "0 \<le> p \<and> H p = h")
    case True
    then have e: "before_first H h p = before_first H h (p - 1)"
      by (subst before_first.simps) simp
    have "j \<le> p - 1 \<or> j = p" if "j \<le> p" for j
      using that by linarith
    then show ?thesis
      using "1.IH" True unfolding e by fastforce
  next
    case False
    then have "before_first H h p = p"
      by (subst before_first.simps) auto
    then show ?thesis
      using False "1.prems" by auto
  qed
qed

lemma search_equal_run:
  assumes "sorted_upto H count" "0 \<le> p" "p < count \<Longrightarrow> h \<le> H p"
  shows "search_equal H is_it h count p = first_match H is_it h p count"
  using assms
proof (induction H is_it h count p rule: search_equal.induct)
  case (1 H is_it h count p)
  show ?case
  proof (cases "p < count \<and> H p = h")
    case True
    then have "h \<le> H (p + 1)" if "p + 1 < count"
      using sorted_uptoD [OF "1.prems"(1), of p "p + 1"] "1.prems"(2) True that by simp
    then show ?thesis
      using "1.IH" "1.prems" True by (subst search_equal.simps) (auto simp: first_match_simps(2))
  next
    case False
    have "H j \<noteq> h" if "p \<le> j" "j < count" for j
    proof -
      have "h < H p" "H p \<le> H j"
        using sorted_uptoD [OF "1.prems"(1), of p j] False that "1.prems" by (auto simp: order_le_less)
      then show ?thesis
        by auto
    qed
    then show ?thesis
      using False by (subst search_equal.simps) (auto simp: first_match_none)
  qed
qed

lemma binary_search_run:
  assumes s: "sorted_upto H count" and c: "2 \<le> count"
  shows "binary_search H is_it h count = first_match H is_it h 0 count"
proof -
  define p where "p = bin_probe H h (count div 2) (count div 2)"
  define q where "q = scan_back H h p"
  define r where "r = scan_forward H h count q"
  have "\<bar>p - count div 2\<bar> \<le> count div 2 - 1"
    using c unfolding p_def by (intro bin_probe_range) simp
  then have p: "0 \<le> p" "p < count"
    by linarith+
  have q: "0 \<le> q" "q < count" "q = 0 \<or> H q \<le> h"
    using scan_back_run [OF p(1), of H h] p(2) by (auto simp: q_def)
  have r: "q \<le> r" "r \<le> count" "r = count \<or> h \<le> H r" "\<And>j. q \<le> j \<Longrightarrow> j < r \<Longrightarrow> H j < h"
    using scan_forward_run [of q count H h] q(2) by (auto simp: r_def)
  have low: "H j \<noteq> h" if "0 \<le> j" "j < r" "r = count \<or> H r \<noteq> h" for j
  proof (cases "q \<le> j")
    case True
    then show ?thesis
      using r(4) [of j] that by auto
  next
    case False
    then have "H j \<le> H q" "H q \<le> h"
      using sorted_uptoD [OF s, of j q] q that(1) by auto
    moreover have "H q < h"
    proof (cases "q = r")
      case True
      then have "H q \<noteq> h"
        using that(3) q(2) by blast
      then show ?thesis
        using calculation(2) by (rule le_neq_trans [rotated])
    next
      case False
      then show ?thesis
        using r(1) r(4) [of q] by linarith
    qed
    ultimately show ?thesis
      by (metis leD)
  qed
  show ?thesis
  proof (cases "r = count \<or> H r \<noteq> h")
    case True
    have "H j \<noteq> h" if "0 \<le> j" "j < count" for j
    proof (cases "j < r")
      case True
      then show ?thesis
        using low that \<open>r = count \<or> H r \<noteq> h\<close> by blast
    next
      case False
      then have "H r \<le> H j"
        using that q(1) r(1) by (intro sorted_uptoD [OF s]) simp_all
      moreover have "h < H r"
        using False that r(3) \<open>r = count \<or> H r \<noteq> h\<close> by (auto simp: order_le_less)
      ultimately have "h < H j"
        by (rule less_le_trans [rotated])
      then show ?thesis
        by auto
    qed
    then have "first_match H is_it h 0 count = None"
      by (intro first_match_none)
    then show ?thesis
      using True by (simp add: binary_search_def p_def [symmetric] q_def [symmetric] r_def [symmetric] Let_def)
  next
    case False
    then have hr: "r < count" "H r = h" "0 \<le> r"
      using r q by auto
    define b where "b = before_first H h r"
    have b: "-1 \<le> b" "b \<le> r" "b = -1 \<or> H b \<noteq> h" "\<And>j. b < j \<Longrightarrow> j \<le> r \<Longrightarrow> H j = h"
      using before_first_run [of r H h] hr(3) by (auto simp: b_def)
    have br: "b + 1 \<le> r"
      using b hr by (cases "b = r") auto
    have "first_match H is_it h 0 count = first_match H is_it h (b + 1) count"
    proof (rule first_match_skip)
      fix j
      assume j: "0 \<le> j" "j < b + 1"
      then have "H j \<le> H b" "H b \<le> H r" "H b \<noteq> h"
        using sorted_uptoD [OF s, of j b] sorted_uptoD [OF s, of b r] b(2,3) hr by auto
      then show "H j \<noteq> h"
        using hr(2) by auto
    next
      show "0 \<le> b + 1" "b + 1 \<le> count"
        using b(1) br hr(1) by linarith+
    qed
    moreover have "H (b + 1) = h"
      using b(4) [of "b + 1"] br by simp
    then have "search_equal H is_it h count (b + 1) = first_match H is_it h (b + 1) count"
      using b(1) by (intro search_equal_run [OF s]) simp_all
    ultimately show ?thesis
      using False by (simp add: binary_search_def p_def [symmetric] q_def [symmetric] r_def [symmetric] b_def [symmetric] Let_def)
  qed
qed

lemma leaf_search_run: "sorted_upto H count \<Longrightarrow> leaf_search H is_it h count = first_match H is_it h 0 count"
  by (simp add: leaf_search_def linear_search_run binary_search_run)

section \<open>A leaf\<close>

lemma length_mem_str [simp]: "length (mem_str m a n) = n"
  by (simp add: mem_str_def)

text \<open>A leaf in memory: sorted by the hash values of its names.\<close>

definition leaf_name :: "memory \<Rightarrow> u32 \<Rightarrow> int \<Rightarrow> string" where
  "leaf_name m leaf i = entry_name m leaf i (entry_namelen m leaf i)"

definition leaf_ok :: "memory \<Rightarrow> u32 \<Rightarrow> bool" where
  "leaf_ok m leaf \<longleftrightarrow> leaf_magic m leaf = XFS_DIR_LEAF_MAGIC \<and>
    sorted_upto (entry_hashval m leaf) (leaf_count m leaf) \<and>
    (\<forall>i. 0 \<le> i \<longrightarrow> i < leaf_count m leaf \<longrightarrow> entry_hashval m leaf i = xfs_dir_hashname (leaf_name m leaf i))"

definition leaf_entries :: "memory \<Rightarrow> u32 \<Rightarrow> (string \<times> u64) list" where
  "leaf_entries m leaf = map (\<lambda>i. (leaf_name m leaf i, entry_ino m leaf i)) [0..leaf_count m leaf - 1]"

lemma entry_is_name: "entry_is m leaf name i \<longleftrightarrow> leaf_name m leaf i = name"
  by (auto simp: entry_is_def leaf_name_def entry_name_def dest: arg_cong [of _ _ length])

lemma map_of_find: "map_of (map (\<lambda>i. (f i, g i)) xs) y = map_option g (List.find (\<lambda>i. f i = y) xs)"
  by (induction xs) auto

lemma find_cong_set: "(\<And>x. x \<in> set xs \<Longrightarrow> P x = Q x) \<Longrightarrow> List.find P xs = List.find Q xs"
  by (induction xs) auto

lemma leaf_lookup_run:
  assumes "leaf_ok m leaf"
  shows "dirv1_leaf_lookup_int m leaf name = map_of (leaf_entries m leaf) name"
proof -
  have "List.find (\<lambda>i. entry_hashval m leaf i = xfs_dir_hashname name \<and> entry_is m leaf name i) [0..leaf_count m leaf - 1] =
      List.find (\<lambda>i. leaf_name m leaf i = name) [0..leaf_count m leaf - 1]"
    using assms by (intro find_cong_set) (auto simp: leaf_ok_def entry_is_name)
  then show ?thesis
    using assms unfolding leaf_entries_def map_of_find
    by (simp add: dirv1_leaf_lookup_int_def leaf_ok_def leaf_search_run first_match_def)
qed

section \<open>Shortform directories\<close>

text \<open>The entries of the two versions, from \<open>sfe\<close> on.\<close>

fun sf_entries :: "memory \<Rightarrow> nat \<Rightarrow> u32 \<Rightarrow> (string \<times> u64) list" where
  "sf_entries m 0 sfe = []"
| "sf_entries m (Suc n) sfe =
    (mem_str m (sfe + 9) (sfe_namelen m sfe), ld64 m sfe) # sf_entries m n (XFS_DIR_SF_NEXTENTRY m sfe)"

fun sf2_entries :: "memory \<Rightarrow> u32 \<Rightarrow> nat \<Rightarrow> u32 \<Rightarrow> (string \<times> u64) list" where
  "sf2_entries m sf 0 sfe = []"
| "sf2_entries m sf (Suc n) sfe =
    (mem_str m (sfe2_name sfe) (sfe2_namelen m sfe), XFS_DIR2_SF_GET_INUMBER m sf (XFS_DIR2_SF_INUMBERP m sfe)) #
    sf2_entries m sf n (XFS_DIR2_SF_NEXTENTRY m sf sfe)"

lemma sf_search_run: "sf_search m name n sfe = map_of (sf_entries m n sfe) name"
  by (induction n arbitrary: sfe) auto

lemma sf2_search_run: "sf2_search m sf name n sfe = map_of (sf2_entries m sf n sfe) name"
  by (induction n arbitrary: sfe) auto

text \<open>A shortform directory as its entries, with the two that every directory has.\<close>

definition dirv1_sf_list :: "memory \<Rightarrow> xfs_inode \<Rightarrow> (string \<times> u64) list" where
  "dirv1_sf_list m dp = (''..'', ld64 m (if_u1 dp)) # (''.'', i_ino dp) # sf_entries m (sf_count m (if_u1 dp)) (if_u1 dp + 9)"

definition dirv2_sf_list :: "memory \<Rightarrow> xfs_inode \<Rightarrow> (string \<times> u64) list" where
  "dirv2_sf_list m dp = (let sf = if_u1 dp in
    (''..'', XFS_DIR2_SF_GET_INUMBER m sf (sf + 2)) # (''.'', i_ino dp) #
    sf2_entries m sf (sf2_count m sf) (XFS_DIR2_SF_FIRSTENTRY m sf))"

lemma dirv1_shortform_run: "if_flags dp AND XFS_IFINLINE \<noteq> 0 \<Longrightarrow> dirv1_shortform_lookup m dp name = map_of (dirv1_sf_list m dp) name"
  by (auto simp: dirv1_shortform_lookup_def dirv1_sf_list_def sf_search_run)

lemma dirv2_shortform_run: "if_flags dp AND XFS_IFINLINE \<noteq> 0 \<Longrightarrow> dirv2_sf_lookup m dp name = map_of (dirv2_sf_list m dp) name"
  by (auto simp: dirv2_sf_lookup_def dirv2_sf_list_def sf2_search_run Let_def)

section \<open>Data blocks\<close>

text \<open>The memory from \<open>ptr\<close> to \<open>endptr\<close> is tiled by free areas and entries.\<close>

inductive data_area :: "memory \<Rightarrow> u32 \<Rightarrow> u32 \<Rightarrow> (string \<times> u64) list \<Rightarrow> bool" for m endptr where
  data_end: "\<not> ptr < endptr \<Longrightarrow> data_area m endptr ptr []"
| data_free: "ptr < endptr \<Longrightarrow> data_freetag m ptr = XFS_DIR2_DATA_FREE_TAG \<Longrightarrow>
    data_area m endptr (ptr + data_length m ptr) es \<Longrightarrow> data_area m endptr ptr es"
| data_used: "ptr < endptr \<Longrightarrow> data_freetag m ptr \<noteq> XFS_DIR2_DATA_FREE_TAG \<Longrightarrow>
    data_area m endptr (ptr + XFS_DIR2_DATA_ENTSIZE (data_namelen m ptr)) es \<Longrightarrow>
    data_area m endptr ptr ((mem_str m (data_name ptr) (data_namelen m ptr), data_inumber m ptr) # es)"

lemma data_scan_run: "data_area m endptr ptr es \<Longrightarrow> data_scan m name ptr endptr = Some (map_of es name)"
  by (induction rule: data_area.induct) (auto simp: data_scan.simps [of m name])

text \<open>A free area of length 0 is looked at for ever.\<close>

lemma data_scan_ends:
  assumes "data_scan m name ptr endptr = Some r"
  shows "\<not> (ptr < endptr \<and> data_freetag m ptr = XFS_DIR2_DATA_FREE_TAG \<and> data_length m ptr = 0)"
  using assms
proof (rule data_scan.raw_induct [rotated])
  fix scan m name ptr endptr r
  assume "\<And>m name ptr endptr r. scan m name ptr endptr = Some r \<Longrightarrow>
      \<not> (ptr < endptr \<and> data_freetag m ptr = XFS_DIR2_DATA_FREE_TAG \<and> data_length m ptr = 0)"
    and "(if ptr < endptr then
       if data_freetag m ptr = XFS_DIR2_DATA_FREE_TAG then scan m name (ptr + data_length m ptr) endptr
       else if data_namelen m ptr = length name \<and> mem_str m (data_name ptr) (length name) = name
       then Some (Some (data_inumber m ptr))
       else scan m name (ptr + XFS_DIR2_DATA_ENTSIZE (data_namelen m ptr)) endptr
     else Some None) = Some r"
  then show "\<not> (ptr < endptr \<and> data_freetag m ptr = XFS_DIR2_DATA_FREE_TAG \<and> data_length m ptr = 0)"
    by (metis add.right_neutral)
qed

text \<open>A block of data as the code recognises it: a data block, or a single block with its leaf.\<close>

definition data_block :: "xfs_mount \<Rightarrow> memory \<Rightarrow> u32 \<Rightarrow> (string \<times> u64) list \<Rightarrow> bool" where
  "data_block mp m buf es \<longleftrightarrow>
    (ld32 m buf = XFS_DIR2_DATA_MAGIC \<and> data_area m (buf + m_dirblksize mp) (buf + 16) es) \<or>
    (ld32 m buf = XFS_DIR2_BLOCK_MAGIC \<and> data_area m (XFS_DIR2_BLOCK_LEAF_P m (XFS_DIR2_BLOCK_TAIL_P mp buf)) (buf + 16) es)"

lemma data_lookup_run: "data_block mp m buf es \<Longrightarrow> dirv2_data_lookup_int mp m buf name = Some (map_of es name)"
  by (auto simp: data_block_def dirv2_data_lookup_int_def data_scan_run XFS_DIR2_DATA_MAGIC_def XFS_DIR2_BLOCK_MAGIC_def)

section \<open>The walk\<close>

definition plain_name :: "string \<Rightarrow> bool" where
  "plain_name name \<longleftrightarrow> name \<noteq> [] \<and> NUL \<notin> set name \<and> CHR ''/'' \<notin> set name"

lemma path_part_run:
  assumes "NUL \<notin> set name" "CHR ''/'' \<notin> set name" "length name < n" "c = NUL \<or> c = CHR ''/''"
  shows "path_part n (name @ c # rest) = Some (name, c # rest)"
  using assms
proof (induction name arbitrary: n)
  case Nil
  then show ?case
    by (cases n) auto
next
  case (Cons a name)
  then show ?case
    by (cases n) auto
qed

lemma next_part_run:
  assumes "plain_name name" "length name < MAXNAMELEN" "d \<noteq> CHR ''/''"
  shows "xfs_next_part (name @ CHR ''/'' # d # rest) = Some (name, d # rest)"
  using assms path_part_run [of name MAXNAMELEN "CHR ''/''"] by (simp add: xfs_next_part_def plain_name_def)

lemma ifree_local:
  assumes "xdi_format (i_d (inode_at s ip)) = XFS_DINODE_FMT_LOCAL"
  shows "xfs_ifree ev ip s = s"
  using assms by (simp add: xfs_ifree_def XFS_DINODE_FMT_LOCAL_def XFS_DINODE_FMT_EXTENTS_def XFS_DINODE_FMT_BTREE_def Let_def)

text \<open>A shortform directory, of the version the superblock has, and its entries.\<close>

definition shortform_dir :: "u32 \<Rightarrow> (string \<times> u64) list \<Rightarrow> ('f, 'h) xfs_run \<Rightarrow> bool" where
  "shortform_dir ip es s \<longleftrightarrow> (let dp = inode_at s ip; mp = mount_at s (i_mount dp) in
    if_flags dp AND XFS_IFINLINE \<noteq> 0 \<and> xdi_format (i_d dp) = XFS_DINODE_FMT_LOCAL \<and>
    (if XFS_SB_VERSION_HASDIRV2 (m_sb mp) then es = dirv2_sf_list (ram s) dp
     else dir_is_shortform mp dp \<and> es = dirv1_sf_list (ram s) dp))"

lemma shortform_lookup_run:
  assumes "shortform_dir ip es s" "length name < MAXNAMELEN"
  shows "xfs_dir_lookup ev ip name s = Some (map_of es name, s)"
  using assms
  by (auto simp: shortform_dir_def xfs_dir_lookup_def dirv2_lookup_def dirv1_lookup_def dirv1_shortform_run dirv2_shortform_run
      Let_def split: if_splits)

text \<open>The first turn of the walk: what the result was does not matter.\<close>

lemma rd_head: "rd (c # sp) 0 = Some c"
  by (simp add: rd_def)

lemma xfs_walk_ret:
  assumes "c \<noteq> NUL"
  shows "xfs_walk ev mp ip (c # sp) r s = xfs_walk ev mp ip (c # sp) r' s"
  using assms by (simp add: xfs_walk.simps [of ev mp ip "c # sp"] rd_head)

lemma xfs_walk_missing:
  assumes d: "shortform_dir ip es s" "xdi_mode (i_d (inode_at s ip)) AND IFMT = IFDIR" "\<not> no_links (i_d (inode_at s ip))"
    and n: "plain_name name" "length name < MAXNAMELEN" "map_of es name = None" and c: "c \<noteq> CHR ''/''"
  shows "xfs_walk ev mp ip (name @ CHR ''/'' # c # rest) r s = xfs_walk ev mp ip (c # rest) False s"
proof -
  obtain a l where a: "name = a # l" "a \<noteq> NUL"
    using n(1) by (cases name) (auto simp: plain_name_def)
  have "xfs_ifree ev ip s = s"
    using d(1) by (intro ifree_local) (simp add: shortform_dir_def Let_def)
  then show ?thesis
    using d(2,3) n(3) next_part_run [OF n(1,2) c, of rest] shortform_lookup_run [OF d(1) n(2), of ev] a
    by (subst xfs_walk.simps) (simp add: rd_head)
qed

section \<open>Reading a directory block\<close>

lemma lbread_run:
  assumes "readable (xfs_disk ev) ((dev_Key (blk s) + bn) * 512) n" "n < 2 ^ 31" "512 dvd n" "len = of_nat n"
  shows "xfs_lbread ev bn buf len s = Some (True, s\<lparr>blk := (blk s)\<lparr>io_Count := of_nat n, io_Address := buf, io_StartBlock := bn\<rparr>,
    ram := with_disk (xfs_disk ev) ((dev_Key (blk s) + bn) * 512) n buf (ram s)\<rparr>)"
proof -
  have u: "unat (of_nat n :: u32) = n"
    using assms(2) by (intro unat_of_nat_32) simp
  have "unat (BTOBB (of_nat n)) = (n + 511) div 512"
    using assms(2) u by (simp add: BTOBB_def unat_drop_bit_32 unat_word_ariths)
  then have "unat (BBTOB (BTOBB (of_nat n))) = 512 * ((n + 511) div 512)"
    using assms(2) by (subst unat_BBTOB) simp_all
  then have "BBTOB (BTOBB (of_nat n)) = of_nat n"
    using assms(3) u by (simp add: word_unat_eq_iff dvd_div_mult_self mult.commute) (auto simp: dvd_def)
  then show ?thesis
    using assms(1,4) u
    by (simp add: xfs_lbread_def set_blk_def xfs_devread_run del: distrib_right_numeral)
qed

text \<open>The whole rest of the extent is read, however large the buffer.\<close>

lemma read_block_run:
  assumes mt: "mount_at s (fsb_mount s) = mt" "wf_mount mt" and es: "file_recs dp s = es" "wf_recs mt es"
    and fl: "if_flags (inode_at s dp) AND XFS_IFEXTENTS \<noteq> 0"
    and e: "List.find (\<lambda>e. in_rec e (unat (XFS_DIR2_DB_TO_DA mt db))) es = Some e"
    and n: "n = unat (br_startoff e) + unat (br_blockcount e) - unat (XFS_DIR2_DB_TO_DA mt db)"
    and d: "0 < sint (m_dirblkfsbs mt)" "unat (m_dirblkfsbs mt) \<le> n" and k: "blk_bytes mt * n < 2 ^ 31"
    and b: "block_at es (unat (XFS_DIR2_DB_TO_DA mt db)) = Some b"
    and r: "readable (xfs_disk ev) ((dev_Key (blk s) + XFS_FSB_TO_DADDR mt (of_nat b)) * 512) (blk_bytes mt * n)"
  shows "\<exists>eb. dirv2_read_block ev dp db buf s = Some (True, of_nat b, s\<lparr>blk := eb,
      ram := with_disk (xfs_disk ev) ((dev_Key (blk s) + XFS_FSB_TO_DADDR mt (of_nat b)) * 512) (blk_bytes mt * n) buf (ram s)\<rparr>) \<and>
    fsb_FsPtr eb = fsb_FsPtr (blk s)"
proof -
  let ?ip = "inode_at s dp" and ?off = "XFS_DIR2_DB_TO_DA mt db"
  note B = blk_bytes_bounds [OF mt(2)]
  have "es = recs (ram s) (if_u1 ?ip) (unat (if_bytes ?ip) div 16)"
    using es(1) by (simp add: file_recs_def)
  then obtain len where g: "xfs_get_blockno ?ip ?off (ram s) = (of_nat b, Some (of_nat len))" and l: "0 < len" "len < 2 ^ 21"
    "b + len < 2 ^ 32" "len = unat (br_blockcount e) - (unat ?off - unat (br_startoff e))"
    using get_blockno_run [OF _ es(2) fl b] e by metis
  have "unat (br_startoff e) \<le> unat ?off"
    using e by (auto simp: find_Some_iff in_rec_def)
  then have len: "len = n"
    using l(1,4) n by simp
  have nb: "of_nat b \<noteq> NULLFSBLOCK"
    using l(1,3) of_nat_neq_minus_one [of b] by (simp add: NULLFSBLOCK_def)
  have un: "unat (of_nat n :: u32) = n" "sint (of_nat n :: u32) = int n"
    using l(2) len by (simp_all add: unat_of_nat_32 sint_of_nat_32)
  have "unat (XFS_FSB_TO_B mt (of_nat n)) = blk_bytes mt * n"
    using k un(1) l(2) len unfolding XFS_FSB_TO_B_def blk_bytes_def
    by (subst unat_push_bit_64) (simp_all add: scast_small mult.commute)
  then have bts: "ucast (XFS_FSB_TO_B mt (of_nat n)) = (of_nat (blk_bytes mt * n) :: u32)"
    using k by (simp add: word_unat_eq_iff unat_ucast32 unat_of_nat_32 del: of_nat_mult)
  have "512 dvd blk_bytes mt"
    using mt(2) le_imp_power_dvd [of 9 "sb_blocklog (m_sb mt)" "2 :: nat"] by (simp add: wf_mount_def blk_bytes_def)
  then have "512 dvd blk_bytes mt * n"
    by simp
  note rd = lbread_run [OF r k this refl, of buf]
  have "sint (m_dirblkfsbs mt) \<le> sint (of_nat n :: u32)"
    using d sint_small [of "m_dirblkfsbs mt"] unfolding un(2) sint_pos_iff by (metis of_nat_le_iff)
  then have "dirv2_read_extents ev dp (?off + of_nat n) (of_nat n) (buf + of_nat (blk_bytes mt * n)) f t = Some (True, f, t)"
    if "mount_at t (fsb_mount t) = mt" for f t
    using that by (subst dirv2_read_extents.simps) simp
  note more = this
  let ?eb = "(blk s)\<lparr>io_Count := of_nat (blk_bytes mt * n), io_Address := buf,
    io_StartBlock := XFS_FSB_TO_DADDR mt (of_nat b)\<rparr>"
  let ?t = "s\<lparr>blk := ?eb, ram := with_disk (xfs_disk ev) ((dev_Key (blk s) + XFS_FSB_TO_DADDR mt (of_nat b)) * 512)
    (blk_bytes mt * n) buf (ram s)\<rparr>"
  have "mount_at ?t (fsb_mount ?t) = mt"
    using mt(1) by (simp add: mount_at_def fsb_mount_def)
  from more [OF this, of "of_nat b"] have "dirv2_read_block ev dp db buf s = Some (True, of_nat b, ?t)"
    unfolding dirv2_read_block_def mt(1)
    using d(1) nb by (subst dirv2_read_extents.simps) (simp add: mt(1) g len rd bts Let_def del: distrib_right_numeral of_nat_mult)
  then show ?thesis
    by (intro exI [of _ ?eb]) simp
qed



section \<open>Properties\<close>

text \<open>C7: a lookup in a directory of XFS is a lookup in the list of its entries: in a shortform
directory of either version, in a leaf sorted by hash values (linear or binary search, with names
that share a hash value), and in a data block.\<close>

theorem xfs_lookups_refine:
  assumes "length name < MAXNAMELEN" "shortform_dir ip es s" "leaf_ok (ram s) leaf" "data_block mp (ram s) buf fs"
  shows "xfs_dir_lookup ev ip name s = Some (map_of es name, s) \<and>
    dirv1_leaf_lookup_int (ram s) leaf name = map_of (leaf_entries (ram s) leaf) name \<and>
    dirv2_data_lookup_int mp (ram s) buf name = Some (map_of fs name)"
  using shortform_lookup_run [OF assms(2,1)] leaf_lookup_run [OF assms(3)] data_lookup_run [OF assms(4)] by simp

text \<open>C30: a free area of length 0 in a data block of a directory is looked at for ever: the lookup does
not return.\<close>

theorem zero_free_area_hangs:
  assumes "ld32 m buf = XFS_DIR2_DATA_MAGIC" "buf + 16 < buf + m_dirblksize mp"
    and "data_freetag m (buf + 16) = XFS_DIR2_DATA_FREE_TAG" "data_length m (buf + 16) = 0"
  shows "dirv2_data_lookup_int mp m buf name = None"
  using assms data_scan_ends [of m name "buf + 16" "buf + m_dirblksize mp"]
  by (cases "data_scan m name (buf + 16) (buf + m_dirblksize mp)") (auto simp: dirv2_data_lookup_int_def)

text \<open>C31: the buffer for a block of a directory of version 2 has \<open>m_dirblksize\<close> bytes, but the extent that
holds the block is read to its end: where it goes on behind the block, the rest is stored behind the
buffer.\<close>

theorem dirv2_read_overruns:
  assumes "mount_at s (fsb_mount s) = mt" "wf_mount mt" "file_recs dp s = es" "wf_recs mt es"
    and "if_flags (inode_at s dp) AND XFS_IFEXTENTS \<noteq> 0"
    and "List.find (\<lambda>e. in_rec e (unat (XFS_DIR2_DB_TO_DA mt db))) es = Some e"
    and "n = unat (br_startoff e) + unat (br_blockcount e) - unat (XFS_DIR2_DB_TO_DA mt db)"
    and "0 < sint (m_dirblkfsbs mt)" "unat (m_dirblkfsbs mt) < n" "blk_bytes mt * n < 2 ^ 31"
    and "unat (m_dirblksize mt) = blk_bytes mt * unat (m_dirblkfsbs mt)"
    and "block_at es (unat (XFS_DIR2_DB_TO_DA mt db)) = Some b"
    and "readable (xfs_disk ev) ((dev_Key (blk s) + XFS_FSB_TO_DADDR mt (of_nat b)) * 512) (blk_bytes mt * n)"
  shows "unat (m_dirblksize mt) < blk_bytes mt * n \<and> (\<exists>s'. dirv2_read_block ev dp db buf s = Some (True, of_nat b, s') \<and>
    (\<forall>j < blk_bytes mt * n. Some (ram s' (buf + of_nat j)) =
       disk_byte (xfs_disk ev) ((dev_Key (blk s) + XFS_FSB_TO_DADDR mt (of_nat b)) * 512 + of_nat j)))"
proof -
  let ?off = "(dev_Key (blk s) + XFS_FSB_TO_DADDR mt (of_nat b)) * 512"
  let ?m = "with_disk (xfs_disk ev) ?off (blk_bytes mt * n) buf (ram s)"
  have "unat (m_dirblkfsbs mt) \<le> n"
    using assms(9) by simp
  from read_block_run [OF assms(1-8) this assms(10,12,13)] obtain eb where
    "dirv2_read_block ev dp db buf s = Some (True, of_nat b, s\<lparr>blk := eb, ram := ?m\<rparr>)"
    by blast
  moreover have "Some (?m (buf + of_nat j)) = disk_byte (xfs_disk ev) (?off + of_nat j)" if "j < blk_bytes mt * n" for j
  proof -
    have "?m (buf + of_nat j) = the (disk_byte (xfs_disk ev) (?off + of_nat j))"
      using that assms(10) by (intro with_disk_inside) simp_all
    then show ?thesis
      using assms(13) that unfolding readable_def by (metis option.collapse)
  qed
  moreover have "unat (m_dirblksize mt) < blk_bytes mt * n"
    using assms(9) blk_bytes_bounds(1) [OF assms(2)] unfolding assms(11) by simp
  ultimately show ?thesis
    by (intro conjI exI [of _ "s\<lparr>blk := eb, ram := ?m\<rparr>"]) simp_all
qed

lemma mount_at_set_blk: "mount_at (set_blk f s) p = mount_at s p"
  by (simp add: mount_at_def set_blk_def)

text \<open>C29: a directory that does not exist is skipped.  The loop of \<open>_xfs_lookup_name\<close> does not look at the
result of a lookup until the path is at its end: where the root directory has no \<open>name\<close>, the path
\<open>name/rest\<close> opens what the path \<open>rest\<close> opens.\<close>

theorem missing_directory_ignored:
  assumes "sb_rootino (m_sb (mount_at s (fsb_mount s))) \<noteq> -1"
    and "xfs_iread ev (fsb_mount s) (sb_rootino (m_sb (mount_at s (fsb_mount s)))) (fsb_inode s)
      (set_blk (\<lambda>io. io\<lparr>io_Offset_hi := 0, io_Offset_lo := 0\<rparr>) s) = Some (True, s0)"
    and "shortform_dir (fsb_inode s) es s0" "xdi_mode (i_d (inode_at s0 (fsb_inode s))) AND IFMT = IFDIR"
    and "\<not> no_links (i_d (inode_at s0 (fsb_inode s)))"
    and "plain_name name" "hd name \<notin> {CHR '' '', CHR 0x09}" "length name < MAXNAMELEN" "map_of es name = None"
    and "c \<notin> {NUL, CHR ''/'', CHR '' '', CHR 0x09}"
  shows "xfs_lookup_name ev (name @ CHR ''/'' # c # rest) s = xfs_lookup_name ev (c # rest) s"
proof -
  let ?ip = "fsb_inode s"
  obtain a l where a: "name = a # l" "a \<notin> {NUL, CHR ''/'', CHR '' '', CHR 0x09}"
    using assms(6,7) by (cases name) (auto simp: plain_name_def)
  have "xfs_walk ev (fsb_mount s) ?ip (name @ CHR ''/'' # c # rest) True s0 = xfs_walk ev (fsb_mount s) ?ip (c # rest) False s0"
    using assms(10) by (intro xfs_walk_missing [OF assms(3-6,8,9)]) simp
  also have "\<dots> = xfs_walk ev (fsb_mount s) ?ip (c # rest) True s0"
    using assms(10) by (intro xfs_walk_ret) simp
  finally show ?thesis
    using a assms(1,2,10) by (simp add: xfs_lookup_name_def mount_at_set_blk Let_def)
qed

section \<open>A directory in each form\<close>

text \<open>At 0x3100 a shortform directory, at 0x3200 a leaf, at 0x3300 a data block of 64 bytes; each has one
entry, \<open>f\<close>.\<close>

definition dirs_mem :: memory where
  "dirs_mem = (\<lambda>_. 0)(0x3107 := 128, 0x3108 := 1, 0x3110 := 131, 0x3111 := 1, 0x3112 := 102,
     0x3208 := 0xfe, 0x3209 := 0xeb, 0x320D := 1, 0x3223 := 102, 0x3225 := 64, 0x3226 := 1, 0x3247 := 132, 0x3248 := 102,
     0x3300 := 0x58, 0x3301 := 0x44, 0x3302 := 0x32, 0x3303 := 0x44, 0x3317 := 133, 0x3318 := 1, 0x3319 := 102,
     0x3320 := 0xff, 0x3321 := 0xff, 0x3323 := 32)"

definition sf_inode :: xfs_inode where
  "sf_inode = xfs_sample_inode\<lparr>i_ino := 128, i_d := (i_d xfs_sample_inode)\<lparr>xdi_mode := 0x41ED,
     xdi_format := XFS_DINODE_FMT_LOCAL, xdi_size := 19\<rparr>, if_bytes := 19, if_flags := XFS_IFINLINE, if_u1 := 0x3100\<rparr>"

definition dirs_run :: "(unit, unit) xfs_run" where
  "dirs_run = (xfs_run_of (xfs_sample_io 0))\<lparr>ram := dirs_mem,
     xg := (fs_state (xfs_sample_io 0))\<lparr>inodes := (\<lambda>_. sf_inode)\<rparr>\<rparr>"

lemma dirs_run_simps: "ram dirs_run = dirs_mem" "inode_at dirs_run ip = sf_inode" "mount_at dirs_run mp = xfs_sample_mount"
  by (simp_all add: dirs_run_def inode_at_def mount_at_def xfs_sample_io_def)

lemma sf_list: "dirv1_sf_list dirs_mem sf_inode = [(''..'', 128), (''.'', 128), (''f'', 131)]"
  by code_simp

lemma dirs_shortform: "shortform_dir ip [(''..'', 128), (''.'', 128), (''f'', 131)] dirs_run"
  unfolding shortform_dir_def Let_def dirs_run_simps sf_list
  by (simp add: sf_inode_def xfs_sample_mount_def xfs_sample_inode_def dir_is_shortform_def XFS_CFORK_DSIZE_def
      XFS_IFINLINE_def XFS_SB_VERSION_HASDIRV2_def XFS_SB_VERSION_NUM_def XFS_SB_VERSION_NUMBITS_def)

lemma dirs_leaf: "leaf_ok dirs_mem 0x3200" "leaf_entries dirs_mem 0x3200 = [(''f'', 132)]"
proof -
  have f: "leaf_magic dirs_mem 0x3200 = XFS_DIR_LEAF_MAGIC" "leaf_count dirs_mem 0x3200 = 1"
    "entry_hashval dirs_mem 0x3200 0 = 102" "leaf_name dirs_mem 0x3200 0 = ''f''" "entry_ino dirs_mem 0x3200 0 = 132"
    "xfs_dir_hashname ''f'' = 102"
    by code_simp+
  have z: "i = 0" if "0 \<le> i" "i < 1" for i :: int
    using that by simp
  have "sorted_upto H 1" for H
    unfolding sorted_upto_def
  proof (intro allI impI)
    fix i j :: int
    assume "0 \<le> i" "i \<le> j" "j < 1"
    then have "i = 0" "j = 0"
      by simp_all
    then show "H i \<le> H j"
      by simp
  qed
  moreover have "entry_hashval dirs_mem 0x3200 i = xfs_dir_hashname (leaf_name dirs_mem 0x3200 i)" if "0 \<le> i" "i < 1" for i
    using z [OF that] f by simp
  ultimately show "leaf_ok dirs_mem 0x3200"
    using f(1,2) by (simp add: leaf_ok_def)
  show "leaf_entries dirs_mem 0x3200 = [(''f'', 132)]"
    using f by (simp add: leaf_entries_def)
qed

lemma dirs_data: "data_block (xfs_sample_mount\<lparr>m_dirblksize := 64\<rparr>) dirs_mem 0x3300 [(''f'', 133)]"
proof -
  have c: "char_of (102 :: nat) = CHR ''f''"
    by code_simp
  have f: "ld32 dirs_mem 0x3300 = XFS_DIR2_DATA_MAGIC" "data_freetag dirs_mem 0x3310 \<noteq> XFS_DIR2_DATA_FREE_TAG"
    "data_namelen dirs_mem 0x3310 = 1" "mem_str dirs_mem (data_name 0x3310) 1 = ''f''" "data_inumber dirs_mem 0x3310 = 133"
    "data_freetag dirs_mem 0x3320 = XFS_DIR2_DATA_FREE_TAG" "data_length dirs_mem 0x3320 = 32"
    "XFS_DIR2_DATA_ENTSIZE 1 = 16"
    by (simp_all add: dirs_mem_def ld32_def ld16_def ld64_def data_freetag_def data_namelen_def data_name_def data_inumber_def
        data_length_def mem_str_def c XFS_DIR2_DATA_MAGIC_def XFS_DIR2_DATA_FREE_TAG_def XFS_DIR2_DATA_ENTSIZE_def)
  have "data_area dirs_mem 0x3340 0x3340 []"
    by (rule data_end) simp
  then have "data_area dirs_mem 0x3340 0x3320 []"
    using data_free [of "0x3320" "0x3340" dirs_mem "[]"] f by simp
  then have "data_area dirs_mem 0x3340 0x3310 [(''f'', 133)]"
    using data_used [of "0x3310" "0x3340" dirs_mem "[]"] f by simp
  then show ?thesis
    using f(1) by (simp add: data_block_def)
qed

lemma xfs_lookups_refine_witness:
  "xfs_dir_lookup xfs_sample_env 0 ''f'' dirs_run = Some (Some 131, dirs_run) \<and>
    dirv1_leaf_lookup_int dirs_mem 0x3200 ''f'' = Some 132 \<and>
    dirv2_data_lookup_int (xfs_sample_mount\<lparr>m_dirblksize := 64\<rparr>) dirs_mem 0x3300 ''f'' = Some (Some 133)"
  using xfs_lookups_refine [of "''f''" 0 _ dirs_run "0x3200" "xfs_sample_mount\<lparr>m_dirblksize := 64\<rparr>" "0x3300" _ xfs_sample_env,
      OF _ dirs_shortform] dirs_leaf dirs_data
  by (simp add: MAXNAMELEN_def dirs_run_simps)

lemma zero_free_area_hangs_witness:
  "dirv2_data_lookup_int (xfs_sample_mount\<lparr>m_dirblksize := 64\<rparr>)
    (dirs_mem(0x3310 := 0xff, 0x3311 := 0xff)) 0x3300 ''f'' = None"
proof -
  have "ld32 (dirs_mem(0x3310 := 0xff, 0x3311 := 0xff)) 0x3300 = XFS_DIR2_DATA_MAGIC"
    "data_freetag (dirs_mem(0x3310 := 0xff, 0x3311 := 0xff)) (0x3300 + 16) = XFS_DIR2_DATA_FREE_TAG"
    "data_length (dirs_mem(0x3310 := 0xff, 0x3311 := 0xff)) (0x3300 + 16) = 0"
    by code_simp+
  then show ?thesis
    by (intro zero_free_area_hangs) simp_all
qed

text \<open>Block 0 of the sample file is in an extent of two blocks: 8192 bytes go to a buffer of 4096.\<close>

lemma dirv2_read_overruns_witness:
  "\<exists>s'. dirv2_read_block xfs_sample_env 0x5000 0 0x9000 (xfs_run_of (xfs_sample_io 0)) = Some (True, 100, s') \<and>
    (\<forall>j < 8192. Some (ram s' (0x9000 + of_nat j)) = disk_byte efs_sample_disk
      ((dev_Key (s_xfs_eiob (xfs_sample_io 0)) + XFS_FSB_TO_DADDR xfs_sample_mount 100) * 512 + of_nat j))"
proof -
  let ?s = "xfs_run_of (xfs_sample_io 0)"
  have f: "mount_at ?s (fsb_mount ?s) = xfs_sample_mount" "file_recs 0x5000 ?s = xfs_sample_recs"
    "wf_recs xfs_sample_mount xfs_sample_recs" "if_flags (inode_at ?s 0x5000) AND XFS_IFEXTENTS \<noteq> 0"
    using xfs_sample_fd [of 0] by (simp_all add: xfs_fd_def xfs_file_def xfs_run_of_def fsb_inode_def xfs_sample_io_def)
  have e: "List.find (\<lambda>e. in_rec e (unat (XFS_DIR2_DB_TO_DA xfs_sample_mount 0))) xfs_sample_recs = Some (hd xfs_sample_recs)"
    "block_at xfs_sample_recs (unat (XFS_DIR2_DB_TO_DA xfs_sample_mount 0)) = Some 100"
    by (simp_all add: XFS_DIR2_DB_TO_DA_def xfs_sample_block) (simp add: xfs_sample_recs_def in_rec_def)
  have n: "2 = unat (br_startoff (hd xfs_sample_recs)) + unat (br_blockcount (hd xfs_sample_recs)) -
      unat (XFS_DIR2_DB_TO_DA xfs_sample_mount 0)"
    by (simp add: XFS_DIR2_DB_TO_DA_def xfs_sample_recs_def)
  have d: "0 < sint (m_dirblkfsbs xfs_sample_mount)" "unat (m_dirblkfsbs xfs_sample_mount) < 2"
    "blk_bytes xfs_sample_mount * 2 < 2 ^ 31"
    "unat (m_dirblksize xfs_sample_mount) = blk_bytes xfs_sample_mount * unat (m_dirblkfsbs xfs_sample_mount)"
    unfolding xfs_sample_bytes by (simp_all add: xfs_sample_mount_def)
  have r: "readable (xfs_disk xfs_sample_env) a k" for a k
    using efs_sample_byte by (simp add: readable_def xfs_sample_env_def)
  show ?thesis
    using dirv2_read_overruns [OF f(1) xfs_sample_bytes(3) f(2-4) e(1) n d e(2) r]
    by (simp add: xfs_sample_bytes xfs_sample_env_def xfs_run_of_def del: distrib_right_numeral)
qed

section \<open>A root directory on a disk\<close>

definition root_sector :: "u8 list" where
  "root_sector = [0x49, 0x4e, 0x41, 0xED, 1, 1, 0, 2] @ replicate 55 0 @ [19] @ replicate 36 0 @
     [0, 0, 0, 0, 0, 0, 0, 128, 1, 0, 0, 0, 0, 0, 0, 0, 131, 1, 102] @ replicate 393 0"

definition root_disk :: bootdisk where
  "root_disk k = ([BD_STATUS_READY], if k = 64 then root_sector else replicate 512 0)"

definition root_env :: "unit xfs_env" where
  "root_env = xfs_sample_env\<lparr>xfs_disk := root_disk\<rparr>"

definition root_run :: "(unit, unit) xfs_run" where
  "root_run = (xfs_run_of (xfs_sample_io 0))\<lparr>ram := (\<lambda>_. 0)\<rparr>"

definition root_mem :: memory where
  "root_mem = with_disk root_disk 32768 4096 0x7000 (\<lambda>_. 0)"

definition root_inode :: xfs_inode where
  "root_inode = xfs_sample_inode\<lparr>i_ino := 128, i_d := \<lparr>xdi_magic = XFS_DINODE_MAGIC, xdi_mode = 0x41ED,
     xdi_version = 1, xdi_format = XFS_DINODE_FMT_LOCAL, xdi_onlink = 2, xdi_nlink = 0, xdi_size = 19, xdi_nextents = 0,
     xdi_forkoff = 0\<rparr>, if_bytes := 19, if_flags := XFS_IFINLINE, if_u1 := 0x5060\<rparr>"

lemma root_core: "dinode_core_at root_mem 0x7000 = i_d root_inode"
  unfolding root_inode_def by code_simp

lemma root_imap: "xfs_imap xfs_sample_mount 128 = \<lparr>im_blkno = 64, im_len = 8, im_agblkno = 8, im_ioffset = 0, im_boffset = 0\<rparr>"
  by code_simp

lemma root_bytes:
  shows "root_mem 0x7064 = 0" "root_mem 0x7065 = 0" "root_mem 0x7066 = 0" "root_mem 0x7067 = 0" "root_mem 0x7068 = 0"
    "root_mem 0x7069 = 0" "root_mem 0x706A = 0" "root_mem 0x706B = 128" "root_mem 0x706C = 1"
    "root_mem 0x706D = 0" "root_mem 0x706E = 0" "root_mem 0x706F = 0" "root_mem 0x7070 = 0" "root_mem 0x7071 = 0"
    "root_mem 0x7072 = 0" "root_mem 0x7073 = 0" "root_mem 0x7074 = 131" "root_mem 0x7075 = 1"
    "root_mem 0x7076 = 102"
  by code_simp+

lemma root_list: "dirv1_sf_list (bcopy 0x7064 0x5060 19 root_mem) root_inode = [(''..'', 128), (''.'', 128), (''f'', 131)]"
proof -
  have c: "char_of (102 :: nat) = CHR ''f''"
    by code_simp
  show ?thesis
    by (simp add: root_bytes dirv1_sf_list_def root_inode_def xfs_sample_inode_def sf_count_def sfe_namelen_def bcopy_def ld64_def
        ld32_def mem_str_def c)
qed

definition root_opened :: "(unit, unit) xfs_run" where
  "root_opened = root_run\<lparr>blk := (blk root_run)\<lparr>io_StartBlock := 64, io_Address := 0x7000, io_Count := 4096\<rparr>,
     ram := bcopy 0x7064 0x5060 19 root_mem, xg := (xg root_run)\<lparr>inodes := (\<lambda>_. xfs_sample_inode)(0x5000 := root_inode)\<rparr>\<rparr>"

lemma root_run_simps: "fsb_mount root_run = 0x4000" "fsb_inode root_run = 0x5000" "mount_at root_run p = xfs_sample_mount"
  "inode_at root_run p = xfs_sample_inode" "dev_Key (blk root_run) = 0" "ram root_run = (\<lambda>_. 0)"
  "io_Offset_lo (blk root_run) = 0" "io_Offset_hi (blk root_run) = 0" "xheap (xg root_run) = ()"
  "inodes (xg root_run) = (\<lambda>_. xfs_sample_inode)"
  by (simp_all add: root_run_def xfs_run_of_def xfs_sample_io_def fsb_mount_def fsb_inode_def mount_at_def inode_at_def sample_io_def)

lemma root_readable: "readable root_disk a n"
  by (simp add: readable_def disk_byte_def bd_read_sector_def root_disk_def root_sector_def BD_STATUS_READY_def BD_STATUS_ERROR_def)

lemma root_lbread: "xfs_lbread root_env 64 0x7000 4096 root_run = Some (True, root_run\<lparr>blk := (blk root_run)\<lparr>io_Count := 4096,
    io_Address := 0x7000, io_StartBlock := 64\<rparr>, ram := root_mem\<rparr>)"
  using lbread_run [of root_env root_run 64 4096 4096 "0x7000"] root_readable
  by (simp add: root_run_simps root_mem_def) (simp add: root_env_def)

lemma set_inode_simps [simp]:
  "inode_at (set_inode ip f s) ip = f (inode_at s ip)" "ram (set_inode ip f s) = ram s" "blk (set_inode ip f s) = blk s"
  "inode_at (set_ram g s) ip = inode_at s ip" "ram (set_ram g s) = g (ram s)"
  "set_inode ip f (set_inode ip h s) = set_inode ip (\<lambda>i. f (h i)) s"
  "set_inode ip f (set_ram g s) = set_ram g (set_inode ip f s)"
  by (simp_all add: set_inode_def set_xg_def inode_at_def set_ram_def)

text \<open>Inline data of at most 32 bytes goes to the in-core inode itself.\<close>

lemma iformat_inline:
  assumes "mode_data (xdi_mode (i_d (inode_at s ip)))" "xdi_format (dinode_core_at (ram s) dip) = XFS_DINODE_FMT_LOCAL"
    and "sz = (ucast (xdi_size (i_d (inode_at s ip))) :: u32)" "sz \<noteq> 0" "sz \<le> XFS_INLINE_DATA" "if_u2 ip \<noteq> 0"
  shows "xfs_iformat ev mt ip dip s = Some (set_ram (bcopy (di_u dip) (if_u2 ip) sz)
    (set_inode ip (\<lambda>i. i\<lparr>if_u1 := if_u2 ip, if_bytes := sz, if_real_bytes := 0,
       if_flags := if_flags i AND NOT XFS_IFEXTENTS OR XFS_IFINLINE\<rparr>) s))"
proof -
  have "\<not> mode_special (xdi_mode (i_d (inode_at s ip)))"
    using assms(1) by (auto simp: mode_data_def mode_special_def)
  then show ?thesis
    using assms by (simp add: xfs_iformat_def iformat_local_def Let_def)
qed

lemma root_iread: "xfs_iread root_env 0x4000 128 0x5000 root_run = Some (True, root_opened)"
proof -
  have a: "xalloc (xdmabuf_malloc_of root_env) n s = (0x7000, s)" "xrelease (xdmabuf_free_of root_env) p s = s" for n p and s :: "(unit, unit) xfs_run"
    by (simp_all add: xalloc_def xrelease_def root_env_def xfs_sample_env_def set_xg_def)
  have b: "BBTOB 8 = 4096" "ucast (0 :: u16) = (0 :: u32)"
    by (simp_all add: BBTOB_def push_bit_eq_mult)
  have m: "xdi_magic (i_d root_inode) = XFS_DINODE_MAGIC" "xdi_format (i_d root_inode) = XFS_DINODE_FMT_LOCAL"
    "mode_data (xdi_mode (i_d root_inode))" "xdi_size (i_d root_inode) = 19" "XFS_DINODE_FMT_LOCAL \<noteq> XFS_DINODE_FMT_BTREE"
    by (simp_all add: root_inode_def mode_data_def IFMT_def XFS_DINODE_FMT_LOCAL_def XFS_DINODE_FMT_BTREE_def)
  let ?s = "root_run\<lparr>blk := (blk root_run)\<lparr>io_Count := 4096, io_Address := 0x7000, io_StartBlock := 64\<rparr>, ram := root_mem\<rparr>"
  let ?s1 = "set_inode 0x5000 (i_d_update (\<lambda>_. i_d root_inode)) ?s"
  have "xfs_iformat root_env xfs_sample_mount 0x5000 0x7000 ?s1 =
      Some (set_ram (bcopy 0x7064 0x5060 19) (set_inode 0x5000 (\<lambda>i. i\<lparr>if_u1 := 0x5060, if_bytes := 19, if_real_bytes := 0,
       if_flags := if_flags i AND NOT XFS_IFEXTENTS OR XFS_IFINLINE\<rparr>) ?s1))"
    using iformat_inline [of ?s1 "0x5000" "0x7000" 19 root_env xfs_sample_mount] m
    by (simp add: root_core if_u2_def di_u_def XFS_INLINE_DATA_def)
  then show ?thesis
    unfolding xfs_iread_def root_run_simps root_imap Let_def xfs_imap_t.simps a prod.case b root_lbread
    using m by (simp add: root_core a) (simp add: root_opened_def set_inode_def set_xg_def set_ram_def root_run_simps
        inode_at_def root_inode_def xfs_sample_inode_def XFS_IFEXTENTS_def XFS_IFINLINE_def)
qed

lemma missing_directory_ignored_witness:
  "xfs_lookup_name root_env (cstr ''missing/f'') root_run = xfs_lookup_name root_env (cstr ''f'') root_run"
proof -
  have z: "set_blk (\<lambda>io. io\<lparr>io_Offset_hi := 0, io_Offset_lo := 0\<rparr>) root_run = root_run"
    by (simp add: set_blk_def root_run_def xfs_run_of_def xfs_sample_io_def sample_io_def)
  have i: "sb_rootino (m_sb xfs_sample_mount) = 128"
    by (simp add: xfs_sample_mount_def)
  have o: "inode_at root_opened 0x5000 = root_inode" "mount_at root_opened p = xfs_sample_mount"
    "ram root_opened = bcopy 0x7064 0x5060 19 root_mem" for p
    by (simp_all add: root_opened_def inode_at_def mount_at_def root_run_def xfs_run_of_def xfs_sample_io_def)
  have sf: "shortform_dir (fsb_inode root_run) [(''..'', 128), (''.'', 128), (''f'', 131)] root_opened"
    unfolding shortform_dir_def Let_def root_run_simps o root_list
    by (simp add: root_inode_def xfs_sample_mount_def xfs_sample_inode_def dir_is_shortform_def XFS_CFORK_DSIZE_def
      XFS_IFINLINE_def XFS_SB_VERSION_HASDIRV2_def XFS_SB_VERSION_NUM_def XFS_SB_VERSION_NUMBITS_def)
  have "xfs_lookup_name root_env (''missing'' @ CHR ''/'' # CHR ''f'' # [NUL]) root_run =
      xfs_lookup_name root_env (CHR ''f'' # [NUL]) root_run"
    by (rule missing_directory_ignored [OF _ _ sf])
      (simp_all add: i z root_run_simps root_iread o root_inode_def IFMT_def IFDIR_def no_links_def plain_name_def MAXNAMELEN_def)
  then show ?thesis
    by (simp add: cstr_def)
qed

end
