(* ===== verification/Loader.thy ===== *)
theory Loader
imports Bootio
begin

text \<open>The program loader of the firmware: \<open>src/fw/pv_stubs.c\<close>, from the ECOFF and ELF
structures to \<open>Execute\<close>, and the instruction encoders its patches use.

\<open>load_program\<close> reaches its file through \<open>Read\<close> and \<open>Seek\<close> only, here the parameters
\<open>fread\<close> and \<open>fseek\<close>; \<open>fmem\<close> is the memory in the state they work on and \<open>fset\<close> sets it.
The fields of the structures are read from memory each time, as the code does.  Addresses
are the ones the code forms: that the unmapped segments are windows on one memory is left
out.  \<open>Execute\<close> is modelled up to the patches it applies to the kernel before the jump.\<close>

unbundle bit_operations_syntax

section \<open>Definitions\<close>

subsection \<open>File formats\<close>

definition ECOFF_MAGIC_MIPSEB2 :: u32 where "ECOFF_MAGIC_MIPSEB2 = 0x0162"
definition ECOFF_MAGIC_MIPSEB3 :: u32 where "ECOFF_MAGIC_MIPSEB3 = 0x0163"
definition ECOFF_MAGIC_MIPSEL :: u32 where "ECOFF_MAGIC_MIPSEL = 0x0160"

definition f_magic :: "memory \<Rightarrow> u32 \<Rightarrow> u32" where "f_magic m h = ld16 m h"
definition f_nscns :: "memory \<Rightarrow> u32 \<Rightarrow> u32" where "f_nscns m h = ld16 m (h + 2)"
definition f_opthdr :: "memory \<Rightarrow> u32 \<Rightarrow> u32" where "f_opthdr m h = ld16 m (h + 16)"
definition sizeof_filehdr :: u32 where "sizeof_filehdr = 20"

definition bsize :: "memory \<Rightarrow> u32 \<Rightarrow> u32" where "bsize m a = ld32 m (a + 12)"
definition a_entry :: "memory \<Rightarrow> u32 \<Rightarrow> u32" where "a_entry m a = ld32 m (a + 16)"
definition bss_start :: "memory \<Rightarrow> u32 \<Rightarrow> u32" where "bss_start m a = ld32 m (a + 28)"
definition sizeof_aouthdr :: u32 where "sizeof_aouthdr = 56"

definition s_vaddr :: "memory \<Rightarrow> u32 \<Rightarrow> u32" where "s_vaddr m c = ld32 m (c + 12)"
definition s_size :: "memory \<Rightarrow> u32 \<Rightarrow> u32" where "s_size m c = ld32 m (c + 16)"
definition s_scnptr :: "memory \<Rightarrow> u32 \<Rightarrow> u32" where "s_scnptr m c = ld32 m (c + 20)"
definition sizeof_scnhdr :: u32 where "sizeof_scnhdr = 40"

definition ELFCLASS32 :: u8 where "ELFCLASS32 = 1"
definition PT_LOAD :: u32 where "PT_LOAD = 1"

definition e_entry :: "memory \<Rightarrow> u32 \<Rightarrow> u32" where "e_entry m h = ld32 m (h + 24)"
definition e_phoff :: "memory \<Rightarrow> u32 \<Rightarrow> u32" where "e_phoff m h = ld32 m (h + 28)"
definition e_shoff :: "memory \<Rightarrow> u32 \<Rightarrow> u32" where "e_shoff m h = ld32 m (h + 32)"
definition e_phentsize :: "memory \<Rightarrow> u32 \<Rightarrow> u32" where "e_phentsize m h = ld16 m (h + 42)"
definition e_phnum :: "memory \<Rightarrow> u32 \<Rightarrow> u32" where "e_phnum m h = ld16 m (h + 44)"
definition e_shentsize :: "memory \<Rightarrow> u32 \<Rightarrow> u32" where "e_shentsize m h = ld16 m (h + 46)"
definition e_shnum :: "memory \<Rightarrow> u32 \<Rightarrow> u32" where "e_shnum m h = ld16 m (h + 48)"

definition p_type :: "memory \<Rightarrow> u32 \<Rightarrow> u32" where "p_type m p = ld32 m p"
definition p_offset :: "memory \<Rightarrow> u32 \<Rightarrow> u32" where "p_offset m p = ld32 m (p + 4)"
definition p_vaddr :: "memory \<Rightarrow> u32 \<Rightarrow> u32" where "p_vaddr m p = ld32 m (p + 8)"
definition p_filesz :: "memory \<Rightarrow> u32 \<Rightarrow> u32" where "p_filesz m p = ld32 m (p + 16)"
definition p_memsz :: "memory \<Rightarrow> u32 \<Rightarrow> u32" where "p_memsz m p = ld32 m (p + 20)"

definition SHT_SYMTAB :: u32 where "SHT_SYMTAB = 2"
definition SHT_STRTAB :: u32 where "SHT_STRTAB = 3"

definition sh_type :: "memory \<Rightarrow> u32 \<Rightarrow> u32" where "sh_type m h = ld32 m (h + 4)"
definition sh_offset :: "memory \<Rightarrow> u32 \<Rightarrow> u32" where "sh_offset m h = ld32 m (h + 16)"
definition sh_size :: "memory \<Rightarrow> u32 \<Rightarrow> u32" where "sh_size m h = ld32 m (h + 20)"
definition sh_link :: "memory \<Rightarrow> u32 \<Rightarrow> u32" where "sh_link m h = ld32 m (h + 24)"

definition STB_GLOBAL :: u8 where "STB_GLOBAL = 1"
definition STB_WEAK :: u8 where "STB_WEAK = 2"

definition ELF32_ST_BIND :: "u8 \<Rightarrow> u8" where "ELF32_ST_BIND info = drop_bit 4 info"

definition st_name :: "memory \<Rightarrow> u32 \<Rightarrow> u32" where "st_name m y = ld32 m y"
definition st_value :: "memory \<Rightarrow> u32 \<Rightarrow> u32" where "st_value m y = ld32 m (y + 4)"
definition st_info :: "memory \<Rightarrow> u32 \<Rightarrow> u8" where "st_info m y = m (y + 12)"
definition sizeof_sym :: u32 where "sizeof_sym = 16"

subsection \<open>Static data\<close>

record statics =
  elf_bss_start :: u32
  elf_bss_size :: u32
  kern_symtab :: u32
  kern_strtab :: u32
  kern_symcount :: u32

subsection \<open>Symbols and instructions\<close>

text \<open>The comparison of a name with the bytes at an address: whether both end together.\<close>

fun name_at :: "string \<Rightarrow> u32 \<Rightarrow> memory \<Rightarrow> bool option" where
  "name_at [] q m = None"
| "name_at (c # p) q m =
    (if c \<noteq> NUL \<and> m q \<noteq> 0 \<and> of_char c = m q then name_at p (q + 1) m
     else Some (c = NUL \<and> m q = 0))"

fun find_sym :: "u32 list \<Rightarrow> string \<Rightarrow> memory \<Rightarrow> u32 \<Rightarrow> u32 option" where
  "find_sym [] name m strtab = Some 0"
| "find_sym (y # ys) name m strtab =
    (let bind = ELF32_ST_BIND (st_info m y) in
     if bind \<noteq> STB_GLOBAL \<and> bind \<noteq> STB_WEAK then find_sym ys name m strtab
     else if st_value m y = 0 then find_sym ys name m strtab
     else do {
       eq \<leftarrow> name_at name (strtab + st_name m y) m;
       if eq then Some (st_value m y) else find_sym ys name m strtab })"

definition kern_sym :: "string \<Rightarrow> memory \<Rightarrow> statics \<Rightarrow> u32 option" where
  "kern_sym name m t =
    (if kern_symtab t = 0 \<or> kern_strtab t = 0 \<or> kern_symcount t = 0 then Some 0
     else find_sym (map (\<lambda>i. kern_symtab t + of_nat i * sizeof_sym) [0..<unat (kern_symcount t)])
       name m (kern_strtab t))"

definition to_kseg1 :: "u32 \<Rightarrow> u32" where
  "to_kseg1 addr = (addr AND 0x1FFFFFFF) OR 0xA0000000"

definition kern_sym_u :: "string \<Rightarrow> memory \<Rightarrow> statics \<Rightarrow> u32 option" where
  "kern_sym_u name m t = do {
     v \<leftarrow> kern_sym name m t;
     Some (if v \<noteq> 0 then to_kseg1 v else 0) }"

definition mips_lui :: "u32 \<Rightarrow> u32 \<Rightarrow> u32" where
  "mips_lui reg addr =
    (let hi = drop_bit 16 addr AND 0xffff;
         hi = (if addr AND 0x8000 \<noteq> 0 then hi + 1 else hi)
     in 0x3c000000 OR push_bit 16 reg OR hi)"

definition mips_addiu :: "u32 \<Rightarrow> u32 \<Rightarrow> u32 \<Rightarrow> u32" where
  "mips_addiu dst src addr = 0x24000000 OR push_bit 21 src OR push_bit 16 dst OR (addr AND 0xffff)"

definition mips_j :: "u32 \<Rightarrow> u32" where
  "mips_j addr = 0x08000000 OR (drop_bit 2 addr AND 0x03ffffff)"

definition mips_jal :: "u32 \<Rightarrow> u32" where
  "mips_jal addr = 0x0c000000 OR (drop_bit 2 addr AND 0x03ffffff)"

definition kern_sym_or_warn :: "string \<Rightarrow> memory \<Rightarrow> statics \<Rightarrow> u32 option" where
  "kern_sym_or_warn name m t = kern_sym name m t"



subsection \<open>Loading ELF\<close>

type_synonym 's reader = "u32 \<Rightarrow> u32 \<Rightarrow> 's \<Rightarrow> (int \<times> u32 \<times> 's) option"

text \<open>One turn of the loop over the program headers: the header of the file is at \<open>h\<close>, the
entry is read to \<open>ph\<close>.\<close>

definition elf_segment ::
  "'s reader \<Rightarrow> (u32 \<Rightarrow> 's \<Rightarrow> 's) \<Rightarrow> ('s \<Rightarrow> memory) \<Rightarrow> u32 \<Rightarrow> u32 \<Rightarrow> nat \<Rightarrow> 's \<times> statics \<Rightarrow> ('s \<times> statics) option"
where
  "elf_segment fread fseek fmem h ph i st =
    (case st of (s, t) \<Rightarrow> do {
       let phdr_offset = e_phoff (fmem s) h + of_nat i * e_phentsize (fmem s) h;
       (_, _, s) \<leftarrow> fread ph 32 (fseek phdr_offset s);
       let m = fmem s;
       if p_type m ph \<noteq> PT_LOAD then Some (s, t)
       else if p_filesz m ph = 0 \<and> p_memsz m ph = 0 then Some (s, t)
       else do {
         let t = (if p_memsz m ph > p_filesz m ph
                  then t\<lparr>elf_bss_start := p_vaddr m ph + p_filesz m ph,
                         elf_bss_size := p_memsz m ph - p_filesz m ph\<rparr>
                  else t);
         if p_filesz m ph > 0 then do {
           let dest = to_kseg1 (p_vaddr m ph);
           (_, _, s) \<leftarrow> fread dest (p_filesz m ph) (fseek (p_offset m ph) s);
           Some (s, t) }
         else Some (s, t) } })"

lemma ld16_small: "unat (ld16 m a) < 65536"
proof -
  have "ld16 m a = take_bit 16 (ld16 m a)"
    by (simp add: ld16_def bit_eq_iff bit_simps) (auto dest: bit_imp_le_length)
  then have "unat (ld16 m a) = take_bit 16 (unat (ld16 m a))"
    by (metis unsigned_take_bit_eq)
  then show ?thesis
    using take_bit_nat_less_exp [of 16 "unat (ld16 m a)"] by simp
qed

function elf_segments ::
  "'s reader \<Rightarrow> (u32 \<Rightarrow> 's \<Rightarrow> 's) \<Rightarrow> ('s \<Rightarrow> memory) \<Rightarrow> u32 \<Rightarrow> u32 \<Rightarrow> nat \<Rightarrow> 's \<times> statics \<Rightarrow> ('s \<times> statics) option"
where
  "elf_segments fread fseek fmem h ph i st =
    (if i < unat (e_phnum (fmem (fst st)) h) then do {
       st \<leftarrow> elf_segment fread fseek fmem h ph i st;
       elf_segments fread fseek fmem h ph (i + 1) st }
     else Some st)"
  by pat_completeness auto
termination
proof (relation "measure (\<lambda>(_, _, _, _, _, i, _). 65536 - i)")
  fix fmem :: "'s \<Rightarrow> memory" and st :: "'s \<times> statics" and h i
  assume "i < unat (e_phnum (fmem (fst st)) h)"
  then have "i < 65536"
    using ld16_small unfolding e_phnum_def by (rule less_trans)
  then show "((a, b, c, d, e, i + 1, f), (a, b, c, d, e, i, g)) \<in> measure (\<lambda>(_, _, _, _, _, i, _). 65536 - i)"
    for a b c d e f g
    by simp
qed simp

declare elf_segments.simps [simp del]

text \<open>The search for the symbol table: the state and the offset, size and link found, zero
when there is none.\<close>

function find_symtab ::
  "'s reader \<Rightarrow> (u32 \<Rightarrow> 's \<Rightarrow> 's) \<Rightarrow> ('s \<Rightarrow> memory) \<Rightarrow> u32 \<Rightarrow> u32 \<Rightarrow> nat \<Rightarrow> 's \<Rightarrow> (u32 \<times> u32 \<times> u32 \<times> 's) option"
where
  "find_symtab fread fseek fmem h sh si s =
    (if si < unat (e_shnum (fmem s) h) then do {
       (_, _, s) \<leftarrow> fread sh 40 (fseek (e_shoff (fmem s) h + of_nat si * e_shentsize (fmem s) h) s);
       if sh_type (fmem s) sh = SHT_SYMTAB
       then Some (sh_offset (fmem s) sh, sh_size (fmem s) sh, sh_link (fmem s) sh, s)
       else find_symtab fread fseek fmem h sh (si + 1) s }
     else Some (0, 0, 0, s))"
  by pat_completeness auto
termination
proof (relation "measure (\<lambda>(_, _, _, _, _, i, _). 65536 - i)")
  fix fmem :: "'s \<Rightarrow> memory" and s :: 's and h si
  assume "si < unat (e_shnum (fmem s) h)"
  then have "si < 65536"
    using ld16_small unfolding e_shnum_def by (rule less_trans)
  then show "((a, b, c, d, e, si + 1, f), (a, b, c, d, e, si, g)) \<in> measure (\<lambda>(_, _, _, _, _, i, _). 65536 - i)"
    for a b c d e f g
    by simp
qed simp

declare find_symtab.simps [simp del]

definition elf_symbols ::
  "'s reader \<Rightarrow> (u32 \<Rightarrow> 's \<Rightarrow> 's) \<Rightarrow> ('s \<Rightarrow> memory) \<Rightarrow> u32 \<Rightarrow> u32 \<Rightarrow> 's \<times> statics \<Rightarrow> ('s \<times> statics) option"
where
  "elf_symbols fread fseek fmem h sh st =
    (case st of (s, t) \<Rightarrow> do {
       (symtab_off, symtab_size, symtab_link, s) \<leftarrow> find_symtab fread fseek fmem h sh 0 s;
       (strtab_off, strtab_size, s) \<leftarrow>
         (if symtab_off \<noteq> 0 \<and> symtab_link < e_shnum (fmem s) h then do {
            (_, _, s) \<leftarrow> fread sh 40 (fseek (e_shoff (fmem s) h + symtab_link * e_shentsize (fmem s) h) s);
            Some (if sh_type (fmem s) sh = SHT_STRTAB then (sh_offset (fmem s) sh, sh_size (fmem s) sh, s)
                  else (0, 0, s)) }
          else Some (0, 0, s));
       if symtab_off \<noteq> 0 \<and> strtab_off \<noteq> 0 then do {
         let sym_load = 0xA3800000;
         let str_load = (sym_load + symtab_size + 3) AND NOT 3;
         (_, _, s) \<leftarrow> fread sym_load symtab_size (fseek symtab_off s);
         (_, _, s) \<leftarrow> fread str_load strtab_size (fseek strtab_off s);
         Some (s, t\<lparr>kern_symtab := sym_load, kern_strtab := str_load, kern_symcount := symtab_size div sizeof_sym\<rparr>) }
       else Some (s, t) })"



subsection \<open>Loading ECOFF\<close>

function ecoff_sections ::
  "'s reader \<Rightarrow> (u32 \<Rightarrow> 's \<Rightarrow> 's) \<Rightarrow> ('s \<Rightarrow> memory) \<Rightarrow> u32 \<Rightarrow> u32 \<Rightarrow> nat \<Rightarrow> 's \<Rightarrow> 's option"
where
  "ecoff_sections fread fseek fmem h scn_off si s =
    (if si < unat (f_nscns (fmem s) h) then do {
       let scn = h + scn_off + of_nat si * sizeof_scnhdr;
       let m = fmem s;
       s \<leftarrow> (if s_scnptr m scn = 0 \<or> s_size m scn = 0 then Some s
            else do {
              let dest = to_kseg1 (s_vaddr m scn);
              (_, _, s) \<leftarrow> fread dest (s_size m scn) (fseek (s_scnptr m scn) s);
              Some s });
       ecoff_sections fread fseek fmem h scn_off (si + 1) s }
     else Some s)"
  by pat_completeness auto
termination
proof (relation "measure (\<lambda>(_, _, _, _, _, i, _). 65536 - i)")
  fix fmem :: "'s \<Rightarrow> memory" and s :: 's and h si
  assume "si < unat (f_nscns (fmem s) h)"
  then have "si < 65536"
    using ld16_small unfolding f_nscns_def by (rule less_trans)
  then show "((a, b, c, d, e, si + 1, f), (a, b, c, d, e, si, g)) \<in> measure (\<lambda>(_, _, _, _, _, i, _). 65536 - i)"
    for a b c d e f g
    by simp
qed simp

declare ecoff_sections.simps [simp del]

definition ecoff_load ::
  "'s reader \<Rightarrow> (u32 \<Rightarrow> 's \<Rightarrow> 's) \<Rightarrow> ('s \<Rightarrow> memory) \<Rightarrow> (memory \<Rightarrow> 's \<Rightarrow> 's) \<Rightarrow> u32 \<Rightarrow> 's \<Rightarrow>
   (int \<times> u32 option \<times> 's) option"
where
  "ecoff_load fread fseek fmem fset h s =
    (let m = fmem s in
     if f_opthdr m h < sizeof_aouthdr then Some (5, None, s)
     else let ahdr = h + sizeof_filehdr;
              scn_off = sizeof_filehdr + f_opthdr m h in
       if scn_off + f_nscns m h * sizeof_scnhdr > 512 then Some (5, None, s)
       else do {
         let s = (if sint (bsize m ahdr) > 0
                  then fset (mem_set (to_kseg1 (bss_start m ahdr)) 0 (unat (bsize m ahdr)) m) s
                  else s);
         s \<leftarrow> ecoff_sections fread fseek fmem h scn_off 0 s;
         Some (0, Some (a_entry (fmem s) ahdr), s) })"

subsection \<open>Loading a program\<close>

text \<open>The results are the value returned, what is stored at \<open>entry_out\<close>, and the state.\<close>

definition load_program ::
  "'s reader \<Rightarrow> (u32 \<Rightarrow> 's \<Rightarrow> 's) \<Rightarrow> ('s \<Rightarrow> memory) \<Rightarrow> (memory \<Rightarrow> 's \<Rightarrow> 's) \<Rightarrow> frames \<Rightarrow>
   's \<times> statics \<Rightarrow> (int \<times> u32 option \<times> 's \<times> statics) option"
where
  "load_program fread fseek fmem fset fr st =
    (case st of (s, t) \<Rightarrow> do {
       let h = hdr_buf fr;
       (rc, got, s) \<leftarrow> fread h 512 s;
       if rc \<noteq> 0 \<or> got < 64 then Some (7, None, s, t)
       else let m = fmem s in
         if m h = 0x7f \<and> m (h + 1) = of_char CHR ''E'' \<and> m (h + 2) = of_char CHR ''L'' \<and>
            m (h + 3) = of_char CHR ''F''
         then if m (h + 4) \<noteq> ELFCLASS32 then Some (5, None, s, t)
           else do {
             (s, t) \<leftarrow> elf_segments fread fseek fmem h (phdr_buf fr) 0 (s, t);
             (s, t) \<leftarrow> (if e_shoff (fmem s) h \<noteq> 0 \<and> e_shnum (fmem s) h \<noteq> 0 \<and> e_shentsize (fmem s) h \<ge> 40
                       then elf_symbols fread fseek fmem h (shdr_buf fr) (s, t)
                       else Some (s, t));
             Some (0, Some (e_entry (fmem s) h), s, t) }
         else if f_magic m h \<in> {ECOFF_MAGIC_MIPSEB2, ECOFF_MAGIC_MIPSEB3, ECOFF_MAGIC_MIPSEL} then do {
           (rc, entry, s) \<leftarrow> ecoff_load fread fseek fmem fset h s;
           Some (rc, entry, s, t) }
         else Some (5, None, s, t) })"

text \<open>The loader on a descriptor.\<close>

definition load_fd ::
  "('f, 'w) platform \<Rightarrow> nat \<Rightarrow> ('f, 'w) io \<times> statics \<Rightarrow>
   (int \<times> u32 option \<times> ('f, 'w) io \<times> statics) option"
where
  "load_fd pl fd = load_program (Read pl fd) (Seek_to fd) mem set_mem (local_at pl)"

text \<open>\<open>Load\<close>: the value returned, what it stores at \<open>entry\<close> and at \<open>lowaddr\<close>, and the state.\<close>

definition Load ::
  "('f, 'w) platform \<Rightarrow> string option \<Rightarrow> u32 \<Rightarrow> ('f, 'w) io \<times> statics \<Rightarrow>
   (int \<times> u32 option \<times> u32 option \<times> ('f, 'w) io \<times> statics) option"
where
  "Load pl path topaddr st =
    (case st of (s, t) \<Rightarrow> do {
       (rc, fd, s) \<leftarrow> Open pl path True s;
       if rc \<noteq> 0 then Some (rc, None, None, s, t)
       else do {
         fd \<leftarrow> fd;
         (rc, ep, s, t) \<leftarrow> load_fd pl fd (s, t);
         (_, s) \<leftarrow> Close pl fd s;
         Some (rc, if rc = 0 then ep else None, if rc = 0 then Some 0 else None, s, t) } })"

definition Invoke :: "u32 \<Rightarrow> u32 \<Rightarrow> ('f, 'w) io \<Rightarrow> int \<times> ('f, 'w) io" where
  "Invoke entry stack s = (6, s)"

subsection \<open>The volume directory\<close>

text \<open>\<open>n\<close> characters of the entry's name are left.\<close>

fun vd_match :: "nat \<Rightarrow> string \<Rightarrow> string \<Rightarrow> bool option" where
  "vd_match 0 a b = do { x \<leftarrow> rd a 0; Some (x = NUL) }"
| "vd_match (Suc n) a b = do {
     x \<leftarrow> rd a 0;
     y \<leftarrow> rd b 0;
     if x \<noteq> NUL \<and> y \<noteq> NUL then if x \<noteq> y then Some False else vd_match n (tl a) (tl b)
     else Some (x = NUL \<and> y = NUL) }"

fun find_vd :: "nat list \<Rightarrow> string \<Rightarrow> memory \<Rightarrow> u32 \<Rightarrow> nat option option" where
  "find_vd [] filename m vh = Some None"
| "find_vd (i # is) filename m vh =
    (let vd_name = mem_str m (vh_vd vh i) VDNAMESIZE in
     if hd vd_name = NUL then find_vd is filename m vh
     else do {
       found \<leftarrow> vd_match VDNAMESIZE filename vd_name;
       if found then Some (Some i) else find_vd is filename m vh })"

definition vd_lbn :: "memory \<Rightarrow> u32 \<Rightarrow> nat \<Rightarrow> u32" where
  "vd_lbn m vh i = ld32 m (vh_vd vh i + 8)"

definition vd_nbytes :: "memory \<Rightarrow> u32 \<Rightarrow> nat \<Rightarrow> u32" where
  "vd_nbytes m vh i = ld32 m (vh_vd vh i + 12)"



subsection \<open>Booting\<close>

text \<open>The path of the disk: the numbers are written as one character each.\<close>

definition dev_path :: "u32 \<Rightarrow> u32 \<Rightarrow> string" where
  "dev_path ctrl unit = ''dksc('' @ char_of_int (48 + sint ctrl) # CHR '','' # char_of_int (48 + sint unit) #
     '',8)'' @ [NUL]"

text \<open>The raw descriptor for a file of the volume directory.\<close>

definition raw_fd :: "u32 \<Rightarrow> u32 \<Rightarrow> u32 \<Rightarrow> u32 \<Rightarrow> nat \<Rightarrow> ('f, 'w) io \<Rightarrow> ('f, 'w) io" where
  "raw_fd ctrl unit lbn nbytes i s =
    set_fd i (\<lambda>e. e\<lparr>fd_Type := FD_TYPE_DISK, fd_controller := ctrl, fd_unit := unit, fd_partition := - 1,
      position := 0, part_start := lbn * 512, part_size := nbytes\<rparr>) s"

text \<open>Loading from the volume directory: the value, the entry point, the name of the file
looked up, and the state.\<close>

definition load_from_directory ::
  "('f, 'w) platform \<Rightarrow> u32 \<Rightarrow> u32 \<Rightarrow> string option \<Rightarrow> ('f, 'w) io \<times> statics \<Rightarrow>
   (int \<times> u32 option \<times> string option \<times> ('f, 'w) io \<times> statics) option"
where
  "load_from_directory pl ctrl unit filename st =
    (case st of (s, t) \<Rightarrow> do {
       (rc, fd, s) \<leftarrow> Open pl (Some (dev_path ctrl unit)) True s;
       if rc \<noteq> 0 then Some (rc, None, filename, s, t)
       else do {
         fd \<leftarrow> fd;
         let vh = exec_vh (local_at pl);
         (r, m) \<leftarrow> bd_read_bytes (disk pl) 0 vh 512 (mem s);
         let s = s\<lparr>mem := m\<rparr>;
         if r \<noteq> 0 then do { (_, s) \<leftarrow> Close pl fd s; Some (7, None, filename, s, t) }
         else if vh_magic m vh \<noteq> VHMAGIC then do { (_, s) \<leftarrow> Close pl fd s; Some (6, None, filename, s, t) }
         else do {
           let bootfile = mem_str m (vh_bootfile vh) 504;
           name \<leftarrow> (case filename of
                     None \<Rightarrow> Some bootfile
                   | Some f \<Rightarrow> do { c \<leftarrow> rd f 0; Some (if c = NUL then bootfile else f) });
           found \<leftarrow> find_vd [0..<NVDIR] name m vh;
           (_, s) \<leftarrow> Close pl fd s;
           (case found of
              None \<Rightarrow> Some (6, None, Some name, s, t)
            | Some i \<Rightarrow>
                (case free_fd [2..<MAX_FDS] s of
                   None \<Rightarrow> Some (6, None, Some name, s, t)
                 | Some fi \<Rightarrow> do {
                     let s = raw_fd ctrl unit (vd_lbn m vh i) (vd_nbytes m vh i) fi s;
                     (rc, entry, s, t) \<leftarrow> load_fd pl fi (s, t);
                     (_, s) \<leftarrow> Close pl fi s;
                     Some (rc, entry, Some name, s, t) })) } } })"

subsection \<open>The kernel's environment\<close>

text \<open>Copying the environment: the entries so far, and whether the address of the network
interface and the two console variables have been seen.\<close>

fun copy_env ::
  "string list \<Rightarrow> string list \<Rightarrow> bool \<times> bool \<times> bool \<Rightarrow> (string list \<times> bool \<times> bool \<times> bool) option"
where
  "copy_env [] kern_envp (has_eaddr, has_console_in, has_console_out) =
     Some (kern_envp, has_eaddr, has_console_in, has_console_out)"
| "copy_env (ep # eps) kern_envp (has_eaddr, has_console_in, has_console_out) =
    (if length kern_envp < 60 then do {
       a \<leftarrow> at_prefix ''eaddr='' ep;
       i \<leftarrow> at_prefix ''ConsoleI'' ep;
       out \<leftarrow> at_prefix ''ConsoleO'' ep;
       c \<leftarrow> at_prefix ''console='' ep;
       copy_env eps (if c \<noteq> None then kern_envp else kern_envp @ [ep])
         (has_eaddr \<or> a \<noteq> None, has_console_in \<or> i \<noteq> None, has_console_out \<or> out \<noteq> None) }
     else Some (kern_envp, has_eaddr, has_console_in, has_console_out))"

definition add_var :: "bool \<Rightarrow> string \<Rightarrow> string list \<Rightarrow> string list" where
  "add_var present v kern_envp =
    (if \<not> present \<and> length kern_envp < 60 then kern_envp @ [cstr v] else kern_envp)"

text \<open>\<open>environ\<close> is \<open>None\<close> for a null pointer; the null pointer at the end is left out.\<close>

definition build_envp :: "string list option \<Rightarrow> string list option" where
  "build_envp environ = do {
     (ke, has_eaddr, has_in, has_out) \<leftarrow>
       copy_env (case environ of None \<Rightarrow> [] | Some l \<Rightarrow> l) [] (False, False, False);
     let ke = add_var False ''console=d'' ke;
     let ke = add_var has_eaddr ''eaddr=08:00:69:aa:bb:cc'' ke;
     let ke = add_var has_in ''ConsoleIn=serial(0)'' ke;
     let ke = add_var has_out ''ConsoleOut=serial(0)'' ke;
     let ke = add_var False ''OSLoadPartition=dksc(0,1,0)'' ke;
     let ke = add_var False ''root=dks0d1s0'' ke;
     let ke = add_var False ''SystemPartition=dksc(0,1,8)'' ke;
     let ke = add_var False ''OSLoadFilename=unix'' ke;
     Some (add_var False ''showconfig=1'' ke) }"

definition jump_sr :: "u32 \<Rightarrow> u32 \<Rightarrow> u32" where
  "jump_sr entry sr = (if entry < 0x80000000 then sr OR 0x04 else sr AND NOT 0x07)"

definition zero_bss :: "statics \<Rightarrow> ('f, 'w) io \<Rightarrow> ('f, 'w) io" where
  "zero_bss t s =
    (if elf_bss_size t > 0
     then s\<lparr>mem := mem_set (to_kseg1 (elf_bss_start t)) 0 (unat (elf_bss_size t)) (mem s)\<rparr>
     else s)"

datatype booted = Returned int | Ready u32 "string list" "string list" u32

text \<open>\<open>Execute\<close> up to the patches: it returns an error, or it is ready to jump, with the
entry point, the arguments, the environment and the status register.\<close>

definition Execute ::
  "('f, 'w) platform \<Rightarrow> string option \<Rightarrow> string list option \<Rightarrow> u32 \<Rightarrow> ('f, 'w) io \<times> statics \<Rightarrow>
   (booted \<times> ('f, 'w) io \<times> statics) option"
where
  "Execute pl path environ sr st =
    (case path of
       None \<Rightarrow> Some (Returned 5, st)
     | Some path \<Rightarrow> (case st of (s, t) \<Rightarrow> do {
         let s = ensure_fd_table s;
         (ctrl, unit, part) \<leftarrow> parse_disk_path path;
         filename \<leftarrow> extract_filename path;
         slash \<leftarrow> (case filename of None \<Rightarrow> Some False | Some f \<Rightarrow> do { c \<leftarrow> rd f 0; Some (c = CHR ''/'') });
         (rc, entry, filename, s, t) \<leftarrow>
           (if slash then do {
              f \<leftarrow> filename;
              (rc, fs_fd, s) \<leftarrow> open_fs_file pl part f s;
              if rc \<noteq> 0 then Some (rc, None, filename, s, t)
              else do {
                fs_fd \<leftarrow> fs_fd;
                (rc, entry, s, t) \<leftarrow> load_fd pl fs_fd (s, t);
                (_, s) \<leftarrow> Close pl fs_fd s;
                Some (rc, entry, filename, s, t) } }
            else load_from_directory pl ctrl unit filename (s, t));
         if rc \<noteq> 0 then Some (Returned rc, s, t)
         else do {
           entry \<leftarrow> entry;
           envp \<leftarrow> build_envp environ;
           let argv = [case filename of None \<Rightarrow> cstr ''unix'' | Some f \<Rightarrow> f];
           Some (Ready entry argv envp (jump_sr entry sr), zero_bss t s, t) } }))"



section \<open>Copies of a file in memory\<close>

text \<open>A file is seen as a memory of its own, \<open>F\<close>.  A span is a range of addresses, which may
go round the end of the address space.\<close>

definition span :: "u32 \<Rightarrow> nat \<Rightarrow> u32 set" where
  "span a n = {x. unat (x - a) < n}"

definition store :: "memory \<Rightarrow> u32 \<Rightarrow> nat \<Rightarrow> u32 \<Rightarrow> memory \<Rightarrow> memory" where
  "store F off n p m = (\<lambda>a. if a \<in> span p n then F (off + (a - p)) else m a)"

definition copy_of :: "memory \<Rightarrow> u32 \<Rightarrow> nat \<Rightarrow> memory \<Rightarrow> u32 \<Rightarrow> bool" where
  "copy_of m a n F off \<longleftrightarrow> (\<forall>k<n. m (a + of_nat k) = F (off + of_nat k))"

lemma span_0 [simp]: "span a 0 = {}"
  by (simp add: span_def)

lemma span_add: "k < n \<Longrightarrow> n \<le> 2 ^ 32 \<Longrightarrow> a + of_nat k \<in> span a n"
  by (simp add: span_def unat_of_nat_32)

lemma store_0 [simp]: "store F off 0 p m = m"
  by (simp add: store_def)

lemma store_copy: "n \<le> 2 ^ 32 \<Longrightarrow> copy_of (store F off n p m) p n F off"
  by (simp add: copy_of_def store_def span_add)

lemma copy_of_store:
  assumes "copy_of m a n G o'" "span p k \<inter> span a n = {}" "n \<le> 2 ^ 32"
  shows "copy_of (store F off k p m) a n G o'"
  using assms span_add [of _ n a] unfolding copy_of_def store_def by auto

lemma copy_of_cong:
  "copy_of m a n G o' \<Longrightarrow> n \<le> 2 ^ 32 \<Longrightarrow> (\<And>x. x \<in> span a n \<Longrightarrow> m' x = m x) \<Longrightarrow> copy_of m' a n G o'"
  by (simp add: copy_of_def span_add)

lemma ld32_copy:
  assumes "copy_of m a n F off" "k + 3 < n"
  shows "ld32 m (a + of_nat k) = ld32 F (off + of_nat k)"
proof -
  have "m (a + of_nat k + of_nat j) = F (off + of_nat k + of_nat j)" if "j < 4" for j
    using assms that by (auto simp: copy_of_def add.assoc simp flip: of_nat_add)
  from this [of 0] this [of 1] this [of 2] this [of 3] show ?thesis
    by (simp add: ld32_def)
qed

lemma ld16_copy:
  assumes "copy_of m a n F off" "k + 1 < n"
  shows "ld16 m (a + of_nat k) = ld16 F (off + of_nat k)"
proof -
  have "m (a + of_nat k + of_nat j) = F (off + of_nat k + of_nat j)" if "j < 2" for j
    using assms that by (auto simp: copy_of_def add.assoc simp flip: of_nat_add)
  from this [of 0] this [of 1] show ?thesis
    by (simp add: ld16_def)
qed

lemma byte_copy: "copy_of m a n F off \<Longrightarrow> k < n \<Longrightarrow> m (a + of_nat k) = F (off + of_nat k)"
  by (simp add: copy_of_def)

lemma elf_header_copy:
  assumes "copy_of m h n F 0" "52 \<le> n"
  shows "e_entry m h = e_entry F 0" "e_phoff m h = e_phoff F 0" "e_shoff m h = e_shoff F 0"
    "e_phentsize m h = e_phentsize F 0" "e_phnum m h = e_phnum F 0" "e_shentsize m h = e_shentsize F 0"
    "e_shnum m h = e_shnum F 0"
  using ld32_copy [OF assms(1), of 24] ld32_copy [OF assms(1), of 28] ld32_copy [OF assms(1), of 32]
    ld16_copy [OF assms(1), of 42] ld16_copy [OF assms(1), of 44] ld16_copy [OF assms(1), of 46]
    ld16_copy [OF assms(1), of 48] assms(2)
  by (simp_all add: e_entry_def e_phoff_def e_shoff_def e_phentsize_def e_phnum_def e_shentsize_def e_shnum_def)

lemma elf_ident_copy:
  assumes "copy_of m h n F 0" "52 \<le> n"
  shows "m h = F 0" "m (h + 1) = F 1" "m (h + 2) = F 2" "m (h + 3) = F 3" "m (h + 4) = F 4"
  using byte_copy [OF assms(1), of 0] byte_copy [OF assms(1), of 1] byte_copy [OF assms(1), of 2]
    byte_copy [OF assms(1), of 3] byte_copy [OF assms(1), of 4] assms(2) by simp_all

lemma phdr_copy:
  assumes "copy_of m p 32 F off"
  shows "p_type m p = p_type F off" "p_offset m p = p_offset F off" "p_vaddr m p = p_vaddr F off"
    "p_filesz m p = p_filesz F off" "p_memsz m p = p_memsz F off"
  using ld32_copy [OF assms, of 0] ld32_copy [OF assms, of 4] ld32_copy [OF assms, of 8]
    ld32_copy [OF assms, of 16] ld32_copy [OF assms, of 20]
  by (simp_all add: p_type_def p_offset_def p_vaddr_def p_filesz_def p_memsz_def)

lemma shdr_copy:
  assumes "copy_of m p 40 F off"
  shows "sh_type m p = sh_type F off" "sh_offset m p = sh_offset F off" "sh_size m p = sh_size F off"
    "sh_link m p = sh_link F off"
  using ld32_copy [OF assms, of 4] ld32_copy [OF assms, of 16] ld32_copy [OF assms, of 20]
    ld32_copy [OF assms, of 24]
  by (simp_all add: sh_type_def sh_offset_def sh_size_def sh_link_def)

lemma to_kseg1_neq_0 [simp]: "to_kseg1 a \<noteq> 0"
proof -
  have "bit (to_kseg1 a) 31"
    by (simp add: to_kseg1_def bit_simps)
  then show ?thesis
    by auto
qed



section \<open>What a program file describes\<close>

definition phdr_at :: "memory \<Rightarrow> nat \<Rightarrow> u32" where
  "phdr_at F i = e_phoff F 0 + of_nat i * e_phentsize F 0"

definition loads :: "memory \<Rightarrow> nat \<Rightarrow> bool" where
  "loads F i \<longleftrightarrow> p_type F (phdr_at F i) = PT_LOAD \<and> 0 < p_filesz F (phdr_at F i)"

text \<open>Memory with segment \<open>i\<close> in place, and what is recorded of its uninitialised part.\<close>

definition with_segment :: "memory \<Rightarrow> nat \<Rightarrow> memory \<Rightarrow> memory" where
  "with_segment F i m =
    (let p = phdr_at F i in
     if loads F i then store F (p_offset F p) (unat (p_filesz F p)) (to_kseg1 (p_vaddr F p)) m else m)"

definition with_bss :: "memory \<Rightarrow> nat \<Rightarrow> statics \<Rightarrow> statics" where
  "with_bss F i t =
    (let p = phdr_at F i in
     if p_type F p = PT_LOAD \<and> p_memsz F p > p_filesz F p
     then t\<lparr>elf_bss_start := p_vaddr F p + p_filesz F p, elf_bss_size := p_memsz F p - p_filesz F p\<rparr>
     else t)"

definition elf_image :: "memory \<Rightarrow> memory \<Rightarrow> memory" where
  "elf_image F m = fold (with_segment F) [0..<unat (e_phnum F 0)] m"

definition elf_bss :: "memory \<Rightarrow> statics \<Rightarrow> statics" where
  "elf_bss F t = fold (with_bss F) [0..<unat (e_phnum F 0)] t"

text \<open>The symbol table of the file: offset and size of the symbols and of their names.\<close>

definition shdr_at :: "memory \<Rightarrow> nat \<Rightarrow> u32" where
  "shdr_at F i = e_shoff F 0 + of_nat i * e_shentsize F 0"

definition symtab_index :: "memory \<Rightarrow> nat option" where
  "symtab_index F = List.find (\<lambda>i. sh_type F (shdr_at F i) = SHT_SYMTAB) [0..<unat (e_shnum F 0)]"

definition symbols_of :: "memory \<Rightarrow> (u32 \<times> u32 \<times> u32 \<times> u32) option" where
  "symbols_of F =
    (case symtab_index F of
       None \<Rightarrow> None
     | Some i \<Rightarrow>
         (let y = shdr_at F i; n = shdr_at F (unat (sh_link F y)) in
          if sh_offset F y \<noteq> 0 \<and> sh_link F y < e_shnum F 0 \<and> sh_type F n = SHT_STRTAB \<and> sh_offset F n \<noteq> 0
          then Some (sh_offset F y, sh_size F y, sh_offset F n, sh_size F n) else None))"

definition str_load :: "u32 \<Rightarrow> u32" where
  "str_load symtab_size = (0xA3800000 + symtab_size + 3) AND NOT 3"

definition with_symbols :: "memory \<Rightarrow> memory \<Rightarrow> memory" where
  "with_symbols F m =
    (case symbols_of F of
       None \<Rightarrow> m
     | Some (yo, ys, no, ns) \<Rightarrow> store F no (unat ns) (str_load ys) (store F yo (unat ys) 0xA3800000 m))"

definition symbols_found :: "memory \<Rightarrow> statics \<Rightarrow> statics" where
  "symbols_found F t =
    (case symbols_of F of
       None \<Rightarrow> t
     | Some (yo, ys, no, ns) \<Rightarrow>
         t\<lparr>kern_symtab := 0xA3800000, kern_strtab := str_load ys, kern_symcount := ys div sizeof_sym\<rparr>)"

text \<open>Bytes \<open>off\<close> to \<open>off + n\<close> are in the file.\<close>

definition present :: "(u32 \<Rightarrow> u8 option) \<Rightarrow> u32 \<Rightarrow> u32 \<Rightarrow> bool" where
  "present contents off n \<longleftrightarrow> (\<forall>i < unat n. contents (off + of_nat i) \<noteq> None)"

definition file_mem :: "(u32 \<Rightarrow> u8 option) \<Rightarrow> memory" where
  "file_mem contents a = the (contents a)"

text \<open>The parts of the file the loader reads are there, and nothing is loaded over the header
it works on.\<close>

definition segments_fit :: "(u32 \<Rightarrow> u8 option) \<Rightarrow> u32 \<Rightarrow> u32 \<Rightarrow> bool" where
  "segments_fit contents h ph \<longleftrightarrow> ph \<noteq> 0 \<and> span ph 32 \<inter> span h 512 = {} \<and>
    (let F = file_mem contents in \<forall>i < unat (e_phnum F 0).
       present contents (phdr_at F i) 32 \<and>
       (loads F i \<longrightarrow> (let p = phdr_at F i in present contents (p_offset F p) (p_filesz F p) \<and>
          span (to_kseg1 (p_vaddr F p)) (unat (p_filesz F p)) \<inter> span h 512 = {})))"

definition symbols_fit :: "(u32 \<Rightarrow> u8 option) \<Rightarrow> u32 \<Rightarrow> u32 \<Rightarrow> bool" where
  "symbols_fit contents h sh \<longleftrightarrow> sh \<noteq> 0 \<and> span sh 40 \<inter> span h 512 = {} \<and>
    (let F = file_mem contents in
       (\<forall>i < unat (e_shnum F 0). present contents (shdr_at F i) 40) \<and>
       (case symbols_of F of None \<Rightarrow> True
        | Some (yo, ys, no, ns) \<Rightarrow> present contents yo ys \<and> present contents no ns \<and> str_load ys \<noteq> 0 \<and>
            span 0xA3800000 (unat ys) \<inter> span h 512 = {} \<and> span (str_load ys) (unat ns) \<inter> span h 512 = {}))"

section \<open>Loading ELF, on any file of bytes\<close>

lemma all_u32_sizes: "unat (n :: u32) \<le> 2 ^ 32"
  using unat_lt_32 [of n] by simp

context byte_file begin

lemma read_present:
  assumes "opened s" "buf \<noteq> 0" "present contents off len"
  shows "\<exists>r n s'. fread buf len (fseek off s) = Some (r, n, s') \<and> opened s' \<and>
    fmem s' = store (file_mem contents) off (unat len) buf (fmem s)"
proof (cases "len = 0")
  case True
  then show ?thesis
    using fread_none [of "fseek off s" buf] fseek_ok [OF assms(1), of off] by auto
next
  case False
  then have "0 < len"
    by (simp add: word_gt_0)
  from read_at [OF assms(1,2) this, of off] assms(3) show ?thesis
    by (auto simp: present_def store_def span_def file_mem_def fun_eq_iff)
qed

lemma elf_segment_run:
  assumes "opened s" "copy_of (fmem s) h 512 (file_mem contents) 0" "segments_fit contents h ph"
    and "i < unat (e_phnum (file_mem contents) 0)"
  shows "\<exists>s'. elf_segment fread fseek fmem h ph i (s, t) = Some (s', with_bss (file_mem contents) i t) \<and> opened s' \<and>
    fmem s' = with_segment (file_mem contents) i (store (file_mem contents) (phdr_at (file_mem contents) i) 32 ph (fmem s))"
proof -
  let ?F = "file_mem contents"
  let ?p = "phdr_at ?F i"
  have f: "ph \<noteq> 0" "present contents ?p 32"
    and l: "loads ?F i \<Longrightarrow> present contents (p_offset ?F ?p) (p_filesz ?F ?p)"
    using assms(3,4) by (auto simp: segments_fit_def Let_def)
  have h: "e_phoff (fmem s) h = e_phoff ?F 0" "e_phentsize (fmem s) h = e_phentsize ?F 0"
    using elf_header_copy [OF assms(2)] by simp_all
  obtain r n s1 where s1: "fread ph 32 (fseek ?p s) = Some (r, n, s1)" "opened s1"
    "fmem s1 = store ?F ?p 32 ph (fmem s)"
    using read_present [OF assms(1) f] by auto
  have "copy_of (fmem s1) ph 32 ?F ?p"
    unfolding s1(3) by (rule store_copy) simp
  note p = phdr_copy [OF this]
  show ?thesis
  proof (cases "loads ?F i")
    case True
    obtain r n s2 where s2: "fread (to_kseg1 (p_vaddr ?F ?p)) (p_filesz ?F ?p) (fseek (p_offset ?F ?p) s1) = Some (r, n, s2)"
      "opened s2" "fmem s2 = store ?F (p_offset ?F ?p) (unat (p_filesz ?F ?p)) (to_kseg1 (p_vaddr ?F ?p)) (fmem s1)"
      using read_present [OF s1(2) to_kseg1_neq_0 l [OF True]] by blast
    have "elf_segment fread fseek fmem h ph i (s, t) = Some (s2, with_bss ?F i t)"
      using True s1(1) s2(1) by (simp add: elf_segment_def h p with_bss_def loads_def Let_def word_gt_0
          flip: phdr_at_def)
    then show ?thesis
      using True s2(2,3) s1(3) by (simp add: with_segment_def Let_def)
  next
    case False
    then have "elf_segment fread fseek fmem h ph i (s, t) = Some (s1, with_bss ?F i t)"
      using s1(1) by (auto simp: elf_segment_def h p with_bss_def loads_def Let_def word_gt_0
          simp flip: phdr_at_def)
    then show ?thesis
      using False s1(2,3) by (simp add: with_segment_def Let_def)
  qed
qed

end



lemma store_cong_at: "m a = m' a \<Longrightarrow> store F off n p m a = store F off n p m' a"
  by (simp add: store_def)

lemma with_segment_cong: "m a = m' a \<Longrightarrow> with_segment F i m a = with_segment F i m' a"
  by (auto simp: with_segment_def store_def Let_def)

lemma image_cong: "m a = m' a \<Longrightarrow> fold (with_segment F) is m a = fold (with_segment F) is m' a"
proof (induction "is" arbitrary: m m')
  case (Cons i "is")
  have "with_segment F i m a = with_segment F i m' a"
    by (rule with_segment_cong) (rule Cons.prems)
  from Cons.IH [of "with_segment F i m" "with_segment F i m'", OF this] show ?case
    by simp
qed simp

lemma header_kept:
  assumes "copy_of m h 512 F 0" "segments_fit contents h ph" "F = file_mem contents" "i < unat (e_phnum F 0)"
  shows "copy_of (with_segment F i m) h 512 F 0"
  using assms by (auto simp: with_segment_def segments_fit_def Let_def intro!: copy_of_store)

context byte_file begin

lemma elf_segments_run:
  assumes "opened s" "copy_of (fmem s) h 512 (file_mem contents) 0" "segments_fit contents h ph"
    and "i \<le> unat (e_phnum (file_mem contents) 0)"
  shows "\<exists>s'. elf_segments fread fseek fmem h ph i (s, t) =
      Some (s', fold (with_bss (file_mem contents)) [i..<unat (e_phnum (file_mem contents) 0)] t) \<and>
    opened s' \<and> copy_of (fmem s') h 512 (file_mem contents) 0 \<and>
    (\<forall>a. a \<notin> span ph 32 \<longrightarrow>
      fmem s' a = fold (with_segment (file_mem contents)) [i..<unat (e_phnum (file_mem contents) 0)] (fmem s) a)"
  using assms
proof (induction "unat (e_phnum (file_mem contents) 0) - i" arbitrary: i s t)
  case 0
  have "e_phnum (fmem s) h = e_phnum (file_mem contents) 0"
    using elf_header_copy [OF 0(3)] by simp
  with 0 show ?case
    by (subst elf_segments.simps) auto
next
  case (Suc d)
  let ?F = "file_mem contents"
  let ?N = "unat (e_phnum ?F 0)"
  have i: "i < ?N" and d: "d = ?N - Suc i"
    using Suc(2) by simp_all
  have n: "e_phnum (fmem s) h = e_phnum ?F 0"
    using elf_header_copy [OF Suc(4)] by simp
  obtain s1 where s1: "elf_segment fread fseek fmem h ph i (s, t) = Some (s1, with_bss ?F i t)" "opened s1"
    "fmem s1 = with_segment ?F i (store ?F (phdr_at ?F i) 32 ph (fmem s))"
    using elf_segment_run [OF Suc(3-5) i] by blast
  have "copy_of (store ?F (phdr_at ?F i) 32 ph (fmem s)) h 512 ?F 0"
    using Suc(4,5) by (intro copy_of_store) (auto simp: segments_fit_def)
  then have c: "copy_of (fmem s1) h 512 ?F 0"
    unfolding s1(3) using header_kept [OF _ Suc(5) refl i] by blast
  have m: "fmem s1 a = with_segment ?F i (fmem s) a" if "a \<notin> span ph 32" for a
    unfolding s1(3) using that by (intro with_segment_cong) (simp add: store_def)
  have u: "[i..<?N] = i # [Suc i..<?N]"
    using i by (rule upt_conv_Cons)
  have "elf_segments fread fseek fmem h ph i (s, t) = elf_segments fread fseek fmem h ph (Suc i) (s1, with_bss ?F i t)"
    using i n s1(1) by (simp add: elf_segments.simps [of _ _ _ _ _ i])
  moreover obtain s2 where "elf_segments fread fseek fmem h ph (Suc i) (s1, with_bss ?F i t) =
      Some (s2, fold (with_bss ?F) [Suc i..<?N] (with_bss ?F i t))"
    and s2: "opened s2" "copy_of (fmem s2) h 512 ?F 0"
      "\<forall>a. a \<notin> span ph 32 \<longrightarrow> fmem s2 a = fold (with_segment ?F) [Suc i..<?N] (fmem s1) a"
    using Suc(1) [OF d s1(2) c Suc(5) Suc_leI [OF i], of "with_bss ?F i t"] by blast
  moreover have "fmem s2 a = fold (with_segment ?F) [i..<?N] (fmem s) a" if "a \<notin> span ph 32" for a
    using s2(3) that image_cong [of "fmem s1" a "with_segment ?F i (fmem s)", OF m [OF that]] by (simp add: u)
  ultimately show ?case
    using s2(1,2) by (auto simp: u)
qed

lemma find_symtab_run:
  assumes "opened s" "copy_of (fmem s) h 512 (file_mem contents) 0" "symbols_fit contents h sh"
    and "i \<le> unat (e_shnum (file_mem contents) 0)"
  shows "\<exists>s'. find_symtab fread fseek fmem h sh i s =
      Some (case List.find (\<lambda>i. sh_type (file_mem contents) (shdr_at (file_mem contents) i) = SHT_SYMTAB)
              [i..<unat (e_shnum (file_mem contents) 0)] of
          None \<Rightarrow> (0, 0, 0, s')
        | Some j \<Rightarrow> (sh_offset (file_mem contents) (shdr_at (file_mem contents) j),
            sh_size (file_mem contents) (shdr_at (file_mem contents) j),
            sh_link (file_mem contents) (shdr_at (file_mem contents) j), s')) \<and>
    opened s' \<and> copy_of (fmem s') h 512 (file_mem contents) 0 \<and>
    (\<forall>a. a \<notin> span sh 40 \<longrightarrow> fmem s' a = fmem s a)"
  using assms
proof (induction "unat (e_shnum (file_mem contents) 0) - i" arbitrary: i s)
  case 0
  have "e_shnum (fmem s) h = e_shnum (file_mem contents) 0"
    using elf_header_copy [OF 0(3)] by simp
  with 0 show ?case
    by (subst find_symtab.simps) auto
next
  case (Suc d)
  let ?F = "file_mem contents"
  let ?N = "unat (e_shnum ?F 0)"
  have i: "i < ?N" and d: "d = ?N - Suc i"
    using Suc(2) by simp_all
  note hdr = elf_header_copy [OF Suc(4)]
  have sh: "sh \<noteq> 0" "present contents (shdr_at ?F i) 40" "span sh 40 \<inter> span h 512 = {}"
    using Suc(5) i by (auto simp: symbols_fit_def Let_def)
  obtain r n s1 where s1: "fread sh 40 (fseek (shdr_at ?F i) s) = Some (r, n, s1)" "opened s1"
    "fmem s1 = store ?F (shdr_at ?F i) 40 sh (fmem s)"
    using read_present [OF Suc(3) sh(1,2)] by auto
  have "copy_of (fmem s1) sh 40 ?F (shdr_at ?F i)"
    unfolding s1(3) by (rule store_copy) simp
  note p = shdr_copy [OF this]
  have c: "copy_of (fmem s1) h 512 ?F 0"
    unfolding s1(3) using Suc(4) sh(3) by (intro copy_of_store) auto
  have m: "fmem s1 a = fmem s a" if "a \<notin> span sh 40" for a
    unfolding s1(3) using that by (simp add: store_def)
  have u: "[i..<?N] = i # [Suc i..<?N]"
    using i by (rule upt_conv_Cons)
  have step: "find_symtab fread fseek fmem h sh i s =
      (if sh_type ?F (shdr_at ?F i) = SHT_SYMTAB
       then Some (sh_offset ?F (shdr_at ?F i), sh_size ?F (shdr_at ?F i), sh_link ?F (shdr_at ?F i), s1)
       else find_symtab fread fseek fmem h sh (Suc i) s1)"
    using i s1(1) hdr p by (simp add: find_symtab.simps [of _ _ _ _ _ i] flip: shdr_at_def)
  show ?case
  proof (cases "sh_type ?F (shdr_at ?F i) = SHT_SYMTAB")
    case True
    then show ?thesis
      using step s1(2) c m by (auto simp: u)
  next
    case False
    then show ?thesis
      using step Suc(1) [OF d s1(2) c Suc(5) Suc_leI [OF i]] m by (simp add: u)
  qed
qed

end



definition is_elf :: "memory \<Rightarrow> bool" where
  "is_elf F \<longleftrightarrow> F 0 = 0x7f \<and> F 1 = of_char CHR ''E'' \<and> F 2 = of_char CHR ''L'' \<and> F 3 = of_char CHR ''F'' \<and>
     F 4 = ELFCLASS32"

definition has_sections :: "memory \<Rightarrow> bool" where
  "has_sections F \<longleftrightarrow> e_shoff F 0 \<noteq> 0 \<and> e_shnum F 0 \<noteq> 0 \<and> e_shentsize F 0 \<ge> 40"

definition elf_loaded :: "memory \<Rightarrow> memory \<Rightarrow> memory" where
  "elf_loaded F m = (if has_sections F then with_symbols F (elf_image F m) else elf_image F m)"

definition elf_statics :: "memory \<Rightarrow> statics \<Rightarrow> statics" where
  "elf_statics F t = (if has_sections F then symbols_found F (elf_bss F t) else elf_bss F t)"

lemma with_symbols_cong: "m a = m' a \<Longrightarrow> with_symbols F m a = with_symbols F m' a"
  by (auto simp: with_symbols_def store_def split: option.split)

text \<open>The working areas of the loader on its stack.\<close>

definition locals :: "frames \<Rightarrow> u32 set" where
  "locals fr = span (hdr_buf fr) 512 \<union> span (phdr_buf fr) 32 \<union> span (shdr_buf fr) 40"

definition elf_fits :: "(u32 \<Rightarrow> u8 option) \<Rightarrow> frames \<Rightarrow> bool" where
  "elf_fits contents fr \<longleftrightarrow> hdr_buf fr \<noteq> 0 \<and> present contents 0 512 \<and> is_elf (file_mem contents) \<and>
     segments_fit contents (hdr_buf fr) (phdr_buf fr) \<and>
     (has_sections (file_mem contents) \<longrightarrow> symbols_fit contents (hdr_buf fr) (shdr_buf fr))"

context byte_file begin

lemma elf_symbols_run:
  assumes "opened s" "copy_of (fmem s) h 512 (file_mem contents) 0" "symbols_fit contents h sh"
  shows "\<exists>s'. elf_symbols fread fseek fmem h sh (s, t) = Some (s', symbols_found (file_mem contents) t) \<and>
    opened s' \<and> copy_of (fmem s') h 512 (file_mem contents) 0 \<and>
    (\<forall>a. a \<notin> span sh 40 \<longrightarrow> fmem s' a = with_symbols (file_mem contents) (fmem s) a)"
proof -
  let ?F = "file_mem contents"
  obtain s1 where s1: "find_symtab fread fseek fmem h sh 0 s =
      Some (case symtab_index ?F of None \<Rightarrow> (0, 0, 0, s1)
        | Some j \<Rightarrow> (sh_offset ?F (shdr_at ?F j), sh_size ?F (shdr_at ?F j), sh_link ?F (shdr_at ?F j), s1))"
    "opened s1" "copy_of (fmem s1) h 512 ?F 0" "\<forall>a. a \<notin> span sh 40 \<longrightarrow> fmem s1 a = fmem s a"
    using find_symtab_run [OF assms, of 0] by (auto simp: symtab_index_def)
  note hdr = elf_header_copy [OF s1(3)]
  show ?thesis
  proof (cases "symtab_index ?F")
    case None
    then show ?thesis
      using s1 by (auto simp: elf_symbols_def symbols_found_def with_symbols_def symbols_of_def)
  next
    case (Some j)
    let ?y = "shdr_at ?F j"
    let ?l = "shdr_at ?F (unat (sh_link ?F ?y))"
    show ?thesis
    proof (cases "sh_offset ?F ?y \<noteq> 0 \<and> sh_link ?F ?y < e_shnum ?F 0")
      case False
      then show ?thesis
        using s1 Some by (auto simp: elf_symbols_def symbols_found_def with_symbols_def symbols_of_def hdr Let_def)
    next
      case True
      then have sh: "sh \<noteq> 0" "present contents ?l 40" "span sh 40 \<inter> span h 512 = {}"
        using assms(3) by (auto simp: symbols_fit_def Let_def word_less_nat_alt)
      obtain r n s2 where s2: "fread sh 40 (fseek ?l s1) = Some (r, n, s2)" "opened s2"
        "fmem s2 = store ?F ?l 40 sh (fmem s1)"
        using read_present [OF s1(2) sh(1,2)] by auto
      have "copy_of (fmem s2) sh 40 ?F ?l"
        unfolding s2(3) by (rule store_copy) simp
      note p = shdr_copy [OF this]
      have c: "copy_of (fmem s2) h 512 ?F 0"
        unfolding s2(3) using s1(3) sh(3) by (intro copy_of_store) auto
      have m: "fmem s2 a = fmem s a" if "a \<notin> span sh 40" for a
        unfolding s2(3) using that s1(4) by (simp add: store_def)
      have l: "e_shoff ?F 0 + sh_link ?F ?y * e_shentsize ?F 0 = ?l"
        by (simp add: shdr_at_def)
      show ?thesis
      proof (cases "sh_type ?F ?l = SHT_STRTAB \<and> sh_offset ?F ?l \<noteq> 0")
        case False
        then have "elf_symbols fread fseek fmem h sh (s, t) = Some (s2, t)" "symbols_of ?F = None"
          using True Some s1(1) s2(1) by (auto simp: elf_symbols_def symbols_of_def hdr l p Let_def)
        then show ?thesis
          using s2(2) c m by (auto simp: symbols_found_def with_symbols_def)
      next
        case found: True
        let ?ys = "sh_size ?F ?y"
        have y: "symbols_of ?F = Some (sh_offset ?F ?y, ?ys, sh_offset ?F ?l, sh_size ?F ?l)"
          using found True Some by (simp add: symbols_of_def Let_def)
        have f: "present contents (sh_offset ?F ?y) ?ys" "present contents (sh_offset ?F ?l) (sh_size ?F ?l)"
          "str_load ?ys \<noteq> 0" "span 0xA3800000 (unat ?ys) \<inter> span h 512 = {}"
          "span (str_load ?ys) (unat (sh_size ?F ?l)) \<inter> span h 512 = {}"
          using assms(3) y by (simp_all add: symbols_fit_def Let_def)
        obtain r n s3 where s3: "fread 0xA3800000 ?ys (fseek (sh_offset ?F ?y) s2) = Some (r, n, s3)"
          "opened s3" "fmem s3 = store ?F (sh_offset ?F ?y) (unat ?ys) 0xA3800000 (fmem s2)"
          using read_present [OF s2(2) _ f(1), of "0xA3800000"] by auto
        obtain r n s4 where s4: "fread (str_load ?ys) (sh_size ?F ?l) (fseek (sh_offset ?F ?l) s3) = Some (r, n, s4)"
          "opened s4" "fmem s4 = store ?F (sh_offset ?F ?l) (unat (sh_size ?F ?l)) (str_load ?ys) (fmem s3)"
          using read_present [OF s3(2) f(3,2)] by auto
        have sl: "2743074819 + ?ys AND - 4 = str_load ?ys"
          by (simp add: str_load_def algebra_simps)
        have "elf_symbols fread fseek fmem h sh (s, t) = Some (s4, symbols_found ?F t)"
          using True Some found s1(1) s2(1) s3(1) s4(1)
          by (simp add: elf_symbols_def symbols_found_def y hdr l p sl Let_def)
        moreover have "copy_of (fmem s4) h 512 ?F 0"
          unfolding s4(3) s3(3) using c f(4,5) by (intro copy_of_store) auto
        moreover have "fmem s4 a = with_symbols ?F (fmem s) a" if "a \<notin> span sh 40" for a
          unfolding s4(3) s3(3) using m [OF that] by (simp add: with_symbols_def y store_def)
        ultimately show ?thesis
          using s4(2) by blast
      qed
    qed
  qed
qed

lemma load_elf_run:
  assumes "opened s" "fpos s = 0" "elf_fits contents fr"
  shows "\<exists>s'. load_program fread fseek fmem fset fr (s, t) =
      Some (0, Some (e_entry (file_mem contents) 0), s', elf_statics (file_mem contents) t) \<and> opened s' \<and>
    (\<forall>a. a \<notin> locals fr \<longrightarrow> fmem s' a = elf_loaded (file_mem contents) (fmem s) a)"
proof -
  let ?F = "file_mem contents"
  let ?h = "hdr_buf fr"
  let ?fin = "\<lambda>s t. (if has_sections ?F then elf_symbols fread fseek fmem ?h (shdr_buf fr) (s, t) else Some (s, t))"
  have fit: "?h \<noteq> 0" "\<forall>i < unat (512 :: u32). contents (fpos s + of_nat i) \<noteq> None" "is_elf ?F"
    "segments_fit contents ?h (phdr_buf fr)" "has_sections ?F \<longrightarrow> symbols_fit contents ?h (shdr_buf fr)"
    using assms(2,3) by (auto simp: elf_fits_def present_def)
  have "\<exists>s1. fread ?h 512 s = Some (0, 512, s1) \<and> opened s1 \<and> fmem s1 = store ?F 0 512 ?h (fmem s)"
    using fread_ok [OF assms(1) fit(1) _ fit(2)] assms(2)
    by (auto simp: store_def span_def file_mem_def fun_eq_iff)
  then obtain s1 where s1: "fread ?h 512 s = Some (0, 512, s1)" "opened s1" "fmem s1 = store ?F 0 512 ?h (fmem s)"
    by blast
  have c1: "copy_of (fmem s1) ?h 512 ?F 0"
    unfolding s1(3) by (rule store_copy) simp
  note id1 = elf_ident_copy [OF c1]
  obtain s2 where s2: "elf_segments fread fseek fmem ?h (phdr_buf fr) 0 (s1, t) = Some (s2, elf_bss ?F t)"
    "opened s2" "copy_of (fmem s2) ?h 512 ?F 0"
    "\<forall>a. a \<notin> span (phdr_buf fr) 32 \<longrightarrow> fmem s2 a = elf_image ?F (fmem s1) a"
    using elf_segments_run [OF s1(2) c1 fit(4), of 0 t] by (auto simp: elf_bss_def elf_image_def)
  note hdr = elf_header_copy [OF s2(3)]
  obtain s3 where s3: "?fin s2 (elf_bss ?F t) = Some (s3, elf_statics ?F t)" "opened s3"
    "copy_of (fmem s3) ?h 512 ?F 0"
    "\<forall>a. a \<notin> span (shdr_buf fr) 40 \<longrightarrow> fmem s3 a = (if has_sections ?F then with_symbols ?F (fmem s2) a else fmem s2 a)"
  proof (cases "has_sections ?F")
    case True
    with that show ?thesis
      using elf_symbols_run [OF s2(2,3), of "shdr_buf fr" "elf_bss ?F t"] fit(5)
      by (auto simp: elf_statics_def)
  next
    case False
    with that s2(2,3) show ?thesis
      by (simp add: elf_statics_def)
  qed
  have "load_program fread fseek fmem fset fr (s, t) = Some (0, Some (e_entry ?F 0), s3, elf_statics ?F t)"
    using s1(1) s2(1) s3(1) fit(3) elf_header_copy [OF s3(3)] id1
    by (simp add: load_program_def is_elf_def hdr Let_def flip: has_sections_def)
  moreover have "fmem s3 a = elf_loaded ?F (fmem s) a" if "a \<notin> locals fr" for a
  proof -
    have "fmem s1 a = fmem s a"
      unfolding s1(3) using that by (simp add: store_def locals_def)
    then have "fmem s2 a = elf_image ?F (fmem s) a"
      using s2(4) that image_cong [of "fmem s1" a "fmem s" ?F] by (auto simp: locals_def elf_image_def)
    from this with_symbols_cong [of "fmem s2" a "elf_image ?F (fmem s)", OF this] show ?thesis
      using s3(4) that by (simp add: elf_loaded_def locals_def)
  qed
  ultimately show ?thesis
    using s3(2) by blast
qed

end



section \<open>Reading the loaded image\<close>

definition seg_span :: "memory \<Rightarrow> nat \<Rightarrow> u32 set" where
  "seg_span F i =
    (if loads F i then span (to_kseg1 (p_vaddr F (phdr_at F i))) (unat (p_filesz F (phdr_at F i))) else {})"

definition table_span :: "memory \<Rightarrow> u32 set" where
  "table_span F =
    (if has_sections F then
       (case symbols_of F of
          None \<Rightarrow> {}
        | Some (yo, ys, no, ns) \<Rightarrow> span 0xA3800000 (unat ys) \<union> span (str_load ys) (unat ns))
     else {})"

lemma with_segment_off: "a \<notin> seg_span F i \<Longrightarrow> with_segment F i m a = m a"
  by (auto simp: with_segment_def seg_span_def store_def Let_def split: if_splits)

lemma with_segment_on:
  assumes "loads F i" "k < unat (p_filesz F (phdr_at F i))"
  shows "with_segment F i m (to_kseg1 (p_vaddr F (phdr_at F i)) + of_nat k) = F (p_offset F (phdr_at F i) + of_nat k)"
  using assms byte_copy [OF store_copy assms(2)] all_u32_sizes by (simp add: with_segment_def Let_def)

lemma image_off: "\<forall>j \<in> set is. a \<notin> seg_span F j \<Longrightarrow> fold (with_segment F) is m a = m a"
  by (induction "is" arbitrary: m) (simp_all add: with_segment_off)

lemma image_on:
  assumes "i < n" "loads F i" "k < unat (p_filesz F (phdr_at F i))"
    and "a = to_kseg1 (p_vaddr F (phdr_at F i)) + of_nat k" "\<forall>j. i < j \<and> j < n \<longrightarrow> a \<notin> seg_span F j"
  shows "fold (with_segment F) [0..<n] m a = F (p_offset F (phdr_at F i) + of_nat k)"
proof -
  have "[0..<n] = [0..<i] @ i # [Suc i..<n]"
    using assms(1) by (metis le0 less_imp_le_nat upt_add_eq_append upt_conv_Cons le_add_diff_inverse)
  then have "fold (with_segment F) [0..<n] m a =
      fold (with_segment F) [Suc i..<n] (with_segment F i (fold (with_segment F) [0..<i] m)) a"
    by simp
  also have "\<dots> = with_segment F i (fold (with_segment F) [0..<i] m) a"
    using assms(5) by (intro image_off) auto
  finally show ?thesis
    using with_segment_on [OF assms(2,3)] assms(4) by simp
qed

lemma with_symbols_off: "has_sections F \<Longrightarrow> a \<notin> table_span F \<Longrightarrow> with_symbols F m a = m a"
  by (auto simp: with_symbols_def table_span_def store_def split: option.splits)

lemma elf_loaded_off: "a \<notin> table_span F \<Longrightarrow> elf_loaded F m a = elf_image F m a"
  by (simp add: elf_loaded_def with_symbols_off)

text \<open>A segment has an uninitialised part; the last one is recorded.\<close>

definition has_bss :: "memory \<Rightarrow> nat \<Rightarrow> bool" where
  "has_bss F i \<longleftrightarrow> p_type F (phdr_at F i) = PT_LOAD \<and> p_memsz F (phdr_at F i) > p_filesz F (phdr_at F i)"

lemma bss_off: "\<forall>j \<in> set is. \<not> has_bss F j \<Longrightarrow> fold (with_bss F) is t = t"
  by (induction "is") (auto simp: with_bss_def has_bss_def Let_def)

lemma bss_on:
  assumes "i < n" "has_bss F i" "\<forall>j. i < j \<and> j < n \<longrightarrow> \<not> has_bss F j"
  shows "elf_bss_start (fold (with_bss F) [0..<n] t) = p_vaddr F (phdr_at F i) + p_filesz F (phdr_at F i)"
    "elf_bss_size (fold (with_bss F) [0..<n] t) = p_memsz F (phdr_at F i) - p_filesz F (phdr_at F i)"
proof -
  have "[0..<n] = [0..<i] @ i # [Suc i..<n]"
    using assms(1) by (metis le0 less_imp_le_nat upt_add_eq_append upt_conv_Cons le_add_diff_inverse)
  then have "fold (with_bss F) [0..<n] t = with_bss F i (fold (with_bss F) [0..<i] t)"
    using bss_off [of "[Suc i..<n]" F] assms(3) by simp
  then show "elf_bss_start (fold (with_bss F) [0..<n] t) = p_vaddr F (phdr_at F i) + p_filesz F (phdr_at F i)"
    "elf_bss_size (fold (with_bss F) [0..<n] t) = p_memsz F (phdr_at F i) - p_filesz F (phdr_at F i)"
    using assms(2) by (simp_all add: with_bss_def has_bss_def Let_def)
qed

lemma elf_statics_bss [simp]:
  "elf_bss_start (elf_statics F t) = elf_bss_start (elf_bss F t)"
  "elf_bss_size (elf_statics F t) = elf_bss_size (elf_bss F t)"
  by (auto simp: elf_statics_def symbols_found_def split: option.split)

section \<open>Names in the loaded string table\<close>

lemma name_at_copy:
  assumes "copy_of m a n F off" "k \<le> j" "j < n" "F (off + of_nat j) = 0"
  shows "name_at p (a + of_nat k) m = name_at p (off + of_nat k) F"
  using assms(2)
proof (induction p arbitrary: k)
  case (Cons c p)
  have b: "m (a + of_nat k) = F (off + of_nat k)"
    using byte_copy [OF assms(1)] Cons.prems assms(3) by simp
  show ?case
  proof (cases "k = j")
    case True
    then have "m (a + of_nat k) = 0" "F (off + of_nat k) = 0"
      using assms(4) b by simp_all
    then show ?thesis
      by simp
  next
    case False
    with Cons.prems have "Suc k \<le> j"
      by simp
    from Cons.IH [OF this] show ?thesis
      by (simp add: b algebra_simps)
  qed
qed simp

definition sym_at :: "u32 \<Rightarrow> nat \<Rightarrow> u32" where
  "sym_at base i = base + of_nat i * sizeof_sym"

definition usable_sym :: "memory \<Rightarrow> u32 \<Rightarrow> bool" where
  "usable_sym F y \<longleftrightarrow> ELF32_ST_BIND (st_info F y) \<in> {STB_GLOBAL, STB_WEAK} \<and> st_value F y \<noteq> 0"

text \<open>The value the symbol table of a file gives a name, 0 if it has none: that of the first
global or weak symbol of the name that has a value.\<close>

definition file_sym :: "memory \<Rightarrow> string \<Rightarrow> u32" where
  "file_sym F name =
    (case symbols_of F of
       None \<Rightarrow> 0
     | Some (yo, ys, no, ns) \<Rightarrow>
         (case List.find (\<lambda>i. usable_sym F (sym_at yo i) \<and>
              name_at (cstr name) (no + st_name F (sym_at yo i)) F = Some True) [0..<unat (ys div sizeof_sym)] of
            None \<Rightarrow> 0
          | Some i \<Rightarrow> st_value F (sym_at yo i)))"

text \<open>The names lie inside the string table, which ends with a NUL.\<close>

definition names_ok :: "memory \<Rightarrow> bool" where
  "names_ok F \<longleftrightarrow> (case symbols_of F of
     None \<Rightarrow> True
   | Some (yo, ys, no, ns) \<Rightarrow> 0 < ns \<and> F (no + (ns - 1)) = 0 \<and> unat ys + unat ns + 0xA3800004 < 2 ^ 32 \<and>
       (\<forall>i < unat (ys div sizeof_sym). st_name F (sym_at yo i) < ns))"

lemma name_at_total: "\<exists>b. name_at (cstr name) q m = Some b"
proof (induction name arbitrary: q)
  case Nil
  show ?case
    by (simp add: cstr_def)
next
  case (Cons c name)
  show ?case
    using Cons.IH [of "q + 1"] by (simp add: cstr_def)
qed

lemma find_sym_run:
  assumes "\<forall>i \<in> set is. st_info m (f i) = st_info F (g i) \<and> st_value m (f i) = st_value F (g i) \<and>
      name_at (cstr name) (str + st_name m (f i)) m = name_at (cstr name) (no + st_name F (g i)) F"
  shows "find_sym (map f is) (cstr name) m str =
    Some (case List.find (\<lambda>i. usable_sym F (g i) \<and> name_at (cstr name) (no + st_name F (g i)) F = Some True) is of
       None \<Rightarrow> 0 | Some i \<Rightarrow> st_value F (g i))"
  using assms
proof (induction "is")
  case (Cons i "is")
  have e: "st_info m (f i) = st_info F (g i)" "st_value m (f i) = st_value F (g i)"
    "name_at (cstr name) (str + st_name m (f i)) m = name_at (cstr name) (no + st_name F (g i)) F"
    using Cons.prems by simp_all
  obtain b where "name_at (cstr name) (no + st_name F (g i)) F = Some b"
    using name_at_total by blast
  then show ?case
    using Cons by (cases b) (auto simp: usable_sym_def e Let_def)
qed simp



lemma span_nat: "unat a + n \<le> 2 ^ 32 \<Longrightarrow> x \<in> span a n \<longleftrightarrow> unat a \<le> unat x \<and> unat x < unat a + n"
proof -
  assume l: "unat a + n \<le> 2 ^ 32"
  have "unat (x - a) = (if unat a \<le> unat x then unat x - unat a else unat x + 2 ^ 32 - unat a)"
    by (simp add: unat_sub_if')
  with l unat_lt_32 [of a] show ?thesis
    by (auto simp: span_def split: if_splits)
qed

lemma unat_align4:
  "unat ((x :: u32) AND NOT 3) = unat x div 4 * 4"
proof -
  have "x AND NOT (mask 2) = push_bit 2 (drop_bit 2 x)"
  proof (rule bit_word_eqI)
    fix n
    assume "n < LENGTH(32)"
    moreover have "2 \<le> n \<Longrightarrow> Suc (Suc (n - 2)) = n"
      by simp
    ultimately show "bit (x AND NOT (mask 2)) n = bit (push_bit 2 (drop_bit 2 x)) n"
      by (auto simp: bit_simps)
  qed
  then have "x AND NOT 3 = push_bit 2 (drop_bit 2 x)"
    by (simp add: mask_eq_exp_minus_1)
  moreover have "unat (push_bit 2 (drop_bit 2 x)) = unat x div 4 * 4"
  proof -
    have "unat x div 4 * 4 < 2 ^ 32"
      using unat_lt_32 [of x] by (rule le_less_trans [rotated]) simp
    then show ?thesis
      by (simp add: push_bit_eq_mult drop_bit_eq_div unat_word_ariths unat_div)
  qed
  ultimately show ?thesis
    by simp
qed

lemma str_load_bounds:
  assumes "unat ys + 0xA3800004 < 2 ^ 32"
  shows "0xA3800000 + unat ys \<le> unat (str_load ys)" "unat (str_load ys) \<le> 0xA3800003 + unat ys"
proof -
  have "unat (0xA3800000 + ys + 3) = 0xA3800003 + unat ys"
    using assms by (simp add: unat_word_ariths)
  then have "unat (str_load ys) = (0xA3800003 + unat ys) div 4 * 4"
    by (simp only: str_load_def unat_align4)
  then show "0xA3800000 + unat ys \<le> unat (str_load ys)" "unat (str_load ys) \<le> 0xA3800003 + unat ys"
    by presburger+
qed

lemma tables_in_place:
  assumes "has_sections F" "symbols_of F = Some (yo, ys, no, ns)" "names_ok F"
    and "\<forall>a. a \<in> table_span F \<longrightarrow> m a = with_symbols F m0 a"
  shows "copy_of m 0xA3800000 (unat ys) F yo" "copy_of m (str_load ys) (unat ns) F no"
proof -
  have l: "unat ys + unat ns + 0xA3800004 < 2 ^ 32"
    using assms(2,3) by (simp add: names_ok_def)
  note b = str_load_bounds [of ys]
  have d: "span (str_load ys) (unat ns) \<inter> span 0xA3800000 (unat ys) = {}"
    using b l by (auto simp: span_nat)
  have t: "span 0xA3800000 (unat ys) \<subseteq> table_span F" "span (str_load ys) (unat ns) \<subseteq> table_span F"
    using assms(1,2) by (auto simp: table_span_def)
  have w: "with_symbols F m0 = store F no (unat ns) (str_load ys) (store F yo (unat ys) 0xA3800000 m0)"
    using assms(2) by (simp add: with_symbols_def)
  have "copy_of (with_symbols F m0) 0xA3800000 (unat ys) F yo"
    unfolding w using d all_u32_sizes by (intro copy_of_store store_copy) auto
  then show "copy_of m 0xA3800000 (unat ys) F yo"
    by (rule copy_of_cong) (use t(1) assms(4) all_u32_sizes in auto)
  have "copy_of (with_symbols F m0) (str_load ys) (unat ns) F no"
    unfolding w using all_u32_sizes by (intro store_copy)
  then show "copy_of m (str_load ys) (unat ns) F no"
    by (rule copy_of_cong) (use t(2) assms(4) all_u32_sizes in auto)
qed

lemma kern_sym_run:
  assumes "has_sections F" "symbols_of F = Some (yo, ys, no, ns)" "names_ok F"
    and "\<forall>a. a \<in> table_span F \<longrightarrow> m a = with_symbols F m0 a"
  shows "kern_sym (cstr name) m (symbols_found F t) = Some (file_sym F name)"
proof -
  let ?n = "ys div sizeof_sym"
  note c = tables_in_place [OF assms]
  have ns: "0 < ns" "F (no + (ns - 1)) = 0" "\<forall>i < unat ?n. st_name F (sym_at yo i) < ns"
    "unat ys + unat ns + 0xA3800004 < 2 ^ 32"
    using assms(2,3) by (simp_all add: names_ok_def)
  have sl: "str_load ys \<noteq> 0"
    using str_load_bounds [of ys] ns(4) by auto
  have one: "st_info m (sym_at 0xA3800000 i) = st_info F (sym_at yo i)"
    "st_value m (sym_at 0xA3800000 i) = st_value F (sym_at yo i)"
    "name_at (cstr name) (str_load ys + st_name m (sym_at 0xA3800000 i)) m = name_at (cstr name) (no + st_name F (sym_at yo i)) F"
    if i: "i < unat ?n" for i
  proof -
    have "i < unat ys div 16"
      using i by (simp add: sizeof_sym_def unat_div)
    then have k: "16 * i + 15 < unat ys"
      by simp
    have a: "sym_at b i = b + of_nat (16 * i)" for b
      by (simp add: sym_at_def sizeof_sym_def mult.commute)
    have o': "sym_at b i + of_nat j = b + of_nat (16 * i + j)" for b j
      by (simp add: a)
    show "st_info m (sym_at 0xA3800000 i) = st_info F (sym_at yo i)"
      using byte_copy [OF c(1), of "16 * i + 12"] k o' [of _ 12] by (simp add: st_info_def add.assoc)
    show "st_value m (sym_at 0xA3800000 i) = st_value F (sym_at yo i)"
      using ld32_copy [OF c(1), of "16 * i + 4"] k o' [of _ 4] by (simp add: st_value_def add.assoc)
    have s: "st_name m (sym_at 0xA3800000 i) = st_name F (sym_at yo i)"
      using ld32_copy [OF c(1), of "16 * i"] k a by (simp add: st_name_def)
    have "unat (st_name F (sym_at yo i)) < unat ns"
      using ns(3) i by (simp add: word_less_nat_alt)
    moreover have "F (no + of_nat (unat ns - 1)) = 0"
      using ns(1,2) by (simp add: unat_gt_0 of_nat_diff Suc_leI word_gt_0)
    ultimately show "name_at (cstr name) (str_load ys + st_name m (sym_at 0xA3800000 i)) m =
        name_at (cstr name) (no + st_name F (sym_at yo i)) F"
      using name_at_copy [OF c(2), of "unat (st_name F (sym_at yo i))" "unat ns - 1" "cstr name"]
      by (simp add: s)
  qed
  show ?thesis
  proof (cases "?n = 0")
    case True
    then show ?thesis
      using assms(2) by (simp add: kern_sym_def symbols_found_def file_sym_def)
  next
    case False
    have e: "0xA3800000 + of_nat i * sizeof_sym = sym_at 0xA3800000 i" for i
      by (simp add: sym_at_def)
    from False show ?thesis
      using find_sym_run [of "[0..<unat ?n]" m "sym_at 0xA3800000" F "sym_at yo" name "str_load ys" no] one assms(2) sl
      by (simp add: kern_sym_def symbols_found_def file_sym_def e)
  qed
qed



section \<open>Properties\<close>

text \<open>C4: loading an ELF program from a descriptor of the disk, at any place of the disk.
When the parts of the file that are read are on readable sectors and nothing is loaded over
the loader's own buffers, the load succeeds and gives the entry point of the file.  Byte
\<open>k\<close> of a loaded segment is in memory, uncached, at its address plus \<open>k\<close>, unless a later
segment or the symbol table covers it, and no other byte of memory changes.  Of the
segments that are larger in memory than in the file only the last is recorded for
clearing.\<close>

theorem load_places_segments:
  assumes "disk_fd fd start s" "fd_pos fd s = 0" "elf_fits (disk_contents (disk pl) start) (local_at pl)"
    and "F = file_mem (disk_contents (disk pl) start)"
  shows "\<exists>s' t'. load_fd pl fd (s, t) = Some (0, Some (e_entry F 0), s', t') \<and> disk_fd fd start s' \<and>
    (\<forall>i k a. i < unat (e_phnum F 0) \<and> loads F i \<and> k < unat (p_filesz F (phdr_at F i)) \<and>
       a = to_kseg1 (p_vaddr F (phdr_at F i)) + of_nat k \<and> a \<notin> locals (local_at pl) \<union> table_span F \<and>
       (\<forall>j. i < j \<and> j < unat (e_phnum F 0) \<longrightarrow> a \<notin> seg_span F j) \<longrightarrow>
       mem s' a = F (p_offset F (phdr_at F i) + of_nat k)) \<and>
    (\<forall>a. a \<notin> locals (local_at pl) \<union> table_span F \<and> (\<forall>j < unat (e_phnum F 0). a \<notin> seg_span F j) \<longrightarrow>
       mem s' a = mem s a) \<and>
    (\<forall>i. i < unat (e_phnum F 0) \<and> has_bss F i \<and> (\<forall>j. i < j \<and> j < unat (e_phnum F 0) \<longrightarrow> \<not> has_bss F j) \<longrightarrow>
       elf_bss_start t' = p_vaddr F (phdr_at F i) + p_filesz F (phdr_at F i) \<and>
       elf_bss_size t' = p_memsz F (phdr_at F i) - p_filesz F (phdr_at F i))"
proof -
  obtain s' where r: "load_fd pl fd (s, t) = Some (0, Some (e_entry F 0), s', elf_statics F t)" "disk_fd fd start s'"
    and m: "\<And>a. a \<notin> locals (local_at pl) \<Longrightarrow> mem s' a = elf_loaded F (mem s) a"
    using disk_file.load_elf_run [OF assms(1-3), of t] assms(4) by (auto simp: load_fd_def)
  have on: "mem s' a = F (p_offset F (phdr_at F i) + of_nat k)"
    if "i < unat (e_phnum F 0)" "loads F i" "k < unat (p_filesz F (phdr_at F i))"
      "a = to_kseg1 (p_vaddr F (phdr_at F i)) + of_nat k" "a \<notin> locals (local_at pl)" "a \<notin> table_span F"
      "\<forall>j. i < j \<and> j < unat (e_phnum F 0) \<longrightarrow> a \<notin> seg_span F j" for i k a
    using m [OF that(5)] image_on [OF that(1-4,7)] elf_loaded_off [OF that(6)] by (simp add: elf_image_def)
  have off: "mem s' a = mem s a"
    if "a \<notin> locals (local_at pl)" "a \<notin> table_span F" "\<forall>j < unat (e_phnum F 0). a \<notin> seg_span F j" for a
    using m [OF that(1)] elf_loaded_off [OF that(2)] image_off [of "[0..<unat (e_phnum F 0)]" a F] that(3)
    by (simp add: elf_image_def)
  have bss: "elf_bss_start (elf_statics F t) = p_vaddr F (phdr_at F i) + p_filesz F (phdr_at F i)"
    "elf_bss_size (elf_statics F t) = p_memsz F (phdr_at F i) - p_filesz F (phdr_at F i)"
    if "i < unat (e_phnum F 0)" "has_bss F i" "\<forall>j. i < j \<and> j < unat (e_phnum F 0) \<longrightarrow> \<not> has_bss F j" for i
    using bss_on [OF that] by (simp_all add: elf_bss_def)
  show ?thesis
    using r on off bss by (intro exI [of _ s'] exI [of _ "elf_statics F t"]) (simp add: Un_iff)
qed

text \<open>C17: after such a load \<open>kern_sym\<close> reads the symbol table of the file: a name has the
value of the first global or weak symbol of that name with a value, and 0 when there is
none.\<close>

theorem symbols_resolve:
  assumes "disk_fd fd start s" "fd_pos fd s = 0" "elf_fits (disk_contents (disk pl) start) (local_at pl)"
    and "F = file_mem (disk_contents (disk pl) start)" "has_sections F" "symbols_of F \<noteq> None" "names_ok F"
    and "locals (local_at pl) \<inter> table_span F = {}"
  shows "\<exists>s' t'. load_fd pl fd (s, t) = Some (0, Some (e_entry F 0), s', t') \<and>
    (\<forall>name. kern_sym (cstr name) (mem s') t' = Some (file_sym F name))"
proof -
  obtain s' where r: "load_fd pl fd (s, t) = Some (0, Some (e_entry F 0), s', elf_statics F t)"
    and m: "\<And>a. a \<notin> locals (local_at pl) \<Longrightarrow> mem s' a = elf_loaded F (mem s) a"
    using disk_file.load_elf_run [OF assms(1-3), of t] assms(4) by (auto simp: load_fd_def)
  have a: "\<forall>a. a \<in> table_span F \<longrightarrow> mem s' a = with_symbols F (elf_image F (mem s)) a"
    using m assms(5,8) by (auto simp: elf_loaded_def)
  obtain yo ys no ns where "symbols_of F = Some (yo, ys, no, ns)"
    using assms(6) by (cases "symbols_of F") auto
  then have "kern_sym (cstr name) (mem s') (symbols_found F (elf_bss F t)) = Some (file_sym F name)" for name
    using assms(7) a by (rule kern_sym_run [OF assms(5)])
  then show ?thesis
    using r assms(5) by (simp add: elf_statics_def)
qed

section \<open>A program\<close>

definition be32 :: "nat \<Rightarrow> u8 list" where
  "be32 n = [of_nat (n div 2 ^ 24), of_nat (n div 2 ^ 16), of_nat (n div 2 ^ 8), of_nat n]"

definition be16 :: "nat \<Rightarrow> u8 list" where
  "be16 n = [of_nat (n div 2 ^ 8), of_nat n]"

definition sample_elf :: "u8 list" where
  "sample_elf =
     [0x7f, 0x45, 0x4c, 0x46, 1, 2, 1, 0, 0, 0, 0, 0, 0, 0, 0, 0] @ be16 2 @ be16 8 @ be32 1 @
     be32 0x88002000 @ be32 52 @ be32 84 @ be32 0 @ be16 52 @ be16 32 @ be16 1 @ be16 40 @ be16 2 @ be16 0 @
     be32 1 @ be32 204 @ be32 0x88002000 @ be32 0 @ be32 4 @ be32 12 @ be32 7 @ be32 4 @
     be32 0 @ be32 2 @ be32 0 @ be32 0 @ be32 164 @ be32 32 @ be32 1 @ be32 0 @ be32 4 @ be32 16 @
     be32 0 @ be32 3 @ be32 0 @ be32 0 @ be32 196 @ be32 6 @ be32 0 @ be32 0 @ be32 1 @ be32 0 @
     be32 0 @ be32 0 @ be32 0 @ be32 0 @
     be32 1 @ be32 0x88002000 @ be32 4 @ be32 0x12000001 @
     [0, 0x69, 0x6e, 0x74, 0x72, 0, 0, 0] @ [0xde, 0xad, 0xbe, 0xef]"

definition elf_byte :: "nat \<Rightarrow> u8" where
  "elf_byte i = (if i < length sample_elf then sample_elf ! i else 0)"

definition elf_disk :: bootdisk where
  "elf_disk k = ([BD_STATUS_READY], map elf_byte [0..<512])"

definition elf_platform :: "(unit, unit) platform" where
  "elf_platform = sample_platform\<lparr>disk := elf_disk\<rparr>"

definition elf_io :: "(unit, unit) io" where
  "elf_io = sample_io\<lparr>fd_table := (fd_table sample_io)[2 := (sample_fd FD_TYPE_DISK)\<lparr>position := 0, part_start := 0\<rparr>]\<rparr>"

definition no_statics :: statics where
  "no_statics = \<lparr>elf_bss_start = 0, elf_bss_size = 0, kern_symtab = 0, kern_strtab = 0, kern_symcount = 0\<rparr>"

abbreviation elf_F :: memory where
  "elf_F \<equiv> file_mem (disk_contents (disk elf_platform) 0)"

lemma elf_bytes: "disk_contents elf_disk 0 a = Some (elf_byte (unat (a mod 512)))"
proof -
  have "unat (a mod 512) < 512"
    by (simp add: unat_mod)
  then show ?thesis
    by (simp add: disk_contents_def disk_byte_def bd_read_sector_def elf_disk_def BD_STATUS_READY_def
        BD_STATUS_ERROR_def)
qed

lemma elf_F_byte: "elf_F a = elf_byte (unat (a mod 512))"
  by (simp add: file_mem_def elf_platform_def elf_bytes)

lemma sample_elf_length: "length sample_elf = 208"
  by (simp add: sample_elf_def be32_def be16_def)


lemma elf_byte_eval: "elf_byte i = (if i < 208 then sample_elf ! i else 0)"
  by (simp add: elf_byte_def sample_elf_length)

lemma elf_fields:
  "e_entry elf_F 0 = 0x88002000" "e_phoff elf_F 0 = 52" "e_phentsize elf_F 0 = 32" "e_phnum elf_F 0 = 1"
  "e_shoff elf_F 0 = 84" "e_shentsize elf_F 0 = 40" "e_shnum elf_F 0 = 2"
  by (simp_all add: e_entry_def e_phoff_def e_phentsize_def e_phnum_def e_shoff_def e_shentsize_def e_shnum_def
      ld32_def ld16_def elf_F_byte elf_byte_eval sample_elf_def be32_def be16_def)



lemmas elf_eval = elf_F_byte elf_byte_eval sample_elf_def be32_def be16_def ld32_def ld16_def

lemma elf_phdr:
  "phdr_at elf_F 0 = 52" "p_type elf_F 52 = PT_LOAD" "p_offset elf_F 52 = 204" "p_vaddr elf_F 52 = 0x88002000"
  "p_filesz elf_F 52 = 4" "p_memsz elf_F 52 = 12"
  by (simp_all add: phdr_at_def elf_fields p_type_def p_offset_def p_vaddr_def p_filesz_def p_memsz_def PT_LOAD_def
      elf_eval)

lemma elf_shdr:
  "shdr_at elf_F 0 = 84" "shdr_at elf_F (Suc 0) = 124" "sh_type elf_F 84 = SHT_SYMTAB" "sh_offset elf_F 84 = 164"
  "sh_size elf_F 84 = 32" "sh_link elf_F 84 = 1" "sh_type elf_F 124 = SHT_STRTAB" "sh_offset elf_F 124 = 196"
  "sh_size elf_F 124 = 6"
  by (simp_all add: shdr_at_def elf_fields sh_type_def sh_offset_def sh_size_def sh_link_def SHT_SYMTAB_def
      SHT_STRTAB_def elf_eval)

lemma two: "[0..<2] = [0, Suc 0]" "(\<forall>i < (2 :: nat). P i) \<longleftrightarrow> P 0 \<and> P (Suc 0)"
  by (simp_all add: upt_rec) (metis One_nat_def less_2_cases zero_less_numeral one_less_numeral_iff semiring_norm(76))

lemma elf_symbols_of: "symbols_of elf_F = Some (164, 32, 196, 6)"
  by (simp add: symbols_of_def symtab_index_def elf_fields elf_shdr two)

lemma elf_str_load: "str_load 32 = 0xA3800020"
  by (simp add: str_load_def)

lemma elf_present: "present (disk_contents (disk elf_platform) 0) off n"
  by (simp add: present_def elf_platform_def elf_bytes)

lemma span_fixed:
  "unat a + n \<le> 2 ^ 32 \<Longrightarrow> unat b + k \<le> 2 ^ 32 \<Longrightarrow> unat a + n \<le> unat b \<or> unat b + k \<le> unat a \<Longrightarrow>
   span a n \<inter> span b k = {}"
  by (auto simp: span_nat)

lemma elf_frames: "local_at elf_platform =
  \<lparr>vh_buf = 0x1000, peek_buf = 0x1200, hdr_buf = 0x1400, phdr_buf = 0x1600, shdr_buf = 0x1620, exec_vh = 0x1800\<rparr>"
  by (simp add: elf_platform_def sample_platform_def)

lemma elf_kseg1: "to_kseg1 0x88002000 = 0xA8002000"
  by (simp add: to_kseg1_def)

lemma elf_is_elf: "is_elf elf_F" "has_sections elf_F"
  by (simp_all add: is_elf_def has_sections_def elf_fields ELFCLASS32_def elf_eval)

lemma elf_fits_sample: "elf_fits (disk_contents (disk elf_platform) 0) (local_at elf_platform)"
proof -
  have "segments_fit (disk_contents (disk elf_platform) 0) 0x1400 0x1600"
    by (simp add: segments_fit_def elf_present elf_fields elf_phdr elf_kseg1 span_fixed)
  moreover have "symbols_fit (disk_contents (disk elf_platform) 0) 0x1400 0x1620"
    by (simp add: symbols_fit_def elf_present elf_symbols_of elf_str_load span_fixed)
  ultimately show ?thesis
    by (simp add: elf_fits_def elf_frames elf_present elf_is_elf)
qed

lemma elf_opened: "disk_fd 2 0 elf_io" "fd_pos 2 elf_io = 0"
  by (simp_all add: disk_fd_def io_ok_def elf_io_def sample_io_def sample_fd_def MAX_FDS_def fd_pos_def)

lemma elf_table: "table_span elf_F = span 0xA3800000 32 \<union> span 0xA3800020 6"
  by (simp add: table_span_def elf_is_elf elf_symbols_of elf_str_load)

lemma elf_locals: "locals (local_at elf_platform) = span 0x1400 512 \<union> span 0x1600 32 \<union> span 0x1620 40"
  by (simp add: locals_def elf_frames)

lemma load_places_segments_witness:
  "\<exists>s' t'. load_fd elf_platform 2 (elf_io, no_statics) = Some (0, Some 0x88002000, s', t') \<and>
     mem s' 0xA8002001 = 0xad \<and> mem s' 0xA8002004 = 0 \<and> elf_bss_start t' = 0x88002004 \<and> elf_bss_size t' = 8"
proof -
  obtain s' t' where r: "load_fd elf_platform 2 (elf_io, no_statics) = Some (0, Some (e_entry elf_F 0), s', t')"
    and on: "\<forall>i k a. i < unat (e_phnum elf_F 0) \<and> loads elf_F i \<and> k < unat (p_filesz elf_F (phdr_at elf_F i)) \<and>
       a = to_kseg1 (p_vaddr elf_F (phdr_at elf_F i)) + of_nat k \<and>
       a \<notin> locals (local_at elf_platform) \<union> table_span elf_F \<and>
       (\<forall>j. i < j \<and> j < unat (e_phnum elf_F 0) \<longrightarrow> a \<notin> seg_span elf_F j) \<longrightarrow>
       mem s' a = elf_F (p_offset elf_F (phdr_at elf_F i) + of_nat k)"
    and off: "\<forall>a. a \<notin> locals (local_at elf_platform) \<union> table_span elf_F \<and>
       (\<forall>j < unat (e_phnum elf_F 0). a \<notin> seg_span elf_F j) \<longrightarrow> mem s' a = mem elf_io a"
    and bss: "\<forall>i. i < unat (e_phnum elf_F 0) \<and> has_bss elf_F i \<and>
       (\<forall>j. i < j \<and> j < unat (e_phnum elf_F 0) \<longrightarrow> \<not> has_bss elf_F j) \<longrightarrow>
       elf_bss_start t' = p_vaddr elf_F (phdr_at elf_F i) + p_filesz elf_F (phdr_at elf_F i) \<and>
       elf_bss_size t' = p_memsz elf_F (phdr_at elf_F i) - p_filesz elf_F (phdr_at elf_F i)"
    using load_places_segments [OF elf_opened elf_fits_sample refl, of no_statics] by blast
  have "loads elf_F 0" "has_bss elf_F 0"
    by (simp_all add: loads_def has_bss_def elf_phdr)
  moreover have "0xA8002001 \<notin> locals (local_at elf_platform) \<union> table_span elf_F"
    "0xA8002004 \<notin> locals (local_at elf_platform) \<union> table_span elf_F"
    by (simp_all add: elf_locals elf_table span_nat)
  moreover have "0xA8002004 \<notin> seg_span elf_F 0"
    by (simp add: seg_span_def elf_phdr elf_kseg1 span_nat)
  moreover have "elf_F 205 = 0xad" "mem elf_io a = 0" for a
    by (simp_all add: elf_eval elf_io_def sample_io_def)
  ultimately show ?thesis
    using r on [rule_format, of 0 1 "0xA8002001"] off [rule_format, of "0xA8002004"] bss [rule_format, of 0]
    by (auto simp: elf_fields elf_phdr elf_kseg1)
qed

lemma symbols_resolve_witness:
  "\<exists>s' t'. load_fd elf_platform 2 (elf_io, no_statics) = Some (0, Some 0x88002000, s', t') \<and>
     kern_sym (cstr ''intr'') (mem s') t' = Some 0x88002000 \<and> kern_sym (cstr ''spl0'') (mem s') t' = Some 0"
proof -
  have y: "sym_at 164 0 = 164" "sym_at 164 (Suc 0) = 180" "unat (32 div sizeof_sym) = 2"
    by (simp_all add: sym_at_def sizeof_sym_def)
  have n: "st_name elf_F 164 = 0" "st_name elf_F 180 = 1" "st_value elf_F 164 = 0" "st_value elf_F 180 = 0x88002000"
    "st_info elf_F 180 = 0x12"
    by (simp_all add: st_name_def st_value_def st_info_def elf_eval)
  have "names_ok elf_F"
    by (simp add: names_ok_def elf_symbols_of y n two elf_eval)
  moreover have "locals (local_at elf_platform) \<inter> table_span elf_F = {}"
    by (simp add: elf_locals elf_table Int_Un_distrib Int_Un_distrib2 span_fixed)
  moreover have "file_sym elf_F ''intr'' = 0x88002000" "file_sym elf_F ''spl0'' = 0"
    by (simp_all add: file_sym_def elf_symbols_of y n two usable_sym_def ELF32_ST_BIND_def
        STB_GLOBAL_def STB_WEAK_def cstr_def elf_eval)
  ultimately show ?thesis
    using symbols_resolve [OF elf_opened elf_fits_sample refl elf_is_elf(2), of no_statics]
    by (auto simp: elf_symbols_of elf_fields)
qed



section \<open>The volume directory\<close>

text \<open>The name of an entry is its eight characters up to the first NUL, if there is one.\<close>

definition dir_name :: "bootdisk \<Rightarrow> nat \<Rightarrow> string" where
  "dir_name dev i = str_of (mem_str (disk_mem dev) (vh_vd 0 i) VDNAMESIZE)"

definition dir_entry :: "bootdisk \<Rightarrow> string \<Rightarrow> nat option" where
  "dir_entry dev f = List.find (\<lambda>i. dir_name dev i \<noteq> [] \<and> dir_name dev i = f) [0..<NVDIR]"

definition dir_lbn :: "bootdisk \<Rightarrow> nat \<Rightarrow> u32" where
  "dir_lbn dev i = ld32 (disk_mem dev) (vh_vd 0 i + 8)"

lemma vd_match_run:
  "nulfree f \<Longrightarrow> length b = n \<Longrightarrow> vd_match n (cstr f) b = Some (f = str_of b)"
proof (induction n arbitrary: f b)
  case 0
  then show ?case
    by (cases f) (auto simp: cstr_def str_of_def rd_def)
next
  case (Suc n)
  then obtain y b' where b: "b = y # b'" "length b' = n"
    by (auto simp: length_Suc_conv)
  show ?case
  proof (cases f)
    case Nil
    then show ?thesis
      by (auto simp: b cstr_def str_of_Cons rd_def)
  next
    case (Cons x f')
    then show ?thesis
      using Suc.IH [of f' b'] Suc.prems(1) by (auto simp: b cstr_def str_of_Cons rd_def)
  qed
qed

lemma mem_str_eq:
  assumes "\<forall>k<n. m (a + of_nat k) = m' (b + of_nat k)"
  shows "mem_str m a n = mem_str m' b n"
  using assms by (simp add: mem_str_def)

lemma mem_str_length [simp]: "length (mem_str m a n) = n"
  by (simp add: mem_str_def)

lemma hd_NUL: "xs \<noteq> [] \<Longrightarrow> hd xs = NUL \<longleftrightarrow> str_of xs = []"
  by (cases xs) (simp_all add: str_of_Cons)

lemma find_vd_run:
  assumes "nulfree f" "\<forall>i \<in> set is. mem_str m (vh_vd vh i) VDNAMESIZE = mem_str (disk_mem dev) (vh_vd 0 i) VDNAMESIZE"
  shows "find_vd is (cstr f) m vh = Some (List.find (\<lambda>i. dir_name dev i \<noteq> [] \<and> dir_name dev i = f) is)"
  using assms(2)
proof (induction "is")
  case (Cons i "is")
  have "mem_str (disk_mem dev) (vh_vd 0 i) VDNAMESIZE \<noteq> []"
    by (simp add: mem_str_def VDNAMESIZE_def)
  note h = hd_NUL [OF this]
  show ?case
    using Cons vd_match_run [OF assms(1), of "mem_str (disk_mem dev) (vh_vd 0 i) VDNAMESIZE" VDNAMESIZE]
    by (simp add: h dir_name_def Let_def)
qed simp

lemma with_disk_copy: "n \<le> 2 ^ 32 \<Longrightarrow> copy_of (with_disk dev off n p m) p n (disk_mem dev) off"
  by (auto simp: copy_of_def with_disk_def disk_mem_def unat_of_nat_32)

lemma vd_in_memory:
  assumes "copy_of m vh 512 (disk_mem dev) 0" "i < NVDIR"
  shows "mem_str m (vh_vd vh i) VDNAMESIZE = mem_str (disk_mem dev) (vh_vd 0 i) VDNAMESIZE"
    "vd_lbn m vh i = dir_lbn dev i"
proof -
  have a: "vh_vd vh i + of_nat k = vh + of_nat (72 + 16 * i + k)" "vh_vd 0 i + of_nat k = 0 + of_nat (72 + 16 * i + k)"
    for k
    by (simp_all add: vh_vd_def)
  have "m (vh_vd vh i + of_nat k) = disk_mem dev (vh_vd 0 i + of_nat k)" if "k < 8" for k
    unfolding a using byte_copy [OF assms(1), of "72 + 16 * i + k"] assms(2) that by (simp add: NVDIR_def)
  then show "mem_str m (vh_vd vh i) VDNAMESIZE = mem_str (disk_mem dev) (vh_vd 0 i) VDNAMESIZE"
    by (intro mem_str_eq) (simp add: VDNAMESIZE_def)
  show "vd_lbn m vh i = dir_lbn dev i"
    using ld32_copy [OF assms(1), of "72 + 16 * i + 8"] a [of 8] assms(2)
    by (simp add: vd_lbn_def dir_lbn_def NVDIR_def algebra_simps)
qed

lemma find_vd_in_memory:
  assumes "copy_of m vh 512 (disk_mem dev) 0" "nulfree f"
  shows "find_vd [0..<NVDIR] (cstr f) m vh = Some (dir_entry dev f)"
  unfolding dir_entry_def by (rule find_vd_run [OF assms(2)]) (use vd_in_memory(1) [OF assms(1)] in simp)

lemma dir_entry_range: "dir_entry dev f = Some i \<Longrightarrow> i < NVDIR"
  by (auto simp: dir_entry_def find_Some_iff)

section \<open>Booting from the directory\<close>

lemma mem_set_run:
  assumes "n \<le> 2 ^ 32"
  shows "mem_set p v n m = (\<lambda>a. if a \<in> span p n then v else m a)"
  using assms
proof (induction n arbitrary: p m)
  case (Suc n)
  have "unat (a - (p + 1)) < n \<longleftrightarrow> unat (a - p) < Suc n \<and> a \<noteq> p" if "n < 2 ^ 32" for a
  proof (cases "a = p")
    case True
    have "unat (- 1 :: u32) = 2 ^ 32 - 1"
      by (simp add: unsigned_minus_1_eq_mask mask_eq_exp_minus_1)
    with True that show ?thesis
      by simp
  next
    case False
    then have "unat (a - p) = Suc (unat (a - p - 1))"
      by (simp add: unat_minus_one unat_gt_0)
    with False show ?thesis
      by (simp add: algebra_simps)
  qed
  then show ?case
    using Suc by (auto simp: span_def fun_eq_iff)
qed simp

lemma dev_path_digits: "c < 10 \<Longrightarrow> u < 10 \<Longrightarrow> dev_path (of_nat c) (of_nat u) = cstr (disk_path c u 8 [])"
proof -
  have "char_of (56 :: nat) = CHR ''8''"
    by (simp add: char_of_eq)
  then show "c < 10 \<Longrightarrow> u < 10 \<Longrightarrow> ?thesis"
    by (simp add: dev_path_def disk_path_def cstr_def dec.simps dec_char_def sint_of_nat_32 char_of_int_def
      nat_add_distrib)
qed

lemma free_fd_again:
  assumes "free_fd is s = Some i" "\<forall>j. j \<noteq> i \<longrightarrow> fd_table s' ! j = fd_table s ! j"
    and "fd_Type (fd_table s' ! i) = FD_TYPE_UNUSED"
  shows "free_fd is s' = Some i"
  using assms by (induction "is") (auto split: if_splits)

lemma Close_disk:
  assumes "disk_fd i start s"
  shows "Close pl i s = Some (0, set_fd i (\<lambda>e. e\<lparr>fd_Type := FD_TYPE_UNUSED, xfs_data := False\<rparr>) s)"
  using assms by (simp add: Close_def disk_fd_def)



lemma mem_outside:
  "a \<notin> span p n \<Longrightarrow> with_disk dev off n p m a = m a"
  by (simp add: with_disk_def span_def)

lemma load_from_directory_run:
  assumes "io_ok s" "free_fd [2..<MAX_FDS] s = Some i" "readable (disk pl) 0 512" "has_header (disk pl)"
    and "c < 10" "u < 10" "nulfree f" "f \<noteq> []"
  shows "\<exists>s1 s2. load_from_directory pl (of_nat c) (of_nat u) (Some (cstr f)) (s, t) =
      (case dir_entry (disk pl) f of
         None \<Rightarrow> Some (6, None, Some (cstr f), s1, t)
       | Some j \<Rightarrow> do {
           (rc, entry, s', t') \<leftarrow> load_fd pl i (s2 j, t);
           (_, s') \<leftarrow> Close pl i s';
           Some (rc, entry, Some (cstr f), s', t') }) \<and>
    (\<forall>j. disk_fd i (dir_lbn (disk pl) j * 512) (s2 j) \<and> fd_pos i (s2 j) = 0 \<and>
      (\<forall>a. a \<notin> span (vh_buf (local_at pl)) 512 \<union> span (exec_vh (local_at pl)) 512 \<longrightarrow> mem (s2 j) a = mem s a))"
proof -
  let ?dev = "disk pl"
  let ?vh = "exec_vh (local_at pl)"
  note i = free_fd_range [OF assms(2)]
  define s0 where "s0 = set_fd i (opened_disk ?dev c u 8) (s\<lparr>mem := with_disk ?dev 0 512 (vh_buf (local_at pl)) (mem s)\<rparr>)"
  define m where "m = with_disk ?dev 0 512 ?vh (mem s0)"
  define s1 where "s1 = set_fd i (\<lambda>e. e\<lparr>fd_Type := FD_TYPE_UNUSED, xfs_data := False\<rparr>) (s0\<lparr>mem := m\<rparr>)"
  define s2 where "s2 = (\<lambda>j. raw_fd (of_nat c) (of_nat u) (dir_lbn ?dev j) (vd_nbytes m ?vh j) i s1)"
  have l: "i < length (fd_table s)" "length (fd_table s) = MAX_FDS" "2 \<le> i" "i < MAX_FDS"
    using i assms(1) by (auto simp: io_ok_def)
  have p: "Open pl (Some (dev_path (of_nat c) (of_nat u))) True s = Some (0, Some i, s0)"
    using Open_disk [OF assms(1,3), of 8 c u "[]"] assms(2) by (simp add: dev_path_digits assms(5,6) s0_def)
  have "readable ?dev 0 (unat (512 :: u32))"
    using assms(3) by simp
  from bd_read_bytes_all [OF this, of ?vh "mem s0"] have r: "bd_read_bytes ?dev 0 ?vh 512 (mem s0) = Some (0, m)"
    by (simp add: m_def)
  have d0: "disk_fd i (part_start (fd_table s0 ! i)) (s0\<lparr>mem := m\<rparr>)"
    using assms(1) l by (simp add: disk_fd_def s0_def opened_disk_def io_ok_set_fd io_ok_def)
  have c0: "Close pl i (s0\<lparr>mem := m\<rparr>) = Some (0, s1)"
    using Close_disk [OF d0] by (simp add: s1_def)
  have vm: "vh_magic m ?vh = VHMAGIC"
    using vh_magic_with_disk [of ?dev ?vh "mem s0"] assms(4) by (simp add: m_def)
  have cm: "copy_of m ?vh 512 (disk_mem ?dev) 0"
    unfolding m_def by (rule with_disk_copy) simp
  have n0: "rd (cstr f) 0 = Some (hd f)" "hd f \<noteq> NUL"
    using assms(7,8) by (cases f; auto simp: cstr_def rd_def)+
  have o1: "fd_table s1 ! j = fd_table s ! j" if "j \<noteq> i" for j
    using that by (simp add: s1_def s0_def)
  have t1: "fd_Type (fd_table s1 ! i) = FD_TYPE_UNUSED" "length (fd_table s1) = MAX_FDS" "io_ok s1"
    using assms(1) l by (simp_all add: s1_def s0_def io_ok_def)
  have f1: "free_fd [2..<MAX_FDS] s1 = Some i"
    using free_fd_again [OF assms(2), of s1] o1 t1(1) by blast
  have j: "vd_lbn m ?vh j = dir_lbn ?dev j" if "dir_entry ?dev f = Some j" for j
    using vd_in_memory(2) [OF cm] dir_entry_range [OF that] by blast
  have run: "load_from_directory pl (of_nat c) (of_nat u) (Some (cstr f)) (s, t) =
      (case dir_entry (disk pl) f of
         None \<Rightarrow> Some (6, None, Some (cstr f), s1, t)
       | Some j \<Rightarrow> do {
           (rc, entry, s', t') \<leftarrow> load_fd pl i (s2 j, t);
           (_, s') \<leftarrow> Close pl i s';
           Some (rc, entry, Some (cstr f), s', t') })"
    by (auto simp: load_from_directory_def n0 p r vm c0 f1 find_vd_in_memory [OF cm assms(7)] Let_def j s2_def
        split: option.split)
  have "disk_fd i (dir_lbn ?dev j * 512) (s2 j)" "fd_pos i (s2 j) = 0" for j
    using t1 l by (simp_all add: s2_def raw_fd_def disk_fd_def fd_pos_def io_ok_set_fd)
  moreover have "mem (s2 j) a = mem s a" if "a \<notin> span (vh_buf (local_at pl)) 512 \<union> span ?vh 512" for j a
    using that by (simp add: s2_def raw_fd_def s1_def m_def mem_outside s0_def)
  ultimately show ?thesis
    using run by blast
qed

text \<open>C3: booting a file of the volume directory, from the path to the jump.  For a path
\<open>dksc(c,u,p)name\<close> with single digits, a readable header and a free descriptor, a name that
is not in the directory gives 6.  Otherwise the program at the block of the first entry of
that name is loaded, and when it is a well-formed ELF program \<open>Execute\<close> becomes ready to
jump to its entry point, with its name and the environment as arguments, and memory outside
the firmware's own buffers is as it was with the segments and the symbol table in place and
the recorded uninitialised part cleared.\<close>

theorem Execute_boots_file:
  assumes "io_ok s" "free_fd [2..<MAX_FDS] s = Some i" "readable (disk pl) 0 512" "has_header (disk pl)"
    and "c < 10" "u < 10" "nulfree f" "f \<noteq> []" "hd f \<noteq> CHR ''/''" "build_envp environ = Some envp"
  shows "case dir_entry (disk pl) f of
      None \<Rightarrow> \<exists>s'. Execute pl (Some (cstr (disk_path c u p f))) environ sr (s, t) = Some (Returned 6, s', t)
    | Some j \<Rightarrow> (let contents = disk_contents (disk pl) (dir_lbn (disk pl) j * 512); F = file_mem contents in
        elf_fits contents (local_at pl) \<longrightarrow>
        (\<exists>s' t'. Execute pl (Some (cstr (disk_path c u p f))) environ sr (s, t) =
            Some (Ready (e_entry F 0) [cstr f] envp (jump_sr (e_entry F 0) sr), s', t') \<and>
          t' = elf_statics F t \<and>
          (\<forall>a. a \<notin> locals (local_at pl) \<union> span (vh_buf (local_at pl)) 512 \<union> span (exec_vh (local_at pl)) 512 \<longrightarrow>
            mem s' a = (if a \<in> span (to_kseg1 (elf_bss_start t')) (unat (elf_bss_size t')) then 0
                        else elf_loaded F (mem s) a))))"
proof -
  obtain s1 s2 where r: "load_from_directory pl (of_nat c) (of_nat u) (Some (cstr f)) (s, t) =
      (case dir_entry (disk pl) f of
         None \<Rightarrow> Some (6, None, Some (cstr f), s1, t)
       | Some j \<Rightarrow> do {
           (rc, entry, s', t') \<leftarrow> load_fd pl i (s2 j, t);
           (_, s') \<leftarrow> Close pl i s';
           Some (rc, entry, Some (cstr f), s', t') })"
    and s2: "\<And>j. disk_fd i (dir_lbn (disk pl) j * 512) (s2 j)" "\<And>j. fd_pos i (s2 j) = 0"
      "\<And>j a. a \<notin> span (vh_buf (local_at pl)) 512 \<union> span (exec_vh (local_at pl)) 512 \<Longrightarrow> mem (s2 j) a = mem s a"
    using load_from_directory_run [OF assms(1-8)] by blast
  have e: "ensure_fd_table s = s"
    using assms(1) by (simp add: ensure_fd_table_def io_ok_def)
  have sl: "rd (cstr f) 0 = Some (hd f)"
    using assms(8) by (cases f) (simp_all add: cstr_def rd_def)
  have x: "Execute pl (Some (cstr (disk_path c u p f))) environ sr (s, t) =
      do {
        (rc, entry, filename, s, t) \<leftarrow> load_from_directory pl (of_nat c) (of_nat u) (Some (cstr f)) (s, t);
        if rc \<noteq> 0 then Some (Returned rc, s, t)
        else do {
          entry \<leftarrow> entry;
          let argv = [case filename of None \<Rightarrow> cstr ''unix'' | Some f \<Rightarrow> f];
          Some (Ready entry argv envp (jump_sr entry sr), zero_bss t s, t) } }"
    by (simp add: Execute_def e sl assms(8-10) parse_disk_path_run extract_filename_run [OF assms(7)] cong: if_cong)
  show ?thesis
  proof (cases "dir_entry (disk pl) f")
    case None
    then show ?thesis
      by (simp add: x r)
  next
    case (Some j)
    let ?C = "disk_contents (disk pl) (dir_lbn (disk pl) j * 512)"
    let ?F = "file_mem ?C"
    have "\<exists>s' t'. Execute pl (Some (cstr (disk_path c u p f))) environ sr (s, t) =
            Some (Ready (e_entry ?F 0) [cstr f] envp (jump_sr (e_entry ?F 0) sr), s', t') \<and>
          t' = elf_statics ?F t \<and>
          (\<forall>a. a \<notin> locals (local_at pl) \<union> span (vh_buf (local_at pl)) 512 \<union> span (exec_vh (local_at pl)) 512 \<longrightarrow>
            mem s' a = (if a \<in> span (to_kseg1 (elf_bss_start t')) (unat (elf_bss_size t')) then 0
                        else elf_loaded ?F (mem s) a))"
      if fit: "elf_fits ?C (local_at pl)"
    proof -
      obtain s3 where s3: "load_fd pl i (s2 j, t) = Some (0, Some (e_entry ?F 0), s3, elf_statics ?F t)"
        "disk_fd i (dir_lbn (disk pl) j * 512) s3"
        "\<And>a. a \<notin> locals (local_at pl) \<Longrightarrow> mem s3 a = elf_loaded ?F (mem (s2 j)) a"
        using disk_file.load_elf_run [OF s2(1,2) fit, of t] by (auto simp: load_fd_def)
      have k: "elf_loaded ?F (mem (s2 j)) a = elf_loaded ?F (mem s) a"
        if "a \<notin> span (vh_buf (local_at pl)) 512 \<union> span (exec_vh (local_at pl)) 512" for a
        using s2(3) [OF that] image_cong [of "mem (s2 j)" a "mem s" ?F]
          with_symbols_cong [of "elf_image ?F (mem (s2 j))" a "elf_image ?F (mem s)" ?F]
        by (auto simp: elf_loaded_def elf_image_def)
      let ?s4 = "set_fd i (\<lambda>e. e\<lparr>fd_Type := FD_TYPE_UNUSED, xfs_data := False\<rparr>) s3"
      have run: "Execute pl (Some (cstr (disk_path c u p f))) environ sr (s, t) =
          Some (Ready (e_entry ?F 0) [cstr f] envp (jump_sr (e_entry ?F 0) sr),
            zero_bss (elf_statics ?F t) ?s4, elf_statics ?F t)"
        by (simp add: x r Some s3(1) Close_disk [OF s3(2)])
      have z: "mem (zero_bss t' ?s4) = (\<lambda>a. if a \<in> span (to_kseg1 (elf_bss_start t')) (unat (elf_bss_size t')) then 0
          else mem s3 a)" for t'
        using all_u32_sizes by (auto simp: zero_bss_def mem_set_run word_gt_0)
      show ?thesis
        using s3(3) k unfolding run
        by (intro exI [of _ "zero_bss (elf_statics ?F t) ?s4"] exI [of _ "elf_statics ?F t"]) (simp add: z)
    qed
    then show ?thesis
      by (simp add: Some Let_def)
  qed
qed



text \<open>A disk with a header and the sample program as the file \<open>sash\<close> at block 1.\<close>

definition sample_header :: "u8 list" where
  "sample_header = be32 0x0be5a941 @ replicate 68 0 @ [0x73, 0x61, 0x73, 0x68, 0, 0, 0, 0] @ be32 1 @ be32 208"

definition boot_disk :: bootdisk where
  "boot_disk k = ([BD_STATUS_READY], if k = 0 then sample_header @ replicate 424 0 else map elf_byte [0..<512])"

definition boot_platform :: "(unit, unit) platform" where
  "boot_platform = sample_platform\<lparr>disk := boot_disk\<rparr>"

abbreviation boot_C :: "u32 \<Rightarrow> u8 option" where
  "boot_C \<equiv> disk_contents boot_disk 512"

abbreviation boot_F :: memory where
  "boot_F \<equiv> file_mem boot_C"

lemma boot_sector: "bd_read_sector boot_disk k = Some (Some (snd (boot_disk k)))"
  by (simp add: bd_read_sector_def boot_disk_def BD_STATUS_READY_def BD_STATUS_ERROR_def sample_header_def be32_def)

lemma boot_readable: "disk_byte boot_disk a \<noteq> None"
  by (simp add: disk_byte_def boot_sector)

lemma boot_present: "present boot_C off n"
  using boot_readable by (simp add: present_def disk_contents_def)

lemma boot_copy: "copy_of boot_F 0 512 elf_F 0"
  unfolding copy_of_def
proof (intro allI impI)
  fix k :: nat
  assume k: "k < 512"
  have "unat (512 + of_nat k :: u32) = 512 + k" "unat (of_nat k :: u32) = k"
    using k unat_of_nat_32 [of "512 + k"] by (simp_all add: unat_of_nat_32)
  then have "(512 + of_nat k :: u32) div 512 = 1" "unat ((512 + of_nat k :: u32) mod 512) = k"
    "unat ((of_nat k :: u32) mod 512) = k"
    using k by (simp_all add: word_unat_eq_iff unat_div unat_mod)
  then have "boot_F (of_nat k) = elf_byte k" "elf_F (of_nat k) = elf_byte k"
    using k elf_F_byte [of "of_nat k"]
    by (simp_all add: file_mem_def [of boot_C] disk_contents_def disk_byte_def boot_sector boot_disk_def)
  then show "boot_F (0 + of_nat k) = elf_F (0 + of_nat k)"
    by simp
qed

lemma copy_of_part: "copy_of m 0 n F 0 \<Longrightarrow> k + j \<le> n \<Longrightarrow> copy_of m (of_nat k) j F (of_nat k)"
  by (auto simp: copy_of_def simp flip: of_nat_add)

lemmas boot_fields =
  elf_header_copy [OF boot_copy, simplified elf_fields] elf_ident_copy [OF boot_copy, simplified]

lemma boot_phdr:
  "phdr_at boot_F 0 = 52" "p_type boot_F 52 = PT_LOAD" "p_offset boot_F 52 = 204" "p_vaddr boot_F 52 = 0x88002000"
  "p_filesz boot_F 52 = 4" "p_memsz boot_F 52 = 12"
proof -
  have "copy_of boot_F (of_nat 52) 32 elf_F (of_nat 52)"
    by (rule copy_of_part [OF boot_copy]) simp
  then have "copy_of boot_F 52 32 elf_F 52"
    by simp
  from phdr_copy [OF this] show "phdr_at boot_F 0 = 52" "p_type boot_F 52 = PT_LOAD" "p_offset boot_F 52 = 204"
    "p_vaddr boot_F 52 = 0x88002000" "p_filesz boot_F 52 = 4" "p_memsz boot_F 52 = 12"
    by (simp_all add: phdr_at_def boot_fields elf_phdr)
qed

lemma boot_shdr:
  "shdr_at boot_F 0 = 84" "shdr_at boot_F (Suc 0) = 124" "sh_type boot_F 84 = SHT_SYMTAB" "sh_offset boot_F 84 = 164"
  "sh_size boot_F 84 = 32" "sh_link boot_F 84 = 1" "sh_type boot_F 124 = SHT_STRTAB" "sh_offset boot_F 124 = 196"
  "sh_size boot_F 124 = 6"
proof -
  have "copy_of boot_F (of_nat 84) 40 elf_F (of_nat 84)" "copy_of boot_F (of_nat 124) 40 elf_F (of_nat 124)"
    by (rule copy_of_part [OF boot_copy]; simp)+
  then have "copy_of boot_F 84 40 elf_F 84" "copy_of boot_F 124 40 elf_F 124"
    by simp_all
  from shdr_copy [OF this(1)] shdr_copy [OF this(2)]
  show "shdr_at boot_F 0 = 84" "shdr_at boot_F (Suc 0) = 124" "sh_type boot_F 84 = SHT_SYMTAB"
    "sh_offset boot_F 84 = 164" "sh_size boot_F 84 = 32" "sh_link boot_F 84 = 1" "sh_type boot_F 124 = SHT_STRTAB"
    "sh_offset boot_F 124 = 196" "sh_size boot_F 124 = 6"
    by (simp_all add: shdr_at_def boot_fields elf_shdr)
qed

lemma boot_symbols: "symbols_of boot_F = Some (164, 32, 196, 6)" "has_sections boot_F"
  by (simp_all add: symbols_of_def symtab_index_def boot_fields boot_shdr two has_sections_def)

lemma boot_fits: "elf_fits boot_C (local_at boot_platform)"
proof -
  have "segments_fit boot_C 0x1400 0x1600"
    by (simp add: segments_fit_def boot_present boot_fields boot_phdr elf_kseg1 span_fixed)
  moreover have "symbols_fit boot_C 0x1400 0x1620"
    by (simp add: symbols_fit_def boot_present boot_symbols elf_str_load span_fixed)
  moreover have "is_elf boot_F"
    using elf_is_elf(1) by (simp add: is_elf_def boot_fields)
  ultimately show ?thesis
    by (simp add: elf_fits_def boot_platform_def sample_platform_def boot_present)
qed

lemma boot_header_byte:
  "unat a < 512 \<Longrightarrow> disk_mem boot_disk a = (if unat a < 88 then sample_header ! unat a else 0)"
proof -
  assume a: "unat a < 512"
  then have "a div 512 = 0" "unat (a mod 512) = unat a"
    by (simp_all add: word_unat_eq_iff unat_div unat_mod)
  moreover have "length sample_header = 88"
    by (simp add: sample_header_def be32_def)
  ultimately show ?thesis
    using a by (simp add: disk_mem_def disk_byte_def boot_sector boot_disk_def nth_append)
qed

lemma boot_directory: "has_header boot_disk" "dir_entry boot_disk ''sash'' = Some 0" "dir_lbn boot_disk 0 = 1"
proof -
  note e = boot_header_byte sample_header_def be32_def nth_append
  show "has_header boot_disk" "dir_lbn boot_disk 0 = 1"
    by (simp_all add: has_header_def vh_magic_def VHMAGIC_def ld32_def e dir_lbn_def vh_vd_def)
  have "char_of (115 :: nat) = CHR ''s''" "char_of (97 :: nat) = CHR ''a''" "char_of (104 :: nat) = CHR ''h''"
    "char_of (0 :: nat) = NUL"
    by (simp_all add: char_of_eq)
  then have "dir_name boot_disk 0 = ''sash''"
    by (simp add: dir_name_def mem_str_def VDNAMESIZE_def vh_vd_def e upt_rec str_of_def)
  then show "dir_entry boot_disk ''sash'' = Some 0"
    by (simp add: dir_entry_def NVDIR_def upt_rec)
qed

lemma Execute_boots_file_witness:
  "\<exists>s' t'. Execute boot_platform (Some (cstr (disk_path 0 1 8 ''sash''))) None 0x40000004 (sample_io, no_statics) =
      Some (Ready 0x88002000 [cstr ''sash''] (the (build_envp None)) 0x40000000, s', t') \<and>
    mem s' 0xA8002004 = 0"
proof -
  have free: "free_fd [2..<MAX_FDS] sample_io = Some 3"
    by (simp add: sample_io_def sample_fd_def MAX_FDS_def upt_rec)
  have d: "disk boot_platform = boot_disk"
    by (simp add: boot_platform_def)
  have rb: "readable (disk boot_platform) 0 512"
    using boot_readable by (simp add: readable_def d)
  have env: "build_envp None = Some (the (build_envp None))"
    by (simp add: build_envp_def)
  have sr: "jump_sr 0x88002000 0x40000004 = 0x40000000"
    by (simp add: jump_sr_def)
  have fl: "(dir_lbn boot_disk 0 * 512) = 512"
    by (simp add: boot_directory)
  obtain s' t' where x: "Execute boot_platform (Some (cstr (disk_path 0 1 8 ''sash''))) None 0x40000004 (sample_io, no_statics) =
      Some (Ready (e_entry boot_F 0) [cstr ''sash''] (the (build_envp None)) (jump_sr (e_entry boot_F 0) 0x40000004), s', t')"
    and t: "t' = elf_statics boot_F no_statics"
    and m: "\<And>a. a \<notin> locals (local_at boot_platform) \<union> span (vh_buf (local_at boot_platform)) 512 \<union>
        span (exec_vh (local_at boot_platform)) 512 \<Longrightarrow>
      mem s' a = (if a \<in> span (to_kseg1 (elf_bss_start t')) (unat (elf_bss_size t')) then 0
                  else elf_loaded boot_F (mem sample_io) a)"
    using Execute_boots_file [OF sample_disk_fd(3) free rb, of 0 1 "''sash''" None "the (build_envp None)" 8
        "0x40000004" no_statics] env boot_fits
    by (auto simp: d boot_directory Let_def)
  have "elf_bss_start t' = 0x88002004" "elf_bss_size t' = 8"
    by (simp_all add: t elf_bss_def boot_fields with_bss_def boot_phdr Let_def)
  then have "mem s' 0xA8002004 = 0"
    by (subst m) (simp_all add: locals_def boot_platform_def sample_platform_def span_nat to_kseg1_def)
  then show ?thesis
    using x by (simp add: boot_fields sr)
qed



section \<open>The kernel's environment as a list\<close>

definition starts :: "string \<Rightarrow> string \<Rightarrow> bool" where
  "starts p v \<longleftrightarrow> take (length p) v = p"

lemma at_prefix_run:
  assumes "nulfree p" "nulfree v"
  shows "\<exists>r. at_prefix p (cstr v) = Some r \<and> (r \<noteq> None \<longleftrightarrow> starts p v)"
  using assms
proof (induction p arbitrary: v)
  case Nil
  show ?case
    by (simp add: starts_def)
next
  case (Cons c p)
  show ?case
  proof (cases v)
    case Nil
    then show ?thesis
      using Cons.prems by (simp add: starts_def cstr_def)
  next
    case (Cons d w)
    then show ?thesis
      using Cons.IH [of w] Cons.prems by (auto simp: starts_def cstr_def)
  qed
qed

text \<open>The variables that are copied, and whether one of them begins in a given way.\<close>

definition kept :: "string list \<Rightarrow> string list" where
  "kept vars = filter (\<lambda>v. \<not> starts ''console='' v) vars"

definition defaults :: "string list \<Rightarrow> string list" where
  "defaults vars =
     [''console=d''] @ (if \<exists>v \<in> set vars. starts ''eaddr='' v then [] else [''eaddr=08:00:69:aa:bb:cc'']) @
     (if \<exists>v \<in> set vars. starts ''ConsoleI'' v then [] else [''ConsoleIn=serial(0)'']) @
     (if \<exists>v \<in> set vars. starts ''ConsoleO'' v then [] else [''ConsoleOut=serial(0)'']) @
     [''OSLoadPartition=dksc(0,1,0)'', ''root=dks0d1s0'', ''SystemPartition=dksc(0,1,8)'',
      ''OSLoadFilename=unix'', ''showconfig=1'']"

lemma copy_env_run:
  assumes "\<forall>v \<in> set vars. nulfree v" "length ke \<le> 60"
  shows "\<exists>a i out. copy_env (map cstr vars) ke (a0, i0, o0) = Some (take 60 (ke @ map cstr (kept vars)), a, i, out) \<and>
    (length ke + length (kept vars) < 60 \<longrightarrow>
      a = (a0 \<or> (\<exists>v \<in> set vars. starts ''eaddr='' v)) \<and> i = (i0 \<or> (\<exists>v \<in> set vars. starts ''ConsoleI'' v)) \<and>
      out = (o0 \<or> (\<exists>v \<in> set vars. starts ''ConsoleO'' v)))"
  using assms
proof (induction vars arbitrary: ke a0 i0 o0)
  case Nil
  then show ?case
    by (simp add: kept_def)
next
  case (Cons v vars)
  show ?case
  proof (cases "length ke < 60")
    case False
    with Cons.prems(2) show ?thesis
      by simp
  next
    case True
    have n: "nulfree ''eaddr=''" "nulfree ''ConsoleI''" "nulfree ''ConsoleO''" "nulfree ''console=''" "nulfree v"
      using Cons.prems(1) by simp_all
    obtain ra where a: "at_prefix ''eaddr='' (cstr v) = Some ra" "ra \<noteq> None \<longleftrightarrow> starts ''eaddr='' v"
      using at_prefix_run [OF n(1,5)] by blast
    obtain ri where i: "at_prefix ''ConsoleI'' (cstr v) = Some ri" "ri \<noteq> None \<longleftrightarrow> starts ''ConsoleI'' v"
      using at_prefix_run [OF n(2,5)] by blast
    obtain ro where out: "at_prefix ''ConsoleO'' (cstr v) = Some ro" "ro \<noteq> None \<longleftrightarrow> starts ''ConsoleO'' v"
      using at_prefix_run [OF n(3,5)] by blast
    obtain rc where c: "at_prefix ''console='' (cstr v) = Some rc" "rc \<noteq> None \<longleftrightarrow> starts ''console='' v"
      using at_prefix_run [OF n(4,5)] by blast
    let ?ke = "if starts ''console='' v then ke else ke @ [cstr v]"
    have "copy_env (map cstr (v # vars)) ke (a0, i0, o0) = copy_env (map cstr vars) ?ke
        (a0 \<or> starts ''eaddr='' v, i0 \<or> starts ''ConsoleI'' v, o0 \<or> starts ''ConsoleO'' v)"
      by (simp only: list.map copy_env.simps a(1) i(1) out(1) c(1) a(2) i(2) out(2) c(2) bind.bind_lunit True if_True)
    moreover have "length ?ke \<le> 60" "\<forall>v \<in> set vars. nulfree v"
      "?ke @ map cstr (kept vars) = ke @ map cstr (kept (v # vars))"
      "length ?ke + length (kept vars) = length ke + length (kept (v # vars))"
      using True Cons.prems(1) by (auto simp: kept_def)
    ultimately show ?thesis
      using Cons.IH [of ?ke "a0 \<or> starts ''eaddr='' v" "i0 \<or> starts ''ConsoleI'' v" "o0 \<or> starts ''ConsoleO'' v"]
      by (auto simp del: copy_env.simps)
  qed
qed

text \<open>As many as 60 entries of a list.\<close>

definition first60 :: "string list \<Rightarrow> string list" where
  "first60 l = map cstr (take 60 l)"

lemma add_var_first60: "add_var b v (first60 l) = first60 (l @ (if b then [] else [v]))"
  by (cases "length l < 60") (simp_all add: add_var_def first60_def)

text \<open>C32: the environment the kernel gets.  At most 60 entries of the firmware's environment
that do not set \<open>console\<close> are copied in their order.  When that leaves room, \<open>console=d\<close>
follows, then the network address and the two console variables the environment did not
have, then the five fixed settings, as far as 60 entries go.  With 60 entries or more the
kernel gets none of these, not even the console setting that is to be added always.\<close>

theorem kernel_environment:
  assumes "\<forall>v \<in> set vars. nulfree v"
  shows "build_envp (Some (map cstr vars)) =
    Some (map cstr (take 60 (if length (kept vars) < 60 then kept vars @ defaults vars else kept vars)))"
proof -
  obtain a i out where r: "copy_env (map cstr vars) [] (False, False, False) =
      Some (map cstr (take 60 (kept vars)), a, i, out)"
    and f: "length (kept vars) < 60 \<longrightarrow> a = (\<exists>v \<in> set vars. starts ''eaddr='' v) \<and>
      i = (\<exists>v \<in> set vars. starts ''ConsoleI'' v) \<and> out = (\<exists>v \<in> set vars. starts ''ConsoleO'' v)"
    using copy_env_run [OF assms, of "[]" False False False] by (auto simp: take_map)
  have "build_envp (Some (map cstr vars)) = Some (first60 (kept vars @ [''console=d''] @
      (if a then [] else [''eaddr=08:00:69:aa:bb:cc'']) @ (if i then [] else [''ConsoleIn=serial(0)'']) @
      (if out then [] else [''ConsoleOut=serial(0)'']) @
      [''OSLoadPartition=dksc(0,1,0)'', ''root=dks0d1s0'', ''SystemPartition=dksc(0,1,8)'',
       ''OSLoadFilename=unix'', ''showconfig=1'']))"
    by (simp add: build_envp_def r add_var_first60 Let_def flip: first60_def)
  moreover have "length (kept vars) < 60 \<Longrightarrow> first60 (kept vars @ [''console=d''] @
      (if a then [] else [''eaddr=08:00:69:aa:bb:cc'']) @ (if i then [] else [''ConsoleIn=serial(0)'']) @
      (if out then [] else [''ConsoleOut=serial(0)'']) @
      [''OSLoadPartition=dksc(0,1,0)'', ''root=dks0d1s0'', ''SystemPartition=dksc(0,1,8)'',
       ''OSLoadFilename=unix'', ''showconfig=1'']) = first60 (kept vars @ defaults vars)"
    using f by (simp add: defaults_def)
  moreover have "60 \<le> length (kept vars) \<Longrightarrow> first60 (kept vars @ x) = first60 (kept vars)" for x
    by (simp add: first60_def)
  ultimately show ?thesis
    by (auto simp: not_less simp flip: first60_def)
qed

lemma kernel_environment_witness:
  "build_envp (Some (map cstr [''console=g'', ''eaddr=08:00:69:00:00:01'', ''TimeZone=UTC''])) =
    Some (map cstr ([''eaddr=08:00:69:00:00:01'', ''TimeZone=UTC'', ''console=d'', ''ConsoleIn=serial(0)'',
      ''ConsoleOut=serial(0)'', ''OSLoadPartition=dksc(0,1,0)'', ''root=dks0d1s0'', ''SystemPartition=dksc(0,1,8)'',
      ''OSLoadFilename=unix'', ''showconfig=1'']))"
  using kernel_environment [of "[''console=g'', ''eaddr=08:00:69:00:00:01'', ''TimeZone=UTC'']"]
  by (simp add: kept_def starts_def defaults_def)



section \<open>The encoded instructions\<close>

text \<open>The fields of an instruction, and the values the two halves of an address load give.\<close>

definition i_op :: "u32 \<Rightarrow> u32" where "i_op w = drop_bit 26 w"
definition i_rs :: "u32 \<Rightarrow> u32" where "i_rs w = drop_bit 21 w AND 0x1f"
definition i_rt :: "u32 \<Rightarrow> u32" where "i_rt w = drop_bit 16 w AND 0x1f"
definition i_imm :: "u32 \<Rightarrow> u32" where "i_imm w = w AND 0xffff"
definition lui_value :: "u32 \<Rightarrow> u32" where "lui_value w = push_bit 16 (i_imm w)"
definition addiu_value :: "u32 \<Rightarrow> u32 \<Rightarrow> u32" where
  "addiu_value w src = src + (if bit w 15 then i_imm w - 0x10000 else i_imm w)"
definition jump_target :: "u32 \<Rightarrow> u32 \<Rightarrow> u32" where
  "jump_target w pc = (pc AND 0xf0000000) OR push_bit 2 (w AND 0x03ffffff)"

lemma u32_masks: "(0x1f :: u32) = mask 5" "(0xffff :: u32) = mask 16" "(0x03ffffff :: u32) = mask 26"
  by (simp_all add: mask_eq_exp_minus_1)

lemma small_bits: "unat (x :: u32) < 2 ^ k \<Longrightarrow> bit x n \<Longrightarrow> n < k"
proof -
  assume "unat x < 2 ^ k" "bit x n"
  then have "take_bit k x = x"
    by (metis take_bit_nat_eq_self unsigned_take_bit_eq word_unat_eq_iff)
  with \<open>bit x n\<close> show "n < k"
    by (metis bit_take_bit_iff)
qed

text \<open>Any instruction put together from its fields.\<close>

lemma fields_of:
  assumes "unat op < 64" "unat rs < 32" "unat rt < 32" "unat im < 65536"
    and "w = push_bit 26 op OR push_bit 21 rs OR push_bit 16 rt OR im"
  shows "i_op w = op" "i_rs w = rs" "i_rt w = rt" "i_imm w = im"
proof -
  have b: "bit op n \<Longrightarrow> n < 6" "bit rs n \<Longrightarrow> n < 5" "bit rt n \<Longrightarrow> n < 5" "bit im n \<Longrightarrow> n < 16" for n
    using small_bits [of op 6] small_bits [of rs 5] small_bits [of rt 5] small_bits [of im 16] assms by auto
  show "i_op w = op"
    by (rule bit_word_eqI) (auto simp: assms(5) i_op_def bit_simps dest: b)
  show "i_rs w = rs"
    by (rule bit_word_eqI) (auto simp: assms(5) i_rs_def u32_masks bit_simps dest: b)
  show "i_rt w = rt"
    by (rule bit_word_eqI) (auto simp: assms(5) i_rt_def u32_masks bit_simps dest: b)
  show "i_imm w = im"
    by (rule bit_word_eqI) (auto simp: assms(5) i_imm_def u32_masks bit_simps dest: b)
qed



lemma or_small: "unat (x :: u32) < 2 ^ k \<Longrightarrow> unat y < 2 ^ k \<Longrightarrow> unat (x OR y) < 2 ^ k"
proof -
  assume a: "unat x < 2 ^ k" "unat y < 2 ^ k"
  then have "take_bit k (unat x) = unat x" "take_bit k (unat y) = unat y"
    by (simp_all add: take_bit_nat_eq_self)
  then have "unat (x OR y) = take_bit k (unat x OR unat y)"
    by (simp add: unsigned_or_eq take_bit_or)
  then show ?thesis
    using take_bit_nat_less_exp [of k "unat x OR unat y"] by simp
qed

lemma bit15: "(addr :: u32) AND 0x8000 \<noteq> 0 \<longleftrightarrow> bit addr 15"
proof -
  have "(0x8000 :: u32) = push_bit 15 1"
    by simp
  then show ?thesis
    by (metis and_exp_eq_0_iff_not_bit push_bit_of_1)
qed

lemma halves: "(addr :: u32) = push_bit 16 (drop_bit 16 addr) + (addr AND 0xffff)"
  using bits_ident [of 16 addr] by (simp add: u32_masks take_bit_eq_mask)

lemma high_half: "unat (drop_bit 16 (addr :: u32)) < 65536" "drop_bit 16 addr AND 0xffff = drop_bit 16 addr"
proof -
  show l: "unat (drop_bit 16 addr) < 65536"
    using unat_lt_32 [of addr] by (simp add: drop_bit_eq_div unat_div less_mult_imp_div_less)
  have "take_bit 16 (drop_bit 16 addr) = drop_bit 16 addr"
    using small_bits [of "drop_bit 16 addr" 16] l by (intro bit_word_eqI) (auto simp: bit_take_bit_iff)
  then show "drop_bit 16 addr AND 0xffff = drop_bit 16 addr"
    by (simp add: u32_masks take_bit_eq_mask)
qed

lemma low_half: "unat ((addr :: u32) AND 0xffff) < 65536"
  using take_bit_nat_less_exp [of 16 "unat addr"]
  by (simp add: u32_masks unsigned_take_bit_eq flip: take_bit_eq_mask)

definition hi_half :: "u32 \<Rightarrow> u32" where
  "hi_half addr = (if bit addr 15 then drop_bit 16 addr + 1 else drop_bit 16 addr)"

lemma mips_lui_alt: "mips_lui reg addr = push_bit 26 0x0f OR push_bit 21 0 OR push_bit 16 reg OR hi_half addr"
  by (simp add: mips_lui_def hi_half_def high_half(2) bit15 Let_def)

lemma mips_addiu_alt: "mips_addiu dst src addr = push_bit 26 9 OR push_bit 21 src OR push_bit 16 dst OR (addr AND 0xffff)"
  by (simp add: mips_addiu_def)


lemma hi_half_cases:
  "unat (hi_half addr) < 65536 \<and> addr < 0xFFFF8000 \<or> hi_half addr = 0x10000 \<and> \<not> addr < 0xFFFF8000"
proof -
  define a where "a = unat addr"
  have l: "a < 4294967296"
    using unat_lt_32 [of addr] by (simp add: a_def)
  have "bit addr 15 \<longleftrightarrow> bit a 15"
    by (simp add: a_def bit_unsigned_iff)
  also have "\<dots> \<longleftrightarrow> 32768 \<le> a mod 65536"
    using take_bit_Suc_from_most [of 15 a] take_bit_nat_less_exp [of 15 a]
    by (simp add: take_bit_eq_mod of_bool_def split: if_splits)
  finally have b: "bit addr 15 \<longleftrightarrow> 32768 \<le> a mod 65536" .
  have d: "unat (drop_bit 16 addr) = a div 65536"
    by (simp add: a_def drop_bit_eq_div unat_div)
  have lt: "addr < 0xFFFF8000 \<longleftrightarrow> a < 4294934528"
    by (simp add: word_less_nat_alt a_def)
  consider "bit addr 15" "a div 65536 = 65535" | "bit addr 15" "a div 65536 < 65535" | "\<not> bit addr 15"
    using high_half(1) [of addr] d by fastforce
  then show ?thesis
  proof cases
    case 1
    then have "drop_bit 16 addr = 0xffff"
      using d by (simp add: word_unat_eq_iff)
    moreover have "\<not> a < 4294934528"
      using 1 b div_mult_mod_eq [of a 65536] by simp
    ultimately show ?thesis
      using 1 lt by (simp add: hi_half_def)
  next
    case 2
    then have "unat (drop_bit 16 addr + 1) = a div 65536 + 1"
      using d by (simp add: unat_word_ariths)
    moreover have "a < 4294934528"
      using 2 div_mult_mod_eq [of a 65536] mod_less_divisor [of 65536 a] by linarith
    ultimately show ?thesis
      using 2 lt by (simp add: hi_half_def)
  next
    case 3
    then have "a mod 65536 < 32768" "a div 65536 < 65536"
      using b high_half(1) [of addr] d by simp_all
    then have "a < 4294934528"
      using div_mult_mod_eq [of a 65536] by linarith
    then show ?thesis
      using 3 lt high_half(1) [of addr] by (simp add: hi_half_def)
  qed
qed

lemma jump_back:
  assumes "(addr :: u32) AND 3 = 0" "pc AND 0xf0000000 = addr AND 0xf0000000"
  shows "(pc AND 0xf0000000) OR push_bit 2 (drop_bit 2 addr AND 0x03ffffff) = addr"
proof -
  have m: "(0xf0000000 :: u32) = push_bit 28 (mask 4)" "(3 :: u32) = mask 2"
    by (simp_all add: mask_eq_exp_minus_1)
  have z: "\<not> bit addr n" if "n < 2" for n
    using arg_cong [OF assms(1), of "\<lambda>w. bit w n"] that by (simp add: m bit_simps)
  show ?thesis
    unfolding assms(2)
  proof (rule bit_word_eqI)
    fix n
    assume n: "n < LENGTH(32)"
    show "bit ((addr AND 0xf0000000) OR push_bit 2 (drop_bit 2 addr AND 0x03ffffff)) n = bit addr n"
    proof (cases "n < 2")
      case True
      then show ?thesis
        using z [OF True] by (simp add: m u32_masks bit_simps)
    next
      case False
      then have "Suc (Suc (n - 2)) = n"
        by simp
      then show ?thesis
        using False n by (auto simp: m u32_masks bit_simps)
    qed
  qed
qed

text \<open>C33: the instructions the patches are built from.  \<open>mips_lui\<close> and \<open>mips_addiu\<close> load the
address they are given for every address, and the registers are the ones asked for, but for
one case: from 0xFFFF8000 on the carry out of the upper half falls into the register field,
so an even register becomes the next odd one.  \<open>mips_j\<close> and \<open>mips_jal\<close> jump to their address
from anywhere in its 256 megabytes, for an address on a word.\<close>

theorem encoded_instructions:
  assumes "unat reg < 32" "unat dst < 32" "unat src < 32"
  shows "i_op (mips_lui reg addr) = 0x0f \<and> i_rs (mips_lui reg addr) = 0 \<and>
    i_rt (mips_lui reg addr) = (if addr < 0xFFFF8000 then reg else reg OR 1) \<and>
    i_op (mips_addiu dst src addr) = 9 \<and> i_rs (mips_addiu dst src addr) = src \<and>
    i_rt (mips_addiu dst src addr) = dst \<and>
    addiu_value (mips_addiu dst src addr) (lui_value (mips_lui reg addr)) = addr \<and>
    i_op (mips_j addr) = 2 \<and> i_op (mips_jal addr) = 3 \<and>
    (addr AND 3 = 0 \<and> pc AND 0xf0000000 = addr AND 0xf0000000 \<longrightarrow>
      jump_target (mips_j addr) pc = addr \<and> jump_target (mips_jal addr) pc = addr)"
proof -
  have lui: "i_op (mips_lui reg addr) = 0x0f \<and> i_rs (mips_lui reg addr) = 0 \<and>
      i_rt (mips_lui reg addr) = (if addr < 0xFFFF8000 then reg else reg OR 1) \<and>
      lui_value (mips_lui reg addr) = push_bit 16 (hi_half addr)"
    using hi_half_cases [of addr]
  proof
    assume h: "unat (hi_half addr) < 65536 \<and> addr < 0xFFFF8000"
    from fields_of [OF _ _ assms(1) conjunct1 [OF h] mips_lui_alt] show ?thesis
      using h by (simp add: lui_value_def)
  next
    assume h: "hi_half addr = 0x10000 \<and> \<not> addr < 0xFFFF8000"
    have s: "unat (reg OR 1) < 32"
      using or_small [of reg 5 1] assms(1) by simp
    have "mips_lui reg addr = push_bit 26 0x0f OR push_bit 21 0 OR push_bit 16 (reg OR 1) OR 0"
      using h by (simp add: mips_lui_alt push_bit_or or.assoc)
    from fields_of [OF _ _ s _ this] show ?thesis
      using h by (simp add: lui_value_def)
  qed
  have addiu: "i_op (mips_addiu dst src addr) = 9" "i_rs (mips_addiu dst src addr) = src"
    "i_rt (mips_addiu dst src addr) = dst" "i_imm (mips_addiu dst src addr) = addr AND 0xffff"
    using fields_of [OF _ assms(3,2) low_half mips_addiu_alt] by simp_all
  have "bit (mips_addiu dst src addr) 15 = bit (i_imm (mips_addiu dst src addr)) 15"
    by (simp add: i_imm_def u32_masks bit_simps)
  also have "\<dots> = bit addr 15"
    by (simp add: addiu(4) u32_masks bit_simps)
  finally have "addiu_value (mips_addiu dst src addr) (push_bit 16 (hi_half addr)) =
      push_bit 16 (drop_bit 16 addr) + (addr AND 0xffff)"
    by (simp add: addiu_value_def addiu(4) hi_half_def push_bit_eq_mult algebra_simps)
  then have val: "addiu_value (mips_addiu dst src addr) (push_bit 16 (hi_half addr)) = addr"
    by (simp flip: halves)
  have "drop_bit 26 (drop_bit 2 addr AND 0x03ffffff) = 0"
    by (rule bit_word_eqI) (simp add: u32_masks bit_simps)
  then have j: "i_op (mips_j addr) = 2" "i_op (mips_jal addr) = 3"
    by (simp_all add: i_op_def mips_j_def mips_jal_def drop_bit_or)
  have "mips_j addr AND 0x03ffffff = drop_bit 2 addr AND 0x03ffffff"
    "mips_jal addr AND 0x03ffffff = drop_bit 2 addr AND 0x03ffffff"
    by (simp_all add: mips_j_def mips_jal_def bit.conj_disj_distrib2 and.assoc)
  then have "addr AND 3 = 0 \<and> pc AND 0xf0000000 = addr AND 0xf0000000 \<longrightarrow>
      jump_target (mips_j addr) pc = addr \<and> jump_target (mips_jal addr) pc = addr"
    using jump_back [of addr pc] by (simp add: jump_target_def)
  then show ?thesis
    using lui addiu val j by simp
qed


lemma encoded_instructions_witness:
  "addiu_value (mips_addiu 4 5 0x8820ABCD) (lui_value (mips_lui 4 0x8820ABCD)) = 0x8820ABCD \<and>
   jump_target (mips_jal 0x88205944) 0x88200000 = 0x88205944"
  using encoded_instructions [of 4 4 5 "0x8820ABCD"] encoded_instructions [of 4 4 5 "0x88205944" "0x88200000"]
  by simp

end
