(* ===== verification/Stdio.thy ===== *)
theory Stdio
imports Ctype Cstrings Atob
begin

text \<open>Formatted output: \<open>src/libsc/lib/stdio.c\<close>.

\<open>vprf\<close> is written over the routine it is given for one character, as in the
code: \<open>put\<close> changes a state of any type.  Its result is \<open>None\<close> where the code has
no defined behaviour: an argument that is missing or of another kind, a string
without its NUL, a shift or a base outside the range of the machine.  The
console is a record with the buffer of \<open>fputchar\<close> (the characters from \<open>fputbb\<close>
to \<open>fputbp\<close>) and the device behind \<open>Write\<close> and \<open>_errputc\<close>, which are
parameters; the locale \<open>terminal\<close> states what they promise.\<close>

unbundle bit_operations_syntax

section \<open>Numbers\<close>

text \<open>The loop \<open>n % b\<close>, \<open>n /= b\<close> stores the digits in \<open>prbuf\<close> from the lowest; it ends for a base of
at least two.\<close>

function rev_digits :: "nat \<Rightarrow> nat \<Rightarrow> nat list" where
  "rev_digits b n =
    (if b < 2 then [] else n mod b # (if n div b = 0 then [] else rev_digits b (n div b)))"
  by pat_completeness auto
termination
  by (relation "measure snd") (auto simp: div_greater_zero_iff)

declare rev_digits.simps [simp del]

definition digit_char :: "nat \<Rightarrow> char option" where
  "digit_char d = rd (cstr ''0123456789abcdef'') d"

fun digit_chars :: "nat list \<Rightarrow> string option" where
  "digit_chars [] = Some []"
| "digit_chars (d # ds) = do { c \<leftarrow> digit_char d; cs \<leftarrow> digit_chars ds; Some (c # cs) }"

definition sprint_digits :: "nat \<Rightarrow> nat \<Rightarrow> string option" where
  "sprint_digits n b = (if b < 2 then None else digit_chars (rev (rev_digits b n)))"

text \<open>The text before the NUL that \<open>sprintn\<close> and \<open>sprintL\<close> store at \<open>tgt\<close>.\<close>

definition sprintn :: "u32 \<Rightarrow> int \<Rightarrow> string option" where
  "sprintn n b =
    (if b < 0 then
       (if sint n < 0 then map_option (\<lambda>s. CHR ''-'' # s) (sprint_digits (unat (- n)) (nat (- b)))
        else sprint_digits (unat n) (nat (- b)))
     else sprint_digits (unat n) (nat b))"

definition sprintL :: "u64 \<Rightarrow> int \<Rightarrow> string option" where
  "sprintL n b =
    (if b < 0 then
       (if sint n < 0 then map_option (\<lambda>s. CHR ''-'' # s) (sprint_digits (unat (- n)) (nat (- b)))
        else sprint_digits (unat n) (nat (- b)))
     else sprint_digits (unat n) (nat b))"

section \<open>Strings\<close>

text \<open>A null pointer is \<open>None\<close>.\<close>

definition or_null :: "string option \<Rightarrow> string" where
  "or_null s = (case s of None \<Rightarrow> cstr ''<NULL>'' | Some t \<Rightarrow> t)"

fun putstr_loop :: "(char \<Rightarrow> 's \<Rightarrow> 's) \<Rightarrow> string \<Rightarrow> 's \<Rightarrow> 's option" where
  "putstr_loop put [] st = None"
| "putstr_loop put (c # s) st = (if c = NUL then Some st else putstr_loop put s (put c st))"

definition putstr :: "(char \<Rightarrow> 's \<Rightarrow> 's) \<Rightarrow> string option \<Rightarrow> 's \<Rightarrow> 's option" where
  "putstr put s st = putstr_loop put (or_null s) st"

definition put_fill :: "(char \<Rightarrow> 's \<Rightarrow> 's) \<Rightarrow> char \<Rightarrow> int \<Rightarrow> 's \<Rightarrow> 's" where
  "put_fill put c n st = ((put c) ^^ nat n) st"

text \<open>The loop that looks for the end of \<open>s\<close> among its first \<open>len\<close> characters.\<close>

fun bounded_len :: "string \<Rightarrow> nat \<Rightarrow> nat option" where
  "bounded_len s 0 = Some 0"
| "bounded_len [] (Suc n) = None"
| "bounded_len (c # s) (Suc n) = (if c = NUL then Some 0 else map_option Suc (bounded_len s n))"

definition sputs :: "(char \<Rightarrow> 's \<Rightarrow> 's) \<Rightarrow> string option \<Rightarrow> u32 \<Rightarrow> u32 \<Rightarrow> char \<Rightarrow> 's \<Rightarrow> 's option" where
  "sputs put s fw len fillc st = do {
     let s = or_null s;
     n \<leftarrow> (if sint len \<le> 0 then strlen s else bounded_len s (nat (sint len)));
     let st = (if sint fw > 0 then put_fill put fillc (sint fw - int n) st else st);
     let st = fold put (take n s) st;
     Some (if sint fw < 0 then put_fill put fillc (sint (- fw) - int n) st else st) }"

section \<open>Formats\<close>

text \<open>The register descriptions of \<open>%r\<close>; the arrays end at a zero mask and at a null name.\<close>

record reg_values =
  rv_value :: u32
  rv_name :: "string option"

record reg_desc =
  rd_mask :: u64
  rd_shift :: int
  rd_name :: "string option"
  rd_format :: "string option"
  rd_values :: "reg_values list option"

datatype vararg = AInt u32 | ALong u64 | AStr "string option" | ARegs "reg_desc list"

fun va_int :: "vararg list \<Rightarrow> (u32 \<times> vararg list) option" where
  "va_int (AInt n # a) = Some (n, a)"
| "va_int _ = None"

fun va_long :: "vararg list \<Rightarrow> (u64 \<times> vararg list) option" where
  "va_long (ALong n # a) = Some (n, a)"
| "va_long _ = None"

fun va_str :: "vararg list \<Rightarrow> (string option \<times> vararg list) option" where
  "va_str (AStr s # a) = Some (s, a)"
| "va_str _ = None"

fun va_regs :: "vararg list \<Rightarrow> (reg_desc list \<times> vararg list) option" where
  "va_regs (ARegs r # a) = Some (r, a)"
| "va_regs _ = None"

text \<open>What stands between the percent sign and the conversion.  The head of \<open>f\<close> is the character \<open>c\<close>
of the code, the tail what \<open>fmt\<close> points to.\<close>

definition fmt_flag :: "char \<Rightarrow> string \<Rightarrow> (bool \<times> string) option" where
  "fmt_flag x f = do { c \<leftarrow> rd f 0; Some (if c = x then (True, tl f) else (False, f)) }"

fun fmt_digits :: "u32 \<Rightarrow> string \<Rightarrow> (u32 \<times> string) option" where
  "fmt_digits i [] = None"
| "fmt_digits i (c # f) =
    (if isdigit (schar c) then fmt_digits (i * 10 + word_of_int (schar c) - 48) f else Some (i, c # f))"

definition fmt_width :: "string \<Rightarrow> vararg list \<Rightarrow> (char \<times> u32 \<times> string \<times> vararg list) option" where
  "fmt_width f a = do {
     c \<leftarrow> rd f 0;
     if isdigit (schar c) then do {
       (i, f) \<leftarrow> fmt_digits 0 f;
       Some (if c = CHR ''0'' then c else CHR '' '', i, f, a) }
     else if c = CHR ''*'' then do { (i, a) \<leftarrow> va_int a; Some (CHR '' '', i, tl f, a) }
     else Some (CHR '' '', 0, f, a) }"

definition fmt_prec :: "string \<Rightarrow> vararg list \<Rightarrow> (u32 \<times> string \<times> vararg list) option" where
  "fmt_prec f a = do {
     c \<leftarrow> rd f 0;
     if c = CHR ''.'' then do {
       c \<leftarrow> rd f 1;
       if c = CHR ''*'' then do { (i, a) \<leftarrow> va_int a; Some (i, drop 2 f, a) }
       else do { (i, f) \<leftarrow> fmt_digits 0 (tl f); Some (i, f, a) } }
     else Some (0, f, a) }"

text \<open>The length modifiers: \<open>llflag\<close>, \<open>Iflag\<close>, and the rest of the format from the conversion on.\<close>

definition fmt_size :: "bool \<Rightarrow> string \<Rightarrow> (bool \<times> bool \<times> string) option" where
  "fmt_size scalable f = do {
     c \<leftarrow> rd f 0;
     if c = CHR ''l'' then do {
       c \<leftarrow> rd f 1;
       Some (if c = CHR ''l'' then (True, False, drop 2 f) else (False, False, tl f)) }
     else if c = CHR ''w'' then do {
       d \<leftarrow> rd f 1;
       if d \<noteq> CHR ''3'' then Some (False, False, f)
       else do { d \<leftarrow> rd f 2; Some (if d = CHR ''2'' then (False, True, drop 3 f) else (False, False, f)) } }
     else if c = CHR ''I'' then Some (scalable, False, tl f)
     else if c = CHR ''L'' then Some (True, False, tl f)
     else Some (False, False, f) }"

record fmt_spec =
  altform :: bool
  fw :: u32
  fmt_len :: u32
  fillc :: char
  llflag :: bool
  Iflag :: bool

definition fmt_spec_at :: "bool \<Rightarrow> string \<Rightarrow> vararg list \<Rightarrow> (fmt_spec \<times> char \<times> string \<times> vararg list) option" where
  "fmt_spec_at scalable f a = do {
     (alt, f) \<leftarrow> fmt_flag (CHR ''#'') f;
     (ljust, f) \<leftarrow> fmt_flag (CHR ''-'') f;
     (fillc, fw, f, a) \<leftarrow> fmt_width f a;
     (len, f, a) \<leftarrow> fmt_prec f a;
     (ll, I, f) \<leftarrow> fmt_size scalable f;
     c \<leftarrow> rd f 0;
     Some (\<lparr>altform = alt, fw = (if ljust then - fw else fw), fmt_len = len, fillc = fillc,
            llflag = ll, Iflag = I\<rparr>, c, tl f, a) }"

section \<open>Conversions\<close>

definition put_number ::
  "(char \<Rightarrow> 's \<Rightarrow> 's) \<Rightarrow> fmt_spec \<Rightarrow> int \<Rightarrow> vararg list \<Rightarrow> 's \<Rightarrow> ('s \<times> vararg list) option" where
  "put_number put sp b a st = do {
     (prbuf, a) \<leftarrow> (if llflag sp then do { (n, a) \<leftarrow> va_long a; t \<leftarrow> sprintL n b; Some (t, a) }
                    else do { (n, a) \<leftarrow> va_int a; t \<leftarrow> sprintn n b; Some (t, a) });
     st \<leftarrow> sputs put (Some (cstr prbuf)) (fw sp) (fmt_len sp) (fillc sp) st;
     Some (st, a) }"

text \<open>The names of \<open>%b\<close>.  Characters are signed, so those from 128 on end a name as well.\<close>

definition bit_name :: "char \<Rightarrow> bool" where
  "bit_name c = (schar c > 32)"

function put_bits :: "(char \<Rightarrow> 's \<Rightarrow> 's) \<Rightarrow> u32 \<Rightarrow> bool \<Rightarrow> string \<Rightarrow> 's \<Rightarrow> 's option" where
  "put_bits put b any [] st = None"
| "put_bits put b any (c # s) st =
    (let i = schar c - 1; name = takeWhile bit_name s; s' = dropWhile bit_name s in
     if c = NUL then Some st
     else if i < 0 \<or> i > 31 \<or> s' = [] then None
     else if bit b (nat i) then
       put_bits put b True s' (fold put name (if any then put (CHR '','') st else st))
     else put_bits put b any s' st)"
  by pat_completeness auto
termination
  by (relation "measure (\<lambda>(put, b, any, s, st). length s)") (auto simp: le_imp_less_Suc length_dropWhile_le)

definition put_b :: "(char \<Rightarrow> 's \<Rightarrow> 's) \<Rightarrow> vararg list \<Rightarrow> 's \<Rightarrow> ('s \<times> vararg list) option" where
  "put_b put a st = do {
     (b, a) \<leftarrow> va_int a;
     (s, a) \<leftarrow> va_str a;
     s \<leftarrow> s;
     base \<leftarrow> rd s 0;
     prbuf \<leftarrow> sprintn b (schar base);
     st \<leftarrow> putstr put (Some (cstr prbuf)) st;
     if b = 0 then Some (st, a)
     else do { st \<leftarrow> put_bits put b False (tl s) (put (CHR ''<'') st); Some (put (CHR ''>'') st, a) } }"

text \<open>The name of a field's value; the array ends with a null name.\<close>

fun value_name :: "u32 \<Rightarrow> reg_values list \<Rightarrow> string option" where
  "value_name field [] = None"
| "value_name field (v # vs) =
    (case rv_name v of
       None \<Rightarrow> Some (cstr ''???'')
     | Some name \<Rightarrow> if field = rv_value v then Some name else value_name field vs)"

definition reg_field :: "u32 \<Rightarrow> reg_desc \<Rightarrow> u32 option" where
  "reg_field b d =
    (let field = b AND ucast (rd_mask d) in
     if rd_shift d \<ge> 32 \<or> rd_shift d \<le> - 32 then None
     else Some (if rd_shift d > 0 then push_bit (nat (rd_shift d)) field
                else drop_bit (nat (- rd_shift d)) field))"

text \<open>One field; \<open>prf\<close> prints one number with the format of the field.\<close>

definition put_reg ::
  "(string \<Rightarrow> u32 \<Rightarrow> 's \<Rightarrow> 's option) \<Rightarrow> (char \<Rightarrow> 's \<Rightarrow> 's) \<Rightarrow> u32 \<Rightarrow> bool \<Rightarrow> reg_desc \<Rightarrow> 's \<Rightarrow> (bool \<times> 's) option" where
  "put_reg prf put field any d st = do {
     let shown = (rd_format d \<noteq> None \<or> rd_values d \<noteq> None);
     let st = (if any \<and> (shown \<or> rd_name d \<noteq> None \<and> field \<noteq> 0) then put (CHR '','') st else st);
     (any, st) \<leftarrow> (if rd_name d \<noteq> None then do {
         (any, st) \<leftarrow> (if shown \<or> field \<noteq> 0 then do { st \<leftarrow> putstr put (rd_name d) st; Some (True, st) }
                       else Some (any, st));
         Some (if shown then (True, put (CHR ''='') st) else (any, st)) }
       else Some (any, st));
     (any, st) \<leftarrow> (case rd_format d of
         None \<Rightarrow> Some (any, st)
       | Some f \<Rightarrow> do {
           st \<leftarrow> prf f field st;
           Some (True, if rd_values d \<noteq> None then put (CHR '':'') st else st) });
     (case rd_values d of
         None \<Rightarrow> Some (any, st)
       | Some vs \<Rightarrow> do { name \<leftarrow> value_name field vs; st \<leftarrow> putstr put (Some name) st; Some (True, st) }) }"

fun put_regs ::
  "(string \<Rightarrow> u32 \<Rightarrow> 's \<Rightarrow> 's option) \<Rightarrow> (char \<Rightarrow> 's \<Rightarrow> 's) \<Rightarrow> u32 \<Rightarrow> bool \<Rightarrow> reg_desc list \<Rightarrow> 's \<Rightarrow> 's option" where
  "put_regs prf put b any [] st = None"
| "put_regs prf put b any (d # ds) st =
    (if rd_mask d = 0 then Some st
     else do {
       field \<leftarrow> reg_field b d;
       (any, st) \<leftarrow> put_reg prf put field any d st;
       put_regs prf put b any ds st })"

definition put_hex :: "(char \<Rightarrow> 's \<Rightarrow> 's) \<Rightarrow> u32 \<Rightarrow> 's \<Rightarrow> 's option" where
  "put_hex put b st = do {
     st \<leftarrow> putstr put (Some (cstr ''0x'')) st;
     prbuf \<leftarrow> sprintn b 16;
     putstr put (Some (cstr prbuf)) st }"

definition put_r ::
  "(string \<Rightarrow> u32 \<Rightarrow> 's \<Rightarrow> 's option) \<Rightarrow> (char \<Rightarrow> 's \<Rightarrow> 's) \<Rightarrow> fmt_spec \<Rightarrow> bool \<Rightarrow> vararg list \<Rightarrow> 's
    \<Rightarrow> ('s \<times> vararg list) option" where
  "put_r prf put sp R a st = do {
     (b, a) \<leftarrow> (if llflag sp then map_option (map_prod ucast id) (va_long a) else va_int a);
     (rds, a) \<leftarrow> va_regs a;
     st \<leftarrow> (if R then put_hex put b st else Some st);
     if R \<and> b = 0 then Some (st, a)
     else do { st \<leftarrow> put_regs prf put b False rds (put (CHR ''<'') st); Some (put (CHR ''>'') st, a) } }"

definition convert ::
  "(string \<Rightarrow> u32 \<Rightarrow> 's \<Rightarrow> 's option) \<Rightarrow> (char \<Rightarrow> 's \<Rightarrow> 's) \<Rightarrow> fmt_spec \<Rightarrow> char \<Rightarrow> vararg list \<Rightarrow> 's
    \<Rightarrow> ('s \<times> vararg list) option" where
  "convert prf put sp c a st =
    (if c = CHR ''p'' \<or> c = CHR ''x'' \<or> c = CHR ''X'' then
       put_number put sp 16 a (if altform sp then put (CHR ''x'') (put (CHR ''0'') st) else st)
     else if c = CHR ''d'' then put_number put sp (- 10) a st
     else if c = CHR ''u'' then put_number put sp 10 a st
     else if c = CHR ''o'' then put_number put sp 8 a (if altform sp then put (CHR ''0'') st else st)
     else if c = CHR ''c'' then do {
       (b, a) \<leftarrow> va_int a;
       st \<leftarrow> sputs put (Some (cstr [char_of_int (uint b)])) (fw sp) (fmt_len sp) (fillc sp) st;
       Some (st, a) }
     else if c = CHR ''b'' then put_b put a st
     else if c = CHR ''r'' \<or> c = CHR ''R'' then put_r prf put sp (c = CHR ''R'') a st
     else if c = CHR ''s'' then do {
       (s, a) \<leftarrow> va_str a;
       st \<leftarrow> sputs put s (fw sp) (fmt_len sp) (fillc sp) st;
       Some (st, a) }
     else if c = CHR ''%'' then do {
       st \<leftarrow> sputs put (Some (cstr ''%'')) (fw sp) (fmt_len sp) (fillc sp) st;
       Some (st, a) }
     else Some (st, a))"

section \<open>The loop over the format\<close>

lemma fmt_digits_length: "fmt_digits i f = Some (n, f') \<Longrightarrow> length f' \<le> length f"
  by (induction i f rule: fmt_digits.induct) (auto split: if_splits)

lemma fmt_spec_at_length:
  assumes "fmt_spec_at scal f a = Some (sp, c, f', a')"
  shows "length f' \<le> length f"
proof -
  have flag: "length f' \<le> length f" if "fmt_flag x f = Some (b, f')" for x f b f'
    using that by (auto simp: fmt_flag_def rd_def split: if_splits)
  have width: "length f' \<le> length f" if "fmt_width f a = Some (fl, w, f', a')" for f a fl w f' a'
    using that by (auto simp: fmt_width_def bind_eq_Some_conv dest: fmt_digits_length split: if_splits prod.splits)
  have prec: "length f' \<le> length f" if "fmt_prec f a = Some (n, f', a')" for f a n f' a'
    using that by (fastforce simp: fmt_prec_def bind_eq_Some_conv dest: fmt_digits_length split: if_splits prod.splits)
  have size: "length f' \<le> length f" if "fmt_size scal f = Some (l, I, f')" for f l I f'
    using that by (auto simp: fmt_size_def bind_eq_Some_conv split: if_splits)
  obtain f1 f2 f3 f4 f5 alt lj fl w n a1 a2 l I where
    "fmt_flag (CHR ''#'') f = Some (alt, f1)" "fmt_flag (CHR ''-'') f1 = Some (lj, f2)"
    "fmt_width f2 a = Some (fl, w, f3, a1)" "fmt_prec f3 a1 = Some (n, f4, a2)"
    "fmt_size scal f4 = Some (l, I, f5)" "f' = tl f5"
    using assms by (auto simp: fmt_spec_at_def bind_eq_Some_conv)
  then show ?thesis
    using flag width prec size by (metis (no_types, lifting) diff_le_self length_tl order_trans)
qed

function (sequential) vprf_loop ::
  "(string \<Rightarrow> u32 \<Rightarrow> 's \<Rightarrow> 's option) \<Rightarrow> (char \<Rightarrow> 's \<Rightarrow> 's) \<Rightarrow> bool \<Rightarrow> string \<Rightarrow> vararg list \<Rightarrow> 's \<Rightarrow> 's option" where
  "vprf_loop prf put scal [] a st = None"
| "vprf_loop prf put scal (c # f) a st =
    (if c \<noteq> CHR ''%'' then
       (if c = NUL then Some st else vprf_loop prf put scal f a (put c st))
     else
       (case fmt_spec_at scal f a of
          None \<Rightarrow> None
        | Some (sp, c, f, a) \<Rightarrow>
            (case convert prf put sp c a st of
               None \<Rightarrow> None
             | Some (st, a) \<Rightarrow> vprf_loop prf put scal f a st)))"
  by pat_completeness auto
termination
  by (relation "measure (\<lambda>(prf, put, scal, f, a, st). length f)") (auto dest: fmt_spec_at_length)

declare vprf_loop.simps [simp del]

text \<open>\<open>prf\<close> is called with one number as its arguments: a register format inside the format of a
field would take its description from behind them.\<close>

definition prf_one :: "(char \<Rightarrow> 's \<Rightarrow> 's) \<Rightarrow> bool \<Rightarrow> string \<Rightarrow> u32 \<Rightarrow> 's \<Rightarrow> 's option" where
  "prf_one put scal f field st = vprf_loop (\<lambda>_ _ _. None) put scal f [AInt field] st"

definition vprf :: "(char \<Rightarrow> 's \<Rightarrow> 's) \<Rightarrow> bool \<Rightarrow> string \<Rightarrow> vararg list \<Rightarrow> 's \<Rightarrow> 's option" where
  "vprf put scal f a st = vprf_loop (prf_one put scal) put scal f a st"

section \<open>Printing to memory\<close>

text \<open>\<open>sprintf_cp\<close> as an offset into the object \<open>buf\<close>; \<open>None\<close> after a store behind its end.\<close>

type_synonym poked = "(string \<times> nat) option"

fun poke :: "char \<Rightarrow> poked \<Rightarrow> poked" where
  "poke c None = None"
| "poke c (Some (b, n)) = map_option (\<lambda>b. (b, n + 1)) (wr b n c)"

definition sprintf :: "bool \<Rightarrow> string \<Rightarrow> string \<Rightarrow> vararg list \<Rightarrow> (string \<times> nat) option" where
  "sprintf scal buf fmt a = do {
     st \<leftarrow> vprf poke scal fmt a (Some (buf, 0));
     (buf, n) \<leftarrow> poke NUL st;
     len \<leftarrow> strlen buf;
     Some (buf, len) }"

definition vsprintf :: "bool \<Rightarrow> string \<Rightarrow> string \<Rightarrow> vararg list \<Rightarrow> (string \<times> nat) option" where
  "vsprintf scal buf fmt a = do {
     st \<leftarrow> vprf poke scal fmt a (Some (buf, 0));
     (buf, sprintf_cp) \<leftarrow> poke NUL st;
     len \<leftarrow> strlen (drop sprintf_cp buf);
     Some (buf, len) }"

section \<open>The console\<close>

text \<open>The device: \<open>Write\<close> on the standard output gives its error and the count of what it wrote.\<close>

record 'd device =
  dev_Write :: "string \<Rightarrow> 'd \<Rightarrow> int \<times> u32 \<times> 'd"
  dev_errputc :: "char \<Rightarrow> 'd \<Rightarrow> 'd"
  early :: bool  \<comment> \<open>\<open>_prom && !stdio_init\<close>\<close>

record 'd console =
  fputb :: string
  fputbs :: int
  fputcn :: u32
  column :: u32
  dev :: 'd

definition EOF :: int where "EOF = - 1"
definition LINESIZE :: nat where "LINESIZE = 256"

definition put_dev :: "'d device \<Rightarrow> char \<Rightarrow> 'd console \<Rightarrow> int \<times> 'd console" where
  "put_dev dv c s =
    (if early dv then (schar c, s\<lparr>dev := dev_errputc dv c (dev s)\<rparr>)
     else let (err, cnt, d) = dev_Write dv [c] (dev s) in
       if err \<noteq> 0 \<or> cnt \<noteq> 1 then (EOF, s\<lparr>dev := dev_errputc dv c d\<rparr>) else (schar c, s\<lparr>dev := d\<rparr>))"

definition put_plain :: "'d device \<Rightarrow> char \<Rightarrow> 'd console \<Rightarrow> int \<times> 'd console" where
  "put_plain dv c s = put_dev dv c (if isprint (schar c) then s\<lparr>column := column s + 1\<rparr> else s)"

lemma isprint_iff [class_simps]: "isprint c \<longleftrightarrow> 32 \<le> c mod 256 \<and> c mod 256 \<le> 126 \<or> 160 \<le> c mod 256 \<and> c mod 256 \<le> 255"
proof -
  define n where "n = nat (c mod 256)"
  have "n < 256" "int n = c mod 256"
    by (auto simp: n_def nat_less_iff)
  moreover have "isprint c \<longleftrightarrow> 32 \<le> n \<and> n \<le> 126 \<or> 160 \<le> n \<and> n \<le> 255" if "n < 256"
    unfolding isprint_def ctype_is_runs [OF n_def] using that
    by (auto simp: ctype_runs_def mask_defs)
  ultimately show ?thesis
    by (simp flip: \<open>int n = c mod 256\<close>)
qed

lemma put_plain_column: "column (snd (put_plain dv CHR '' '' s)) = column s + 1"
  by (simp add: put_plain_def put_dev_def isprint_iff schar_def Let_def split: prod.splits)

lemma tab_stop_iff: "(n :: u32) mod 8 = 0 \<longleftrightarrow> unat n mod 8 = 0"
  by (simp add: word_unat_eq_iff unat_mod_distrib)

lemma succ_mod8: "unat ((n :: u32) + 1) mod 8 = Suc (unat n mod 8) mod 8"
  by (simp add: unat_word_ariths mod_mod_cancel mod_Suc_eq)

lemma next_tab_stop:
  fixes n :: u32
  assumes "(n + 1) mod 8 \<noteq> 0"
  shows "unat (n + 1) mod 8 = Suc (unat n mod 8)"
proof -
  have "unat (n + 1) mod 8 = (unat n + 1) mod 8"
    by (simp add: unat_word_ariths mod_mod_cancel)
  moreover have "unat (n + 1) mod 8 \<noteq> 0"
    using assms by (simp add: tab_stop_iff)
  ultimately show ?thesis
    by (metis Suc_eq_plus1 mod_Suc)
qed

lemma put_plain_nearer:
  assumes "put_plain dv (CHR '' '') s = (r, s1)" "column s1 mod 8 \<noteq> 0"
  shows "8 - unat (column s1) mod 8 < 8 - unat (column s) mod 8"
proof -
  have "column s1 = column s + 1"
    using put_plain_column [of dv s] assms(1) by simp
  then show ?thesis
    using next_tab_stop [of "column s"] assms(2) by (simp add: diff_less_mono2)
qed

function putchar_tab :: "'d device \<Rightarrow> 'd console \<Rightarrow> int \<times> 'd console" where
  "putchar_tab dv s =
    (case put_plain dv (CHR '' '') s of (r, s1) \<Rightarrow>
       if r \<noteq> schar (CHR '' '') then (EOF, s1)
       else if column s1 mod 8 \<noteq> 0 then putchar_tab dv s1 else (9, s1))"
  by pat_completeness auto
termination
  by (relation "measure (\<lambda>(dv, s). 8 - unat (column s) mod 8)") (auto intro: put_plain_nearer [OF sym])

declare putchar_tab.simps [simp del]

definition putchar :: "'d device \<Rightarrow> char \<Rightarrow> 'd console \<Rightarrow> int \<times> 'd console" where
  "putchar dv c s =
    (if c = CHR 0x0A then
       (case put_plain dv (CHR 0x0D) s of (r, s) \<Rightarrow>
          if r \<noteq> schar (CHR 0x0D) then (EOF, s) else put_dev dv c (s\<lparr>column := 0\<rparr>))
     else if c = CHR 0x09 then putchar_tab dv s
     else put_plain dv c s)"

definition fputflush :: "'d device \<Rightarrow> 'd console \<Rightarrow> int \<times> 'd console" where
  "fputflush dv s =
    (if fputb s = [] then (0, s)
     else let (err, cnt, d) = dev_Write dv (fputb s) (dev s) in
       if err \<noteq> 0 \<or> cnt \<noteq> of_nat (length (fputb s))
       then (EOF, s\<lparr>fputb := [], dev := fold (dev_errputc dv) (fputb s) d\<rparr>)
       else (0, s\<lparr>fputb := [], fputcn := fputcn s + cnt, dev := d\<rparr>))"

lemma fput_tab_nearer:
  fixes n :: u32
  assumes "n mod 8 \<noteq> 0"
  shows "(8 - unat (n + 1) mod 8) mod 8 < (8 - unat n mod 8) mod 8"
proof -
  have "unat n mod 8 \<noteq> 0" "unat n mod 8 < 8"
    using assms by (simp_all add: tab_stop_iff)
  moreover note succ_mod8 [of n]
  ultimately show ?thesis
    by (cases "unat n mod 8 = 7") (auto simp: mod_Suc)
qed

text \<open>The loop of \<open>fputchar\<close> for a tab: the column is tested before it is advanced.\<close>

function fput_tab :: "'d console \<Rightarrow> 'd console" where
  "fput_tab s =
    (let s' = s\<lparr>fputb := fputb s @ CHR '' '' # [], column := column s + 1\<rparr> in
     if column s mod 8 \<noteq> 0 then fput_tab s' else s')"
  by pat_completeness auto
termination
  by (relation "measure (\<lambda>s. (8 - unat (column s) mod 8) mod 8)") (auto intro: fput_tab_nearer)

declare fput_tab.simps [simp del]

text \<open>What a character adds to the buffer, before the buffer is flushed.\<close>

definition fput_store :: "char \<Rightarrow> 'd console \<Rightarrow> 'd console" where
  "fput_store c s =
    (if c = CHR 0x0A then s\<lparr>fputb := fputb s @ [CHR 0x0A, CHR 0x0D], column := 0\<rparr>
     else if c = CHR 0x09 then fput_tab s
     else s\<lparr>column := (if isprint (schar c) then column s + 1 else column s), fputb := fputb s @ [c]\<rparr>)"

definition fputchar :: "'d device \<Rightarrow> char \<Rightarrow> 'd console \<Rightarrow> 'd console" where
  "fputchar dv c s =
    (if early dv then snd (putchar dv c s)
     else
       let s' = fput_store c s
       in if int (length (fputb s')) \<ge> fputbs s' - 10 \<or> c = CHR 0x0A then snd (fputflush dv s') else s')"

definition puts :: "'d device \<Rightarrow> string option \<Rightarrow> 'd console \<Rightarrow> (int \<times> 'd console) option" where
  "puts dv t s = do {
     s \<leftarrow> putstr (fputchar dv) t (s\<lparr>fputbs := int LINESIZE, fputb := []\<rparr>);
     let (rc, s) = fputflush dv s;
     Some (if rc = EOF then EOF else 0, s) }"

text \<open>\<open>vprintf\<close> and \<open>vttyprintf\<close> take the same arguments as a list.\<close>

definition vprintf :: "'d device \<Rightarrow> bool \<Rightarrow> string \<Rightarrow> vararg list \<Rightarrow> 'd console \<Rightarrow> (int \<times> 'd console) option" where
  "vprintf dv scal fmt a s = do {
     s \<leftarrow> vprf (fputchar dv) scal fmt a (s\<lparr>fputbs := int LINESIZE, fputb := [], fputcn := 0\<rparr>);
     let (rc, s) = fputflush dv s;
     Some (if rc = EOF then EOF else sint (fputcn s), s) }"

definition printf :: "'d device \<Rightarrow> bool \<Rightarrow> string \<Rightarrow> vararg list \<Rightarrow> 'd console \<Rightarrow> (int \<times> 'd console) option" where
  "printf dv scal fmt a s = do {
     s \<leftarrow> vprf (fputchar dv) scal fmt a (s\<lparr>fputbs := int LINESIZE, fputb := [], fputcn := 0\<rparr>);
     let (rc, s) = fputflush dv s;
     Some (if rc = EOF then EOF else sint (fputcn s), s) }"

definition ttyprintf ::
  "'d device \<Rightarrow> (char \<Rightarrow> 'd console \<Rightarrow> 'd console) option \<Rightarrow> bool \<Rightarrow> string \<Rightarrow> vararg list \<Rightarrow> 'd console
    \<Rightarrow> (int \<times> 'd console) option" where
  "ttyprintf dv ttyputc scal fmt a s = do {
     s \<leftarrow> vprf (case ttyputc of None \<Rightarrow> fputchar dv | Some f \<Rightarrow> f) scal fmt a
           (s\<lparr>fputbs := int LINESIZE, fputb := [], fputcn := 0\<rparr>);
     let (rc, s) = fputflush dv s;
     Some (if rc = EOF then EOF else sint (fputcn s), s) }"

definition octal_digit :: "nat \<Rightarrow> char" where
  "octal_digit n = char_of (48 + n)"

definition showchar :: "'d device \<Rightarrow> char \<Rightarrow> 'd console \<Rightarrow> 'd console option" where
  "showchar dv c s =
    (if isprint (of_char c) then Some (snd (putchar dv c s))
     else if c = CHR 0x08 then map_option snd (puts dv (Some (cstr [CHR 0x5C, CHR ''b''])) s)
     else if c = CHR 0x0C then map_option snd (puts dv (Some (cstr [CHR 0x5C, CHR ''f''])) s)
     else if c = CHR 0x0A then map_option snd (puts dv (Some (cstr [CHR 0x5C, CHR ''n''])) s)
     else if c = CHR 0x0D then map_option snd (puts dv (Some (cstr [CHR 0x5C, CHR ''r''])) s)
     else if c = CHR 0x09 then map_option snd (puts dv (Some (cstr [CHR 0x5C, CHR ''t''])) s)
     else
       let n = of_char c in
       Some (snd (putchar dv (octal_digit (n mod 8))
         (snd (putchar dv (octal_digit (n div 8 mod 8))
           (snd (putchar dv (octal_digit (n div 64 mod 4))
             (snd (putchar dv (CHR 0x5C) s)))))))))"

section \<open>Small routines\<close>

text \<open>\<open>_Setscalable\<close> is the state of \<open>%I\<close>.\<close>

definition setscalable :: "int \<Rightarrow> bool" where
  "setscalable sz = (sz = 8)"

definition getscalable :: "bool \<Rightarrow> int" where
  "getscalable scal = (if scal then 8 else 4)"

definition smax :: "u32 \<Rightarrow> u32 \<Rightarrow> u32" where
  "smax a b = (if a <s b then b else a)"

text \<open>\<open>memset\<close>: bytes up to a boundary of eight, blocks of four double words, double words, bytes.
A double word is stored with its high byte first; at an address that is no multiple of eight the store
traps, here \<open>None\<close>.\<close>

definition put64 :: "u32 \<Rightarrow> u64 \<Rightarrow> (u32 \<Rightarrow> u8) \<Rightarrow> (u32 \<Rightarrow> u8) option" where
  "put64 a v m =
    (if a AND 7 = 0 then Some (fold (\<lambda>i m. m(a + of_nat i := ucast (drop_bit (56 - 8 * i) v))) [0..<8] m) else None)"

definition set_rep :: "u32 \<Rightarrow> u64" where
  "set_rep val =
    (let rep = scast val AND 0xff; rep = rep OR push_bit 8 rep; rep = rep OR push_bit 16 rep
     in rep OR push_bit 32 rep)"

fun set_to_boundary :: "u8 \<Rightarrow> u32 \<Rightarrow> nat \<Rightarrow> (u32 \<Rightarrow> u8) \<Rightarrow> u32 \<times> nat \<times> (u32 \<Rightarrow> u8)" where
  "set_to_boundary v dst 0 m = (dst, 0, m)"
| "set_to_boundary v dst (Suc n) m =
    (if dst AND 7 \<noteq> 0 then set_to_boundary v (dst + 1) n (m(dst := v)) else (dst, Suc n, m))"

fun set_blocks :: "u64 \<Rightarrow> u32 \<Rightarrow> nat \<Rightarrow> (u32 \<Rightarrow> u8) \<Rightarrow> (u32 \<times> nat \<times> (u32 \<Rightarrow> u8)) option" where
  "set_blocks rep dst n m =
    (if n \<ge> 32 then do {
       m \<leftarrow> put64 dst rep m;
       m \<leftarrow> put64 (dst + 8) rep m;
       m \<leftarrow> put64 (dst + 16) rep m;
       m \<leftarrow> put64 (dst + 24) rep m;
       set_blocks rep (dst + 32) (n - 32) m }
     else Some (dst, n, m))"

fun set_words :: "u64 \<Rightarrow> u32 \<Rightarrow> nat \<Rightarrow> (u32 \<Rightarrow> u8) \<Rightarrow> (u32 \<times> nat \<times> (u32 \<Rightarrow> u8)) option" where
  "set_words rep dst n m =
    (if n \<ge> 8 then do { m \<leftarrow> put64 dst rep m; set_words rep (dst + 8) (n - 8) m } else Some (dst, n, m))"

declare set_blocks.simps [simp del] set_words.simps [simp del]

fun set_bytes :: "u8 \<Rightarrow> u32 \<Rightarrow> nat \<Rightarrow> (u32 \<Rightarrow> u8) \<Rightarrow> u32 \<Rightarrow> u8" where
  "set_bytes v dst 0 m = m"
| "set_bytes v dst (Suc n) m = set_bytes v (dst + 1) n (m(dst := v))"

definition memset :: "u32 \<Rightarrow> u32 \<Rightarrow> nat \<Rightarrow> (u32 \<Rightarrow> u8) \<Rightarrow> (u32 \<Rightarrow> u8) option" where
  "memset base val len m = do {
     let v = ucast val;
     (dst, n, m) \<leftarrow> (if len \<ge> 8 then do {
         let (dst, n, m) = set_to_boundary v base len m;
         (dst, n, m) \<leftarrow> set_blocks (set_rep val) dst n m;
         set_words (set_rep val) dst n m }
       else Some (base, len, m));
     Some (set_bytes v dst n m) }"

section \<open>Setting memory\<close>

lemma set_bytes_append: "set_bytes v dst (n + k) m = set_bytes v (dst + of_nat n) k (set_bytes v dst n m)"
  by (induction v dst n m rule: set_bytes.induct) (simp_all add: ac_simps fun_upd_def)

lemma double_rep:
  fixes r :: u64
  assumes "\<And>k. bit r k \<longleftrightarrow> k < w \<and> bit b (k mod 8)" "w mod 8 = 0" "2 * w \<le> 64"
  shows "bit (r OR push_bit w r) k \<longleftrightarrow> k < 2 * w \<and> bit b (k mod 8)"
proof -
  have "(k - w) mod 8 = k mod 8" if "w \<le> k"
    using that assms(2) by (metis add.right_neutral le_add_diff_inverse mod_add_left_eq add_0)
  then show ?thesis
    using assms(3) by (auto simp: bit_or_iff bit_push_bit_iff assms(1))
qed

lemma bit_set_rep: "bit (set_rep val) k \<longleftrightarrow> k < 64 \<and> bit val (k mod 8)"
proof -
  let ?b = "scast val AND 0xff :: u64"
  have "bit ?b k \<longleftrightarrow> k < 8 \<and> bit val (k mod 8)" for k
  proof -
    have ff: "(0xff :: u64) = mask 8"
      by (simp add: mask_eq_exp_minus_1)
    show ?thesis
      unfolding ff by (auto simp: bit_and_iff bit_mask_iff bit_signed_iff)
  qed
  from double_rep [OF this] have "bit (?b OR push_bit 8 ?b) k \<longleftrightarrow> k < 16 \<and> bit val (k mod 8)" for k
    by simp
  from double_rep [OF this] have "bit ((?b OR push_bit 8 ?b) OR push_bit 16 (?b OR push_bit 8 ?b)) k \<longleftrightarrow>
      k < 32 \<and> bit val (k mod 8)" for k
    by simp
  from double_rep [OF this] show ?thesis
    by (simp add: set_rep_def Let_def)
qed

lemma set_rep_bytes: "i < 8 \<Longrightarrow> ucast (drop_bit (56 - 8 * i) (set_rep val)) = (ucast val :: u8)"
proof (rule bit_word_eqI)
  fix n
  assume "i < 8" "n < LENGTH(8)"
  moreover from this have "56 + n - 8 * i = n + 8 * (7 - i)" "n + 8 * (7 - i) < 64"
    by (simp_all add: algebra_simps)
  ultimately show "bit (ucast (drop_bit (56 - 8 * i) (set_rep val)) :: u8) n = bit (ucast val :: u8) n"
    by (simp add: bit_unsigned_iff bit_drop_bit_eq bit_set_rep)
qed

lemma put64_rep: "dst AND 7 = 0 \<Longrightarrow> put64 dst (set_rep val) m = Some (set_bytes (ucast val) dst 8 m)"
proof -
  define f where "f i m = m(dst + of_nat i := ucast (drop_bit (56 - 8 * i) (set_rep val)))" for i and m :: "u32 \<Rightarrow> u8"
  have "fold f [0..<n] m = set_bytes (ucast val) dst n m" if "n \<le> 8" for n
    using that
  proof (induction n)
    case (Suc n)
    have "f n m' = m'(dst + of_nat n := ucast val)" for m'
      using Suc set_rep_bytes [of n val] unfolding f_def by simp
    then have "fold f [0..<Suc n] m = (set_bytes (ucast val) dst n m)(dst + of_nat n := ucast val)"
      using Suc by simp
    also have "\<dots> = set_bytes (ucast val) dst (Suc n) m"
      using set_bytes_append [of "ucast val" dst n 1 m] by (simp del: set_bytes.simps(2)) simp
    finally show ?case .
  qed simp
  then have all: "fold f [0..<8] m = set_bytes (ucast val) dst 8 m"
    by simp
  assume "dst AND 7 = 0"
  then show ?thesis
    using all unfolding put64_def f_def by simp
qed

lemma aligned_add: "a AND 7 = 0 \<Longrightarrow> b AND 7 = 0 \<Longrightarrow> (a + b) AND 7 = (0 :: u32)"
proof -
  have "x AND 7 = take_bit 3 x" for x :: u32
    by (simp add: take_bit_eq_mask mask_eq_exp_minus_1)
  then have t: "x AND 7 = 0 \<longleftrightarrow> unat x mod 8 = 0" for x :: u32
    by (simp add: word_unat_eq_iff unsigned_take_bit_eq take_bit_eq_mod unat_mod_distrib)
  assume "a AND 7 = 0" "b AND 7 = 0"
  then have "8 dvd unat a" "8 dvd unat b"
    unfolding t by (simp_all add: mod_0_imp_dvd)
  then have "(unat a + unat b) mod 8 = 0"
    by simp
  then show ?thesis
    unfolding t unat_word_ariths by (simp add: mod_mod_cancel)
qed

lemma aligned_next:
  fixes dst :: u32
  assumes "dst AND 7 = 0"
  shows "(dst + 8) AND 7 = 0" "(dst + 16) AND 7 = 0" "(dst + 24) AND 7 = 0" "(dst + 32) AND 7 = 0"
  by (rule aligned_add [OF assms], simp)+

lemma set_to_boundary_rest:
  "set_to_boundary v dst n m = (dst', n', m') \<Longrightarrow>
   set_bytes v dst' n' m' = set_bytes v dst n m \<and> (dst' AND 7 = 0 \<or> n' = 0)"
  by (induction v dst n m rule: set_to_boundary.induct) (auto split: if_splits)

lemma set_blocks_rest:
  "dst AND 7 = 0 \<or> n = 0 \<Longrightarrow> \<exists>dst' n' m'. set_blocks (set_rep val) dst n m = Some (dst', n', m') \<and>
   set_bytes (ucast val) dst' n' m' = set_bytes (ucast val) dst n m \<and> (dst' AND 7 = 0 \<or> n' = 0)"
proof (induction n arbitrary: dst m rule: less_induct)
  case (less n)
  let ?v = "ucast val :: u8"
  show ?case
  proof (cases "32 \<le> n")
    case True
    then have a: "dst AND 7 = 0"
      using less.prems by auto
    define M where "M = set_bytes ?v (dst + 24) 8 (set_bytes ?v (dst + 16) 8 (set_bytes ?v (dst + 8) 8 (set_bytes ?v dst 8 m)))"
    have "set_bytes ?v dst n m = set_bytes ?v dst (8 + (8 + (8 + (8 + (n - 32))))) m"
      using True by simp
    also have "\<dots> = set_bytes ?v (dst + 32) (n - 32) M"
      unfolding set_bytes_append M_def by (simp add: add.assoc)
    finally have "set_bytes ?v dst n m = set_bytes ?v (dst + 32) (n - 32) M" .
    moreover have "set_blocks (set_rep val) dst n m = set_blocks (set_rep val) (dst + 32) (n - 32) M"
      using True a by (subst set_blocks.simps) (simp add: put64_rep aligned_next M_def)
    ultimately show ?thesis
      using less.IH [of "n - 32" "dst + 32" M] True aligned_next(4) [OF a] by auto
  qed (use less.prems in \<open>simp add: set_blocks.simps\<close>)
qed

lemma set_words_rest:
  "dst AND 7 = 0 \<or> n = 0 \<Longrightarrow> \<exists>dst' n' m'. set_words (set_rep val) dst n m = Some (dst', n', m') \<and>
   set_bytes (ucast val) dst' n' m' = set_bytes (ucast val) dst n m"
proof (induction n arbitrary: dst m rule: less_induct)
  case (less n)
  let ?v = "ucast val :: u8"
  show ?case
  proof (cases "8 \<le> n")
    case True
    then have a: "dst AND 7 = 0"
      using less.prems by auto
    define M where "M = set_bytes ?v dst 8 m"
    have "set_bytes ?v dst n m = set_bytes ?v dst (8 + (n - 8)) m"
      using True by simp
    also have "\<dots> = set_bytes ?v (dst + 8) (n - 8) M"
      unfolding set_bytes_append M_def by simp
    finally have "set_bytes ?v dst n m = set_bytes ?v (dst + 8) (n - 8) M" .
    moreover have "set_words (set_rep val) dst n m = set_words (set_rep val) (dst + 8) (n - 8) M"
      using True a by (subst set_words.simps) (simp add: put64_rep M_def)
    ultimately show ?thesis
      using less.IH [of "n - 8" "dst + 8" M] True aligned_next(1) [OF a] by auto
  qed (use less.prems in \<open>simp add: set_words.simps\<close>)
qed

lemma memset_bytes: "memset base val len m = Some (set_bytes (ucast val) base len m)"
proof (cases "8 \<le> len")
  case True
  let ?v = "ucast val :: u8"
  obtain d1 n1 m1 where 1: "set_to_boundary ?v base len m = (d1, n1, m1)"
    by (metis prod_cases3)
  note s1 = set_to_boundary_rest [OF 1]
  obtain d2 n2 m2 where 2: "set_blocks (set_rep val) d1 n1 m1 = Some (d2, n2, m2)"
    "set_bytes ?v d2 n2 m2 = set_bytes ?v d1 n1 m1" "d2 AND 7 = 0 \<or> n2 = 0"
    using set_blocks_rest [of d1 n1 val m1] s1 by blast
  obtain d3 n3 m3 where 3: "set_words (set_rep val) d2 n2 m2 = Some (d3, n3, m3)"
    "set_bytes ?v d3 n3 m3 = set_bytes ?v d2 n2 m2"
    using set_words_rest [OF 2(3)] by blast
  show ?thesis
    using True 1 2(1,2) 3 s1 by (simp add: memset_def)
qed (simp add: memset_def)

lemma set_bytes_apply: "set_bytes v dst n m a = (if \<exists>i < n. a = dst + of_nat i then v else m a)"
proof (induction v dst n m rule: set_bytes.induct)
  case (2 v dst n m)
  have "(\<exists>i < Suc n. a = dst + of_nat i) \<longleftrightarrow> a = dst \<or> (\<exists>i < n. a = dst + 1 + of_nat i)"
    by (simp add: Ex_less_Suc2 ac_simps)
  then show ?case
    using 2 by (auto simp: fun_upd_def)
qed simp

text \<open>C12: \<open>memset\<close>, with its stores of double words and its rest, is the loop that stores one byte after
the other: it sets exactly the bytes of the area, on every alignment and length, and every double word it
stores is aligned, so that no store traps.\<close>

theorem memset_is_bytewise:
  "memset base val len m = Some (\<lambda>a. if \<exists>i < len. a = base + of_nat i then ucast val else m a)"
  by (simp add: memset_bytes set_bytes_apply fun_eq_iff)

section \<open>What is printed does not depend on where it goes\<close>

text \<open>The characters in their order, collected in a list.\<close>

abbreviation snoc :: "char \<Rightarrow> string \<Rightarrow> string" where
  "snoc c t \<equiv> t @ [c]"

lemma fold_snoc [simp]: "fold snoc s t = t @ s"
  by (induction s arbitrary: t) simp_all

named_theorems prints \<open>a routine run on a state and on a list\<close>

lemma putstr_loop_prints:
  "putstr_loop put s (fold put t st) = map_option (\<lambda>t. fold put t st) (putstr_loop snoc s t)"
proof (induction s arbitrary: t)
  case (Cons c s)
  then show ?case
    using Cons [of "t @ [c]"] by simp
qed simp

lemma putstr_prints [prints]:
  "putstr put s (fold put t st) = map_option (\<lambda>t. fold put t st) (putstr snoc s t)"
  by (simp add: putstr_def putstr_loop_prints)

lemma put_fill_prints [prints]: "put_fill put c n (fold put t st) = fold put (put_fill snoc c n t) st"
proof -
  have "((put c) ^^ k) (fold put t st) = fold put (((snoc c) ^^ k) t) st" for k
    by (induction k) simp_all
  then show ?thesis
    by (simp add: put_fill_def)
qed

lemma fold_prints [prints]: "fold put s (fold put t st) = fold put (t @ s) st"
  by simp

lemma put_prints [prints]: "put c (fold put t st) = fold put (t @ [c]) st"
  by simp

lemma sputs_prints [prints]:
  "sputs put s w len c (fold put t st) = map_option (\<lambda>t. fold put t st) (sputs snoc s w len c t)"
  by (auto simp: sputs_def Let_def prints simp del: fold_append split: bind_splits)

abbreviation replay :: "(char \<Rightarrow> 's \<Rightarrow> 's) \<Rightarrow> 's \<Rightarrow> (string \<times> 'a) option \<Rightarrow> ('s \<times> 'a) option" where
  "replay put st \<equiv> map_option (map_prod (\<lambda>t. fold put t st) id)"

lemma put_number_prints [prints]:
  "put_number put sp b a (fold put t st) = replay put st (put_number snoc sp b a t)"
  by (auto simp: put_number_def prints simp del: fold_append split: bind_splits)

lemma put_bits_prints [prints]:
  "put_bits put b any s (fold put t st) = map_option (\<lambda>t. fold put t st) (put_bits snoc b any s t)"
proof (induction snoc b any s t rule: put_bits.induct)
  case (2 b any c s t)
  show ?case
    using 2 by (cases any) (simp_all add: Let_def prints del: fold_append)
qed simp

lemma put_b_prints [prints]: "put_b put a (fold put t st) = replay put st (put_b snoc a t)"
  by (auto simp: put_b_def prints simp del: fold_append split: bind_splits)

definition prf_agrees ::
  "(string \<Rightarrow> u32 \<Rightarrow> 's \<Rightarrow> 's option) \<Rightarrow> (string \<Rightarrow> u32 \<Rightarrow> string \<Rightarrow> string option) \<Rightarrow> (char \<Rightarrow> 's \<Rightarrow> 's) \<Rightarrow> 's \<Rightarrow> bool" where
  "prf_agrees prf1 prf2 put st \<longleftrightarrow>
    (\<forall>f v t. prf1 f v (fold put t st) = map_option (\<lambda>t. fold put t st) (prf2 f v t))"

lemma prf_agrees_prints [prints]:
  "prf_agrees prf1 prf2 put st \<Longrightarrow> prf1 f v (fold put t st) = map_option (\<lambda>t. fold put t st) (prf2 f v t)"
  by (simp add: prf_agrees_def)

lemma put_reg_prints [prints]:
  assumes "prf_agrees prf1 prf2 put st"
  shows "put_reg prf1 put v any d (fold put t st) =
    map_option (map_prod id (\<lambda>t. fold put t st)) (put_reg prf2 snoc v any d t)"
  using assms
  by (cases "rd_name d"; cases "rd_format d"; cases "rd_values d"; cases any; cases "v = 0")
    (auto simp: put_reg_def prints simp del: fold_append split: bind_splits)

lemma put_regs_prints [prints]:
  assumes "prf_agrees prf1 prf2 put st"
  shows "put_regs prf1 put b any ds (fold put t st) = map_option (\<lambda>t. fold put t st) (put_regs prf2 snoc b any ds t)"
proof (induction ds arbitrary: any t)
  case (Cons d ds)
  then show ?case
    using assms by (auto simp: prints simp del: fold_append split: bind_splits)
qed simp

lemma put_hex_prints [prints]: "put_hex put b (fold put t st) = map_option (\<lambda>t. fold put t st) (put_hex snoc b t)"
  by (auto simp: put_hex_def prints simp del: fold_append split: bind_splits)

lemma put_r_prints [prints]:
  assumes "prf_agrees prf1 prf2 put st"
  shows "put_r prf1 put sp R a (fold put t st) = replay put st (put_r prf2 snoc sp R a t)"
  using assms
  by (cases R) (simp_all add: put_r_def prints bind_map_option map_option_bind comp_def case_prod_unfold
      if_distrib [where f = "map_option g" for g] del: fold_append cong: if_cong)

lemma convert_prints [prints]:
  assumes "prf_agrees prf1 prf2 put st"
  shows "convert prf1 put sp c a (fold put t st) = replay put st (convert prf2 snoc sp c a t)"
  using assms by (simp add: convert_def prints del: fold_append split: bind_splits)

lemma vprf_loop_prints:
  assumes "prf_agrees prf1 prf2 put st"
  shows "vprf_loop prf1 put scal f a (fold put t st) = map_option (\<lambda>t. fold put t st) (vprf_loop prf2 snoc scal f a t)"
  using assms
proof (induction prf2 "snoc" scal f a t rule: vprf_loop.induct)
  case (2 p scal c f a t)
  then show ?case
    by (subst (1 2) vprf_loop.simps) (simp add: prints del: fold_append split: option.splits)
qed (simp add: vprf_loop.simps)

lemma prf_one_prints: "prf_agrees (prf_one put scal) (prf_one snoc scal) put st"
  unfolding prf_one_def prf_agrees_def by (intro allI vprf_loop_prints) (simp add: prf_agrees_def)

text \<open>The text a format and its arguments stand for.\<close>

definition vprf_text :: "bool \<Rightarrow> string \<Rightarrow> vararg list \<Rightarrow> string option" where
  "vprf_text scal f a = vprf snoc scal f a []"

lemma vprf_prints: "vprf put scal f a st = map_option (\<lambda>t. fold put t st) (vprf_text scal f a)"
  using vprf_loop_prints [OF prf_one_prints, of put scal scal f a "[]" st] by (simp add: vprf_def vprf_text_def)

section \<open>What a format means\<close>

text \<open>A format as a list of texts and fields with the values they print.\<close>

datatype fvalue = VDec u32 | VUns u32 | VHex u32 | VOct u32 | VChr char | VStr string | VNull

datatype piece =
    Text string
  | Field (left_just: bool) (zero_fill: bool) (fwidth: nat) (fprec: nat) (fval: fvalue)

fun conv_char :: "fvalue \<Rightarrow> char" where
  "conv_char (VDec _) = CHR ''d''"
| "conv_char (VUns _) = CHR ''u''"
| "conv_char (VHex _) = CHR ''x''"
| "conv_char (VOct _) = CHR ''o''"
| "conv_char (VChr _) = CHR ''c''"
| "conv_char (VStr _) = CHR ''s''"
| "conv_char VNull = CHR ''s''"

fun value_arg :: "fvalue \<Rightarrow> vararg" where
  "value_arg (VDec n) = AInt n"
| "value_arg (VUns n) = AInt n"
| "value_arg (VHex n) = AInt n"
| "value_arg (VOct n) = AInt n"
| "value_arg (VChr c) = AInt (of_char c)"
| "value_arg (VStr s) = AStr (Some s)"
| "value_arg VNull = AStr None"

definition number_text :: "nat \<Rightarrow> string" where
  "number_text n = (if n = 0 then [] else dec n)"

fun piece_text :: "piece \<Rightarrow> string" where
  "piece_text (Text t) = t"
| "piece_text (Field l z w p v) =
    CHR ''%'' # (if l then ''-'' else []) @ (if z then ''0'' else []) @ number_text w
      @ (if p = 0 then [] else CHR ''.'' # dec p) @ [conv_char v]"

fun piece_args :: "piece \<Rightarrow> vararg list" where
  "piece_args (Text t) = []"
| "piece_args (Field l z w p v) = [value_arg v]"

fun piece_ok :: "piece \<Rightarrow> bool" where
  "piece_ok (Text t) \<longleftrightarrow> nulfree t \<and> CHR ''%'' \<notin> set t"
| "piece_ok (Field l z w p v) \<longleftrightarrow> w < 2 ^ 31 \<and> p < 2 ^ 31 \<and> (case v of VStr s \<Rightarrow> NUL \<in> set s | _ \<Rightarrow> True)"

text \<open>Numerals, from the highest digit.\<close>

fun numeral_text :: "nat \<Rightarrow> nat \<Rightarrow> string" where
  "numeral_text b n =
    (if b < 2 \<or> n < b then [''0123456789abcdef'' ! n] else numeral_text b (n div b) @ [''0123456789abcdef'' ! (n mod b)])"

declare numeral_text.simps [simp del]

definition signed_text :: "int \<Rightarrow> string" where
  "signed_text i = (if i < 0 then CHR ''-'' # numeral_text 10 (nat (- i)) else numeral_text 10 (nat i))"

fun value_text :: "fvalue \<Rightarrow> string" where
  "value_text (VDec n) = signed_text (sint n)"
| "value_text (VUns n) = numeral_text 10 (unat n)"
| "value_text (VHex n) = numeral_text 16 (unat n)"
| "value_text (VOct n) = numeral_text 8 (unat n)"
| "value_text (VChr c) = str_of [c]"
| "value_text (VStr s) = str_of s"
| "value_text VNull = ''<NULL>''"

text \<open>The precision cuts every value, numbers too; zeros fill on either side and before a sign.\<close>

definition laid_out :: "bool \<Rightarrow> bool \<Rightarrow> nat \<Rightarrow> nat \<Rightarrow> string \<Rightarrow> string" where
  "laid_out l z w p t =
    (let t = (if p = 0 then t else take p t);
         fill = replicate (w - length t) (if z then CHR ''0'' else CHR '' '')
     in if l then t @ fill else fill @ t)"

fun piece_out :: "piece \<Rightarrow> string" where
  "piece_out (Text t) = t"
| "piece_out (Field l z w p v) = laid_out l z w p (value_text v)"

lemma digit_is: "k < 10 \<Longrightarrow> char_of (48 + k :: nat) = c \<longleftrightarrow> 48 + int k = schar c"
  using schar_char_of [of "48 + k"] schar_inj [of "char_of (48 + k)" c] by (auto simp del: schar_inj)

lemma fmt_digits_dec: "fmt_digits i (dec n @ f) = fmt_digits (i * 10 ^ length (dec n) + of_nat n) f"
proof (induction n arbitrary: i f rule: dec.induct)
  case (1 n)
  have d: "fmt_digits i (char_of (48 + k) # f) = fmt_digits (i * 10 + of_nat k) f" if "k < 10" for i f and k :: nat
  proof -
    have "schar (char_of (48 + k)) = 48 + int k"
      using that schar_char_of [of "48 + k"] by simp
    then show ?thesis
      using that by (simp add: isdigit_iff)
  qed
  show ?case
  proof (cases "n < 10")
    case True
    then show ?thesis
      using d [of n i f] by (subst (1 2) dec.simps) simp
  next
    case False
    have "(of_nat n :: u32) = of_nat (n div 10) * 10 + of_nat (n mod 10)"
      by (metis div_mult_mod_eq of_nat_add of_nat_mult of_nat_numeral)
    then show ?thesis
      using False 1 d [of "n mod 10"]
      by (subst (1 2) dec.simps) (simp add: algebra_simps del: fmt_digits.simps)
  qed
qed

lemma rd_Cons_0 [simp]: "rd (c # f) 0 = Some c"
  by (simp add: rd_def)

lemma rd_Cons_Suc [simp]: "rd (c # f) (Suc n) = rd f n"
  by (simp add: rd_def)

lemma rd_Cons_1 [simp]: "rd (c # f) 1 = rd f 0"
  using rd_Cons_Suc [of c f 0] by (simp del: rd_Cons_Suc)

lemma fmt_digits_stop: "\<not> isdigit (schar c) \<Longrightarrow> fmt_digits i (c # f) = Some (i, c # f)"
  by simp

lemma dec_head:
  assumes "0 < n"
  obtains d ds where "dec n = char_of (48 + d) # ds" "0 < d" "d < (10 :: nat)"
  using assms
proof (induction n arbitrary: thesis rule: dec.induct)
  case (1 n)
  show ?case
  proof (cases "n < 10")
    case True
    then show ?thesis
      using 1(2) [of n "[]"] 1(3) dec.simps [of n] by simp
  next
    case False
    then obtain d :: nat and ds where "dec (n div 10) = char_of (48 + d) # ds" "0 < d" "d < 10"
      using 1(1) by (metis div_greater_zero_iff linorder_not_less zero_less_numeral)
    then show ?thesis
      using False 1(2) [of d "ds @ [char_of (48 + n mod 10)]"] dec.simps [of n] by simp
  qed
qed

lemma conv_char_class:
  "\<not> isdigit (schar (conv_char v))" "conv_char v \<noteq> CHR ''.''" "conv_char v \<noteq> CHR ''*''" "conv_char v \<noteq> CHR ''#''"
  "conv_char v \<noteq> CHR ''-''" "conv_char v \<notin> {CHR ''l'', CHR ''w'', CHR ''I'', CHR ''L''}"
  by (cases v; simp add: isdigit_iff schar_def Let_def)+

text \<open>A width behind the flags, read by \<open>fmt_width\<close>.\<close>

lemma digit_head:
  assumes "k < 10"
  shows "char_of (48 + k :: nat) \<noteq> CHR ''#''" "char_of (48 + k :: nat) \<noteq> CHR ''-''" "char_of (48 + k :: nat) \<noteq> CHR ''*''"
    "char_of (48 + k :: nat) = CHR ''0'' \<longleftrightarrow> k = 0" "isdigit (schar (char_of (48 + k :: nat)))"
proof -
  show "isdigit (schar (char_of (48 + k :: nat)))"
    using assms by (simp add: schar_char_of isdigit_iff)
qed (use assms in \<open>simp_all add: digit_is schar_def\<close>)

lemma fmt_width_number:
  assumes "\<not> isdigit (schar c)" "c \<noteq> CHR ''*''"
  shows "fmt_width ((if z then ''0'' else []) @ number_text w @ c # f) a =
    Some (if z then CHR ''0'' else CHR '' '', of_nat w, c # f, a)"
proof -
  have digits: "fmt_digits i (number_text w @ c # f) = Some (i * 10 ^ length (number_text w) + of_nat w, c # f)" for i
    using fmt_digits_stop [OF assms(1)] by (simp add: number_text_def fmt_digits_dec)
  show ?thesis
  proof (cases z)
    case True
    have "fmt_digits 0 (CHR ''0'' # number_text w @ c # f) = fmt_digits 0 (number_text w @ c # f)"
      by (simp add: isdigit_iff schar_def)
    then show ?thesis
      using True digits [of 0] by (simp add: fmt_width_def isdigit_iff schar_def)
  next
    case False
    show ?thesis
    proof (cases "w = 0")
      case True
      then show ?thesis
        using False assms by (simp add: fmt_width_def number_text_def)
    next
      case w: False
      then obtain e ds where n: "number_text w = e # ds" "isdigit (schar e)" "e \<noteq> CHR ''0''"
        using dec_head [of w] digit_head by (metis bot_nat_0.not_eq_extremum number_text_def)
      have "fmt_digits 0 (e # ds @ c # f) = Some (of_nat w, c # f)"
        using digits [of 0] by (simp add: n(1) del: fmt_digits.simps)
      then show ?thesis
        using False n by (simp add: fmt_width_def del: fmt_digits.simps)
    qed
  qed
qed

lemma fmt_prec_number:
  assumes "\<not> isdigit (schar c)" "c \<noteq> CHR ''.''"
  shows "fmt_prec ((if p = 0 then [] else CHR ''.'' # dec p) @ c # f) a = Some (of_nat p, c # f, a)"
proof (cases "p = 0")
  case True
  then show ?thesis
    using assms by (simp add: fmt_prec_def)
next
  case False
  then obtain d :: nat and ds where d: "dec p = char_of (48 + d) # ds" "d < 10"
    using dec_head [of p] by blast
  then obtain e where e: "dec p = e # ds" "e \<noteq> CHR ''*''"
    using digit_head [of d] by blast
  have "fmt_digits 0 (e # ds @ c # f) = Some (of_nat p, c # f)"
    using fmt_digits_dec [of 0 p "c # f"] fmt_digits_stop [OF assms(1), of "of_nat p" f]
    by (simp add: e(1) del: fmt_digits.simps)
  then show ?thesis
    using False e by (simp add: fmt_prec_def del: fmt_digits.simps)
qed

lemma field_head:
  assumes "c \<noteq> CHR ''#''" "c \<noteq> CHR ''-''"
  obtains e r where
    "(if z then ''0'' else []) @ number_text w @ (if p = 0 then [] else CHR ''.'' # dec p) @ c # f = e # r"
    "e \<noteq> CHR ''#''" "e \<noteq> CHR ''-''"
proof -
  obtain e r where n: "number_text w @ (if p = 0 then [] else CHR ''.'' # dec p) @ c # f = e # r"
    "e \<noteq> CHR ''#''" "e \<noteq> CHR ''-''"
  proof (cases "w = 0")
    case True
    then show ?thesis
      using that assms by (cases "p = 0") (simp_all add: number_text_def)
  next
    case False
    then obtain d :: nat and ds where "dec w = char_of (48 + d) # ds" "d < 10"
      using dec_head [of w] by blast
    then show ?thesis
      using False that digit_head [of d] by (simp add: number_text_def)
  qed
  show ?thesis
    using that [of "CHR ''0''"] that [OF _ n(2,3)] n(1) by (cases z) simp_all
qed

definition field_spec :: "bool \<Rightarrow> bool \<Rightarrow> nat \<Rightarrow> nat \<Rightarrow> fmt_spec" where
  "field_spec l z w p = \<lparr>altform = False, fw = (if l then - of_nat w else of_nat w), fmt_len = of_nat p,
     fillc = (if z then CHR ''0'' else CHR '' ''), llflag = False, Iflag = False\<rparr>"

lemma fmt_spec_at_field:
  "fmt_spec_at scal ((if l then ''-'' else []) @ (if z then ''0'' else []) @ number_text w
      @ (if p = 0 then [] else CHR ''.'' # dec p) @ conv_char v # f) a =
    Some (field_spec l z w p, conv_char v, f, a)"
proof -
  let ?r = "(if p = 0 then [] else CHR ''.'' # dec p) @ conv_char v # f"
  let ?b = "(if z then ''0'' else []) @ number_text w @ ?r"
  obtain e r where e: "?b = e # r" "e \<noteq> CHR ''#''" "e \<noteq> CHR ''-''"
    using field_head [of "conv_char v"] conv_char_class [of v] by metis
  have width: "fmt_width ?b a = Some (if z then CHR ''0'' else CHR '' '', of_nat w, ?r, a)"
  proof (cases "p = 0")
    case True
    then show ?thesis
      using fmt_width_number [of "conv_char v" z w f a] conv_char_class [of v] by simp
  next
    case False
    then show ?thesis
      using fmt_width_number [of "CHR ''.''" z w "dec p @ conv_char v # f" a] by (simp add: isdigit_iff schar_def)
  qed
  have prec: "fmt_prec ?r a = Some (of_nat p, conv_char v # f, a)"
    using fmt_prec_number conv_char_class [of v] by simp
  have sz: "fmt_size scal (conv_char v # f) = Some (False, False, conv_char v # f)"
    using conv_char_class [of v] by (simp add: fmt_size_def)
  have flags: "fmt_flag (CHR ''#'') ((if l then ''-'' else []) @ ?b) = Some (False, (if l then ''-'' else []) @ ?b)"
    "fmt_flag (CHR ''-'') ((if l then ''-'' else []) @ ?b) = Some (l, ?b)"
    unfolding e(1) using e(2,3) by (simp_all add: fmt_flag_def)
  show ?thesis
    using width prec sz flags by (simp add: fmt_spec_at_def field_spec_def)
qed

section \<open>Fields\<close>

lemma str_of_Nil [simp]: "str_of [] = []"
  by (simp add: str_of_def)

lemma NUL_in_cstr [simp]: "NUL \<in> set (cstr t)"
  by (simp add: cstr_def)

lemma put_fill_snoc [simp]: "put_fill snoc c n t = t @ replicate (nat n) c"
proof -
  have "((snoc c) ^^ k) t = t @ replicate k c" for k
    by (induction k) (simp_all add: replicate_append_same)
  then show ?thesis
    by (simp add: put_fill_def)
qed

lemma sint_minus_of_nat_32: "n < 2 ^ 31 \<Longrightarrow> sint (- of_nat n :: u32) = - int n"
proof -
  assume n: "n < 2 ^ 31"
  have "(- of_nat n :: u32) = word_of_int (- int n)"
    by simp
  then show ?thesis
    using n by (simp only: signed_of_int) (simp add: signed_take_bit_int_eq_self)
qed

lemma bounded_len_str_of: "NUL \<in> set m \<Longrightarrow> bounded_len m p = Some (min p (length (str_of m)))"
  by (induction m p rule: bounded_len.induct) (auto simp: str_of_Cons)

lemma strlen_str_of: "NUL \<in> set m \<Longrightarrow> strlen m = Some (length (str_of m))"
  by (induction m) (auto simp: str_of_Cons)

lemma take_str_of: "take (min p (length (str_of m))) m = take p (str_of m)"
  by (metis str_of_def take_take takeWhile_eq_take)

lemma sputs_laid_out:
  assumes "w < 2 ^ 31" "p < 2 ^ 31" "NUL \<in> set m"
  shows "sputs snoc (Some m) (if l then - of_nat w else of_nat w) (of_nat p)
      (if z then CHR ''0'' else CHR '' '') out = Some (out @ laid_out l z w p (str_of m))"
proof -
  let ?m = "m"
  define k where "k = (if p = 0 then length (str_of ?m) else min p (length (str_of ?m)))"
  have n: "(if sint (of_nat p :: u32) \<le> 0 then strlen ?m else bounded_len ?m (nat (sint (of_nat p :: u32)))) = Some k"
    using assms(2) by (simp add: k_def sint_of_nat_32 strlen_str_of [OF assms(3)] bounded_len_str_of [OF assms(3)])
  have t: "take k ?m = (if p = 0 then str_of ?m else take p (str_of ?m))"
    using take_str_of [of p ?m] take_str_of [of "length (str_of ?m)" ?m] by (simp add: k_def)
  have len: "length (take k ?m) = k"
    unfolding t by (simp add: k_def min.commute)
  let ?fc = "if z then CHR ''0'' else CHR '' ''"
  have "sputs snoc (Some ?m) (if l then - of_nat w else of_nat w) (of_nat p) ?fc out =
      Some (if l then (out @ take k ?m) @ replicate (w - k) ?fc else (out @ replicate (w - k) ?fc) @ take k ?m)"
    using assms(1) unfolding sputs_def or_null_def Let_def option.case n Option.bind.simps
    by (simp add: sint_of_nat_32 sint_minus_of_nat_32 cong: if_cong) (simp add: nat_minus_as_int)
  then show ?thesis
    using len by (simp add: laid_out_def t [symmetric] Let_def)
qed

lemma digit_chars_append: "digit_chars (xs @ ys) = do { a \<leftarrow> digit_chars xs; b \<leftarrow> digit_chars ys; Some (a @ b) }"
  by (induction xs) (simp_all add: bind_map_option)

lemma digit_char_nth: "d < 16 \<Longrightarrow> digit_char d = Some (''0123456789abcdef'' ! d)"
  by (simp add: digit_char_def rd_def cstr_def nth_append del: append.simps append_Cons)

lemma sprint_digits_numeral:
  assumes "2 \<le> b" "b \<le> 16"
  shows "sprint_digits n b = Some (numeral_text b n)"
proof -
  have "digit_chars (rev (rev_digits b n)) = Some (numeral_text b n)"
    using assms
  proof (induction b n rule: rev_digits.induct)
    case (1 b n)
    have m: "n mod b < 16"
      using 1(2,3) mod_less_divisor [of b n] by linarith
    show ?case
    proof (cases "n < b")
      case True
      then show ?thesis
        using 1(2) m by (subst rev_digits.simps, subst numeral_text.simps) (simp add: digit_char_nth)
    next
      case False
      then have "n div b \<noteq> 0"
        using 1(2) by (simp add: div_eq_0_iff)
      then show ?thesis
        using False 1 m by (subst rev_digits.simps, subst numeral_text.simps) (simp add: digit_char_nth digit_chars_append)
    qed
  qed
  then show ?thesis
    using assms by (simp add: sprint_digits_def)
qed

lemma sprintn_unsigned: "2 \<le> b \<Longrightarrow> b \<le> 16 \<Longrightarrow> sprintn n b = Some (numeral_text (nat b) (unat n))"
  by (simp add: sprintn_def sprint_digits_numeral)

lemma unat_minus_sint:
  fixes n :: "'w::len word"
  assumes "sint n < 0"
  shows "unat (- n) = nat (- sint n)"
proof -
  have "- n = word_of_int (- sint n)"
    by (simp flip: wi_hom_neg)
  then have "uint (- n) = take_bit LENGTH('w) (- sint n)"
    by (metis uint_word_of_int_eq)
  moreover have "- sint n < 2 ^ LENGTH('w)"
    using sint_greater_eq [of n] power_strict_increasing [of "LENGTH('w) - Suc 0" "LENGTH('w)" "2 :: int"]
    by (simp del: power_strict_increasing_iff)
  ultimately have "uint (- n) = - sint n"
    using assms by (simp add: take_bit_int_eq_self)
  then show ?thesis
    by (simp add: unat_eq_nat_uint)
qed

lemma sprintn_signed: "sprintn n (- 10) = Some (signed_text (sint n))"
proof (cases "sint n < 0")
  case True
  then show ?thesis
    by (simp add: sprintn_def sprint_digits_numeral signed_text_def unat_minus_sint)
next
  case False
  moreover have "uint n = take_bit 32 (sint n)"
    using uint_word_of_int_eq [of "sint n", where 'a = 32] by simp
  ultimately have "nat (sint n) = unat n"
    using sint_less [of n] by (simp add: take_bit_int_eq_self unat_eq_nat_uint)
  then show ?thesis
    using False by (simp add: sprintn_def sprint_digits_numeral signed_text_def)
qed

lemma char_word: "char_of_int (uint (of_char c :: u32)) = c"
proof -
  have "(of_char c :: u32) = word_of_int (of_char c)"
    by (metis of_int_of_char)
  then have "uint (of_char c :: u32) = of_char c"
    using of_char_range [of c] by (simp add: uint_word_of_int_eq take_bit_int_eq_self)
  then show ?thesis
    using of_char_range [of c] by (simp add: char_of_int_def)
qed

lemma nulfree_numeral: "2 \<le> b \<Longrightarrow> b \<le> 16 \<Longrightarrow> nulfree (numeral_text b n)"
proof (induction b n rule: numeral_text.induct)
  case (1 b n)
  have d: "''0123456789abcdef'' ! k \<noteq> NUL" if "k < 16" for k
  proof -
    have "''0123456789abcdef'' ! k \<in> set ''0123456789abcdef''"
      by (rule nth_mem) (use that in simp)
    then show ?thesis
      by auto
  qed
  have "n mod b < 16"
    using 1(2,3) mod_less_divisor [of b n] by linarith
  then show ?case
    using 1 d [of n] d [of "n mod b"] by (subst numeral_text.simps) auto
qed

lemma str_of_number: "2 \<le> b \<Longrightarrow> b \<le> 16 \<Longrightarrow> str_of (numeral_text b n @ [NUL]) = numeral_text b n"
  by (simp add: nulfree_numeral)

lemma str_of_signed: "str_of (signed_text i @ [NUL]) = signed_text i"
  using nulfree_numeral [of 10] by (simp add: signed_text_def str_of_Cons)

lemma convert_field:
  assumes "w < 2 ^ 31" "p < 2 ^ 31" "\<forall>s. v = VStr s \<longrightarrow> NUL \<in> set s"
  shows "convert pf snoc (field_spec l z w p) (conv_char v) (value_arg v # a) out =
    Some (out @ laid_out l z w p (value_text v), a)"
proof -
  note lo = sputs_laid_out [OF assms(1,2)]
  show ?thesis
  proof (cases v)
    case VNull
    then show ?thesis
      using lo [of "cstr ''<NULL>''" l z out] by (simp add: convert_def sputs_def or_null_def cstr_def str_of_def field_spec_def)
  next
    case (VStr s)
    then show ?thesis
      using lo [of s l z out] assms(3) by (simp add: convert_def field_spec_def)
  next
    case (VChr c)
    then show ?thesis
      using lo [of "[c, NUL]" l z out] by (simp add: convert_def cstr_def char_word str_of_def field_spec_def)
  qed (simp_all add: field_spec_def convert_def put_number_def sprintn_signed sprintn_unsigned cstr_def lo str_of_number str_of_signed)
qed

lemma vprf_loop_text:
  "nulfree t \<Longrightarrow> CHR ''%'' \<notin> set t \<Longrightarrow> vprf_loop pf snoc scal (t @ f) a out = vprf_loop pf snoc scal f a (out @ t)"
  by (induction t arbitrary: out) (auto simp: vprf_loop.simps(2))

lemma vprf_loop_piece:
  assumes "piece_ok pc"
  shows "vprf_loop pf snoc scal (piece_text pc @ f) (piece_args pc @ a) out = vprf_loop pf snoc scal f a (out @ piece_out pc)"
proof (cases pc)
  case (Field l z w p v)
  then have "\<forall>s. v = VStr s \<longrightarrow> NUL \<in> set s" "w < 2 ^ 31" "p < 2 ^ 31"
    using assms by auto
  then show ?thesis
    using Field fmt_spec_at_field [of scal l z w p v f "value_arg v # a"] convert_field [of w p v pf l z a out]
    by (simp add: vprf_loop.simps(2))
qed (use assms in \<open>simp add: vprf_loop_text\<close>)

lemma vprf_text_pieces:
  assumes "\<forall>pc \<in> set ps. piece_ok pc"
  shows "vprf_text scal (cstr (concat (map piece_text ps))) (concat (map piece_args ps) @ a) =
    Some (concat (map piece_out ps))"
proof -
  have "vprf_loop pf snoc scal (concat (map piece_text ps) @ [NUL]) (concat (map piece_args ps) @ a) out =
      Some (out @ concat (map piece_out ps))" for pf out
    using assms by (induction ps arbitrary: out) (simp_all add: vprf_loop_piece vprf_loop.simps(2))
  then show ?thesis
    by (simp add: vprf_text_def vprf_def cstr_def)
qed

text \<open>C9: \<open>vprf\<close> prints a format made of texts and of fields (flags, width, precision, conversion) as the
texts and the values of the fields, laid out, one after the other, whatever it prints to.\<close>

theorem vprf_prints_pieces:
  assumes "\<forall>pc \<in> set ps. piece_ok pc"
  shows "vprf put scal (cstr (concat (map piece_text ps))) (concat (map piece_args ps) @ a) st =
    Some (fold put (concat (map piece_out ps)) st)"
  using vprf_text_pieces [OF assms] by (subst vprf_prints) simp

theorem vprf_prints_pieces_witness:
  "vprf snoc False (cstr ''%-5s|%08x %d%c'') [AStr (Some (cstr ''ab'')), AInt 0xBEEF, AInt (- 12), AInt 33] [] =
    Some ''ab   |0000beef -12!''"
proof -
  have d: "dec 5 = ''5''" "dec 8 = ''8''"
    by code_simp+
  have r: "((snoc c) ^^ 3) t = t @ [c, c, c]" "((snoc c) ^^ 4) t = t @ [c, c, c, c]" for c t
    by (simp_all add: eval_nat_numeral)
  show ?thesis
    using vprf_prints_pieces [of "[Field True False 5 0 (VStr (cstr ''ab'')), Text ''|'', Field False True 8 0 (VHex 0xBEEF), Text '' '',
      Field False False 0 0 (VDec (- 12)), Field False False 0 0 (VChr (CHR ''!''))]" snoc False "[]" "[]"]
    by (simp add: number_text_def d laid_out_def numeral_text.simps signed_text_def str_of_Cons r)
qed

section \<open>Strings in memory\<close>

lemma fold_poke_None [simp]: "fold poke t None = None"
  by (induction t) simp_all

lemma fold_poke:
  "fold poke t (Some (buf, n)) =
    (if n + length t \<le> length buf \<or> t = [] then Some (take n buf @ t @ drop (n + length t) buf, n + length t) else None)"
proof (induction t arbitrary: buf n)
  case (Cons c t)
  show ?case
  proof (cases "n < length buf")
    case True
    then have "take n buf @ c # t @ drop (Suc (n + length t)) buf = take (Suc n) (buf[n := c]) @ t @ drop (Suc n + length t) (buf[n := c])"
      if "t = [] \<or> Suc n + length t \<le> length buf"
      by (simp add: take_Suc_conv_app_nth)
    then show ?thesis
      using True Cons by (auto simp: wr_def)
  qed (simp add: wr_def)
qed simp

lemma sprintf_text:
  assumes "vprf_text scal f a = Some t" "length t < length buf"
  shows "sprintf scal buf f a = Some (t @ NUL # drop (Suc (length t)) buf, length (str_of t))"
    "vsprintf scal buf f a = map_option (\<lambda>n. (t @ NUL # drop (Suc (length t)) buf, n)) (strlen (drop (Suc (length t)) buf))"
proof -
  have "vprf poke scal f a (Some (buf, 0)) = Some (Some (t @ drop (length t) buf, length t))"
    using assms by (simp add: vprf_prints fold_poke)
  moreover have "poke NUL (Some (t @ drop (length t) buf, length t)) = Some (t @ NUL # drop (Suc (length t)) buf, Suc (length t))"
    using assms(2) by (cases "drop (length t) buf") (simp_all add: wr_def drop_Suc flip: tl_drop)
  moreover have "strlen (t @ NUL # r) = Some (length (str_of t))" for r
    by (induction t) (auto simp: str_of_Cons str_of_def [of "[]"])
  ultimately show "sprintf scal buf f a = Some (t @ NUL # drop (Suc (length t)) buf, length (str_of t))"
    "vsprintf scal buf f a = map_option (\<lambda>n. (t @ NUL # drop (Suc (length t)) buf, n)) (strlen (drop (Suc (length t)) buf))"
    by (simp_all add: sprintf_def vsprintf_def map_conv_bind_option comp_def)
qed

text \<open>\<open>sprintf\<close> stores the text, a NUL, and returns the length of the text; \<open>vsprintf\<close> stores the
same but returns the length of the string that happens to stand in the buffer behind that NUL.\<close>

theorem vsprintf_measures_the_rest:
  assumes "vprf_text scal f a = Some t" "nulfree t" "buf = old @ cstr s @ r" "length old = Suc (length t)" "nulfree s"
  shows "sprintf scal buf f a = Some (t @ NUL # cstr s @ r, length t) \<and>
    vsprintf scal buf f a = Some (t @ NUL # cstr s @ r, length s)"
proof -
  have "length t < length buf" "drop (Suc (length t)) buf = cstr s @ r"
    using assms(3,4) by simp_all
  moreover have "strlen (cstr s @ r) = Some (length s)"
    using assms(5) by (simp add: cstr_def strlen_term)
  moreover have "str_of t = t"
    using assms(2) by (auto simp: str_of_def takeWhile_eq_all_conv)
  ultimately show ?thesis
    using sprintf_text [OF assms(1), of buf] by simp
qed

theorem vsprintf_measures_the_rest_witness:
  "sprintf False (''.......'' @ cstr ''abc'') (cstr ''disk %d'') [AInt 4] = Some (''disk 4'' @ NUL # cstr ''abc'', 6) \<and>
   vsprintf False (''.......'' @ cstr ''abc'') (cstr ''disk %d'') [AInt 4] = Some (''disk 4'' @ NUL # cstr ''abc'', 3)"
proof -
  have "vprf_text False (cstr ''disk %d'') [AInt 4] = Some ''disk 4''"
    using vprf_text_pieces [of "[Text ''disk '', Field False False 0 0 (VDec 4)]" False "[]"]
    by (simp add: number_text_def laid_out_def signed_text_def numeral_text.simps)
  from vsprintf_measures_the_rest [OF this, of "''.......'' @ cstr ''abc''" "''.......''" "''abc''" "[]"] show ?thesis
    by simp
qed

lemma numeral_dec: "numeral_text 10 n = dec n"
proof (induction "10 :: nat" n rule: numeral_text.induct)
  case (1 n)
  have "char_of (48 + k) = ''0123456789abcdef'' ! k" if "k < 10" for k
  proof -
    have "k \<in> {0, 1, 2, 3, 4, 5, 6, 7, 8, 9}"
      using that by auto
    then show ?thesis
      by (auto simp: char_of_eq)
  qed
  then show ?case
    using 1 by (subst numeral_text.simps, subst dec.simps) simp
qed

lemma num_val_hex: "num_val 16 (numeral_text 16 n) 0 = n" "digits_of 16 (numeral_text 16 n)"
proof (induction "16 :: nat" n rule: numeral_text.induct)
  case (1 n)
  have d: "xdigit (''0123456789abcdef'' ! k) True = of_nat k" if "k < 16" for k
  proof -
    have "\<forall>k \<in> set [0..<16]. xdigit (''0123456789abcdef'' ! k) True = of_nat k"
      by code_simp
    then show ?thesis
      using that by simp
  qed
  have k: "unat (of_nat k :: u32) = k" "(of_nat k :: u32) < 16" if "k < 16" for k
    using that by (simp_all add: unat_of_nat_32 word_less_nat_alt)
  {
    case 1
    then show ?case
      using \<open>\<lbrakk>\<not> (16 < 2 \<or> n < 16)\<rbrakk> \<Longrightarrow> num_val 16 (numeral_text 16 (n div 16)) 0 = n div 16\<close> k d
      by (subst numeral_text.simps) (simp add: num_val_append)
  next
    case 2
    then show ?case
      using \<open>\<lbrakk>\<not> (16 < 2 \<or> n < 16)\<rbrakk> \<Longrightarrow> digits_of 16 (numeral_text 16 (n div 16))\<close> k d
      by (subst numeral_text.simps) (auto simp: digits_of_def)
  }
qed

lemma atob_hex:
  assumes "n < 2 ^ 32"
  shows "atob (Some (''0x'' @ numeral_text 16 n @ NUL # r)) = Some (Some (NUL # r), of_nat n, False)"
proof -
  have "prefixed 16 ''0x'' (numeral_text 16 n @ NUL # r)"
    by (simp add: prefixed_def)
  from atob_at_run [where 'w = 32, of "2 ^ 31" "[]", OF _ _ _ this num_val_hex(2) stops_NUL(3), of 0] assms show ?thesis
    by (simp add: blanks_def atob_def num_val_hex(1))
qed

lemma length_numeral: "2 \<le> b \<Longrightarrow> n < b ^ k \<Longrightarrow> 0 < k \<Longrightarrow> length (numeral_text b n) \<le> k"
proof (induction b n arbitrary: k rule: numeral_text.induct)
  case (1 b n)
  show ?case
  proof (cases "n < b")
    case False
    then obtain k' where k: "k = Suc k'" "0 < k'"
      using 1(2-4) by (cases k; cases "k - 1") auto
    then have "n div b < b ^ k'"
      using 1(2,3) by (simp add: less_mult_imp_div_less mult.commute)
    then show ?thesis
      using False 1 k by (subst numeral_text.simps) auto
  qed (use 1 in \<open>subst numeral_text.simps, simp\<close>)
qed

lemma sprintf_field:
  assumes "w = 0" "p = 0" "nulfree t" "CHR ''%'' \<notin> set t" "\<forall>s. v = VStr s \<longrightarrow> NUL \<in> set s"
    "length t + length (value_text v) < length buf"
  shows "\<exists>n. sprintf scal buf (cstr (t @ [CHR ''%'', conv_char v])) [value_arg v] =
    Some (t @ value_text v @ NUL # drop (Suc (length t + length (value_text v))) buf, n)"
proof -
  have "vprf_text scal (cstr (t @ [CHR ''%'', conv_char v])) [value_arg v] = Some (t @ value_text v)"
    using vprf_text_pieces [of "[Text t, Field False False 0 0 v]" scal "[]"] assms(3-5)
    by (simp add: number_text_def laid_out_def split: fvalue.split)
  then show ?thesis
    using sprintf_text(1) [of scal _ _ "t @ value_text v" buf] assms(6) by simp
qed

text \<open>C39: what \<open>sprintf\<close> prints with \<open>%d\<close>, with \<open>%u\<close> and with \<open>%x\<close> behind \<open>0x\<close> is read back by \<open>atob\<close> as
the number that was printed, for every number; there is a warning for the least \<open>int\<close> only.\<close>

theorem printed_numbers_read_back:
  assumes "12 \<le> length buf"
  shows "(\<exists>b n r. sprintf scal buf (cstr ''%d'') [AInt v] = Some (b, n) \<and> atob (Some b) = Some (Some (NUL # r), v, v = 0x80000000)) \<and>
    (\<exists>b n r. sprintf scal buf (cstr ''%u'') [AInt v] = Some (b, n) \<and> atob (Some b) = Some (Some (NUL # r), v, False)) \<and>
    (\<exists>b n r. sprintf scal buf (cstr ''0x%x'') [AInt v] = Some (b, n) \<and> atob (Some b) = Some (Some (NUL # r), v, False))"
proof (intro conjI)
  have u: "unat v < 2 ^ 32"
    using unsigned_less [of v] by simp
  have l10: "length (numeral_text 10 k) \<le> 10" if "k < 2 ^ 32" for k
    using length_numeral [of 10 k 10] that by simp
  have l16: "length (numeral_text 16 (unat v)) \<le> 8"
    using length_numeral [of 16 "unat v" 8] u by simp
  define k where "k = (if sint v < 0 then 1 else 0 :: nat)"
  have m: "nat \<bar>sint v\<bar> \<le> 2 ^ 31"
    using sint_greater_eq [of v] sint_less [of v] by auto
  have s: "signed_text (sint v) = replicate k CHR ''-'' @ dec (nat \<bar>sint v\<bar>)"
    by (simp add: signed_text_def k_def numeral_dec)
  have ls: "length (signed_text (sint v)) < length buf"
    using l10 [of "nat \<bar>sint v\<bar>"] m assms by (cases "sint v < 0") (simp_all add: signed_text_def)
  have least: "nat \<bar>sint v\<bar> = 2 ^ 31 \<and> odd k \<longleftrightarrow> v = 0x80000000"
  proof -
    have "sint (0x80000000 :: u32) = - (2 ^ 31)"
      by code_simp
    then have "v = 0x80000000 \<longleftrightarrow> sint v = - (2 ^ 31)"
      by (metis signed_word_eqI)
    then show ?thesis
      by (auto simp: k_def)
  qed
  obtain n where "sprintf scal buf (cstr ''%d'') [AInt v] =
      Some (signed_text (sint v) @ NUL # drop (Suc (length (signed_text (sint v)))) buf, n)"
    using sprintf_field [of 0 0 "[]" "VDec v" buf scal] ls by auto
  then show "\<exists>b n r. sprintf scal buf (cstr ''%d'') [AInt v] = Some (b, n) \<and> atob (Some b) = Some (Some (NUL # r), v, v = 0x80000000)"
    using atob_dec [of "nat \<bar>sint v\<bar>" k] m of_nat_abs_sint [of v] unfolding s least by (simp add: k_def)
  show "\<exists>b n r. sprintf scal buf (cstr ''%u'') [AInt v] = Some (b, n) \<and> atob (Some b) = Some (Some (NUL # r), v, False)"
    using sprintf_field [of 0 0 "[]" "VUns v" buf scal] l10 [OF u] assms atob_dec [OF u, of 0] by (auto simp: numeral_dec)
  show "\<exists>b n r. sprintf scal buf (cstr ''0x%x'') [AInt v] = Some (b, n) \<and> atob (Some b) = Some (Some (NUL # r), v, False)"
    using sprintf_field [of 0 0 "''0x''" "VHex v" buf scal] l16 assms atob_hex [OF u] by auto
qed

theorem printed_numbers_read_back_witness:
  "(\<exists>b n r. sprintf True (replicate 12 NUL) (cstr ''%d'') [AInt (- 7)] = Some (b, n) \<and> atob (Some b) = Some (Some (NUL # r), - 7, (- 7 :: u32) = 0x80000000)) \<and>
   (\<exists>b n r. sprintf True (replicate 12 NUL) (cstr ''%u'') [AInt (- 7)] = Some (b, n) \<and> atob (Some b) = Some (Some (NUL # r), - 7, False)) \<and>
   (\<exists>b n r. sprintf True (replicate 12 NUL) (cstr ''0x%x'') [AInt (- 7)] = Some (b, n) \<and> atob (Some b) = Some (Some (NUL # r), - 7, False))"
  by (rule printed_numbers_read_back) simp

section \<open>The console\<close>

text \<open>What the device promises: it writes everything and reports so.\<close>

locale terminal =
  fixes dv :: "'d device" and shown :: "'d \<Rightarrow> string" and ready :: "'d \<Rightarrow> bool"
  assumes late: "\<not> early dv"
    and writes: "ready d \<Longrightarrow> s \<noteq> [] \<Longrightarrow> length s < 2 ^ 31 \<Longrightarrow>
      \<exists>d'. dev_Write dv s d = (0, of_nat (length s), d') \<and> shown d' = shown d @ s \<and> ready d'"
begin

text \<open>What has been printed: on the device and in the buffer.\<close>

definition on_way :: "'d console \<Rightarrow> string" where
  "on_way s = shown (dev s) @ fputb s"

lemma flush:
  assumes "ready (dev s)" "length (fputb s) < 2 ^ 31"
  obtains d where "fputflush dv s = (0, s\<lparr>fputb := [], fputcn := fputcn s + of_nat (length (fputb s)), dev := d\<rparr>)"
    "shown d = on_way s" "ready d"
proof (cases "fputb s = []")
  case True
  then show ?thesis
    using that [of "dev s"] assms by (simp add: fputflush_def on_way_def)
next
  case False
  then show ?thesis
    using writes [OF assms(1) False assms(2)] that by (auto simp: fputflush_def on_way_def)
qed

end

text \<open>What \<open>fputchar\<close> makes of a character in a column: a tab is blanks up to the column behind the next
multiple of eight, a newline is followed by a carriage return.\<close>

definition tab_width :: "u32 \<Rightarrow> nat" where
  "tab_width col = (if unat col mod 8 = 0 then 1 else 9 - unat col mod 8)"

definition cook_char :: "u32 \<Rightarrow> char \<Rightarrow> string" where
  "cook_char col c =
    (if c = CHR 0x0A then [CHR 0x0A, CHR 0x0D]
     else if c = CHR 0x09 then replicate (tab_width col) (CHR '' '') else [c])"

definition next_col :: "u32 \<Rightarrow> char \<Rightarrow> u32" where
  "next_col col c =
    (if c = CHR 0x0A then 0
     else if c = CHR 0x09 then col + of_nat (tab_width col)
     else if isprint (schar c) then col + 1 else col)"

fun cook :: "u32 \<Rightarrow> string \<Rightarrow> string" where
  "cook col [] = []"
| "cook col (c # t) = cook_char col c @ cook (next_col col c) t"

lemma fput_tab_run:
  "fput_tab s = s\<lparr>fputb := fputb s @ replicate (tab_width (column s)) (CHR '' ''), column := column s + of_nat (tab_width (column s))\<rparr>"
proof (induction s rule: fput_tab.induct)
  case (1 s)
  show ?case
  proof (cases "unat (column s) mod 8 = 0")
    case True
    then show ?thesis
      by (subst fput_tab.simps) (simp add: tab_stop_iff tab_width_def)
  next
    case False
    note m = succ_mod8 [of "column s"]
    have "tab_width (column s) = Suc (tab_width (column s + 1))"
    proof (cases "unat (column s) mod 8 = 7")
      case True
      then show ?thesis
        by (simp add: tab_width_def m)
    next
      case f: False
      have "unat (column s) mod 8 < 8"
        by simp
      then have "unat (column s) mod 8 < 7"
        using f by linarith
      then show ?thesis
        using False by (simp add: tab_width_def m)
    qed
    then show ?thesis
      using False 1 by (subst fput_tab.simps) (simp add: tab_stop_iff Let_def add.assoc)
  qed
qed

lemma tab_width_le: "tab_width col \<le> 8" "0 < tab_width col"
  using mod_less_divisor [of 8 "unat col"] by (auto simp: tab_width_def simp del: mod_less_divisor)

lemma cook_char_length: "length (cook_char col c) \<le> 8" "cook_char col c \<noteq> []"
  using tab_width_le [of col] by (auto simp: cook_char_def)

lemma fput_store_run:
  "fput_store c s = s\<lparr>fputb := fputb s @ cook_char (column s) c, column := next_col (column s) c\<rparr>"
  by (simp add: fput_store_def cook_char_def next_col_def fput_tab_run)

text \<open>The buffer of \<open>LINESIZE\<close> characters is a list here; what is stored in it always fits, whatever the
device does with what it is sent.\<close>

lemma fputflush_buffer: "fputb (snd (fputflush dv s)) = []" "fputbs (snd (fputflush dv s)) = fputbs s"
  by (auto simp: fputflush_def Let_def split: prod.splits)

lemma fputchar_buffer:
  assumes "\<not> early dv" "fputbs s = int LINESIZE" "int (length (fputb s)) < int LINESIZE - 10"
  shows "fputbs (fputchar dv c s) = int LINESIZE" "int (length (fputb (fputchar dv c s))) < int LINESIZE - 10"
  using assms by (auto simp: fputchar_def Let_def fput_store_run fputflush_buffer LINESIZE_def)

text \<open>C40: \<open>printf\<close> and \<open>puts\<close> stay inside the buffer on their stack.  From the empty buffer they start with,
after any text, on any device (failing ones included), the next character, a tab of eight blanks included,
is stored within the \<open>LINESIZE\<close> characters of the array.\<close>

theorem fputchar_within_buffer:
  assumes "\<not> early dv" "fputb s = []" "fputbs s = int LINESIZE"
  shows "length (fputb (fput_store c (fold (fputchar dv) t s))) < LINESIZE"
proof -
  have "fputbs (fold (fputchar dv) t r) = int LINESIZE \<and> int (length (fputb (fold (fputchar dv) t r))) < int LINESIZE - 10"
    if "fputbs r = int LINESIZE" "int (length (fputb r)) < int LINESIZE - 10" for r
    using that by (induction t arbitrary: r) (simp_all add: fputchar_buffer [OF assms(1)])
  from this [of s] have "int (length (fputb (fold (fputchar dv) t s))) < int LINESIZE - 10"
    using assms(2,3) by (simp add: LINESIZE_def)
  then show ?thesis
    using cook_char_length(1) [of "column (fold (fputchar dv) t s)" c] by (simp add: fput_store_run LINESIZE_def)
qed

text \<open>A device that loses everything.\<close>

lemma fputchar_within_buffer_witness:
  "length (fputb (fput_store (CHR 0x09) (fold (fputchar \<lparr>dev_Write = \<lambda>t d. (5, 0, d), dev_errputc = \<lambda>c d. d, early = False\<rparr>)
     (replicate 5000 (CHR ''x'')) \<lparr>fputb = [], fputbs = int LINESIZE, fputcn = 0, column = 7, dev = ()\<rparr>))) < LINESIZE"
  by (rule fputchar_within_buffer) simp_all

context terminal
begin

text \<open>One character: at most eight are added to the buffer, which is flushed before less than eight
are free.\<close>

lemma fputchar_run:
  fixes s :: "'d console"
  assumes "ready (dev s)" "fputbs s = 256" "length (fputb s) < 246"
  shows "ready (dev (fputchar dv c s)) \<and> fputbs (fputchar dv c s) = 256 \<and> length (fputb (fputchar dv c s)) < 246 \<and>
    on_way (fputchar dv c s) = on_way s @ cook_char (column s) c \<and>
    column (fputchar dv c s) = next_col (column s) c \<and>
    fputcn (fputchar dv c s) + of_nat (length (fputb (fputchar dv c s))) =
      fputcn s + of_nat (length (fputb s)) + of_nat (length (cook_char (column s) c))"
proof -
  define s' where "s' = s\<lparr>fputb := fputb s @ cook_char (column s) c, column := next_col (column s) c\<rparr>"
  have step: "fputchar dv c s = (if length (fputb s') \<ge> 246 \<or> c = CHR 0x0A then snd (fputflush dv s') else s')"
  proof -
    have "fput_store c s = s'"
      by (simp add: s'_def fput_store_run)
    moreover have "fputbs s' = 256"
      using assms(2) by (simp add: s'_def)
    ultimately show ?thesis
      using late by (simp add: fputchar_def Let_def)
  qed
  have len: "length (fputb s') < 254"
    using assms(3) cook_char_length(1) [of "column s" c] by (simp add: s'_def)
  obtain d where fl: "fputflush dv s' = (0, s'\<lparr>fputb := [], fputcn := fputcn s' + of_nat (length (fputb s')), dev := d\<rparr>)"
    "shown d = on_way s'" "ready d"
    using flush [of s'] assms(1) len by (auto simp: s'_def)
  show ?thesis
    unfolding step using fl assms by (auto simp: s'_def on_way_def)
qed

lemma fold_fputchar:
  assumes "ready (dev s)" "fputbs s = 256" "length (fputb s) < 246"
  shows "ready (dev (fold (fputchar dv) t s)) \<and> length (fputb (fold (fputchar dv) t s)) < 246 \<and>
    on_way (fold (fputchar dv) t s) = on_way s @ cook (column s) t \<and>
    fputcn (fold (fputchar dv) t s) + of_nat (length (fputb (fold (fputchar dv) t s))) =
      fputcn s + of_nat (length (fputb s)) + of_nat (length (cook (column s) t))"
  using assms
proof (induction t arbitrary: s)
  case (Cons c t)
  then show ?case
    using fputchar_run [of s c] by (simp add: add.assoc)
qed simp

lemma printf_run:
  assumes "ready (dev s)" "vprf_text scal f a = Some t"
  shows "\<exists>s'. printf dv scal f a s = Some (sint (of_nat (length (cook (column s) t)) :: u32), s') \<and>
    shown (dev s') = shown (dev s) @ cook (column s) t \<and> ready (dev s') \<and> fputb s' = []"
proof -
  let ?s = "s\<lparr>fputbs := int LINESIZE, fputb := [], fputcn := 0\<rparr>"
  let ?r = "fold (fputchar dv) t ?s"
  have r: "ready (dev ?r)" "length (fputb ?r) < 246" "on_way ?r = shown (dev s) @ cook (column s) t"
    "fputcn ?r + of_nat (length (fputb ?r)) = of_nat (length (cook (column s) t))"
    using fold_fputchar [of ?s t] assms(1) by (simp_all add: LINESIZE_def on_way_def)
  obtain d where "fputflush dv ?r = (0, ?r\<lparr>fputb := [], fputcn := fputcn ?r + of_nat (length (fputb ?r)), dev := d\<rparr>)"
    "shown d = on_way ?r" "ready d"
    using flush [OF r(1)] r(2) by auto
  then show ?thesis
    using r(3,4) by (auto simp: printf_def vprf_prints assms(2) EOF_def)
qed

end

text \<open>\<open>putchar\<close>: a tab is blanks up to the next multiple of eight, a newline follows a carriage return.\<close>

definition plain_char :: "u32 \<Rightarrow> char \<Rightarrow> string" where
  "plain_char col c =
    (if c = CHR 0x0A then [CHR 0x0D, CHR 0x0A]
     else if c = CHR 0x09 then replicate (8 - unat col mod 8) (CHR '' '') else [c])"

definition plain_col :: "u32 \<Rightarrow> char \<Rightarrow> u32" where
  "plain_col col c =
    (if c = CHR 0x0A then 0
     else if c = CHR 0x09 then col + of_nat (8 - unat col mod 8)
     else if isprint (schar c) then col + 1 else col)"

context terminal
begin

lemma put_dev_run:
  assumes "ready (dev s)"
  obtains d where "put_dev dv c s = (schar c, s\<lparr>dev := d\<rparr>)" "shown d = shown (dev s) @ [c]" "ready d"
  using writes [OF assms, of "[c]"] late by (auto simp: put_dev_def)

lemma put_plain_run:
  assumes "ready (dev s)"
  obtains d where "put_plain dv c s =
      (schar c, s\<lparr>column := (if isprint (schar c) then column s + 1 else column s), dev := d\<rparr>)"
    "shown d = shown (dev s) @ [c]" "ready d"
proof (cases "isprint (schar c)")
  case True
  obtain d where "put_dev dv c (s\<lparr>column := column s + 1\<rparr>) = (schar c, s\<lparr>column := column s + 1, dev := d\<rparr>)"
    "shown d = shown (dev s) @ [c]" "ready d"
    using put_dev_run [of "s\<lparr>column := column s + 1\<rparr>" c] assms by auto
  then show ?thesis
    using that [of d] True by (simp add: put_plain_def)
next
  case False
  obtain d where "put_dev dv c s = (schar c, s\<lparr>dev := d\<rparr>)" "shown d = shown (dev s) @ [c]" "ready d"
    using put_dev_run [OF assms] by blast
  then show ?thesis
    using that [of d] False by (simp add: put_plain_def)
qed

lemma putchar_tab_run:
  assumes "ready (dev s)"
  shows "\<exists>d. putchar_tab dv s = (9, s\<lparr>column := column s + of_nat (8 - unat (column s) mod 8), dev := d\<rparr>) \<and>
    shown d = shown (dev s) @ replicate (8 - unat (column s) mod 8) (CHR '' '') \<and> ready d"
  using assms
proof (induction "8 - unat (column s) mod 8" arbitrary: s rule: less_induct)
  case less
  obtain d where d: "put_plain dv (CHR '' '') s = (schar (CHR '' ''), s\<lparr>column := column s + 1, dev := d\<rparr>)"
    "shown d = shown (dev s) @ '' ''" "ready d"
    using put_plain_run [OF less.prems, of "CHR '' ''"] by (auto simp: isprint_iff schar_def)
  let ?s = "s\<lparr>column := column s + 1, dev := d\<rparr>"
  show ?case
  proof (cases "(column s + 1) mod 8 = 0")
    case True
    then have "unat (column s) mod 8 = 7"
      by (simp add: tab_stop_iff succ_mod8 mod_Suc split: if_splits)
    then show ?thesis
      using True d by (subst putchar_tab.simps) (auto intro!: exI [of _ d])
  next
    case False
    note n = next_tab_stop [OF False]
    have lt: "Suc (unat (column s) mod 8) < 8"
      by (metis n mod_less_divisor zero_less_numeral)
    then have k: "8 - unat (column s) mod 8 = Suc (8 - unat (column s + 1) mod 8)"
      by (simp add: n)
    obtain e where e: "putchar_tab dv ?s = (9, ?s\<lparr>column := column s + 1 + of_nat (8 - unat (column s + 1) mod 8), dev := e\<rparr>)"
      "shown e = shown d @ replicate (8 - unat (column s + 1) mod 8) (CHR '' '')" "ready e"
      using less.hyps [of ?s] d(3) k by auto
    have "putchar_tab dv s = putchar_tab dv ?s"
      using False d by (subst putchar_tab.simps) simp
    then show ?thesis
      using e d by (auto simp: k add.assoc intro!: exI [of _ e])
  qed
qed

lemma putchar_run:
  assumes "ready (dev s)"
  obtains d where "putchar dv c s = (schar c, s\<lparr>column := plain_col (column s) c, dev := d\<rparr>)"
    "shown d = shown (dev s) @ plain_char (column s) c" "ready d"
proof -
  consider (nl) "c = CHR 0x0A" | (tab) "c = CHR 0x09" | (other) "c \<noteq> CHR 0x0A" "c \<noteq> CHR 0x09"
    by blast
  then show ?thesis
  proof cases
    case nl
    obtain d where d: "put_plain dv (CHR 0x0D) s = (schar (CHR 0x0D), s\<lparr>dev := d\<rparr>)" "shown d = shown (dev s) @ [CHR 0x0D]" "ready d"
      using put_plain_run [OF assms, of "CHR 0x0D"] by (auto simp: isprint_iff schar_def)
    obtain e where "put_dev dv (CHR 0x0A) (s\<lparr>dev := d, column := 0\<rparr>) = (schar (CHR 0x0A), s\<lparr>column := 0, dev := e\<rparr>)"
      "shown e = shown d @ [CHR 0x0A]" "ready e"
      using put_dev_run [of "s\<lparr>dev := d, column := 0\<rparr>" "CHR 0x0A"] d(3) by auto
    then show ?thesis
      using that [of e] d nl by (simp add: putchar_def plain_col_def plain_char_def)
  next
    case tab
    then show ?thesis
      using that putchar_tab_run [OF assms] by (auto simp: putchar_def plain_col_def plain_char_def schar_def)
  next
    case other
    then show ?thesis
      using that put_plain_run [OF assms, of c] by (auto simp: putchar_def plain_col_def plain_char_def)
  qed
qed

end

lemma mod8_add: "(col + of_nat k :: u32) mod 8 = of_nat ((unat col mod 8 + k) mod 8)"
proof -
  have "unat (col + of_nat k) mod 8 = (unat col mod 8 + k) mod 8"
    by (simp add: unat_word_ariths unsigned_of_nat take_bit_eq_mod mod_mod_cancel mod_simps)
  then show ?thesis
    by (simp add: word_unat_eq_iff unat_mod_distrib unat_of_nat_32)
qed

end
