(* ===== verification/Console.thy ===== *)
theory Console
imports Stdio Bootio
begin

text \<open>The console of the PROM: \<open>stdio.c\<close> over \<open>Write\<close> of \<open>src/fw/pv_stubs.c\<close>.

The buffer of \<open>fputchar\<close> is an array on the stack of \<open>printf\<close>; its address is a
parameter.  \<open>_prom\<close> is 0 in \<open>fw/finit.c\<close>, so the early output is never used.  The
device of \<open>Stdio\<close> is interpreted here: what \<open>Write\<close> sends is what \<open>fputflush\<close>
gathered.\<close>

fun store_text :: "u32 \<Rightarrow> string \<Rightarrow> memory \<Rightarrow> memory" where
  "store_text a [] m = m"
| "store_text a (c # t) m = store_text (a + 1) t (m(a := of_char c))"

definition pv_errputc :: "char \<Rightarrow> ('f, 'w) io \<Rightarrow> ('f, 'w) io" where
  "pv_errputc c s = s\<lparr>uart_out := uart_out s @ [of_char c]\<rparr>"

definition pv_device :: "u32 \<Rightarrow> ('f, 'w) io device" where
  "pv_device sbuf = \<lparr>
     dev_Write = (\<lambda>t s. Write 1 sbuf (of_nat (length t)) (s\<lparr>mem := store_text sbuf t (mem s)\<rparr>)),
     dev_errputc = pv_errputc,
     early = False\<rparr>"

definition uart_text :: "('f, 'w) io \<Rightarrow> string" where
  "uart_text s = map (\<lambda>b. char_of (unat b)) (uart_out s)"

lemma char_of_byte: "char_of (unat (of_char c :: u8)) = c"
proof -
  have "(of_char c :: u8) = of_nat (of_char c)"
    by (metis of_nat_of_char)
  then show ?thesis
    using nat_of_char_less_256 [of c] by (simp add: unsigned_of_nat take_bit_nat_eq_self)
qed

lemma store_text_below: "(\<forall>i < length t. b \<noteq> a + of_nat i) \<Longrightarrow> store_text a t m b = m b"
proof (induction t arbitrary: a m)
  case (Cons c t)
  have "b \<noteq> a + 1 + of_nat i" if "i < length t" for i
    using Cons.prems that by (metis Suc_less_eq add.assoc length_Cons of_nat_Suc)
  moreover have "b \<noteq> a"
    using Cons.prems by force
  ultimately show ?case
    using Cons.IH by simp
qed simp

lemma bytes_at_store_text:
  "length t < 2 ^ 32 \<Longrightarrow> bytes_at (store_text a t m) a (length t) = map of_char t"
proof (induction t arbitrary: a m)
  case (Cons c t)
  have "a \<noteq> a + 1 + of_nat i" if "i < length t" for i
  proof -
    have "Suc i < 2 ^ 32"
      using Cons.prems that by simp
    then have "of_nat (Suc i) \<noteq> (0 :: u32)"
      by (metis of_nat_0 nat.distinct(1) unat_of_nat_32 unat_0)
    then show ?thesis
      by (simp add: add.assoc)
  qed
  then have "store_text (a + 1) t (m(a := of_char c)) a = of_char c"
    by (subst store_text_below) auto
  then show ?case
    using Cons by simp
qed simp

interpretation uart: terminal "pv_device sbuf" uart_text "\<lambda>_. sbuf \<noteq> 0" for sbuf
proof
  show "\<not> early (pv_device sbuf)"
    by (simp add: pv_device_def)
next
  fix s :: "('a, 'b) io" and t :: string
  assume a: "sbuf \<noteq> 0" "t \<noteq> []" "length t < 2 ^ 31"
  have len: "unat (of_nat (length t) :: u32) = length t" "(0 :: u32) < of_nat (length t)"
    using a(2,3) by (simp_all add: unat_of_nat_32 word_less_nat_alt)
  have "bytes_at (store_text sbuf t (mem s)) sbuf (length t) = map of_char t"
    using a(3) by (intro bytes_at_store_text) simp
  moreover have "(\<lambda>b. char_of (unat b)) \<circ> (of_char :: char \<Rightarrow> u8) = id"
    by (rule ext) (simp add: char_of_byte)
  ultimately show "\<exists>d'. dev_Write (pv_device sbuf) t s = (0, of_nat (length t), d') \<and> uart_text d' = uart_text s @ t \<and> sbuf \<noteq> 0"
    using a len by (simp add: pv_device_def Write_def uart_text_def)
qed

text \<open>C11: \<open>printf\<close> sends to the UART the text of its format, with its tabs and newlines made into what
\<open>fputchar\<close> makes of them, in one piece or many, and returns the count of what it sent.\<close>

theorem printf_to_uart:
  assumes "sbuf \<noteq> 0" "vprf_text scal f a = Some t"
  shows "\<exists>s'. printf (pv_device sbuf) scal f a s = Some (sint (of_nat (length (cook (column s) t)) :: u32), s') \<and>
    uart_text (dev s') = uart_text (dev s) @ cook (column s) t \<and> fputb s' = []"
  using uart.printf_run [where sbuf = sbuf and s = s and scal = scal] assms by blast
definition sample_console :: "(unit, unit) io console" where
  "sample_console = \<lparr>fputb = [], fputbs = 0, fputcn = 0, column = 3, dev = sample_io\<rparr>"

theorem printf_to_uart_witness:
  "\<exists>s'. printf (pv_device 0x8010) False (cstr [CHR 0x09, CHR ''%'', CHR ''u'', CHR 0x0A]) [AInt 42] sample_console = Some (10, s') \<and>
    uart_text (dev s') = ''      42'' @ [CHR 0x0A, CHR 0x0D]"
proof -
  have t: "vprf_text False (cstr [CHR 0x09, CHR ''%'', CHR ''u'', CHR 0x0A]) [AInt 42] = Some [CHR 0x09, CHR ''4'', CHR ''2'', CHR 0x0A]"
    using vprf_text_pieces [of "[Text [CHR 0x09], Field False False 0 0 (VUns 42), Text [CHR 0x0A]]" False "[]"]
    by (simp add: number_text_def laid_out_def numeral_text.simps)
  have c: "cook 3 [CHR 0x09, CHR ''4'', CHR ''2'', CHR 0x0A] = ''      42'' @ [CHR 0x0A, CHR 0x0D]"
    by code_simp
  have n: "sint (of_nat (length (''      42'' @ [CHR 0x0A, CHR 0x0D])) :: u32) = 10"
    by code_simp
  have s: "column sample_console = 3" "uart_text (dev sample_console) = []"
    by (simp_all add: sample_console_def sample_io_def uart_text_def)
  show ?thesis
    using printf_to_uart [OF _ t, of "0x8010" sample_console] unfolding s c n by auto
qed

text \<open>the two ways to print a tab disagree: \<open>putchar\<close> goes to the next column that is a multiple of
eight, \<open>fputchar\<close>, which \<open>printf\<close> and \<open>puts\<close> use, to the column behind one.\<close>

theorem tab_stops_differ:
  assumes "sbuf \<noteq> 0"
  shows "column (snd (putchar (pv_device sbuf) (CHR 0x09) s)) mod 8 = 0 \<and>
    column (fputchar (pv_device sbuf) (CHR 0x09) s) mod 8 = 1"
proof
  obtain d where "putchar (pv_device sbuf) (CHR 0x09) s = (schar (CHR 0x09), s\<lparr>column := plain_col (column s) (CHR 0x09), dev := d\<rparr>)"
    using uart.putchar_run [where sbuf = sbuf and s = s and c = "CHR 0x09"] assms by blast
  then show "column (snd (putchar (pv_device sbuf) (CHR 0x09) s)) mod 8 = 0"
    using mod_less_divisor [of 8 "unat (column s)"] by (simp add: plain_col_def mod8_add del: of_nat_diff mod_less_divisor)
  have "column (fputchar (pv_device sbuf) (CHR 0x09) s) = column (fput_tab s)"
    by (simp add: fputchar_def fput_store_def pv_device_def Let_def fputflush_def Write_def split: prod.splits)
  moreover have "tab_width (column s) = (if unat (column s) mod 8 = 0 then 1 else 9 - unat (column s) mod 8)"
    by (simp add: tab_width_def)
  ultimately show "column (fputchar (pv_device sbuf) (CHR 0x09) s) mod 8 = 1"
    by (simp add: fput_tab_run mod8_add)
qed

theorem tab_stops_differ_witness:
  "column (snd (putchar (pv_device 0x8010) (CHR 0x09) sample_console)) mod 8 = 0 \<and>
    column (fputchar (pv_device 0x8010) (CHR 0x09) sample_console) mod 8 = 1"
  by (rule tab_stops_differ) simp

end
