(* ===== verification/Lineedit.thy ===== *)
theory Lineedit
imports Console
begin

text \<open>Reading lines from the console: \<open>getc\<close>, \<open>fgets\<close>, \<open>gets\<close> and \<open>edit_gets\<close> of
\<open>src/libsc/lib/stdio.c\<close>, with the history of \<open>include/parser.h\<close>.

What \<open>getc\<close> returns, one number after the other, is a parameter: a list of signed
characters, -1 for \<open>EOF\<close> (a byte 0xFF is the same).  \<open>Some None\<close> is a routine that
waits for input when the list is used up, \<open>None\<close> an access outside the line buffer.
The echo goes to the console of \<open>Stdio\<close>.  \<open>ioctl\<close> of \<open>pv_stubs.c\<close> does nothing.
The formats of this file have no \<open>%I\<close>, so the size \<open>setscalable\<close> stores does not matter.\<close>

section \<open>Input without editing\<close>

definition CTRL :: "char \<Rightarrow> int" where
  "CTRL c = schar c mod 32"

abbreviation BELL :: char where "BELL \<equiv> CHR 0x07"
abbreviation BS :: char where "BS \<equiv> CHR 0x08"
abbreviation NL :: char where "NL \<equiv> CHR 0x0A"
abbreviation TAB :: char where "TAB \<equiv> CHR 0x09"

definition DEL :: int where "DEL = 0x7f"
definition PROMPT :: string where "PROMPT = ''? ''"

definition put1 :: "'d device \<Rightarrow> char \<Rightarrow> 'd console \<Rightarrow> 'd console" where
  "put1 dv c s = snd (putchar dv c s)"

definition print :: "'d device \<Rightarrow> string \<Rightarrow> vararg list \<Rightarrow> 'd console \<Rightarrow> 'd console option" where
  "print dv f a s = map_option snd (printf dv False f a s)"

text \<open>\<open>ctrl_R\<close>: the line is terminated and printed again.\<close>

definition redisplay :: "'d device \<Rightarrow> string \<Rightarrow> nat \<Rightarrow> 'd console \<Rightarrow> (string \<times> 'd console) option" where
  "redisplay dv buf n s = do {
     buf \<leftarrow> wr buf n NUL;
     s \<leftarrow> print dv (cstr (''^R'' @ NL # ''%s%s'')) [AStr (Some (cstr PROMPT)), AStr (Some buf)] s;
     Some (buf, s) }"

text \<open>\<open>n\<close> is \<open>bufp\<close>.  A line is returned with the rest of the input.\<close>

fun fgets_loop :: "'d device \<Rightarrow> int \<Rightarrow> int list \<Rightarrow> string \<Rightarrow> nat \<Rightarrow> 'd console
    \<Rightarrow> (string \<times> 'd console \<times> int list) option option" where
  "fgets_loop dv len [] buf n s = Some None"
| "fgets_loop dv len (c # cs) buf n s =
    (if c = CTRL (CHR ''V'') then
       (case cs of
          [] \<Rightarrow> Some None
        | c # cs \<Rightarrow>
            if int n < len - 3 then do {
              buf \<leftarrow> wr buf n (char_of_int c);
              s \<leftarrow> showchar dv (char_of_int c) s;
              fgets_loop dv len cs buf (n + 1) s }
            else fgets_loop dv len cs buf n (put1 dv BELL s))
     else if (c = CTRL (CHR ''D'') \<or> c = EOF) \<and> n = 0 then do {
       buf \<leftarrow> wr buf 0 NUL;
       fgets_loop dv len cs buf n s }
     else if c = CTRL (CHR ''D'') \<or> c = EOF \<or> c = 10 \<or> c = 13 then do {
       buf \<leftarrow> wr buf n NUL;
       Some (Some (buf, put1 dv NL s, cs)) }
     else if c = CTRL (CHR ''H'') \<or> c = DEL then
       (if n = 0 then fgets_loop dv len cs buf n s
        else do {
          l \<leftarrow> rd buf (n - 1);
          if l = TAB then do {
            (buf, s) \<leftarrow> redisplay dv buf (n - 1) s;
            fgets_loop dv len cs buf (n - 1) s }
          else do {
            buf \<leftarrow> wr buf (n - 1) NUL;
            fgets_loop dv len cs buf (n - 1) (put1 dv BS (put1 dv (CHR '' '') (put1 dv BS s))) } })
     else if c = CTRL (CHR ''R'') then do {
       (buf, s) \<leftarrow> redisplay dv buf n s;
       fgets_loop dv len cs buf n s }
     else if c = CTRL (CHR ''U'') then
       (if n = 0 then fgets_loop dv len cs buf n s
        else do {
          s \<leftarrow> print dv (cstr (''^U'' @ NL # ''%s'')) [AStr (Some (cstr PROMPT))] s;
          fgets_loop dv len cs buf 0 s })
     else if c = 9 then do {
       buf \<leftarrow> wr buf n TAB;
       fgets_loop dv len cs buf (n + 1) (put1 dv TAB s) }
     else if isprint c \<and> int n < len - 3 then do {
       buf \<leftarrow> wr buf n (char_of_int c);
       fgets_loop dv len cs buf (n + 1) (put1 dv (char_of_int c) s) }
     else fgets_loop dv len cs buf n (put1 dv BELL s))"

declare fgets_loop.simps [simp del]

definition fgets :: "'d device \<Rightarrow> string \<Rightarrow> int \<Rightarrow> int list \<Rightarrow> 'd console
    \<Rightarrow> (string \<times> 'd console \<times> int list) option option" where
  "fgets dv buf len cs s = fgets_loop dv len cs buf 0 s"

definition gets :: "'d device \<Rightarrow> string \<Rightarrow> int list \<Rightarrow> 'd console
    \<Rightarrow> (string \<times> 'd console \<times> int list) option option" where
  "gets dv buf cs s = fgets dv buf (int LINESIZE) cs s"

text \<open>\<open>getc\<close> on the console: \<open>Read\<close> of one byte, -1 when it fails.\<close>

definition getc :: "('f, 'w) platform \<Rightarrow> nat \<Rightarrow> u32 \<Rightarrow> ('f, 'w) io \<Rightarrow> (int \<times> ('f, 'w) io) option" where
  "getc pl fd cbuf s = do {
     (err, cnt, s) \<leftarrow> Read pl fd cbuf 1 s;
     Some (if err \<noteq> 0 \<or> cnt \<noteq> 1 then EOF else schar (char_of (unat (mem s cbuf))), s) }"

section \<open>The line editor\<close>

text \<open>\<open>current\<close> of the history is \<open>hist_cur\<close>; the local \<open>current\<close> is the line \<open>buf\<close> points to.  \<open>bufc\<close> is
the cursor, \<open>bufp\<close> the end of the text.  \<open>EnterInteractiveMode\<close> and the state of the debugger are
parameters.\<close>

definition EDIT_HISTORY :: nat where "EDIT_HISTORY = 10"

record 'd editor =
  hist_lines :: "string list"
  hist_cur :: nat
  current :: nat
  bufc :: nat
  bufp :: nat
  con :: "'d console"

record 'd edit_env =
  edev :: "'d device"
  interactive :: "'d console \<Rightarrow> 'd console"
  ringing :: bool  \<comment> \<open>\<open>SPB->DebugBlock && !symmon\<close>\<close>

definition buf :: "'d editor \<Rightarrow> string" where
  "buf e = hist_lines e ! current e"

definition set_buf :: "string \<Rightarrow> 'd editor \<Rightarrow> 'd editor" where
  "set_buf b e = e\<lparr>hist_lines := (hist_lines e)[current e := b]\<rparr>"

definition wr_buf :: "nat \<Rightarrow> char \<Rightarrow> 'd editor \<Rightarrow> 'd editor option" where
  "wr_buf i c e = do { b \<leftarrow> wr (buf e) i c; Some (set_buf b e) }"

text \<open>\<open>bcopy\<close> inside the line.\<close>

definition move :: "nat \<Rightarrow> nat \<Rightarrow> nat \<Rightarrow> 'd editor \<Rightarrow> 'd editor option" where
  "move src dst n e =
    (if src + n \<le> length (buf e) \<and> dst + n \<le> length (buf e)
     then Some (set_buf (take dst (buf e) @ take n (drop src (buf e)) @ drop (dst + n) (buf e)) e)
     else None)"

definition echo :: "'d edit_env \<Rightarrow> char \<Rightarrow> 'd editor \<Rightarrow> 'd editor" where
  "echo ev c e = e\<lparr>con := put1 (edev ev) c (con e)\<rparr>"

definition echo_n :: "'d edit_env \<Rightarrow> nat \<Rightarrow> char \<Rightarrow> 'd editor \<Rightarrow> 'd editor" where
  "echo_n ev n c e = ((echo ev c) ^^ n) e"

definition rub_out :: "'d edit_env \<Rightarrow> 'd editor \<Rightarrow> 'd editor" where
  "rub_out ev e = echo ev BS (echo ev (CHR '' '') (echo ev BS e))"

text \<open>\<open>printf\<close> of the line from \<open>i\<close> on with a format.\<close>

definition show_from :: "'d edit_env \<Rightarrow> string \<Rightarrow> nat \<Rightarrow> 'd editor \<Rightarrow> 'd editor option" where
  "show_from ev f i e = do {
     s \<leftarrow> print (edev ev) (cstr f) [AStr (Some (drop i (buf e)))] (con e);
     Some (e\<lparr>con := s\<rparr>) }"

text \<open>The loops that move to the end of the line, and that rub out to its beginning.\<close>

definition to_eol :: "'d edit_env \<Rightarrow> 'd editor \<Rightarrow> 'd editor" where
  "to_eol ev e = (fold (echo ev) (take (bufp e - bufc e) (drop (bufc e) (buf e))) e)\<lparr>bufc := max (bufc e) (bufp e)\<rparr>"

definition rub_line :: "'d edit_env \<Rightarrow> nat \<Rightarrow> 'd editor \<Rightarrow> 'd editor" where
  "rub_line ev n e = ((rub_out ev) ^^ n) e"

text \<open>The rest of the line after a deletion, and back to the cursor.\<close>

definition show_rest :: "'d edit_env \<Rightarrow> 'd editor \<Rightarrow> 'd editor option" where
  "show_rest ev e = do {
     e \<leftarrow> show_from ev ''%s '' (bufc e) e;
     Some (echo_n ev (Suc (bufp e) - bufc e) BS e) }"

definition key_delete :: "'d edit_env \<Rightarrow> 'd editor \<Rightarrow> 'd editor option" where
  "key_delete ev e =
    (if bufc e \<noteq> bufp e then do {
       e \<leftarrow> move (bufc e + 1) (bufc e) (bufp e - bufc e) e;
       e \<leftarrow> wr_buf (bufp e - 1) NUL (e\<lparr>bufp := bufp e - 1\<rparr>);
       show_rest ev e }
     else if bufp e = 0 then Some (e\<lparr>con := interactive ev (con e)\<rparr>)
     else Some e)"

definition key_backspace :: "'d edit_env \<Rightarrow> 'd editor \<Rightarrow> 'd editor option" where
  "key_backspace ev e =
    (if bufc e = 0 then Some e
     else if bufc e = bufp e then do {
       e \<leftarrow> wr_buf (bufp e - 1) NUL (e\<lparr>bufp := bufp e - 1, bufc := bufc e - 1\<rparr>);
       Some (rub_out ev e) }
     else do {
       e \<leftarrow> move (bufc e) (bufc e - 1) (bufp e - bufc e) (echo ev BS e);
       e \<leftarrow> wr_buf (bufp e - 1) NUL (e\<lparr>bufc := bufc e - 1, bufp := bufp e - 1\<rparr>);
       show_rest ev e })"

definition key_eol :: "'d edit_env \<Rightarrow> 'd editor \<Rightarrow> 'd editor option" where
  "key_eol ev e = Some (to_eol ev e)"

definition key_bol :: "'d edit_env \<Rightarrow> 'd editor \<Rightarrow> 'd editor option" where
  "key_bol ev e = (if ringing ev then Some e else Some ((echo_n ev (bufc e) BS e)\<lparr>bufc := 0\<rparr>))"

definition key_forward :: "'d edit_env \<Rightarrow> 'd editor \<Rightarrow> 'd editor option" where
  "key_forward ev e =
    (if bufc e < bufp e then do { c \<leftarrow> rd (buf e) (bufc e); Some ((echo ev c e)\<lparr>bufc := bufc e + 1\<rparr>) }
     else Some e)"

definition key_back :: "'d edit_env \<Rightarrow> 'd editor \<Rightarrow> 'd editor option" where
  "key_back ev e = (if bufc e > 0 then Some (echo ev BS (e\<lparr>bufc := bufc e - 1\<rparr>)) else Some e)"

text \<open>The loop of \<open>^K\<close> that goes back from the end and terminates the line at every place.\<close>

fun kill_back :: "'d edit_env \<Rightarrow> nat \<Rightarrow> 'd editor \<Rightarrow> 'd editor option" where
  "kill_back ev 0 e = Some e"
| "kill_back ev (Suc n) e = do {
     e \<leftarrow> wr_buf (bufp e) NUL (echo ev BS e);
     kill_back ev n (e\<lparr>bufp := bufp e - 1\<rparr>) }"

definition key_kill :: "'d edit_env \<Rightarrow> 'd editor \<Rightarrow> 'd editor option" where
  "key_kill ev e =
    (if bufc e \<noteq> bufp e then kill_back ev (bufp e - bufc e) (echo_n ev (bufp e - bufc e) (CHR '' '') e)
     else Some e)"

definition key_redraw :: "'d edit_env \<Rightarrow> 'd editor \<Rightarrow> 'd editor option" where
  "key_redraw ev e = do {
     e \<leftarrow> (if bufp e > 65 then do {
         s \<leftarrow> print (edev ev) (cstr (''^R'' @ NL # ''%s'')) [AStr (Some (cstr PROMPT))] (con e);
         Some (e\<lparr>con := s\<rparr>) }
       else Some (rub_line ev (bufp e) (to_eol ev e)));
     e \<leftarrow> wr_buf (bufp e) NUL e;
     show_from ev ''%s'' 0 (e\<lparr>bufc := bufp e\<rparr>) }"

definition key_rub :: "'d edit_env \<Rightarrow> 'd editor \<Rightarrow> 'd editor option" where
  "key_rub ev e = Some ((rub_line ev (bufp e) (to_eol ev e))\<lparr>bufp := 0, bufc := 0\<rparr>)"

text \<open>\<open>newbuffer\<close>: the line of the history replaces the one on the screen.\<close>

definition newbuffer :: "'d edit_env \<Rightarrow> nat \<Rightarrow> 'd editor \<Rightarrow> 'd editor option" where
  "newbuffer ev i e = do {
     let e = (rub_line ev (bufp e) (to_eol ev e))\<lparr>current := i\<rparr>;
     n \<leftarrow> strlen (buf e);
     e \<leftarrow> wr_buf n NUL e;
     show_from ev ''%s'' 0 (e\<lparr>bufp := n, bufc := n\<rparr>) }"

definition key_insert :: "'d edit_env \<Rightarrow> char \<Rightarrow> 'd editor \<Rightarrow> 'd editor option" where
  "key_insert ev c e =
    (if isprint (schar c) \<and> int (bufp e) < int LINESIZE - 3 then do {
       e \<leftarrow> (if bufc e \<noteq> bufp e then move (bufc e) (bufc e + 1) (bufp e - bufc e) (echo ev c e) else Some (echo ev c e));
       e \<leftarrow> wr_buf (bufc e) c e;
       let e = e\<lparr>bufc := bufc e + 1, bufp := bufp e + 1\<rparr>;
       if bufc e \<noteq> bufp e then do {
         e \<leftarrow> wr_buf (bufp e) NUL e;
         e \<leftarrow> show_from ev ''%s'' (bufc e) e;
         Some (echo_n ev (bufp e - bufc e) BS e) }
       else Some e }
     else Some (echo ev BELL e))"

text \<open>\<open>^V\<close> stores at the end of the line, wherever the cursor is.\<close>

definition key_quote :: "'d edit_env \<Rightarrow> char \<Rightarrow> 'd editor \<Rightarrow> 'd editor option" where
  "key_quote ev c e =
    (if int (bufp e) < int LINESIZE - 3 then do {
       e \<leftarrow> wr_buf (bufp e) c e;
       s \<leftarrow> showchar (edev ev) c (con e);
       Some (e\<lparr>bufp := bufp e + 1, bufc := bufc e + 1, con := s\<rparr>) }
     else Some (echo ev BELL e))"

definition line_used :: "nat \<Rightarrow> 'd editor \<Rightarrow> bool option" where
  "line_used i e = do { c \<leftarrow> rd (hist_lines e ! i) 0; Some (c \<noteq> NUL) }"

definition key_next :: "'d edit_env \<Rightarrow> 'd editor \<Rightarrow> 'd editor option" where
  "key_next ev e =
    (let tmp = (current e + 1) mod EDIT_HISTORY in
     if current e \<noteq> hist_cur e then do {
       used \<leftarrow> line_used tmp e;
       if used \<or> tmp = hist_cur e then newbuffer ev tmp e else Some (echo ev BELL e) }
     else Some (echo ev BELL e))"

definition key_prev :: "'d edit_env \<Rightarrow> 'd editor \<Rightarrow> 'd editor option" where
  "key_prev ev e =
    (let tmp = (if current e = 0 then EDIT_HISTORY - 1 else current e - 1) in
     if tmp \<noteq> hist_cur e then do {
       used \<leftarrow> line_used tmp e;
       if used then newbuffer ev tmp e else Some (echo ev BELL e) }
     else Some (echo ev BELL e))"

text \<open>One key but \<open>^V\<close> and the end of the line.\<close>

definition edit_key :: "'d edit_env \<Rightarrow> int \<Rightarrow> 'd editor \<Rightarrow> 'd editor option" where
  "edit_key ev c e =
    (if c = CTRL (CHR ''N'') then key_next ev e
     else if c = CTRL (CHR ''P'') then key_prev ev e
     else if c = CTRL (CHR ''D'') \<or> c = CTRL (CHR ''X'') \<or> c = EOF then key_delete ev e
     else if c = CTRL (CHR ''H'') \<or> c = DEL then key_backspace ev e
     else if c = CTRL (CHR ''E'') then key_eol ev e
     else if c = CTRL (CHR ''A'') then key_bol ev e
     else if c = CTRL (CHR ''F'') then key_forward ev e
     else if c = CTRL (CHR ''B'') then key_back ev e
     else if c = CTRL (CHR ''K'') then key_kill ev e
     else if c = CTRL (CHR ''R'') then key_redraw ev e
     else if c = CTRL (CHR ''U'') then key_rub ev e
     else if c = 9 then key_insert ev (CHR '' '') e
     else key_insert ev (char_of_int c) e)"

fun edit_loop :: "'d edit_env \<Rightarrow> int list \<Rightarrow> 'd editor \<Rightarrow> ('d editor \<times> int list) option option" where
  "edit_loop ev [] e = Some None"
| "edit_loop ev (c # cs) e =
    (if c = CTRL (CHR ''V'') then
       (case cs of
          [] \<Rightarrow> Some None
        | c # cs \<Rightarrow> do { e \<leftarrow> key_quote ev (char_of_int c) e; edit_loop ev cs e })
     else if c = 10 \<or> c = 13 then do {
       e \<leftarrow> wr_buf (bufp e) NUL (echo ev NL e);
       Some (Some (e, cs)) }
     else do { e \<leftarrow> edit_key ev c e; edit_loop ev cs e })"

declare edit_loop.simps [simp del]

text \<open>The history after a line: \<open>!!\<close>, and the line becomes part of it.  The result is the line \<open>rvalp\<close>
points to, the one that was edited.\<close>

definition bang :: "'d edit_env \<Rightarrow> 'd editor \<Rightarrow> 'd editor option" where
  "bang ev e = do {
     c0 \<leftarrow> rd (buf e) 0;
     if c0 = CHR ''!'' then do {
       c1 \<leftarrow> rd (buf e) 1;
       both \<leftarrow> (if c1 = CHR ''!'' then do { c2 \<leftarrow> rd (buf e) 2; Some (c2 = NUL) } else Some False);
       let tmp = (if both then (if hist_cur e = 0 then EDIT_HISTORY - 1 else hist_cur e - 1) else hist_cur e);
       if tmp \<noteq> hist_cur e then do {
         used \<leftarrow> line_used tmp e;
         if used then show_from ev (''%s'' @ [NL]) 0 (e\<lparr>current := tmp\<rparr>) else Some e }
       else Some e }
     else Some e }"

definition remember :: "nat \<Rightarrow> 'd editor \<Rightarrow> 'd editor option" where
  "remember rvalp e = do {
     used \<leftarrow> line_used rvalp e;
     if used then do {
       let e = (if current e \<noteq> hist_cur e
                then e\<lparr>hist_lines := (hist_lines e)[hist_cur e := hist_lines e ! current e]\<rparr> else e);
       let next = (hist_cur e + 1) mod EDIT_HISTORY;
       b \<leftarrow> wr (hist_lines e ! next) 0 NUL;
       Some (e\<lparr>hist_lines := (hist_lines e)[next := b], hist_cur := next\<rparr>) }
     else Some e }"

definition edit_gets :: "'d edit_env \<Rightarrow> int list \<Rightarrow> 'd editor \<Rightarrow> (string \<times> 'd editor \<times> int list) option option" where
  "edit_gets ev cs e = do {
     r \<leftarrow> edit_loop ev cs (e\<lparr>current := hist_cur e, bufc := 0, bufp := 0\<rparr>);
     (case r of
        None \<Rightarrow> Some None
      | Some (e, cs) \<Rightarrow> do {
          let rvalp = current e;
          e \<leftarrow> bang ev e;
          e \<leftarrow> remember rvalp e;
          Some (Some (str_of (hist_lines e ! rvalp), e, cs)) }) }"

section \<open>Echo\<close>

definition printed :: "'d device \<Rightarrow> string \<Rightarrow> 'd console \<Rightarrow> 'd console" where
  "printed dv t s =
    snd (fputflush dv (fold (fputchar dv) t (s\<lparr>fputbs := int LINESIZE, fputb := [], fputcn := 0\<rparr>)))"

lemma print_text: "vprf_text False f a = Some t \<Longrightarrow> print dv f a s = Some (printed dv t s)"
  by (simp add: print_def printf_def printed_def vprf_prints split: prod.splits)

lemma text_with_string:
  assumes "nulfree a" "CHR ''%'' \<notin> set a" "nulfree b" "CHR ''%'' \<notin> set b" "NUL \<in> set m"
  shows "vprf_text False (cstr (a @ ''%s'' @ b)) [AStr (Some m)] = Some (a @ str_of m @ b)"
  using vprf_text_pieces [of "[Text a, Field False False 0 0 (VStr m), Text b]" False "[]"] assms
  by (simp add: number_text_def laid_out_def)

lemma print_string: "NUL \<in> set m \<Longrightarrow> print dv (cstr ''%s'') [AStr (Some m)] s = Some (printed dv (str_of m) s)"
  using print_text [OF text_with_string [of "[]" "[]" m]] by simp

lemma print_string_blank: "NUL \<in> set m \<Longrightarrow> print dv (cstr ''%s '') [AStr (Some m)] s = Some (printed dv (str_of m @ '' '') s)"
  using print_text [OF text_with_string [of "[]" "'' ''" m]] by simp

lemma print_string_line: "NUL \<in> set m \<Longrightarrow> print dv (cstr (''%s'' @ [NL])) [AStr (Some m)] s = Some (printed dv (str_of m @ [NL]) s)"
  using print_text [OF text_with_string [of "[]" "[NL]" m]] by simp

lemma print_prompt:
  "print dv (cstr (''^R'' @ NL # ''%s'')) [AStr (Some (cstr PROMPT))] s = Some (printed dv (''^R'' @ NL # str_of (cstr PROMPT)) s)"
  using print_text [OF text_with_string [of "''^R'' @ [NL]" "[]" "cstr PROMPT"], where dv = dv and s = s] by simp

lemma showchar_total: "showchar dv c s \<noteq> None"
proof -
  have "puts dv (Some (cstr [a, b])) s \<noteq> None" if "a \<noteq> NUL" "b \<noteq> NUL" for a b
    using that by (auto simp: puts_def putstr_def or_null_def cstr_def split: prod.splits)
  then show ?thesis
    by (auto simp: showchar_def Let_def simp del: not_None_eq)
qed

section \<open>Well-formed lines\<close>

text \<open>The last three characters of a line are never written to.\<close>

definition wf_line :: "string \<Rightarrow> bool" where
  "wf_line b \<longleftrightarrow> length b = LINESIZE \<and> (\<forall>i. 253 \<le> i \<longrightarrow> i < LINESIZE \<longrightarrow> b ! i = NUL)"

lemma wf_line_length: "wf_line b \<Longrightarrow> length b = 256"
  by (simp add: wf_line_def LINESIZE_def)

lemma wf_line_NUL: "wf_line b \<Longrightarrow> i \<le> 255 \<Longrightarrow> NUL \<in> set (drop i b)"
proof -
  assume b: "wf_line b" and i: "i \<le> 255"
  then have "drop i b ! (255 - i) = NUL" "255 - i < length (drop i b)"
    by (simp_all add: wf_line_def LINESIZE_def)
  then show ?thesis
    by (metis nth_mem)
qed

lemma wf_line_update: "wf_line b \<Longrightarrow> i < 253 \<or> c = NUL \<Longrightarrow> wf_line (b[i := c])"
  by (cases "i < length b") (auto simp: wf_line_def nth_list_update)

definition moved :: "nat \<Rightarrow> nat \<Rightarrow> nat \<Rightarrow> string \<Rightarrow> string" where
  "moved src dst n b = take dst b @ take n (drop src b) @ drop (dst + n) b"

lemma wf_line_moved:
  assumes "wf_line b" "dst + n \<le> 253" "src + n \<le> 256"
  shows "wf_line (moved src dst n b)"
proof -
  have len: "length b = 256"
    using assms(1) by (rule wf_line_length)
  have "length (take dst b) = dst" "length (take n (drop src b)) = n"
    using assms(2,3) len by simp_all
  then have "moved src dst n b ! i = b ! i" if "253 \<le> i" "i < 256" for i
  proof -
    have "\<not> i - dst < n" "\<not> i < dst" "dst + n + (i - dst - n) = i"
      using that assms(2) by linarith+
    then show ?thesis
      using \<open>length (take dst b) = dst\<close> \<open>length (take n (drop src b)) = n\<close> that len
      by (simp add: moved_def nth_append del: length_take)
  qed
  then show ?thesis
    using assms len by (simp add: wf_line_def LINESIZE_def moved_def)
qed

definition wf_hist :: "string list \<Rightarrow> bool" where
  "wf_hist ls \<longleftrightarrow> length ls = EDIT_HISTORY \<and> (\<forall>l \<in> set ls. wf_line l)"

definition wf_editor :: "'d editor \<Rightarrow> bool" where
  "wf_editor e \<longleftrightarrow> wf_hist (hist_lines e) \<and> hist_cur e < EDIT_HISTORY \<and> current e < EDIT_HISTORY \<and>
    bufc e \<le> bufp e \<and> bufp e \<le> 253"

text \<open>The text before the cursor and the text behind it.\<close>

definition before_cursor :: "'d editor \<Rightarrow> string" where
  "before_cursor e = take (bufc e) (buf e)"

definition after_cursor :: "'d editor \<Rightarrow> string" where
  "after_cursor e = take (bufp e - bufc e) (drop (bufc e) (buf e))"

lemma wf_buf: "wf_editor e \<Longrightarrow> wf_line (buf e)"
  by (simp add: wf_editor_def wf_hist_def buf_def)

lemma buf_split:
  assumes "wf_editor e"
  obtains x where "buf e = before_cursor e @ after_cursor e @ x" "length (before_cursor e) = bufc e"
    "length (after_cursor e) = bufp e - bufc e" "length x = 256 - bufp e" "bufc e \<le> bufp e" "bufp e \<le> 253"
proof -
  have len: "length (buf e) = 256" "bufc e \<le> bufp e" "bufp e \<le> 253"
    using assms wf_line_length [OF wf_buf [OF assms]] by (simp_all add: wf_editor_def)
  have "buf e = take (bufc e) (buf e) @ take (bufp e - bufc e) (drop (bufc e) (buf e)) @ drop (bufp e) (buf e)"
    using len by (metis append_take_drop_id drop_drop le_add_diff_inverse2)
  then show ?thesis
    using that [of "drop (bufp e) (buf e)"] len by (simp add: before_cursor_def after_cursor_def)
qed

text \<open>What an editing key may change: the line, the cursor, the console.\<close>

definition becomes :: "'d editor \<Rightarrow> 'd editor \<Rightarrow> string \<Rightarrow> string \<Rightarrow> bool" where
  "becomes e e' l r \<longleftrightarrow>
    (\<exists>b s. e' = e\<lparr>hist_lines := (hist_lines e)[current e := b], bufc := length l, bufp := length l + length r, con := s\<rparr> \<and>
      wf_line b \<and> take (length l + length r) b = l @ r \<and> length l + length r \<le> 253)"

lemma becomesI:
  assumes "wf_line (l @ r @ x)" "length l + length r \<le> 253"
    "e' = e\<lparr>hist_lines := (hist_lines e)[current e := l @ r @ x], bufc := length l, bufp := length l + length r, con := s\<rparr>"
  shows "becomes e e' l r"
  unfolding becomes_def using assms by (intro exI [of _ "l @ r @ x"] exI [of _ s]) simp

lemma becomes_wf:
  assumes "becomes e e' l r" "wf_editor e"
  shows "wf_editor e'" "before_cursor e' = l" "after_cursor e' = r" "hist_cur e' = hist_cur e" "current e' = current e"
    "hist_lines e' = (hist_lines e)[current e := buf e']"
proof -
  obtain b s where b: "e' = e\<lparr>hist_lines := (hist_lines e)[current e := b], bufc := length l, bufp := length l + length r, con := s\<rparr>"
    "wf_line b" "take (length l + length r) b = l @ r" "length l + length r \<le> 253"
    using assms(1) by (auto simp: becomes_def)
  have cur: "current e < length (hist_lines e)"
    using assms(2) by (simp add: wf_editor_def wf_hist_def)
  have buf: "buf e' = b"
    using cur by (simp add: b(1) buf_def)
  show "wf_editor e'"
    using assms(2) b set_update_subset_insert [of "hist_lines e" "current e" b] by (auto simp: wf_editor_def wf_hist_def)
  show "before_cursor e' = l"
    using b(3) by (simp add: before_cursor_def buf) (simp add: b(1), metis append_eq_conv_conj le_add1 min.absorb1 take_take)
  show "after_cursor e' = r"
    using b(3) by (simp add: after_cursor_def buf) (simp add: b(1) take_drop add.commute)
  show "hist_cur e' = hist_cur e" "current e' = current e" "hist_lines e' = (hist_lines e)[current e := buf e']"
    using buf by (simp_all add: b(1))
qed

section \<open>Every key\<close>

lemma buf_simps [simp]:
  "buf (e\<lparr>con := s\<rparr>) = buf e" "buf (e\<lparr>bufc := c\<rparr>) = buf e" "buf (e\<lparr>bufp := p\<rparr>) = buf e"
  "wf_editor e \<Longrightarrow> buf (set_buf b e) = b"
  by (simp_all add: buf_def set_buf_def wf_editor_def wf_hist_def)

lemma con_last [simp]: "e\<lparr>con := s, bufc := c\<rparr> = e\<lparr>bufc := c, con := s\<rparr>"
  by simp

lemma echo_con: "echo ev c e = e\<lparr>con := put1 (edev ev) c (con e)\<rparr>"
  by (simp add: echo_def)

lemma echo_n_con: "\<exists>s. echo_n ev n c e = e\<lparr>con := s\<rparr>"
  by (induction n) (auto simp: echo_n_def echo_def intro: exI [of _ "con e"])

lemma rub_line_con: "\<exists>s. rub_line ev n e = e\<lparr>con := s\<rparr>"
  by (induction n) (auto simp: rub_line_def rub_out_def echo_def intro: exI [of _ "con e"])

lemma fold_echo_con: "\<exists>s. fold (echo ev) t e = e\<lparr>con := s\<rparr>"
proof (induction t arbitrary: e)
  case Nil
  show ?case
    by (auto intro: exI [of _ "con e"])
next
  case (Cons c t)
  then show ?case
    using Cons [of "echo ev c e"] by (auto simp: echo_def)
qed

lemma to_eol_con: "\<exists>s. to_eol ev e = e\<lparr>bufc := max (bufc e) (bufp e), con := s\<rparr>"
proof -
  obtain s where "fold (echo ev) (take (bufp e - bufc e) (drop (bufc e) (buf e))) e = e\<lparr>con := s\<rparr>"
    using fold_echo_con by blast
  then show ?thesis
    by (intro exI [of _ s]) (simp add: to_eol_def)
qed

lemma show_from_run:
  assumes "wf_line (buf e)" "i \<le> 255"
  shows "show_from ev ''%s'' i e = Some (e\<lparr>con := printed (edev ev) (str_of (drop i (buf e))) (con e)\<rparr>)"
    "show_from ev ''%s '' i e = Some (e\<lparr>con := printed (edev ev) (str_of (drop i (buf e)) @ '' '') (con e)\<rparr>)"
    "show_from ev (''%s'' @ [NL]) i e = Some (e\<lparr>con := printed (edev ev) (str_of (drop i (buf e)) @ [NL]) (con e)\<rparr>)"
  using wf_line_NUL [OF assms]
  unfolding show_from_def by (simp_all only: print_string print_string_blank print_string_line bind.bind_lunit Option.bind.simps)

lemma wr_buf_run: "wf_line (buf e) \<Longrightarrow> i < 256 \<Longrightarrow> wr_buf i c e = Some (set_buf ((buf e)[i := c]) e)"
  by (simp add: wr_buf_def wr_def wf_line_length)

lemma move_run:
  "wf_line (buf e) \<Longrightarrow> src + n \<le> 256 \<Longrightarrow> dst + n \<le> 256 \<Longrightarrow> move src dst n e = Some (set_buf (moved src dst n (buf e)) e)"
  by (simp add: move_def moved_def wf_line_length)

lemma becomes_same:
  assumes "wf_editor e"
  shows "becomes e (e\<lparr>con := s\<rparr>) (before_cursor e) (after_cursor e)"
proof -
  obtain x where x: "buf e = before_cursor e @ after_cursor e @ x" "length (before_cursor e) = bufc e"
    "length (after_cursor e) = bufp e - bufc e" "bufc e \<le> bufp e" "bufp e \<le> 253"
    using buf_split [OF assms] by metis
  have "hist_lines e = (hist_lines e)[current e := buf e]"
    by (simp add: buf_def)
  then have "e\<lparr>con := s\<rparr> = e\<lparr>hist_lines := (hist_lines e)[current e := before_cursor e @ after_cursor e @ x],
      bufc := length (before_cursor e), bufp := length (before_cursor e) + length (after_cursor e), con := s\<rparr>"
    using x by (cases e) simp
  then show ?thesis
    using becomesI wf_buf [OF assms] x by (metis le_add_diff_inverse)
qed

lemma show_rest_con:
  assumes "wf_line (buf e)" "bufc e \<le> 255"
  shows "\<exists>s. show_rest ev e = Some (e\<lparr>con := s\<rparr>)"
  using assms echo_n_con [of ev "Suc (bufp e) - bufc e" BS "e\<lparr>con := s\<rparr>" for s] by (auto simp: show_rest_def show_from_run)

lemma key_delete_becomes:
  assumes "wf_editor e"
  shows "\<exists>e'. key_delete ev e = Some e' \<and> becomes e e' (before_cursor e) (tl (after_cursor e))"
proof (cases "bufc e = bufp e")
  case True
  then have "after_cursor e = []"
    by (simp add: after_cursor_def)
  moreover have "e\<lparr>con := con e\<rparr> = e"
    by simp
  ultimately show ?thesis
    using becomes_same [OF assms, of "con e"] becomes_same [OF assms, of "interactive ev (con e)"] True
    by (auto simp: key_delete_def)
next
  case False
  obtain x where x: "buf e = before_cursor e @ after_cursor e @ x" "length (before_cursor e) = bufc e"
    "length (after_cursor e) = bufp e - bufc e" "length x = 256 - bufp e" "bufc e \<le> bufp e" "bufp e \<le> 253"
    using buf_split [OF assms] by metis
  obtain d r where r: "after_cursor e = d # r"
    using x(3,5) False by (cases "after_cursor e") auto
  obtain y z where y: "x = y # z"
    using x(4,6) by (cases x) auto
  let ?l = "before_cursor e"
  have len: "bufp e - bufc e = Suc (length r)" "bufp e - 1 = length ?l + length r" "bufp e = Suc (length ?l + length r)"
    using x r by simp_all
  let ?b = "moved (bufc e + 1) (bufc e) (bufp e - bufc e) (buf e)"
  have b: "?b = ?l @ r @ y # y # z"
    using x(1,2) by (simp add: moved_def r y len(1))
  have wf: "wf_line ?b" "wf_line (?b[bufp e - 1 := NUL])"
    using wf_line_moved [OF wf_buf [OF assms]] x(5,6) wf_line_update len by simp_all
  have b': "?b[bufp e - 1 := NUL] = ?l @ r @ NUL # y # z"
    unfolding b len(2) by (simp add: list_update_append)
  define B where "B = ?b[bufp e - 1 := NUL]"
  have B: "wf_line B" "B = ?l @ r @ NUL # y # z"
    using wf(2) b' by (simp_all only: B_def)
  let ?e = "set_buf ?b e"
  let ?e' = "set_buf B (?e\<lparr>bufp := bufp e - 1\<rparr>)"
  have s1: "move (bufc e + 1) (bufc e) (bufp e - bufc e) e = Some ?e"
    using wf_buf [OF assms] x(5,6) by (intro move_run) simp_all
  have s2: "wr_buf (bufp e - 1) NUL (?e\<lparr>bufp := bufp e - 1\<rparr>) = Some ?e'"
    using wf(1) x(6) assms unfolding B_def by (subst wr_buf_run) simp_all
  have "buf ?e' = B"
    using assms by (simp add: buf_def set_buf_def wf_editor_def wf_hist_def)
  then obtain s where "show_rest ev ?e' = Some (?e'\<lparr>con := s\<rparr>)"
    using show_rest_con [of ?e' ev] B(1) x(5,6) by (auto simp: set_buf_def)
  then have "key_delete ev e = Some (?e'\<lparr>con := s\<rparr>)"
    using False s1 s2 by (simp add: key_delete_def set_buf_def)
  moreover have "becomes e (?e'\<lparr>con := s\<rparr>) ?l r"
    using B(1) x(2,6) len by (intro becomesI [where x = "NUL # y # z" and s = s]) (simp_all add: B(2) [symmetric] set_buf_def)
  ultimately show ?thesis
    by (simp add: r)
qed

lemma key_backspace_becomes:
  assumes "wf_editor e"
  shows "\<exists>e'. key_backspace ev e = Some e' \<and> becomes e e' (butlast (before_cursor e)) (after_cursor e)"
proof (cases "bufc e = 0")
  case True
  then have "before_cursor e = []"
    by (simp add: before_cursor_def)
  moreover have "e\<lparr>con := con e\<rparr> = e"
    by simp
  ultimately show ?thesis
    using becomes_same [OF assms, of "con e"] True by (auto simp: key_backspace_def)
next
  case False
  obtain x where x: "buf e = before_cursor e @ after_cursor e @ x" "length (before_cursor e) = bufc e"
    "length (after_cursor e) = bufp e - bufc e" "length x = 256 - bufp e" "bufc e \<le> bufp e" "bufp e \<le> 253"
    using buf_split [OF assms] by metis
  obtain l a where l: "before_cursor e = l @ [a]"
    using x(2) False by (cases "before_cursor e" rule: rev_cases) auto
  let ?r = "after_cursor e"
  have len: "bufc e = Suc (length l)" "bufp e = Suc (length l) + length ?r" "bufp e - 1 = length l + length ?r"
    using x l by simp_all
  show ?thesis
  proof (cases "bufc e = bufp e")
    case True
    then have r: "?r = []"
      using len by simp
    define B where "B = (buf e)[bufp e - 1 := NUL]"
    have B: "wf_line B" "B = l @ NUL # x"
      using wf_line_update [OF wf_buf [OF assms], of "bufp e - 1" NUL] x len r
      by (simp_all only: B_def) (simp_all add: l list_update_append)
    let ?e' = "set_buf B (e\<lparr>bufp := bufp e - 1, bufc := bufc e - 1\<rparr>)"
    have "wr_buf (bufp e - 1) NUL (e\<lparr>bufp := bufp e - 1, bufc := bufc e - 1\<rparr>) = Some ?e'"
      using wf_buf [OF assms] x(6) unfolding B_def by (subst wr_buf_run) simp_all
    then have "key_backspace ev e = Some (rub_out ev ?e')"
      using False True by (simp add: key_backspace_def)
    moreover obtain s where "rub_out ev ?e' = ?e'\<lparr>con := s\<rparr>"
      using rub_line_con [of ev 1 ?e'] by (auto simp: rub_line_def)
    moreover have "becomes e (?e'\<lparr>con := s\<rparr>) l []"
      using B(1) x(6) len r by (intro becomesI [where x = "NUL # x" and s = s]) (simp_all add: B(2) [symmetric] set_buf_def)
    ultimately show ?thesis
      by (simp add: l r)
  next
    case mid: False
    obtain y z where y: "x = y # z"
      using x(4,6) by (cases x) auto
    let ?n = "bufp e - bufc e"
    let ?b = "moved (bufc e) (bufc e - 1) ?n (buf e)"
    have b: "?b = l @ ?r @ drop (bufp e - 1) (buf e)"
      using x(1,2) len by (simp add: moved_def l)
    have wf: "wf_line ?b" "wf_line (?b[bufp e - 1 := NUL])"
      using wf_line_moved [OF wf_buf [OF assms]] x(5,6) wf_line_update len by simp_all
    define B where "B = ?b[bufp e - 1 := NUL]"
    obtain X where B: "wf_line B" "B = l @ ?r @ X"
      using wf(2) unfolding B_def b len(3) by (simp add: list_update_append)
    let ?e = "set_buf ?b (echo ev BS e)"
    let ?e' = "set_buf B (?e\<lparr>bufc := bufc e - 1, bufp := bufp e - 1\<rparr>)"
    have s1: "move (bufc e) (bufc e - 1) ?n (echo ev BS e) = Some ?e"
      using wf_buf [OF assms] x(5,6) by (subst move_run) (simp_all add: echo_con)
    have s2: "wr_buf (bufp e - 1) NUL (?e\<lparr>bufc := bufc e - 1, bufp := bufp e - 1\<rparr>) = Some ?e'"
      using wf(1) x(6) assms unfolding B_def
      by (subst wr_buf_run) (simp_all add: echo_con buf_def set_buf_def wf_editor_def wf_hist_def)
    have "buf ?e' = B" "bufc ?e' \<le> 255"
      using assms x(5,6) by (simp_all add: buf_def set_buf_def wf_editor_def wf_hist_def echo_con)
    then obtain s where "show_rest ev ?e' = Some (?e'\<lparr>con := s\<rparr>)"
      using show_rest_con [of ?e' ev] B(1) by metis
    then have "key_backspace ev e = Some (?e'\<lparr>con := s\<rparr>)"
      using False mid s1 s2 by (simp add: key_backspace_def set_buf_def echo_con)
    moreover have "becomes e (?e'\<lparr>con := s\<rparr>) l ?r"
      using B(1) x(2,6) len
      by (intro becomesI [where x = X and s = s])
        (simp_all add: B(2) [symmetric] set_buf_def echo_con)
    ultimately show ?thesis
      by (simp add: l)
  qed
qed

lemma becomes_cursor:
  assumes "wf_editor e" "c \<le> bufp e"
  shows "becomes e (e\<lparr>bufc := c, con := s\<rparr>) (take c (before_cursor e @ after_cursor e)) (drop c (before_cursor e @ after_cursor e))"
proof -
  obtain x where x: "buf e = before_cursor e @ after_cursor e @ x" "length (before_cursor e) = bufc e"
    "length (after_cursor e) = bufp e - bufc e" "bufc e \<le> bufp e" "bufp e \<le> 253"
    using buf_split [OF assms(1)] by metis
  define l r where "l = take c (before_cursor e @ after_cursor e)" and "r = drop c (before_cursor e @ after_cursor e)"
  have lr: "l @ r = before_cursor e @ after_cursor e"
    by (simp only: l_def r_def append_take_drop_id)
  then have "length l + length r = bufp e"
    using x(2-4) by (metis le_add_diff_inverse length_append)
  moreover have "length l = c"
    using x(2-4) assms(2) by (simp add: l_def)
  moreover have "buf e = l @ r @ x"
    using x(1) lr by (metis append.assoc)
  ultimately have t: "length l = c" "length l + length r = bufp e" "buf e = l @ r @ x"
    by simp_all
  have "(hist_lines e)[current e := l @ r @ x] = hist_lines e"
    using t(3) by (metis buf_def list_update_id)
  then have "e\<lparr>bufc := c, con := s\<rparr> = e\<lparr>hist_lines := (hist_lines e)[current e := l @ r @ x],
      bufc := length l, bufp := length l + length r, con := s\<rparr>"
    using t by simp
  then show ?thesis
    using wf_buf [OF assms(1)] t x(5) unfolding l_def [symmetric] r_def [symmetric]
    by (intro becomesI [where x = x and s = s]) simp_all
qed

lemma key_move_becomes:
  assumes "wf_editor e"
  shows "\<exists>e'. key_eol ev e = Some e' \<and> becomes e e' (before_cursor e @ after_cursor e) []"
    "\<exists>e'. key_bol ev e = Some e' \<and>
      (if ringing ev then e' = e else becomes e e' [] (before_cursor e @ after_cursor e))"
    "\<exists>e'. key_forward ev e = Some e' \<and>
      becomes e e' (before_cursor e @ take 1 (after_cursor e)) (drop 1 (after_cursor e))"
    "\<exists>e'. key_back ev e = Some e' \<and>
      becomes e e' (butlast (before_cursor e)) (drop (bufc e - 1) (before_cursor e) @ after_cursor e)"
proof -
  obtain x where x: "buf e = before_cursor e @ after_cursor e @ x" "length (before_cursor e) = bufc e"
    "length (after_cursor e) = bufp e - bufc e" "length x = 256 - bufp e" "bufc e \<le> bufp e" "bufp e \<le> 253"
    using buf_split [OF assms] by metis
  obtain s where "to_eol ev e = e\<lparr>bufc := bufp e, con := s\<rparr>"
    using to_eol_con [of ev e] x(5) by (auto simp: max_def)
  then show "\<exists>e'. key_eol ev e = Some e' \<and> becomes e e' (before_cursor e @ after_cursor e) []"
    using becomes_cursor [OF assms, of "bufp e" s] x by (simp add: key_eol_def)
  obtain s where "echo_n ev (bufc e) BS e = e\<lparr>con := s\<rparr>"
    using echo_n_con by blast
  then show "\<exists>e'. key_bol ev e = Some e' \<and>
      (if ringing ev then e' = e else becomes e e' [] (before_cursor e @ after_cursor e))"
    using becomes_cursor [OF assms, of 0 s] by (simp add: key_bol_def)
  show "\<exists>e'. key_forward ev e = Some e' \<and>
      becomes e e' (before_cursor e @ take 1 (after_cursor e)) (drop 1 (after_cursor e))"
  proof (cases "bufc e < bufp e")
    case True
    then have "bufc e < length (buf e)"
      using x(5,6) wf_line_length [OF wf_buf [OF assms]] by simp
    then show ?thesis
      using becomes_cursor [OF assms, of "bufc e + 1"] True x(2-6) by (simp add: key_forward_def echo_con rd_def)
  next
    case False
    then show ?thesis
      using becomes_same [OF assms, of "con e"] x by (simp add: key_forward_def)
  qed
  show "\<exists>e'. key_back ev e = Some e' \<and>
      becomes e e' (butlast (before_cursor e)) (drop (bufc e - 1) (before_cursor e) @ after_cursor e)"
  proof (cases "bufc e > 0")
    case True
    then show ?thesis
      using becomes_cursor [OF assms, of "bufc e - 1"] x by (simp add: key_back_def echo_con butlast_conv_take)
  next
    case False
    then show ?thesis
      using becomes_same [OF assms, of "con e"] x by (simp add: key_back_def)
  qed
qed

lemma kill_back_run:
  assumes "wf_line (buf e)" "bufp e = p + n" "bufp e \<le> 253" "current e < length (hist_lines e)"
  shows "\<exists>b s. kill_back ev n e = Some (e\<lparr>hist_lines := (hist_lines e)[current e := b], bufp := p, con := s\<rparr>) \<and>
    wf_line b \<and> take p b = take p (buf e)"
  using assms
proof (induction n arbitrary: e)
  case 0
  then show ?case
    by (intro exI [of _ "buf e"] exI [of _ "con e"]) (simp add: buf_def)
next
  case (Suc n)
  let ?b = "(buf e)[bufp e := NUL]"
  let ?e = "set_buf ?b (echo ev BS e)\<lparr>bufp := bufp e - 1\<rparr>"
  have w: "wr_buf (bufp e) NUL (echo ev BS e) = Some (set_buf ?b (echo ev BS e))"
    using Suc.prems by (subst wr_buf_run) (simp_all add: echo_con)
  have b: "buf ?e = ?b"
    using Suc.prems(4) by (simp add: buf_def set_buf_def echo_con)
  have "wf_line (buf ?e)" "bufp ?e = p + n" "bufp ?e \<le> 253" "current ?e < length (hist_lines ?e)"
    using Suc.prems wf_line_update [OF Suc.prems(1)] unfolding b by (simp_all add: set_buf_def echo_con)
  then obtain b s where "kill_back ev n ?e = Some (?e\<lparr>hist_lines := (hist_lines ?e)[current ?e := b], bufp := p, con := s\<rparr>)"
    "wf_line b" "take p b = take p (buf ?e)"
    using Suc.IH [of ?e] by blast
  moreover have "take p ?b = take p (buf e)"
    using Suc.prems(2) by simp
  ultimately show ?case
    using w b by (intro exI [of _ b] exI [of _ s]) (simp add: set_buf_def echo_con)
qed

lemma key_kill_becomes:
  assumes "wf_editor e"
  shows "\<exists>e'. key_kill ev e = Some e' \<and> becomes e e' (before_cursor e) []"
proof (cases "bufc e = bufp e")
  case True
  then show ?thesis
    using becomes_same [OF assms, of "con e"] by (simp add: key_kill_def after_cursor_def)
next
  case False
  have x: "bufc e \<le> bufp e" "bufp e \<le> 253" "current e < length (hist_lines e)" "length (buf e) = 256"
    using assms wf_line_length [OF wf_buf [OF assms]] by (simp_all add: wf_editor_def wf_hist_def)
  obtain s where s: "echo_n ev (bufp e - bufc e) (CHR '' '') e = e\<lparr>con := s\<rparr>"
    using echo_n_con by blast
  obtain b s' where b: "kill_back ev (bufp e - bufc e) (e\<lparr>con := s\<rparr>) =
      Some (e\<lparr>con := s, hist_lines := (hist_lines e)[current e := b], bufp := bufc e, con := s'\<rparr>)"
    "wf_line b" "take (bufc e) b = take (bufc e) (buf e)"
    using kill_back_run [of "e\<lparr>con := s\<rparr>" "bufc e" "bufp e - bufc e" ev] wf_buf [OF assms] x by auto
  have t: "b = before_cursor e @ [] @ drop (bufc e) b" "length (before_cursor e) = bufc e"
    using b(3) x by (simp_all add: before_cursor_def) (metis append_take_drop_id)
  have "becomes e (e\<lparr>hist_lines := (hist_lines e)[current e := b], bufp := bufc e, con := s'\<rparr>) (before_cursor e) []"
    unfolding becomes_def using b(2,3) t(2) x by (intro exI [of _ b] exI [of _ s']) (simp add: before_cursor_def)
  then show ?thesis
    using False s b(1) by (simp add: key_kill_def)
qed

lemma key_rub_becomes:
  assumes "wf_editor e"
  shows "\<exists>e'. key_rub ev e = Some e' \<and> becomes e e' [] []"
proof -
  obtain s where s: "to_eol ev e = e\<lparr>bufc := max (bufc e) (bufp e), con := s\<rparr>"
    using to_eol_con by blast
  obtain s' where "rub_line ev (bufp e) (to_eol ev e) = (to_eol ev e)\<lparr>con := s'\<rparr>"
    using rub_line_con by blast
  then have "key_rub ev e = Some (e\<lparr>bufp := 0, bufc := 0, con := s'\<rparr>)"
    by (simp add: key_rub_def s)
  moreover have "becomes e (e\<lparr>bufp := 0, bufc := 0, con := s'\<rparr>) [] []"
    unfolding becomes_def using wf_buf [OF assms] by (intro exI [of _ "buf e"] exI [of _ s']) (simp add: buf_def)
  ultimately show ?thesis
    by blast
qed

lemma key_redraw_becomes:
  assumes "wf_editor e"
  shows "\<exists>e'. key_redraw ev e = Some e' \<and> becomes e e' (before_cursor e @ after_cursor e) []"
proof -
  obtain x where x: "buf e = before_cursor e @ after_cursor e @ x" "length (before_cursor e) = bufc e"
    "length (after_cursor e) = bufp e - bufc e" "length x = 256 - bufp e" "bufc e \<le> bufp e" "bufp e \<le> 253"
    using buf_split [OF assms] by metis
  have "\<exists>c s. (if bufp e > 65 then do {
         s \<leftarrow> print (edev ev) (cstr (''^R'' @ NL # ''%s'')) [AStr (Some (cstr PROMPT))] (con e);
         Some (e\<lparr>con := s\<rparr>) }
       else Some (rub_line ev (bufp e) (to_eol ev e))) = Some (e\<lparr>bufc := c, con := s\<rparr>)"
  proof (cases "bufp e > 65")
    case True
    then show ?thesis
      unfolding print_prompt by (intro exI [of _ "bufc e"] exI) simp
  next
    case False
    obtain s where s: "to_eol ev e = e\<lparr>bufc := max (bufc e) (bufp e), con := s\<rparr>"
      using to_eol_con by blast
    obtain s' where "rub_line ev (bufp e) (to_eol ev e) = (to_eol ev e)\<lparr>con := s'\<rparr>"
      using rub_line_con by blast
    then show ?thesis
      using False by (intro exI [of _ "max (bufc e) (bufp e)"] exI [of _ s']) (simp add: s)
  qed
  then obtain c s where s: "(if bufp e > 65 then do {
         s \<leftarrow> print (edev ev) (cstr (''^R'' @ NL # ''%s'')) [AStr (Some (cstr PROMPT))] (con e);
         Some (e\<lparr>con := s\<rparr>) }
       else Some (rub_line ev (bufp e) (to_eol ev e))) = Some (e\<lparr>bufc := c, con := s\<rparr>)"
    by blast
  define B where "B = (buf e)[bufp e := NUL]"
  have B: "wf_line B" "take (bufp e) B = before_cursor e @ after_cursor e"
    using wf_line_update [OF wf_buf [OF assms], of "bufp e" NUL] x(2,3,5) unfolding B_def by (simp_all add: x(1))
  let ?e = "e\<lparr>bufc := c, con := s\<rparr>"
  have w: "wr_buf (bufp e) NUL ?e = Some (set_buf B ?e)"
    using wf_buf [OF assms] x(6) unfolding B_def by (subst wr_buf_run) simp_all
  have "buf (set_buf B ?e\<lparr>bufc := bufp e\<rparr>) = B"
    using assms by (simp add: buf_def set_buf_def wf_editor_def wf_hist_def)
  then obtain s' where "show_from ev ''%s'' 0 (set_buf B ?e\<lparr>bufc := bufp e\<rparr>) = Some (set_buf B ?e\<lparr>bufc := bufp e, con := s'\<rparr>)"
    using show_from_run(1) [of "set_buf B ?e\<lparr>bufc := bufp e\<rparr>" 0 ev] B(1) by auto
  then have "key_redraw ev e = Some (set_buf B ?e\<lparr>bufc := bufp e, con := s'\<rparr>)"
    using w by (simp only: key_redraw_def s) (simp add: set_buf_def)
  moreover have "becomes e (set_buf B ?e\<lparr>bufc := bufp e, con := s'\<rparr>) (before_cursor e @ after_cursor e) []"
    unfolding becomes_def using B x(2,3,5,6) by (intro exI [of _ B] exI [of _ s']) (simp add: set_buf_def)
  ultimately show ?thesis
    by blast
qed

lemma key_insert_becomes:
  assumes "wf_editor e"
  shows "\<exists>e'. key_insert ev c e = Some e' \<and>
    (if isprint (schar c) \<and> bufp e < 253 then becomes e e' (before_cursor e @ [c]) (after_cursor e)
     else becomes e e' (before_cursor e) (after_cursor e))"
proof (cases "isprint (schar c) \<and> bufp e < 253")
  case False
  then show ?thesis
    using becomes_same [OF assms, of "put1 (edev ev) BELL (con e)"] by (auto simp: key_insert_def LINESIZE_def echo_con)
next
  case True
  obtain x where x: "buf e = before_cursor e @ after_cursor e @ x" "length (before_cursor e) = bufc e"
    "length (after_cursor e) = bufp e - bufc e" "length x = 256 - bufp e" "bufc e \<le> bufp e" "bufp e \<le> 253"
    using buf_split [OF assms] by metis
  obtain y z w where y: "x = y # z # w"
    using x(4,6) by (cases x; cases "tl x") auto
  let ?l = "before_cursor e" and ?r = "after_cursor e"
  have cur: "current e < length (hist_lines e)"
    using assms by (simp add: wf_editor_def wf_hist_def)
  show ?thesis
  proof (cases "bufc e = bufp e")
    case end_of_line: True
    then have r: "?r = []"
      using x(3) by simp
    define B where "B = (buf e)[bufc e := c]"
    have B: "wf_line B" "B = ?l @ c # z # w"
      using wf_line_update [OF wf_buf [OF assms], of "bufc e" c] True x(1,2) end_of_line unfolding B_def
      by (simp_all add: r y list_update_append)
    have "wr_buf (bufc e) c (echo ev c e) = Some (set_buf B (echo ev c e))"
      using wf_buf [OF assms] x(5,6) unfolding B_def by (subst wr_buf_run) (simp_all add: echo_con)
    then have "key_insert ev c e = Some ((set_buf B (echo ev c e))\<lparr>bufc := bufc e + 1, bufp := bufp e + 1\<rparr>)"
      using True end_of_line by (simp add: key_insert_def LINESIZE_def Let_def set_buf_def echo_con)
    moreover have "becomes e ((set_buf B (echo ev c e))\<lparr>bufc := bufc e + 1, bufp := bufp e + 1\<rparr>) (?l @ [c]) []"
      using B(1) x(2) True end_of_line
      by (intro becomesI [where x = "z # w" and s = "put1 (edev ev) c (con e)"]) (simp_all add: B(2) [symmetric] set_buf_def echo_con)
    ultimately show ?thesis
      using True r by simp
  next
    case mid: False
    obtain d r where r: "?r = d # r"
      using x(3,5) mid by (cases ?r) auto
    let ?n = "bufp e - bufc e"
    have len: "?n = Suc (length r)" "bufp e + 1 = length ?l + 1 + length ?r"
      using x r by simp_all
    let ?b = "moved (bufc e) (bufc e + 1) ?n (buf e)"
    let ?c = "?b[bufc e := c]"
    define B where "B = ?c[bufp e + 1 := NUL]"
    have b: "?b = ?l @ d # ?r @ z # w"
      using x(1,2) by (simp add: moved_def r y len(1))
    have wf: "wf_line ?b" "wf_line ?c" "wf_line B"
      using wf_line_moved [OF wf_buf [OF assms]] x(5,6) True wf_line_update [of ?b "bufc e" c]
        wf_line_update [of ?c "bufp e + 1" NUL] unfolding B_def by simp_all
    have "?c = (?l @ c # ?r) @ z # w"
      unfolding b using list_update_length [of ?l d "?r @ z # w" c] x(2) by simp
    moreover have "bufp e + 1 = length (?l @ c # ?r)"
      using len(2) by simp
    ultimately have B: "B = ?l @ c # ?r @ NUL # w"
      using list_update_length [of "?l @ c # ?r" z w NUL] unfolding B_def by simp
    let ?e1 = "set_buf ?b (echo ev c e)"
    let ?e2 = "set_buf ?c ?e1\<lparr>bufc := bufc e + 1, bufp := bufp e + 1\<rparr>"
    let ?e3 = "set_buf B ?e2"
    have s1: "move (bufc e) (bufc e + 1) ?n (echo ev c e) = Some ?e1"
      using wf_buf [OF assms] x(5) True by (subst move_run) (simp_all add: echo_con)
    have b1: "buf ?e1 = ?b" "buf ?e2 = ?c" "buf ?e3 = B"
      using cur by (simp_all add: buf_def set_buf_def echo_con)
    have s2: "wr_buf (bufc e) c ?e1 = Some (set_buf ?c ?e1)"
      using wr_buf_run [of ?e1 "bufc e" c, unfolded b1, OF wf(1)] x(5,6) by simp
    have s3: "wr_buf (bufp e + 1) NUL ?e2 = Some ?e3"
      using wr_buf_run [of ?e2 "bufp e + 1" NUL, unfolded b1, OF wf(2)] True unfolding B_def by simp
    obtain s where s4: "show_from ev ''%s'' (bufc e + 1) ?e3 = Some (?e3\<lparr>con := s\<rparr>)"
      using show_from_run(1) [of ?e3 "bufc e + 1" ev, unfolded b1, OF wf(3)] x(5) True by auto
    obtain s' where s5: "echo_n ev ?n BS (?e3\<lparr>con := s\<rparr>) = ?e3\<lparr>con := s\<rparr>\<lparr>con := s'\<rparr>"
      using echo_n_con by blast
    have "key_insert ev c e = Some (?e3\<lparr>con := s'\<rparr>)"
      using True mid s1 s2 s3 s4 s5 by (simp add: key_insert_def LINESIZE_def Let_def set_buf_def echo_con)
    moreover have "becomes e (?e3\<lparr>con := s'\<rparr>) (?l @ [c]) ?r"
      using wf(3) x(2,5) len True
      by (intro becomesI [where x = "NUL # w" and s = s']) (simp_all add: B [symmetric] set_buf_def echo_con)
    ultimately show ?thesis
      using True by simp
  qed
qed

lemma key_quote_becomes:
  assumes "wf_editor e"
  shows "\<exists>e'. key_quote ev c e = Some e' \<and>
    (if bufp e < 253 then becomes e e' (take (bufc e + 1) (before_cursor e @ after_cursor e @ [c]))
        (drop (bufc e + 1) (before_cursor e @ after_cursor e @ [c]))
     else becomes e e' (before_cursor e) (after_cursor e))"
proof (cases "bufp e < 253")
  case False
  then show ?thesis
    using becomes_same [OF assms, of "put1 (edev ev) BELL (con e)"] by (auto simp: key_quote_def LINESIZE_def echo_con)
next
  case True
  obtain x where x: "buf e = before_cursor e @ after_cursor e @ x" "length (before_cursor e) = bufc e"
    "length (after_cursor e) = bufp e - bufc e" "length x = 256 - bufp e" "bufc e \<le> bufp e"
    using buf_split [OF assms] by metis
  obtain y z where y: "x = y # z"
    using x(4) True by (cases x) auto
  define B where "B = (buf e)[bufp e := c]"
  define t where "t = before_cursor e @ after_cursor e @ [c]"
  have len: "length t = bufp e + 1" "length (before_cursor e @ after_cursor e) = bufp e"
    using x(2,3,5) by (simp_all add: t_def)
  have "buf e = (before_cursor e @ after_cursor e) @ y # z"
    using x(1) y by simp
  then have "B = t @ z"
    using list_update_length [of "before_cursor e @ after_cursor e" y z c] len(2) by (simp add: B_def t_def)
  moreover have "wf_line B"
    using wf_line_update [OF wf_buf [OF assms], of "bufp e" c] True by (simp add: B_def)
  ultimately have B: "wf_line B" "B = t @ z"
    by simp_all
  have w: "wr_buf (bufp e) c e = Some (set_buf B e)"
    using wf_buf [OF assms] True unfolding B_def by (subst wr_buf_run) simp_all
  obtain s where s: "showchar (edev ev) c (con e) = Some s"
    using showchar_total by blast
  have "key_quote ev c e = Some (set_buf B e\<lparr>bufp := bufp e + 1, bufc := bufc e + 1, con := s\<rparr>)"
    using True w s by (simp add: key_quote_def LINESIZE_def set_buf_def)
  moreover have "becomes e (set_buf B e\<lparr>bufp := bufp e + 1, bufc := bufc e + 1, con := s\<rparr>)
      (take (bufc e + 1) t) (drop (bufc e + 1) t)"
    unfolding becomes_def using B len True x(5)
    by (intro exI [of _ B] exI [of _ s]) (simp add: set_buf_def)
  ultimately show ?thesis
    using True by (simp add: t_def)
qed

lemma wf_line_str_of:
  assumes "wf_line b"
  shows "length (str_of b) \<le> 253" "b ! length (str_of b) = NUL" "take (length (str_of b)) b = str_of b"
proof -
  have b: "b ! 253 = NUL" "253 < length b"
    using assms by (simp_all add: wf_line_def LINESIZE_def)
  have tw: "take (length (takeWhile (\<lambda>c. c \<noteq> NUL) b)) b = takeWhile (\<lambda>c. c \<noteq> NUL) b"
    by (metis takeWhile_eq_take)
  show "length (str_of b) \<le> 253"
  proof (rule ccontr)
    assume "\<not> length (str_of b) \<le> 253"
    then have n: "253 < length (takeWhile (\<lambda>c. c \<noteq> NUL) b)"
      by (simp add: str_of_def)
    then have "b ! 253 \<in> set (takeWhile (\<lambda>c. c \<noteq> NUL) b)"
      using nth_mem [OF n] by (simp add: takeWhile_nth)
    then show False
      using b(1) set_takeWhileD by metis
  qed
  then show "b ! length (str_of b) = NUL"
    using b(2) nth_length_takeWhile [of "\<lambda>c. c \<noteq> NUL" b] by (simp add: str_of_def)
  show "take (length (str_of b)) b = str_of b"
    using tw by (simp add: str_of_def)
qed

lemma newbuffer_run:
  assumes "wf_editor e" "i < EDIT_HISTORY"
  shows "\<exists>s. newbuffer ev i e = Some (e\<lparr>current := i, bufc := length (str_of (hist_lines e ! i)),
    bufp := length (str_of (hist_lines e ! i)), con := s\<rparr>)"
proof -
  let ?b = "hist_lines e ! i"
  let ?n = "length (str_of ?b)"
  have b: "wf_line ?b" "i < length (hist_lines e)"
    using assms by (simp_all add: wf_editor_def wf_hist_def)
  obtain s where s: "to_eol ev e = e\<lparr>bufc := max (bufc e) (bufp e), con := s\<rparr>"
    using to_eol_con by blast
  obtain s' where s': "rub_line ev (bufp e) (to_eol ev e) = (to_eol ev e)\<lparr>con := s'\<rparr>"
    using rub_line_con by blast
  let ?e = "e\<lparr>bufc := max (bufc e) (bufp e), con := s', current := i\<rparr>"
  have buf: "buf ?e = ?b"
    by (simp add: buf_def)
  have len: "strlen ?b = Some ?n"
    using strlen_str_of [of ?b] wf_line_NUL [OF b(1), of 0] by simp
  have "?b[?n := NUL] = ?b"
    using wf_line_str_of(2) [OF b(1)] by (metis list_update_id)
  then have "set_buf (?b[?n := NUL]) ?e = ?e"
    by (simp add: set_buf_def)
  then have w: "wr_buf ?n NUL ?e = Some ?e"
    using wr_buf_run [of ?e ?n NUL, unfolded buf, OF b(1)] wf_line_str_of(1) [OF b(1)] by simp
  define d where "d = ?e\<lparr>bufp := ?n, bufc := ?n\<rparr>"
  have "buf d = ?b"
    by (simp add: d_def buf_def)
  then obtain s'' where "show_from ev ''%s'' 0 d = Some (d\<lparr>con := s''\<rparr>)"
    using show_from_run(1) [of d 0 ev] b(1) by auto
  moreover have "(rub_line ev (bufp e) (to_eol ev e))\<lparr>current := i\<rparr> = ?e"
    unfolding s' by (simp add: s)
  ultimately have "newbuffer ev i e = Some (d\<lparr>con := s''\<rparr>)"
    unfolding newbuffer_def Let_def d_def by (simp only: buf len w bind.bind_lunit Option.bind.simps)
  then show ?thesis
    by (intro exI [of _ s'']) (simp add: d_def)
qed

lemma newbuffer_wf:
  assumes "wf_editor e" "i < EDIT_HISTORY"
  shows "wf_editor (e\<lparr>current := i, bufc := length (str_of (hist_lines e ! i)), bufp := length (str_of (hist_lines e ! i)), con := s\<rparr>)"
  using assms wf_line_str_of(1) [of "hist_lines e ! i"] by (simp add: wf_editor_def wf_hist_def)

lemma line_used_run:
  assumes "wf_editor e" "i < EDIT_HISTORY"
  shows "line_used i e = Some (str_of (hist_lines e ! i) \<noteq> [])"
proof -
  have "length (hist_lines e ! i) = 256"
    using assms by (simp add: wf_editor_def wf_hist_def wf_line_length)
  then show ?thesis
    by (cases "hist_lines e ! i") (simp_all add: line_used_def str_of_Cons)
qed

section \<open>The line as text with a cursor\<close>

definition zkey :: "bool \<Rightarrow> string \<times> string \<Rightarrow> int \<Rightarrow> string \<times> string" where
  "zkey ring z c = (case z of (l, r) \<Rightarrow>
     if c = CTRL (CHR ''D'') \<or> c = CTRL (CHR ''X'') \<or> c = EOF then (l, tl r)
     else if c = CTRL (CHR ''H'') \<or> c = DEL then (butlast l, r)
     else if c = CTRL (CHR ''E'') \<or> c = CTRL (CHR ''R'') then (l @ r, [])
     else if c = CTRL (CHR ''A'') then (if ring then (l, r) else ([], l @ r))
     else if c = CTRL (CHR ''F'') then (l @ take 1 r, drop 1 r)
     else if c = CTRL (CHR ''B'') then (butlast l, drop (length l - 1) l @ r)
     else if c = CTRL (CHR ''K'') then (l, [])
     else if c = CTRL (CHR ''U'') then ([], [])
     else let ch = (if c = 9 then CHR '' '' else char_of_int c) in
       if isprint (schar ch) \<and> length l + length r < 253 then (l @ [ch], r) else (l, r))"

definition editing :: "int \<Rightarrow> bool" where
  "editing c \<longleftrightarrow> c \<notin> {CTRL (CHR ''N''), CTRL (CHR ''P''), CTRL (CHR ''V''), 10, 13}"

lemma CTRL_codes:
  "CTRL (CHR ''A'') = 1" "CTRL (CHR ''B'') = 2" "CTRL (CHR ''D'') = 4" "CTRL (CHR ''E'') = 5" "CTRL (CHR ''F'') = 6"
  "CTRL (CHR ''H'') = 8" "CTRL (CHR ''K'') = 11" "CTRL (CHR ''N'') = 14" "CTRL (CHR ''P'') = 16" "CTRL (CHR ''R'') = 18"
  "CTRL (CHR ''U'') = 21" "CTRL (CHR ''V'') = 22" "CTRL (CHR ''X'') = 24" "EOF = - 1" "DEL = 127"
  by (simp_all add: CTRL_def schar_def EOF_def DEL_def)

lemma edit_key_refines:
  assumes "wf_editor e" "editing c" "zkey (ringing ev) (before_cursor e, after_cursor e) c = (l, r)"
  shows "\<exists>e'. edit_key ev c e = Some e' \<and> becomes e e' l r"
proof -
  have len: "length (before_cursor e) + length (after_cursor e) = bufp e" "length (before_cursor e) = bufc e"
    using buf_split [OF assms(1)] by (metis le_add_diff_inverse)+
  have same: "becomes e e (before_cursor e) (after_cursor e)"
    using becomes_same [OF assms(1), of "con e"] by simp
  consider "c \<in> {4, 24, - 1}" | "c \<in> {8, 127}" | "c \<in> {1, 2, 5, 6}" | "c \<in> {11, 18, 21}"
    | "c \<notin> {1, 2, 4, 5, 6, 8, 11, 18, 21, 24, 127, - 1}"
    by blast
  then show ?thesis
  proof cases
    case 1
    then show ?thesis
      using assms(3) key_delete_becomes [OF assms(1), of ev] by (auto simp: zkey_def edit_key_def CTRL_codes)
  next
    case 2
    then show ?thesis
      using assms(3) key_backspace_becomes [OF assms(1), of ev] by (auto simp: zkey_def edit_key_def CTRL_codes)
  next
    case 3
    then show ?thesis
      using assms(3) key_move_becomes [OF assms(1), of ev] same len(2)
      by (auto simp: zkey_def edit_key_def CTRL_codes split: if_splits)
  next
    case 4
    then show ?thesis
      using assms(3) key_kill_becomes [OF assms(1), of ev] key_rub_becomes [OF assms(1), of ev]
        key_redraw_becomes [OF assms(1), of ev]
      by (auto simp: zkey_def edit_key_def CTRL_codes)
  next
    case 5
    let ?ch = "if c = 9 then CHR '' '' else char_of_int c"
    have "edit_key ev c e = key_insert ev ?ch e"
      using 5 assms(2) by (simp add: edit_key_def editing_def CTRL_codes)
    moreover have "zkey (ringing ev) (before_cursor e, after_cursor e) c =
        (if isprint (schar ?ch) \<and> bufp e < 253 then (before_cursor e @ [?ch], after_cursor e) else (before_cursor e, after_cursor e))"
      using 5 by (simp add: zkey_def CTRL_codes Let_def len(1) del: if_split)
    ultimately show ?thesis
      using assms(3) key_insert_becomes [OF assms(1), of ev ?ch] by (auto split: if_splits)
  qed
qed

lemma history_codes: "editing c \<longleftrightarrow> c \<notin> {14, 16, 22, 10, 13}"
  by (auto simp: editing_def CTRL_codes)

lemma newbuffer_ok:
  assumes "wf_editor e" "i < EDIT_HISTORY"
  shows "\<exists>e'. newbuffer ev i e = Some e' \<and> wf_editor e' \<and> hist_cur e' = hist_cur e"
proof -
  obtain s where "newbuffer ev i e = Some (e\<lparr>current := i, bufc := length (str_of (hist_lines e ! i)),
      bufp := length (str_of (hist_lines e ! i)), con := s\<rparr>)"
    using newbuffer_run [OF assms] by blast
  then show ?thesis
    using newbuffer_wf [OF assms, of s] by simp
qed

lemma wf_echo: "wf_editor e \<Longrightarrow> wf_editor (echo ev c e)"
  by (simp add: echo_con wf_editor_def)

lemma hist_cur_echo: "hist_cur (echo ev c e) = hist_cur e"
  by (simp add: echo_con)

lemma edit_key_ok:
  assumes "wf_editor e" "c \<noteq> 22" "c \<noteq> 10" "c \<noteq> 13"
  shows "\<exists>e'. edit_key ev c e = Some e' \<and> wf_editor e' \<and> hist_cur e' = hist_cur e"
proof -
  consider "editing c" | "c = 14" | "c = 16"
    using assms by (auto simp: history_codes)
  then show ?thesis
  proof cases
    case 1
    obtain l r where z: "zkey (ringing ev) (before_cursor e, after_cursor e) c = (l, r)"
      by fastforce
    then show ?thesis
      using edit_key_refines [OF assms(1) 1 z] becomes_wf(1,4) assms(1) by metis
  next
    case 2
    define i where "i = (current e + 1) mod EDIT_HISTORY"
    have i: "i < EDIT_HISTORY"
      by (simp add: i_def EDIT_HISTORY_def)
    obtain e' where "newbuffer ev i e = Some e'" "wf_editor e'" "hist_cur e' = hist_cur e"
      using newbuffer_ok [OF assms(1) i] by blast
    moreover have "edit_key ev c e = key_next ev e"
      using 2 by (simp add: edit_key_def CTRL_codes)
    ultimately show ?thesis
      unfolding key_next_def Let_def i_def [symmetric] line_used_run [OF assms(1) i]
      using wf_echo [OF assms(1)] by (auto simp: hist_cur_echo)
  next
    case 3
    define i where "i = (if current e = 0 then EDIT_HISTORY - 1 else current e - 1)"
    have i: "i < EDIT_HISTORY"
      using assms(1) by (auto simp: i_def EDIT_HISTORY_def wf_editor_def)
    obtain e' where "newbuffer ev i e = Some e'" "wf_editor e'" "hist_cur e' = hist_cur e"
      using newbuffer_ok [OF assms(1) i] by blast
    moreover have "edit_key ev c e = key_prev ev e"
      using 3 by (simp add: edit_key_def CTRL_codes)
    ultimately show ?thesis
      unfolding key_prev_def Let_def i_def [symmetric] line_used_run [OF assms(1) i]
      using wf_echo [OF assms(1)] by (auto simp: hist_cur_echo)
  qed
qed

lemma key_quote_ok:
  assumes "wf_editor e"
  shows "\<exists>e'. key_quote ev c e = Some e' \<and> wf_editor e' \<and> hist_cur e' = hist_cur e"
  using key_quote_becomes [OF assms, of ev c] becomes_wf(1,4) [OF _ assms] by (auto split: if_splits)

lemma end_of_line_run:
  assumes "wf_editor e"
  shows "wr_buf (bufp e) NUL (echo ev NL e) =
      Some (e\<lparr>hist_lines := (hist_lines e)[current e := (buf e)[bufp e := NUL]], con := put1 (edev ev) NL (con e)\<rparr>)"
    "wf_line ((buf e)[bufp e := NUL])"
  using assms wf_line_update [OF wf_buf [OF assms]] wr_buf_run [of "echo ev NL e" "bufp e" NUL] wf_buf [OF assms]
  by (simp_all add: wf_editor_def echo_con set_buf_def)

lemma wf_editor_line:
  assumes "wf_editor e" "wf_line b"
  shows "wf_editor (e\<lparr>hist_lines := (hist_lines e)[i := b]\<rparr>)" "wf_editor (e\<lparr>hist_lines := (hist_lines e)[i := b], con := s\<rparr>)"
  using assms set_update_subset_insert [of "hist_lines e" i b] by (auto simp: wf_editor_def wf_hist_def)

lemma edit_loop_ok:
  assumes "wf_editor e"
  shows "edit_loop ev cs e = Some None \<or>
    (\<exists>e' cs'. edit_loop ev cs e = Some (Some (e', cs')) \<and> wf_editor e' \<and> hist_cur e' = hist_cur e)"
  using assms
proof (induction ev cs e rule: edit_loop.induct)
  case (1 ev e)
  then show ?case
    by (simp add: edit_loop.simps)
next
  case (2 ev c cs e)
  note quote = "2.IH"(1) and key = "2.IH"(2) and wf = "2.prems"
  consider "c = 22" | "c = 10 \<or> c = 13" | "c \<noteq> 22" "c \<noteq> 10" "c \<noteq> 13"
    by blast
  then show ?case
  proof cases
    case 1
    show ?thesis
    proof (cases cs)
      case Nil
      then show ?thesis
        using 1 by (simp add: edit_loop.simps CTRL_codes)
    next
      case (Cons d ds)
      obtain e' where e': "key_quote ev (char_of_int d) e = Some e'" "wf_editor e'" "hist_cur e' = hist_cur e"
        using key_quote_ok [OF wf] by blast
      then show ?thesis
        using quote [OF _ Cons e'(1,2)] 1 Cons by (simp add: edit_loop.simps(2) CTRL_codes)
    qed
  next
    case 2
    then show ?thesis
      using end_of_line_run(1) [OF wf, of ev] wf_editor_line(2) [OF wf end_of_line_run(2) [OF wf]] by (auto simp: edit_loop.simps CTRL_codes)
  next
    case 3
    obtain e' where e': "edit_key ev c e = Some e'" "wf_editor e'" "hist_cur e' = hist_cur e"
      using edit_key_ok [OF wf 3] by blast
    then show ?thesis
      using key [OF _ _ e'(1,2)] 3 by (simp add: edit_loop.simps(2) CTRL_codes)
  qed
qed

lemma line_nonempty:
  assumes "wf_line b"
  shows "rd b 0 = Some (b ! 0)" "rd b 1 = Some (b ! 1)" "rd b 2 = Some (b ! 2)" "str_of b = [] \<longleftrightarrow> b ! 0 = NUL"
  using wf_line_length [OF assms] by (simp_all add: rd_def) (cases b; simp add: str_of_Cons)

lemma bang_plain:
  assumes "wf_editor e" "buf e ! 0 \<noteq> CHR ''!''"
  shows "bang ev e = Some e"
  unfolding bang_def line_nonempty(1) [OF wf_buf [OF assms(1)]] using assms(2) by simp

lemma bang_ok:
  assumes "wf_editor e"
  shows "\<exists>e'. bang ev e = Some e' \<and> wf_editor e' \<and> hist_cur e' = hist_cur e \<and> hist_lines e' = hist_lines e"
proof -
  define both where "both \<longleftrightarrow> buf e ! 1 = CHR ''!'' \<and> buf e ! 2 = NUL"
  define i where "i = (if both then (if hist_cur e = 0 then EDIT_HISTORY - 1 else hist_cur e - 1) else hist_cur e)"
  have i: "i < EDIT_HISTORY"
    using assms by (auto simp: i_def EDIT_HISTORY_def wf_editor_def)
  let ?e = "e\<lparr>current := i\<rparr>"
  have wf: "wf_editor ?e"
    using assms i by (simp add: wf_editor_def)
  have shown: "\<exists>s. show_from ev (''%s'' @ [NL]) 0 ?e = Some (?e\<lparr>con := s\<rparr>)"
    using show_from_run(3) [OF wf_buf [OF wf], of 0 ev] by blast
  have wf': "wf_editor (?e\<lparr>con := s\<rparr>)" for s
    using wf by (simp add: wf_editor_def)
  have "bang ev e = (if buf e ! 0 = CHR ''!'' \<and> i \<noteq> hist_cur e \<and> str_of (hist_lines e ! i) \<noteq> []
      then show_from ev (''%s'' @ [NL]) 0 ?e else Some e)"
    unfolding bang_def line_nonempty(1-3) [OF wf_buf [OF assms]]
    using line_used_run [OF assms i, unfolded i_def both_def]
    by (cases "buf e ! 1 = CHR ''!''") (simp_all add: Let_def i_def both_def)
  then show ?thesis
    using shown wf' assms by (cases "buf e ! 0 = CHR ''!'' \<and> i \<noteq> hist_cur e \<and> str_of (hist_lines e ! i) \<noteq> []") auto
qed

definition next_line :: "nat \<Rightarrow> nat" where
  "next_line i = (i + 1) mod EDIT_HISTORY"

lemma remember_run:
  assumes "wf_editor e" "i < EDIT_HISTORY"
  shows "remember i e = Some
    (if str_of (hist_lines e ! i) = [] then e
     else let ls = (if current e = hist_cur e then hist_lines e else (hist_lines e)[hist_cur e := hist_lines e ! current e]);
              n = next_line (hist_cur e)
          in e\<lparr>hist_lines := ls[n := (ls ! n)[0 := NUL]], hist_cur := n\<rparr>)"
proof -
  define ls where "ls = (if current e = hist_cur e then hist_lines e else (hist_lines e)[hist_cur e := hist_lines e ! current e])"
  have n: "next_line (hist_cur e) < length ls"
    using assms by (simp add: ls_def next_line_def wf_editor_def wf_hist_def EDIT_HISTORY_def)
  have "\<forall>l \<in> set ls. wf_line l"
    using assms set_update_subset_insert [of "hist_lines e" "hist_cur e" "hist_lines e ! current e"]
    by (auto simp: ls_def wf_editor_def wf_hist_def)
  then have "length (ls ! next_line (hist_cur e)) = 256"
    using n wf_line_length nth_mem by metis
  then show ?thesis
    unfolding remember_def Let_def line_used_run [OF assms] next_line_def [symmetric]
    by (cases "current e = hist_cur e") (auto simp: ls_def wr_def)
qed

lemma remember_ok:
  assumes "wf_editor e" "i < EDIT_HISTORY"
  shows "\<exists>e'. remember i e = Some e' \<and> wf_editor e'"
proof -
  define ls where "ls = (if current e = hist_cur e then hist_lines e else (hist_lines e)[hist_cur e := hist_lines e ! current e])"
  let ?n = "next_line (hist_cur e)"
  have n: "?n < length ls" "length ls = EDIT_HISTORY" "?n < EDIT_HISTORY"
    using assms by (simp_all add: ls_def next_line_def wf_editor_def wf_hist_def EDIT_HISTORY_def)
  have ls: "\<forall>l \<in> set ls. wf_line l"
    using assms set_update_subset_insert [of "hist_lines e" "hist_cur e" "hist_lines e ! current e"]
    by (auto simp: ls_def wf_editor_def wf_hist_def)
  then have "wf_line ((ls ! ?n)[0 := NUL])"
    using n(1) wf_line_update by simp
  then have "wf_hist (ls[?n := (ls ! ?n)[0 := NUL]])"
    using ls n set_update_subset_insert [of ls ?n "(ls ! ?n)[0 := NUL]"] by (auto simp: wf_hist_def)
  then have "wf_editor (e\<lparr>hist_lines := ls[?n := (ls ! ?n)[0 := NUL]], hist_cur := ?n\<rparr>)"
    using assms n by (simp add: wf_editor_def)
  then show ?thesis
    using remember_run [OF assms] assms by (simp add: Let_def ls_def [symmetric])
qed

text \<open>Where an edit starts.\<close>

definition started :: "'d editor \<Rightarrow> 'd editor" where
  "started e = e\<lparr>current := hist_cur e, bufc := 0, bufp := 0\<rparr>"

lemma wf_started:
  assumes "wf_editor e"
  shows "wf_editor (started e)" "before_cursor (started e) = []" "after_cursor (started e) = []"
  using assms by (simp_all add: started_def wf_editor_def before_cursor_def after_cursor_def)

lemma edit_gets_split:
  "edit_gets ev cs e = do {
     r \<leftarrow> edit_loop ev cs (started e);
     (case r of
        None \<Rightarrow> Some None
      | Some (e, cs) \<Rightarrow> do {
          let rvalp = current e;
          e \<leftarrow> bang ev e;
          e \<leftarrow> remember rvalp e;
          Some (Some (str_of (hist_lines e ! rvalp), e, cs)) }) }"
  by (simp only: edit_gets_def started_def)

lemma edit_gets_ok:
  assumes "wf_editor e"
  shows "edit_gets ev cs e = Some None \<or>
    (\<exists>t e' cs'. edit_gets ev cs e = Some (Some (t, e', cs')) \<and> wf_editor e' \<and> length t \<le> 253)"
proof -
  consider "edit_loop ev cs (started e) = Some None"
    | e1 cs' where "edit_loop ev cs (started e) = Some (Some (e1, cs'))" "wf_editor e1"
    using edit_loop_ok [OF wf_started(1) [OF assms], of ev cs] by blast
  then show ?thesis
  proof cases
    case 1
    then show ?thesis
      by (simp add: edit_gets_split)
  next
    case 2
    have i: "current e1 < EDIT_HISTORY"
      using 2(2) by (simp add: wf_editor_def)
    obtain e2 where e2: "bang ev e1 = Some e2" "wf_editor e2"
      using bang_ok [OF 2(2)] by blast
    obtain e3 where e3: "remember (current e1) e2 = Some e3" "wf_editor e3"
      using remember_ok [OF e2(2) i] by blast
    have "wf_line (hist_lines e3 ! current e1)"
      using e3(2) i by (simp add: wf_editor_def wf_hist_def)
    then show ?thesis
      using 2(1) e2(1) e3 wf_line_str_of(1) by (simp add: edit_gets_split Let_def)
  qed
qed

text \<open>C10: The line editor never writes or reads outside the line.  From any history of ten lines of 256
characters whose last three are NUL, for any keys: it either waits for more input, or
returns a line of at most 253 characters, and the history is well formed again.\<close>

theorem edit_gets_safe:
  assumes "wf_editor e"
  shows "case edit_gets ev cs e of
      None \<Rightarrow> False
    | Some None \<Rightarrow> True
    | Some (Some (t, e', cs')) \<Rightarrow> wf_editor e' \<and> length t \<le> 253"
  using edit_gets_ok [OF assms, of ev cs] by (auto split: option.splits)

definition blank_line :: string where
  "blank_line = replicate LINESIZE NUL"

definition sample_env :: "(unit, unit) io edit_env" where
  "sample_env = \<lparr>edev = pv_device 0x8010, interactive = (\<lambda>s. s), ringing = False\<rparr>"

definition sample_editor :: "string list \<Rightarrow> nat \<Rightarrow> (unit, unit) io editor" where
  "sample_editor ls n = \<lparr>hist_lines = map (\<lambda>l. l @ replicate (LINESIZE - length l) NUL) ls, hist_cur = n, current = n,
     bufc = 0, bufp = 0, con = sample_console\<rparr>"

lemma wf_line_padded:
  assumes "length l \<le> 253"
  shows "wf_line (l @ replicate (LINESIZE - length l) NUL)"
  using assms by (auto simp: wf_line_def LINESIZE_def nth_append)

lemma wf_sample_editor:
  assumes "length ls = EDIT_HISTORY" "\<forall>l \<in> set ls. length l \<le> 253" "n < EDIT_HISTORY"
  shows "wf_editor (sample_editor ls n)"
  using assms wf_line_padded by (auto simp: wf_editor_def wf_hist_def sample_editor_def)

lemma sample_lines:
  assumes "j < length ls" "nulfree (ls ! j)" "length (ls ! j) \<le> 253"
  shows "str_of (hist_lines (sample_editor ls n) ! j) = ls ! j"
proof -
  have "replicate (LINESIZE - length (ls ! j)) NUL = NUL # replicate (255 - length (ls ! j)) NUL"
    using assms(3) by (simp add: LINESIZE_def Suc_diff_le flip: replicate_Suc)
  then show ?thesis
    using assms(1,2) by (simp add: sample_editor_def)
qed

lemma edit_gets_safe_witness:
  "case edit_gets sample_env [14, 16, 22, 0, 2, 4, 97, 33, 13] (sample_editor (replicate 10 []) 3) of
      None \<Rightarrow> False
    | Some None \<Rightarrow> True
    | Some (Some (t, e', cs')) \<Rightarrow> wf_editor e' \<and> length t \<le> 253"
  by (rule edit_gets_safe, rule wf_sample_editor) (simp_all add: EDIT_HISTORY_def)

section \<open>The editor as a text editor\<close>

definition typed :: "bool \<Rightarrow> int list \<Rightarrow> string" where
  "typed ring keys = (case foldl (zkey ring) ([], []) keys of (l, r) \<Rightarrow> l @ r)"

definition printable :: "string \<times> string \<Rightarrow> bool" where
  "printable z \<longleftrightarrow> (\<forall>x \<in> set (fst z @ snd z). isprint (schar x)) \<and> length (fst z @ snd z) \<le> 253"

lemma printable_if: "printable x \<Longrightarrow> printable y \<Longrightarrow> printable (if b then x else y)"
  by simp

lemma printable_zkey:
  assumes "printable (l, r)"
  shows "printable (zkey ring (l, r) c)"
proof -
  have typed: "printable (if isprint (schar ch) \<and> length l + length r < 253 then (l @ [ch], r) else (l, r))" for ch
    using assms by (auto simp: printable_def)
  have "printable (l, tl r)" "printable (butlast l, r)" "printable (l @ r, [])" "printable ([], l @ r)" "printable (l, [])"
    "printable (l @ take 1 r, drop 1 r)" "printable (butlast l, drop (length l - 1) l @ r)" "printable ([], [])"
    using assms by (auto simp: printable_def dest: in_set_butlastD in_set_dropD in_set_takeD intro: list.set_sel(2)) (cases r; simp)+
  then show ?thesis
    unfolding zkey_def Let_def prod.case using assms typed by - (assumption | rule typed | rule printable_if)+
qed

lemma foldl_zkey: "printable z \<Longrightarrow> printable (foldl (zkey ring) z keys)"
proof (induction keys arbitrary: z)
  case (Cons c keys)
  then show ?case
    using printable_zkey [of "fst z" "snd z" ring c] by simp
qed simp

lemma typed_plain: "\<forall>x \<in> set (typed ring keys). isprint (schar x)" "nulfree (typed ring keys)"
proof -
  show p: "\<forall>x \<in> set (typed ring keys). isprint (schar x)"
    using foldl_zkey [of "([], [])" ring keys] by (simp add: typed_def printable_def case_prod_unfold)
  have "\<not> isprint (schar NUL)"
    by code_simp
  then show "nulfree (typed ring keys)"
    using p by auto
qed

lemma edit_loop_keys:
  assumes "wf_editor e" "\<forall>c \<in> set keys. editing c"
  shows "\<exists>e'. edit_loop ev (keys @ cs) e = edit_loop ev cs e' \<and> wf_editor e' \<and>
    foldl (zkey (ringing ev)) (before_cursor e, after_cursor e) keys = (before_cursor e', after_cursor e') \<and>
    hist_cur e' = hist_cur e \<and> current e' = current e \<and> hist_lines e' = (hist_lines e)[current e := buf e']"
  using assms
proof (induction keys arbitrary: e)
  case Nil
  then show ?case
    by (intro exI [of _ e]) (simp add: buf_def)
next
  case (Cons c keys)
  obtain l r where z: "zkey (ringing ev) (before_cursor e, after_cursor e) c = (l, r)"
    by fastforce
  obtain e1 where e1: "edit_key ev c e = Some e1" "becomes e e1 l r"
    using edit_key_refines [OF Cons.prems(1) _ z] Cons.prems(2) by auto
  note wf = becomes_wf [OF e1(2) Cons.prems(1)]
  obtain e' where e': "edit_loop ev (keys @ cs) e1 = edit_loop ev cs e'" "wf_editor e'"
    "foldl (zkey (ringing ev)) (l, r) keys = (before_cursor e', after_cursor e')"
    "hist_cur e' = hist_cur e1" "current e' = current e1" "hist_lines e' = (hist_lines e1)[current e1 := buf e']"
    using Cons.IH [OF wf(1)] Cons.prems(2) wf(2,3) by auto
  have "edit_loop ev ((c # keys) @ cs) e = edit_loop ev (keys @ cs) e1"
    using Cons.prems(2) e1(1) by (simp add: edit_loop.simps(2) CTRL_codes history_codes)
  then show ?case
    using e' z wf by (intro exI [of _ e']) simp
qed

lemma str_of_terminated:
  assumes "wf_editor e" "nulfree (before_cursor e @ after_cursor e)"
  shows "str_of ((buf e)[bufp e := NUL]) = before_cursor e @ after_cursor e"
proof -
  obtain x where x: "buf e = before_cursor e @ after_cursor e @ x" "length (before_cursor e) = bufc e"
    "length (after_cursor e) = bufp e - bufc e" "length x = 256 - bufp e" "bufc e \<le> bufp e" "bufp e \<le> 253"
    using buf_split [OF assms(1)] by metis
  obtain y z where "x = y # z"
    using x(4,6) by (cases x) auto
  then have "(buf e)[bufp e := NUL] = (before_cursor e @ after_cursor e) @ NUL # z"
    using x(1,2,3,5) list_update_length [of "before_cursor e @ after_cursor e" y z NUL] by simp
  then show ?thesis
    using str_of_term [OF assms(2)] by simp
qed

lemma str_of_cleared: "wf_line b \<Longrightarrow> str_of (b[0 := NUL]) = []"
  using wf_line_length by (cases b) (auto simp: str_of_Cons)

text \<open>C8: The line editor is a text editor.  Whatever editing keys are typed before the return key,
the line returned is the one that the text with a cursor (\<open>zkey\<close>: the text before it and the text
behind it) ends as.  The history holds that line, and the next place of the ring is emptied, unless the
line is empty; the remaining input is left.\<close>

theorem edit_gets_returns_typed:
  assumes "wf_editor e" "\<forall>c \<in> set keys. editing c" "take 1 (typed (ringing ev) keys) \<noteq> ''!''"
  shows "\<exists>e'. edit_gets ev (keys @ 10 # cs) e = Some (Some (typed (ringing ev) keys, e', cs)) \<and> wf_editor e' \<and>
    hist_cur e' = (if typed (ringing ev) keys = [] then hist_cur e else next_line (hist_cur e)) \<and>
    map str_of (hist_lines e') = (map str_of (hist_lines e))[hist_cur e := typed (ringing ev) keys, hist_cur e' := []]"
proof -
  let ?t = "typed (ringing ev) keys" and ?i = "hist_cur e" and ?n = "next_line (hist_cur e)"
  obtain e1 where e1: "edit_loop ev (keys @ 10 # cs) (started e) = edit_loop ev (10 # cs) e1" "wf_editor e1"
    "?t = before_cursor e1 @ after_cursor e1" "hist_cur e1 = ?i" "current e1 = ?i" "hist_lines e1 = (hist_lines e)[?i := buf e1]"
    using edit_loop_keys [OF wf_started(1) [OF assms(1)] assms(2), of ev "10 # cs"] wf_started [OF assms(1)]
    by (auto simp: typed_def) (simp add: started_def)
  define b where "b = (buf e1)[bufp e1 := NUL]"
  define e2 where "e2 = e1\<lparr>hist_lines := (hist_lines e1)[?i := b], con := put1 (edev ev) NL (con e1)\<rparr>"
  have b: "wf_line b" "str_of b = ?t"
    using end_of_line_run(2) [OF e1(2)] str_of_terminated [OF e1(2)] typed_plain(2) [of "ringing ev" keys]
    by (simp_all add: b_def e1(3))
  have i: "?i < EDIT_HISTORY" "?i < length (hist_lines e)" "?n < EDIT_HISTORY" "?n \<noteq> ?i"
    using assms(1) mod_Suc [of ?i EDIT_HISTORY] by (auto simp: wf_editor_def wf_hist_def next_line_def EDIT_HISTORY_def)
  have e2: "wf_editor e2" "hist_lines e2 = (hist_lines e)[?i := b]" "hist_cur e2 = ?i" "current e2 = ?i"
    using wf_editor_line(2) [OF e1(2) b(1), of "put1 (edev ev) NL (con e1)" ?i] by (simp_all add: e2_def e1(4-6))
  have buf: "buf e2 = b"
    using i(2) by (simp add: buf_def e2(2,4))
  have loop: "edit_loop ev (keys @ 10 # cs) (started e) = Some (Some (e2, cs))"
    using end_of_line_run(1) [OF e1(2), of ev] by (simp add: e1(1,5) edit_loop.simps(2) CTRL_codes b_def e2_def)
  have "b ! 0 \<noteq> CHR ''!''"
  proof
    assume "b ! 0 = CHR ''!''"
    then have "take 1 (str_of b) = ''!''"
      using wf_line_length [OF b(1)] by (cases b) (auto simp: str_of_Cons)
    then show False
      using assms(3) b(2) by simp
  qed
  then have bang: "bang ev e2 = Some e2"
    using bang_plain [OF e2(1)] buf by simp
  show ?thesis
  proof (cases "?t = []")
    case True
    have "remember ?i e2 = Some e2"
      using remember_run [OF e2(1) i(1)] e2(2) i(2) b(2) True by simp
    then show ?thesis
      using loop bang e2 i(2) b(2) True by (simp add: edit_gets_split map_update)
  next
    case False
    define e3 where "e3 = e2\<lparr>hist_lines := (hist_lines e2)[?n := (hist_lines e2 ! ?n)[0 := NUL]], hist_cur := ?n\<rparr>"
    have "remember ?i e2 = Some e3"
      using remember_run [OF e2(1) i(1)] e2(2,3,4) i(2) b(2) False by (simp add: e3_def Let_def)
    moreover have "wf_editor e3"
      using remember_ok [OF e2(1) i(1)] calculation by simp
    moreover have "wf_line (hist_lines e2 ! ?n)"
      using e2(1) i(3) by (simp add: wf_editor_def wf_hist_def)
    ultimately show ?thesis
      using loop bang e2 i b(2) False by (simp add: edit_gets_split map_update e3_def str_of_cleared Let_def)
  qed
qed

lemma edit_gets_returns_typed_witness:
  "\<exists>e'. edit_gets sample_env ([98, 111, 120, 127, 116, 1, 102, 6, 11, 111] @ 10 # [97]) (sample_editor (replicate 10 ''ls'') 9) =
      Some (Some (typed False [98, 111, 120, 127, 116, 1, 102, 6, 11, 111], e', [97])) \<and> wf_editor e' \<and>
    hist_cur e' = (if typed False [98, 111, 120, 127, 116, 1, 102, 6, 11, 111] = [] then 9 else next_line 9) \<and>
    map str_of (hist_lines e') = (map str_of (hist_lines (sample_editor (replicate 10 ''ls'') 9)))
      [9 := typed False [98, 111, 120, 127, 116, 1, 102, 6, 11, 111], hist_cur e' := []]"
proof -
  have "typed False [98, 111, 120, 127, 116, 1, 102, 6, 11, 111] = ''fbo''"
    by code_simp
  moreover have "wf_editor (sample_editor (replicate 10 ''ls'') 9)"
    by (rule wf_sample_editor) (simp_all add: EDIT_HISTORY_def)
  ultimately show ?thesis
    using edit_gets_returns_typed [of "sample_editor (replicate 10 ''ls'') 9" "[98, 111, 120, 127, 116, 1, 102, 6, 11, 111]" sample_env "[97]"]
    by (simp add: history_codes sample_env_def) (simp add: sample_editor_def)
qed

section \<open>The history\<close>

definition prev_line :: "nat \<Rightarrow> nat" where
  "prev_line i = (if i = 0 then EDIT_HISTORY - 1 else i - 1)"

text \<open>The editor after line \<open>i\<close> was recalled.\<close>

definition recalled :: "nat \<Rightarrow> 'd editor \<Rightarrow> 'd console \<Rightarrow> 'd editor" where
  "recalled i e s = e\<lparr>current := i, bufc := length (str_of (hist_lines e ! i)), bufp := length (str_of (hist_lines e ! i)), con := s\<rparr>"

lemma recalled_simps [simp]:
  "hist_lines (recalled i e s) = hist_lines e" "hist_cur (recalled i e s) = hist_cur e" "current (recalled i e s) = i"
  "recalled j (recalled i e s) s' = recalled j e s'" "buf (recalled i e s) = hist_lines e ! i"
  "bufp (recalled i e s) = length (str_of (hist_lines e ! i))"
  by (simp_all add: recalled_def buf_def)

lemma wf_recalled: "wf_editor e \<Longrightarrow> i < EDIT_HISTORY \<Longrightarrow> wf_editor (recalled i e s)"
  unfolding recalled_def by (rule newbuffer_wf)

lemma prev_loop:
  assumes "wf_editor e" "prev_line (current e) \<noteq> hist_cur e" "str_of (hist_lines e ! prev_line (current e)) \<noteq> []"
  shows "\<exists>s. edit_loop ev (16 # cs) e = edit_loop ev cs (recalled (prev_line (current e)) e s)"
proof -
  have i: "prev_line (current e) < EDIT_HISTORY"
    using assms(1) by (auto simp: prev_line_def EDIT_HISTORY_def wf_editor_def)
  have "edit_loop ev (16 # cs) e = do { e \<leftarrow> newbuffer ev (prev_line (current e)) e; edit_loop ev cs e }"
    using line_used_run [OF assms(1) i] assms(2,3)
    by (simp add: edit_loop.simps(2) CTRL_codes edit_key_def key_prev_def Let_def prev_line_def [symmetric])
  then show ?thesis
    using newbuffer_run [OF assms(1) i, of ev] unfolding recalled_def by force
qed

lemma next_loop:
  assumes "wf_editor e" "current e \<noteq> hist_cur e" "next_line (current e) = hist_cur e"
  shows "\<exists>s. edit_loop ev (14 # cs) e = edit_loop ev cs (recalled (hist_cur e) e s)"
proof -
  have i: "hist_cur e < EDIT_HISTORY"
    using assms(1) by (simp add: wf_editor_def)
  have "edit_loop ev (14 # cs) e = do { e \<leftarrow> newbuffer ev (hist_cur e) e; edit_loop ev cs e }"
    using line_used_run [OF assms(1) i] assms(2,3)
    by (simp add: edit_loop.simps(2) CTRL_codes edit_key_def key_next_def Let_def next_line_def)
  then show ?thesis
    using newbuffer_run [OF assms(1) i, of ev] unfolding recalled_def by force
qed

lemma prev_line_iterate:
  assumes "i < EDIT_HISTORY" "k \<le> EDIT_HISTORY"
  shows "(prev_line ^^ k) i = (if k \<le> i then i - k else i + EDIT_HISTORY - k)"
  using assms(2)
proof (induction k)
  case (Suc k)
  then show ?case
    using assms(1) by (auto simp: prev_line_def EDIT_HISTORY_def)
qed simp

lemma prev_keys_loop:
  assumes "wf_editor e" "current e = hist_cur e"
    "\<forall>j < EDIT_HISTORY. j \<noteq> hist_cur e \<longrightarrow> str_of (hist_lines e ! j) \<noteq> []" "0 < k" "k < EDIT_HISTORY"
  shows "\<exists>s. edit_loop ev (replicate k 16 @ cs) e = edit_loop ev cs (recalled ((prev_line ^^ k) (hist_cur e)) e s)"
  using assms(4,5)
proof (induction k arbitrary: cs)
  case 0
  then show ?case
    by simp
next
  case (Suc k)
  have i: "hist_cur e < EDIT_HISTORY"
    using assms(1) by (simp add: wf_editor_def)
  let ?p = "prev_line ((prev_line ^^ k) (hist_cur e))"
  have p: "?p \<noteq> hist_cur e" "?p < EDIT_HISTORY" "(prev_line ^^ k) (hist_cur e) < EDIT_HISTORY"
    using prev_line_iterate [OF i, of "Suc k"] prev_line_iterate [OF i, of k] Suc.prems(2) i by auto
  have used: "str_of (hist_lines e ! ?p) \<noteq> []"
    using assms(3) p(1,2) by blast
  show ?case
  proof (cases "k = 0")
    case True
    then show ?thesis
      using prev_loop [OF assms(1), of ev cs] p(1) used assms(2) by simp
  next
    case False
    obtain s where s: "edit_loop ev (replicate k 16 @ 16 # cs) e = edit_loop ev (16 # cs) (recalled ((prev_line ^^ k) (hist_cur e)) e s)"
      using Suc.IH [of "16 # cs"] Suc.prems False by auto
    have "\<exists>s'. edit_loop ev (16 # cs) (recalled ((prev_line ^^ k) (hist_cur e)) e s) = edit_loop ev cs (recalled ?p e s')"
      using prev_loop [OF wf_recalled [OF assms(1) p(3)], of s ev cs] p(1) used by simp
    then show ?thesis
      using s by (simp add: replicate_app_Cons_same)
  qed
qed

lemma return_recalled:
  assumes "wf_editor e" "i < EDIT_HISTORY"
  shows "\<exists>s'. edit_loop ev (10 # cs) (recalled i e s) = Some (Some (recalled i e s', cs))"
proof -
  let ?b = "hist_lines e ! i"
  have b: "wf_line ?b"
    using assms by (simp add: wf_editor_def wf_hist_def)
  have "?b[length (str_of ?b) := NUL] = ?b"
    using wf_line_str_of(2) [OF b] by (metis list_update_id)
  then have "wr_buf (bufp (recalled i e s)) NUL (echo ev NL (recalled i e s)) =
      Some (recalled i e (put1 (edev ev) NL s))"
    using end_of_line_run(1) [OF wf_recalled [OF assms], of s ev] by (cases e) (simp add: recalled_def buf_def)
  then show ?thesis
    by (intro exI) (simp only: edit_loop.simps(2) CTRL_codes, simp)
qed

lemma str_of_head: "wf_line b \<Longrightarrow> take 1 (str_of b) \<noteq> ''!'' \<Longrightarrow> b ! 0 \<noteq> CHR ''!''"
  using wf_line_length [of b] by (cases b) (auto simp: str_of_Cons split: if_splits)

text \<open>C25: The oldest line of a full history cannot be run again.  With ten lines of which only the
current one is empty, the key \<open>^P\<close> nine times shows the oldest line; the return key then copies it to the current place, but
empties the next place of the ring, which is the oldest line itself and what the caller is given: an empty
command.\<close>

theorem edit_gets_oldest_lost:
  assumes "wf_editor e" "\<forall>j < EDIT_HISTORY. j \<noteq> hist_cur e \<longrightarrow> str_of (hist_lines e ! j) \<noteq> []"
    "take 1 (str_of (hist_lines e ! next_line (hist_cur e))) \<noteq> ''!''"
  shows "\<exists>e'. edit_gets ev (replicate 9 16 @ 10 # cs) e = Some (Some ([], e', cs)) \<and>
    str_of (hist_lines e' ! hist_cur e) = str_of (hist_lines e ! next_line (hist_cur e))"
proof -
  let ?i = "hist_cur e" and ?n = "next_line (hist_cur e)"
  have i: "?i < EDIT_HISTORY" "?n < EDIT_HISTORY" "?n \<noteq> ?i" "length (hist_lines e) = EDIT_HISTORY"
    using assms(1) mod_Suc [of ?i EDIT_HISTORY] by (auto simp: wf_editor_def wf_hist_def next_line_def EDIT_HISTORY_def)
  have n: "(prev_line ^^ 9) ?i = ?n"
    using prev_line_iterate [OF i(1), of 9] i(1) mod_Suc [of ?i EDIT_HISTORY] by (cases "?i = 9") (auto simp: EDIT_HISTORY_def next_line_def)
  note wf = wf_started(1) [OF assms(1)]
  have st: "hist_lines (started e) = hist_lines e" "hist_cur (started e) = ?i" "current (started e) = ?i"
    by (simp_all add: started_def)
  obtain s where "edit_loop ev (replicate 9 16 @ 10 # cs) (started e) = edit_loop ev (10 # cs) (recalled ?n (started e) s)"
    using prev_keys_loop [OF wf, of 9 ev "10 # cs"] assms(2) unfolding st n by (auto simp: EDIT_HISTORY_def)
  moreover obtain s' where "edit_loop ev (10 # cs) (recalled ?n (started e) s) = Some (Some (recalled ?n (started e) s', cs))"
    using return_recalled [OF wf i(2)] by blast
  moreover define e2 where "e2 = recalled ?n (started e) s'"
  ultimately have loop: "edit_loop ev (replicate 9 16 @ 10 # cs) (started e) = Some (Some (e2, cs))"
    by simp
  have e2: "wf_editor e2" "hist_lines e2 = hist_lines e" "hist_cur e2 = ?i" "current e2 = ?n" "buf e2 = hist_lines e ! ?n"
    using wf_recalled [OF wf i(2)] by (simp_all add: e2_def st)
  have line: "wf_line (hist_lines e ! ?n)" "str_of (hist_lines e ! ?n) \<noteq> []"
    using assms(1,2) i by (simp_all add: wf_editor_def wf_hist_def)
  have bang: "bang ev e2 = Some e2"
    using bang_plain [OF e2(1)] str_of_head [OF line(1) assms(3)] e2(5) by simp
  have "remember ?n e2 = Some (e2\<lparr>hist_lines := (hist_lines e)[?i := hist_lines e ! ?n, ?n := (hist_lines e ! ?n)[0 := NUL]], hist_cur := ?n\<rparr>)"
    using remember_run [OF e2(1) i(2)] e2(2-4) i(3) line(2) by (simp add: Let_def)
  then show ?thesis
    using loop bang e2(4) i str_of_cleared [OF line(1)] by (simp add: edit_gets_split Let_def)
qed

lemma edit_gets_oldest_lost_witness:
  "\<exists>e'. edit_gets sample_env (replicate 9 16 @ 10 # []) (sample_editor (''boot'' # '''' # replicate 8 ''ls'') 1) = Some (Some ([], e', [])) \<and>
    str_of (hist_lines e' ! 1) = ''ls''"
proof -
  have "wf_editor (sample_editor (''boot'' # '''' # replicate 8 ''ls'') 1)"
    by (rule wf_sample_editor) (simp_all add: EDIT_HISTORY_def)
  moreover have "\<forall>j < EDIT_HISTORY. j \<noteq> 1 \<longrightarrow> str_of (hist_lines (sample_editor (''boot'' # '''' # replicate 8 ''ls'') 1) ! j) \<noteq> []"
    by (simp add: sample_lines EDIT_HISTORY_def nth_Cons')
  moreover have "str_of (hist_lines (sample_editor (''boot'' # '''' # replicate 8 ''ls'') 1) ! 2) = ''ls''" "next_line 1 = 2"
    by (simp_all add: sample_lines EDIT_HISTORY_def next_line_def)
  ultimately show ?thesis
    using edit_gets_oldest_lost [of "sample_editor (''boot'' # '''' # replicate 8 ''ls'') 1" sample_env "[]"]
    by (simp add: sample_editor_def)
qed


text \<open>Printable characters at the end of the line: what the line held behind them stays.\<close>

lemma printable_code:
  assumes "isprint i"
  shows "i \<notin> {1, 2, 4, 5, 6, 8, 9, 10, 11, 13, 14, 16, 18, 21, 22, 24, 127}" "i \<noteq> 0"
proof -
  have "list_all (\<lambda>i. \<not> isprint i) [0, 1, 2, 4, 5, 6, 8, 9, 10, 11, 13, 14, 16, 18, 21, 22, 24, 127]"
    by code_simp
  then show "i \<notin> {1, 2, 4, 5, 6, 8, 9, 10, 11, 13, 14, 16, 18, 21, 22, 24, 127}" "i \<noteq> 0"
    using assms by auto
qed

lemma key_insert_plain:
  assumes "wf_editor e" "bufc e = bufp e" "bufp e < 253" "isprint (schar c)" "schar c \<noteq> EOF"
  shows "\<exists>e'. edit_key ev (schar c) e = Some e' \<and> wf_editor e' \<and> bufc e' = bufp e' \<and> bufp e' = bufp e + 1 \<and>
    hist_cur e' = hist_cur e \<and> current e' = current e \<and> hist_lines e' = (hist_lines e)[current e := (buf e)[bufp e := c]]"
proof -
  let ?b = "(buf e)[bufp e := c]"
  have b: "wf_line ?b"
    using wf_line_update [OF wf_buf [OF assms(1)]] assms(3) by simp
  have "wr_buf (bufc e) c (echo ev c e) = Some (set_buf ?b (echo ev c e))"
    using wr_buf_run [of "echo ev c e" "bufc e" c] wf_buf [OF assms(1)] assms(2,3) by (simp add: echo_con)
  then have "key_insert ev c e = Some ((set_buf ?b (echo ev c e))\<lparr>bufc := bufp e + 1, bufp := bufp e + 1\<rparr>)"
    using assms(2-4) by (simp add: key_insert_def LINESIZE_def Let_def set_buf_def echo_con)
  moreover have "edit_key ev (schar c) e = key_insert ev c e"
    using printable_code(1) [OF assms(4)] assms(5) by (simp add: edit_key_def CTRL_codes)
  moreover have "wf_editor ((set_buf ?b (echo ev c e))\<lparr>bufc := bufp e + 1, bufp := bufp e + 1\<rparr>)"
    using wf_editor_line(2) [OF assms(1) b, of "put1 (edev ev) c (con e)" "current e"] assms(3)
    by (simp add: wf_editor_def set_buf_def echo_con)
  ultimately show ?thesis
    by (simp add: set_buf_def echo_con)
qed

lemma plain_keys_loop:
  assumes "wf_editor e" "bufc e = bufp e" "\<forall>c \<in> set t. isprint (schar c) \<and> schar c \<noteq> EOF" "bufp e + length t \<le> 253"
  shows "\<exists>e'. edit_loop ev (map schar t @ cs) e = edit_loop ev cs e' \<and> wf_editor e' \<and>
    hist_cur e' = hist_cur e \<and> current e' = current e \<and>
    hist_lines e' = (hist_lines e)[current e := take (bufp e) (buf e) @ t @ drop (bufp e + length t) (buf e)]"
  using assms
proof (induction t arbitrary: e)
  case Nil
  then show ?case
    by (intro exI [of _ e]) (simp add: buf_def)
next
  case (Cons c t)
  obtain e1 where e1: "edit_key ev (schar c) e = Some e1" "wf_editor e1" "bufc e1 = bufp e1" "bufp e1 = bufp e + 1"
    "hist_cur e1 = hist_cur e" "current e1 = current e" "hist_lines e1 = (hist_lines e)[current e := (buf e)[bufp e := c]]"
    using key_insert_plain [OF Cons.prems(1,2), of c ev] Cons.prems(3,4) by auto
  obtain e' where e': "edit_loop ev (map schar t @ cs) e1 = edit_loop ev cs e'" "wf_editor e'"
    "hist_cur e' = hist_cur e1" "current e' = current e1"
    "hist_lines e' = (hist_lines e1)[current e1 := take (bufp e1) (buf e1) @ t @ drop (bufp e1 + length t) (buf e1)]"
    using Cons.IH [OF e1(2,3)] Cons.prems(3,4) e1(4) by auto
  have cur: "current e < length (hist_lines e)" and len: "bufp e < length (buf e)"
    using Cons.prems(1,4) wf_line_length [OF wf_buf [OF Cons.prems(1)]] by (simp_all add: wf_editor_def wf_hist_def)
  have "buf e1 = (buf e)[bufp e := c]"
    using cur unfolding buf_def [of e1] e1(6,7) by simp
  then have "take (bufp e1) (buf e1) @ t @ drop (bufp e1 + length t) (buf e1) =
      take (bufp e) (buf e) @ (c # t) @ drop (bufp e + length (c # t)) (buf e)"
    using len e1(4) by (simp add: take_Suc_conv_app_nth)
  moreover have "edit_loop ev (map schar (c # t) @ cs) e = edit_loop ev (map schar t @ cs) e1"
    using printable_code(1) [of "schar c"] Cons.prems(3) e1(1) by (simp add: edit_loop.simps(2) CTRL_codes)
  ultimately show ?case
    using e' e1(5-7) by (intro exI [of _ e']) simp
qed

text \<open>C26: A line left with \<open>^P\<close> and taken up again with \<open>^N\<close> grows.  Leaving it does not terminate
it, so that the place in the ring still holds, behind the typed characters, what it held when it was last used: the command
returned is the typed text with that behind it.\<close>

theorem edit_gets_stale_tail:
  assumes "wf_editor e" "\<forall>c \<in> set t. isprint (schar c) \<and> schar c \<noteq> EOF" "length t \<le> 253" "t \<noteq> []" "hd t \<noteq> CHR ''!''"
    "str_of (hist_lines e ! prev_line (hist_cur e)) \<noteq> []"
  shows "\<exists>e'. edit_gets ev (map schar t @ [16, 14, 10] @ cs) e =
    Some (Some (str_of (t @ drop (length t) (hist_lines e ! hist_cur e)), e', cs))"
proof -
  let ?i = "hist_cur e" and ?p = "prev_line (hist_cur e)"
  have i: "?i < EDIT_HISTORY" "?p < EDIT_HISTORY" "?p \<noteq> ?i" "next_line ?p = ?i" "length (hist_lines e) = EDIT_HISTORY"
    using assms(1) by (auto simp: wf_editor_def wf_hist_def prev_line_def next_line_def EDIT_HISTORY_def)
  define b where "b = t @ drop (length t) (hist_lines e ! ?i)"
  have st: "bufc (started e) = 0" "bufp (started e) = 0" "hist_cur (started e) = ?i" "current (started e) = ?i"
    "hist_lines (started e) = hist_lines e" "buf (started e) = hist_lines e ! ?i"
    by (simp_all add: started_def buf_def)
  obtain e1 where e1: "edit_loop ev (map schar t @ [16, 14, 10] @ cs) (started e) = edit_loop ev ([16, 14, 10] @ cs) e1" "wf_editor e1"
    "hist_cur e1 = ?i" "current e1 = ?i" "hist_lines e1 = (hist_lines e)[?i := b]"
    using plain_keys_loop [OF wf_started(1) [OF assms(1)], of t ev "[16, 14, 10] @ cs"] assms(2,3) unfolding st by (auto simp: b_def)
  have other: "hist_lines e1 ! ?p = hist_lines e ! ?p" "hist_lines e1 ! ?i = b"
    using i by (simp_all add: e1(5))
  obtain s where "edit_loop ev (16 # 14 # 10 # cs) e1 = edit_loop ev (14 # 10 # cs) (recalled ?p e1 s)"
    using prev_loop [OF e1(2), of ev "14 # 10 # cs"] i(3) other assms(6) unfolding e1(3,4) by auto
  moreover obtain s' where "edit_loop ev (14 # 10 # cs) (recalled ?p e1 s) = edit_loop ev (10 # cs) (recalled ?i e1 s')"
    using next_loop [OF wf_recalled [OF e1(2) i(2)], of s ev "10 # cs"] i(3,4) e1(3) by auto
  moreover obtain s'' where "edit_loop ev (10 # cs) (recalled ?i e1 s') = Some (Some (recalled ?i e1 s'', cs))"
    using return_recalled [OF e1(2) i(1)] by blast
  moreover define e2 where "e2 = recalled ?i e1 s''"
  ultimately have loop: "edit_loop ev (map schar t @ [16, 14, 10] @ cs) (started e) = Some (Some (e2, cs))"
    using e1(1) by simp
  have e2: "wf_editor e2" "hist_cur e2 = ?i" "current e2 = ?i" "hist_lines e2 ! ?i = b" "buf e2 = b" "length (hist_lines e2) = EDIT_HISTORY"
    using wf_recalled [OF e1(2) i(1)] i(5) by (simp_all add: e2_def e1(3) other(2)) (simp add: e1(5))
  have t: "NUL \<noteq> hd t" "b ! 0 = hd t"
  proof -
    have "hd t \<in> set t"
      using assms(4) by simp
    then show "NUL \<noteq> hd t"
      using assms(2) printable_code(2) [of "schar NUL"] schar_NUL by metis
    show "b ! 0 = hd t"
      using assms(4) by (cases t) (simp_all add: b_def)
  qed
  have bang: "bang ev e2 = Some e2"
    using bang_plain [OF e2(1)] e2(5) t(2) assms(5) by simp
  have used: "str_of b \<noteq> []"
    using t assms(4) by (cases t) (simp_all add: b_def str_of_Cons)
  have "next_line ?i \<noteq> ?i"
    using i(1) mod_Suc [of ?i EDIT_HISTORY] by (auto simp: next_line_def EDIT_HISTORY_def)
  then have "\<exists>e3. remember ?i e2 = Some e3 \<and> hist_lines e3 ! ?i = b"
    using remember_run [OF e2(1) i(1)] e2 used by (simp add: Let_def)
  then show ?thesis
    using loop bang e2(3) by (auto simp: edit_gets_split Let_def b_def)
qed

lemma edit_gets_stale_tail_witness:
  "\<exists>e'. edit_gets sample_env (map schar ''ls'' @ [16, 14, 10] @ []) (sample_editor (replicate 10 ''boot -f'') 4) =
    Some (Some (str_of (''ls'' @ drop (length ''ls'') (hist_lines (sample_editor (replicate 10 ''boot -f'') 4) ! 4)), e', []))"
proof -
  have "wf_editor (sample_editor (replicate 10 ''boot -f'') 4)"
    by (rule wf_sample_editor) (simp_all add: EDIT_HISTORY_def)
  moreover have "hist_cur (sample_editor (replicate 10 ''boot -f'') 4) = 4"
    by (simp add: sample_editor_def)
  moreover have "str_of (hist_lines (sample_editor (replicate 10 ''boot -f'') 4) ! 3) \<noteq> []"
    by (simp add: sample_lines)
  moreover have "\<forall>c \<in> set ''ls''. isprint (schar c) \<and> schar c \<noteq> EOF"
    by code_simp
  ultimately show ?thesis
    using edit_gets_stale_tail [of "sample_editor (replicate 10 ''boot -f'') 4" "''ls''" sample_env "[]"]
    by (simp add: prev_line_def)
qed

section \<open>Lines read by \<open>fgets\<close>\<close>

definition gkey :: "string \<Rightarrow> int \<Rightarrow> string" where
  "gkey t c =
    (if c = CTRL (CHR ''H'') \<or> c = DEL then butlast t
     else if c = CTRL (CHR ''R'') then t
     else if c = CTRL (CHR ''U'') then []
     else if isprint c \<and> length t < 253 then t @ [char_of_int c]
     else t)"

definition line_key :: "int \<Rightarrow> bool" where
  "line_key c \<longleftrightarrow> c \<notin> {CTRL (CHR ''V''), CTRL (CHR ''D''), EOF, 9, 10, 13}"

lemma line_codes: "line_key c \<longleftrightarrow> c \<notin> {22, 4, - 1, 9, 10, 13}"
  by (auto simp: line_key_def CTRL_codes)

lemma redisplay_run:
  assumes "n < length b"
  shows "\<exists>s'. redisplay dv b n s = Some (b[n := NUL], s')"
proof -
  have "NUL \<in> set (b[n := NUL])"
    using assms by (rule set_update_memI)
  then have "vprf_text False (cstr (''^R'' @ NL # ''%s%s'')) [AStr (Some (cstr PROMPT)), AStr (Some (b[n := NUL]))] =
      Some (''^R'' @ [NL] @ str_of (cstr PROMPT) @ str_of (b[n := NUL]))"
    using vprf_text_pieces [of "[Text (''^R'' @ [NL]), Field False False 0 0 (VStr (cstr PROMPT)), Field False False 0 0 (VStr (b[n := NUL]))]" False "[]"]
    by (simp add: number_text_def laid_out_def)
  then have "print dv (cstr (''^R'' @ NL # ''%s%s'')) [AStr (Some (cstr PROMPT)), AStr (Some (b[n := NUL]))] s =
      Some (printed dv (''^R'' @ [NL] @ str_of (cstr PROMPT) @ str_of (b[n := NUL])) s)"
    by (rule print_text)
  moreover have "wr b n NUL = Some (b[n := NUL])"
    using assms by (simp add: wr_def)
  ultimately show ?thesis
    unfolding redisplay_def by (simp only: bind.bind_lunit Option.bind.simps option.inject prod.inject) blast
qed

lemma line_key_step:
  assumes "take n b = t" "n = length t" "length t \<le> 253" "length b = LINESIZE" "TAB \<notin> set t" "line_key c"
  shows "\<exists>b' s'. fgets_loop dv (int LINESIZE) (c # cs) b n s = fgets_loop dv (int LINESIZE) cs b' (length (gkey t c)) s' \<and>
    take (length (gkey t c)) b' = gkey t c \<and> length (gkey t c) \<le> 253 \<and> length b' = LINESIZE \<and> TAB \<notin> set (gkey t c)"
proof -
  consider "c = 8 \<or> c = 127" | "c = 18" | "c = 21" | "c \<notin> {8, 127, 18, 21}"
    by blast
  then show ?thesis
  proof cases
    case 1
    show ?thesis
    proof (cases "n = 0")
      case True
      then show ?thesis
        using 1 assms by (intro exI [of _ b] exI [of _ s]) (auto simp: fgets_loop.simps gkey_def CTRL_codes)
    next
      case False
      have "t ! (n - 1) \<in> set t"
        using False assms(2) by (intro nth_mem) simp
      moreover have "b ! (n - 1) = t ! (n - 1)"
        using False assms(2) nth_take [of "n - 1" n b, unfolded assms(1)] by simp
      ultimately have "b ! (n - 1) \<noteq> TAB"
        using assms(5) by metis
      then have n: "n - 1 < length b" "b ! (n - 1) \<noteq> TAB"
        using assms(2-4) False by (simp_all add: LINESIZE_def)
      have "take (n - 1) (b[n - 1 := NUL]) = butlast t"
        using assms False by (simp add: butlast_conv_take) (metis take_take min.absorb1 diff_le_self)
      moreover have "rd b (n - 1) = Some (b ! (n - 1))"
        using n(1) by (simp add: rd_def)
      moreover have "wr b (n - 1) NUL = Some (b[n - 1 := NUL])"
        using n(1) by (simp add: wr_def)
      ultimately show ?thesis
        using 1 assms False n
        by (intro exI [of _ "b[n - 1 := NUL]"] exI) (auto simp: fgets_loop.simps(2) gkey_def CTRL_codes rd_def wr_def dest: in_set_butlastD)
    qed
  next
    case 2
    obtain s' where "redisplay dv b n s = Some (b[n := NUL], s')"
      using redisplay_run [of n b dv s] assms by (auto simp: LINESIZE_def)
    then show ?thesis
      using 2 assms by (intro exI [of _ "b[n := NUL]"] exI [of _ s']) (simp add: fgets_loop.simps(2) gkey_def CTRL_codes)
  next
    case 3
    have "print dv (cstr (''^U'' @ NL # ''%s'')) [AStr (Some (cstr PROMPT))] s = Some (printed dv (''^U'' @ NL # str_of (cstr PROMPT)) s)"
      using print_text [OF text_with_string [of "''^U'' @ [NL]" "[]" "cstr PROMPT"], where dv = dv and s = s] by simp
    then show ?thesis
      using 3 assms
      by (cases "n = 0") (auto simp: fgets_loop.simps(2) gkey_def CTRL_codes intro: exI [of _ b])
  next
    case 4
    show ?thesis
    proof (cases "isprint c \<and> length t < 253")
      case True
      have "isprint (c mod 256)"
        using True by (simp add: isprint_def ctype_is_def)
      then have "c mod 256 \<noteq> 9"
        using printable_code(1) by auto
      then have "char_of_int c \<noteq> TAB"
        by (auto simp: char_of_int_def char_of_eq_iff take_bit_nat_eq_self nat_less_iff)
      then show ?thesis
        using 4 True assms
        by (intro exI [of _ "b[n := char_of_int c]"] exI)
          (auto simp: fgets_loop.simps(2) gkey_def CTRL_codes line_codes LINESIZE_def wr_def take_Suc_conv_app_nth)
    next
      case False
      then show ?thesis
        using 4 assms
        by (intro exI [of _ b] exI) (auto simp: fgets_loop.simps(2) gkey_def CTRL_codes line_codes LINESIZE_def)
    qed
  qed
qed

lemma line_keys_loop:
  assumes "take (length t) b = t" "length t \<le> 253" "length b = LINESIZE" "TAB \<notin> set t" "\<forall>c \<in> set keys. line_key c"
  shows "\<exists>b' s'. fgets_loop dv (int LINESIZE) (keys @ cs) b (length t) s =
      fgets_loop dv (int LINESIZE) cs b' (length (foldl gkey t keys)) s' \<and>
    take (length (foldl gkey t keys)) b' = foldl gkey t keys \<and> length (foldl gkey t keys) \<le> 253 \<and> length b' = LINESIZE"
  using assms
proof (induction keys arbitrary: t b s)
  case Nil
  then show ?case
    by auto
next
  case (Cons c keys)
  obtain b1 s1 where 1: "fgets_loop dv (int LINESIZE) (c # keys @ cs) b (length t) s =
      fgets_loop dv (int LINESIZE) (keys @ cs) b1 (length (gkey t c)) s1"
    "take (length (gkey t c)) b1 = gkey t c" "length (gkey t c) \<le> 253" "length b1 = LINESIZE" "TAB \<notin> set (gkey t c)"
    using line_key_step [OF Cons.prems(1) refl Cons.prems(2-4), of c dv "keys @ cs" s] Cons.prems(5) by auto
  show ?case
    using Cons.IH [OF 1(2-5)] Cons.prems(5) by (simp add: 1(1))
qed

lemma nulfree_gkeys: "nulfree t \<Longrightarrow> nulfree (foldl gkey t keys)"
proof (induction keys arbitrary: t)
  case (Cons c keys)
  have "char_of_int c \<noteq> NUL" if "isprint c"
  proof
    assume "char_of_int c = NUL"
    then have "c mod 256 = 0"
      by (simp add: char_of_int_def char_of_eq_iff take_bit_nat_eq_self nat_less_iff)
    moreover have "isprint (c mod 256)"
      using that by (simp add: isprint_def ctype_is_def)
    ultimately show False
      using printable_code(2) by metis
  qed
  then have "nulfree (gkey t c)"
    using Cons.prems by (auto simp: gkey_def dest: in_set_butlastD)
  then show ?case
    using Cons.IH by simp
qed simp

text \<open>C13: \<open>gets\<close> returns what was typed.  For characters other than tab, \<open>^V\<close>, \<open>^D\<close> and the end of the
input, with erase (\<open>^H\<close>, DEL), kill (\<open>^U\<close>) and redisplay, and the return key behind them: the line is the
text those keys leave, at most 253 characters, and the rest of the input is left.\<close>

theorem gets_returns_typed:
  assumes "length b = LINESIZE" "\<forall>c \<in> set keys. line_key c"
  shows "\<exists>b' s'. gets dv b (keys @ 10 # cs) s = Some (Some (b', s', cs)) \<and> str_of b' = foldl gkey [] keys \<and>
    length (foldl gkey [] keys) \<le> 253 \<and> length b' = LINESIZE"
proof -
  let ?t = "foldl gkey [] keys"
  obtain b1 s1 where 1: "fgets_loop dv (int LINESIZE) (keys @ 10 # cs) b 0 s = fgets_loop dv (int LINESIZE) (10 # cs) b1 (length ?t) s1"
    "take (length ?t) b1 = ?t" "length ?t \<le> 253" "length b1 = LINESIZE"
    using line_keys_loop [of "[]" b keys dv "10 # cs" s] assms by auto
  have w: "wr b1 (length ?t) NUL = Some (b1[length ?t := NUL])"
    using 1(3,4) by (simp add: wr_def LINESIZE_def)
  have "b1[length ?t := NUL] = ?t @ NUL # drop (Suc (length ?t)) b1"
    using upd_conv_take_nth_drop [of "length ?t" b1 NUL] 1(2-4) by (simp add: LINESIZE_def)
  then have "str_of (b1[length ?t := NUL]) = ?t"
    using nulfree_gkeys [of "[]" keys] str_of_term by simp
  then show ?thesis
    using 1 w by (simp add: gets_def fgets_def fgets_loop.simps(2) CTRL_codes)
qed

lemma gets_returns_typed_witness:
  "\<exists>b' s'. gets (pv_device 0x8010) (replicate LINESIZE (CHR ''z'')) (map schar ''lx'' @ [8] @ map schar ''s -a'' @ 10 # []) sample_console =
      Some (Some (b', s', [])) \<and> str_of b' = ''ls -a'' \<and> length ''ls -a'' \<le> 253 \<and> length b' = LINESIZE"
proof -
  have "foldl gkey [] (map schar ''lx'' @ [8] @ map schar ''s -a'') = ''ls -a''"
    by code_simp
  moreover have "\<forall>c \<in> set (map schar ''lx'' @ [8] @ map schar ''s -a''). line_key c"
    by code_simp
  ultimately show ?thesis
    using gets_returns_typed [of "replicate LINESIZE (CHR ''z'')" "map schar ''lx'' @ [8] @ map schar ''s -a''" "pv_device 0x8010" "[]" sample_console]
    by simp
qed

text \<open>C28: \<open>fgets\<close> never returns at the end of the input: while the line is empty, \<open>EOF\<close> and \<open>^D\<close> only
empty the buffer, and the loop goes on for another character, however often they come.\<close>

theorem fgets_waits_at_eof:
  assumes "set cs \<subseteq> {EOF, CTRL (CHR ''D'')}" "b \<noteq> []"
  shows "fgets dv b len cs s = Some None"
  using assms unfolding fgets_def
proof (induction cs arbitrary: b)
  case Nil
  then show ?case
    by (simp add: fgets_loop.simps)
next
  case (Cons c cs)
  then have "c = - 1 \<or> c = 4"
    by (simp add: CTRL_codes)
  moreover have "fgets_loop dv len cs (b[0 := NUL]) 0 s = Some None"
    using Cons.IH [of "b[0 := NUL]"] Cons.prems by simp
  ultimately show ?case
    using Cons.prems by (auto simp: fgets_loop.simps(2) CTRL_codes wr_def)
qed

lemma fgets_waits_at_eof_witness: "fgets (pv_device 0x8010) [NUL] 1 [- 1, 4, - 1] sample_console = Some None"
  by (rule fgets_waits_at_eof) (simp_all add: CTRL_codes)

text \<open>C27: Tabs are stored without a check.  A line of more than 256 tabs is written
behind the buffer that \<open>gets\<close> is given, whatever follows.\<close>

theorem gets_tabs_overrun:
  assumes "length b = LINESIZE" "LINESIZE < n"
  shows "gets dv b (replicate n 9 @ cs) s = None"
proof -
  have tabs: "fgets_loop dv len (replicate k 9 @ cs) b (LINESIZE - j) s = None" if "length b = LINESIZE" "j < k" "j \<le> LINESIZE" for k j b s len
    using that
  proof (induction k arbitrary: j b s)
    case 0
    then show ?case
      by simp
  next
    case (Suc k)
    show ?case
    proof (cases j)
      case 0
      then show ?thesis
        using Suc.prems by (simp add: fgets_loop.simps(2) CTRL_codes wr_def LINESIZE_def)
    next
      case (Suc i)
      have "Suc (LINESIZE - j) = LINESIZE - i"
        using Suc \<open>j \<le> LINESIZE\<close> by simp
      then show ?thesis
        using Suc.IH [of "b[LINESIZE - j := TAB]" i "put1 dv TAB s"] Suc Suc.prems
        by (simp add: fgets_loop.simps(2) CTRL_codes wr_def LINESIZE_def)
    qed
  qed
  show ?thesis
    using tabs [of b LINESIZE n "int LINESIZE" s] assms by (simp add: gets_def fgets_def)
qed

lemma gets_tabs_overrun_witness:
  "gets (pv_device 0x8010) (replicate LINESIZE NUL) (replicate 300 9 @ [10]) sample_console = None"
  by (rule gets_tabs_overrun) (simp_all add: LINESIZE_def)

end
