(* ===== verification/Spec2Isabelle.thy ===== *)
theory Spec2Isabelle
imports Ctype Cstrings Atob Stringlist Environ Malloc Config Memdesc Fsreg Bootio Efs Efsread Xfs Xfsdir Xfsopen Xfsread Xfslook Loader Stdio Console Lineedit
begin

text \<open>A boot PROM for the SGI O2 (IP32): a model of the parts of the firmware that carry its
logic, and the theorems that make them correct.

\<^bold>\<open>The program.\<close>  \<open>src/fw\<close> starts the machine, builds the ARCS tables (component tree, memory
descriptors, file descriptors, environment) and boots a kernel from the disk:
\<open>Execute\<close> of \<open>src/fw/pv_stubs.c\<close> finds a file through the volume header, loads its ECOFF or ELF
image, copies the environment and jumps.  \<open>src/libsc/lib\<close> is the library underneath (strings,
numbers, string lists, environment, storage).  \<open>src/libsk\<close> holds the hardware side, of which the
environment defaults (\<open>ml/env.c\<close>) and the table of file systems (\<open>fs/fs.c\<close>) are modelled.

\<^bold>\<open>Theories and sources.\<close>
  \<^item> \<open>Prelude\<close>: C strings as lists of bytes up to the end of the object, signed characters, 32-bit
    address arithmetic.
  \<^item> \<open>Ctype\<close>: \<open>include/ctype.h\<close>, \<open>libsc/lib/ctype.c\<close>.  The classification macros.
  \<^item> \<open>Cstrings\<close>: \<open>libsc/lib/strstuff.c\<close>, \<open>strnstuff.c\<close>, \<open>strcasecmp.c\<close>.
  \<^item> \<open>Atob\<close>: \<open>libsc/lib/atob.c\<close>, \<open>atobu.c\<close>, \<open>btoa.c\<close>.  Uses \<open>Ctype\<close>.
  \<^item> \<open>Stringlist\<close>: \<open>libsc/lib/stringlist.c\<close>, \<open>include/stringlist.h\<close>.  Uses \<open>Cstrings\<close>.
  \<^item> \<open>Environ\<close>: \<open>libsc/lib/getenv.c\<close>, \<open>libsk/ml/env.c\<close>.  The client of \<open>Stringlist\<close>.
  \<^item> \<open>Malloc\<close>: \<open>libsc/lib/malloc.c\<close>.  Block headers are words in a memory of bytes.
  \<^item> \<open>Config\<close>: the component tree of \<open>fw/pv_stubs.c\<close> and its client \<open>libsc/lib/invfind.c\<close>.
  \<^item> \<open>Memdesc\<close>: the memory descriptors of \<open>fw/pv_stubs.c\<close>.
  \<^item> \<open>Fsreg\<close>: \<open>libsk/fs/fs.c\<close>.
  \<^item> \<open>Bootio\<close>: disk, volume header, paths and file descriptors of \<open>fw/pv_stubs.c\<close>, which call the
    file systems registered with \<open>Fsreg\<close>.
  \<^item> \<open>Efs\<close>: \<open>libsc/fs/efs.c\<close> and the layouts of \<open>include/sys/fs/efs_*.h\<close>: the extent file system,
    as compiled (big-endian, without writing).  Its strategy is what \<open>Bootio\<close> calls.
  \<^item> \<open>Efsread\<close>: what a read of an EFS descriptor stores, extent by extent.
  \<^item> \<open>Xfs\<close>, \<open>Xfsdir\<close>, \<open>Xfsopen\<close>: \<open>libsc/xfs/*.c\<close> and \<open>include/sys/fs/xfs_*.h\<close>: superblock,
    inodes, extent trees and read; directories of both versions; path walk, open, listing and the
    strategy.  The mount and inode structures of the driver are records, blocks are bytes.
  \<^item> \<open>Xfsread\<close>: what a read of an XFS descriptor stores, and where a hole in a file leads.
  \<^item> \<open>Xfslook\<close>: the lookups as searches of the list of entries, and what damaged directories do.
  \<^item> \<open>Stdio\<close>: output of \<open>libsc/lib/stdio.c\<close>: \<open>vprf\<close> and what is built on it, \<open>putchar\<close> and the line
    buffer of \<open>printf\<close> over a device, \<open>memset\<close>.
  \<^item> \<open>Console\<close>: that device for the PROM, \<open>Write\<close> of \<open>fw/pv_stubs.c\<close> and \<open>_errputc\<close>.
  \<^item> \<open>Lineedit\<close>: input of \<open>stdio.c\<close>: \<open>fgets\<close>, \<open>gets\<close>, the line editor \<open>edit_gets\<close> and its history.  Uses
    \<open>Console\<close>.
  \<^item> \<open>Loader\<close>: \<open>fw/pv_stubs.c\<close> from the ECOFF and ELF structures to \<open>Execute\<close>, over \<open>Bootio\<close>.

\<^bold>\<open>Conventions.\<close>  A record is the C structure with its fields, integers are words of their
width, and \<open>pointer\<close>s are offsets into the object they point into.  A function whose C body may read
or write outside an object returns an option and is \<open>None\<close> exactly then; results the C code
reports are values (\<open>errno\<close> codes, NULL as \<open>None\<close> of an inner option).  Loops are structural
or carry a measure; the only fuel is in \<open>Config\<close> (the searches walk a pointer structure), and
\<open>inventory_complete\<close> gives the amount that always suffices.  \<open>Malloc\<close> walks its list with
\<open>partial_function\<close>, and its properties prove that a result is returned.
Code outside the repository or below the modelled line (the SCSI or ARCS read service, the strategies of the other file systems, the allocator below
the extent file system, what the keyboard sends) is a parameter: an argument of the definitions that call it.

\<^bold>\<open>Interfaces.\<close>  The locale \<open>allocator\<close> states what clients of \<open>malloc\<close> and \<open>free\<close> rely on and is
interpreted on the model of \<open>malloc.c\<close>; \<open>inventory\<close> is the contract between the tree and the
searches of \<open>invfind.c\<close>, interpreted on \<open>GetChild\<close> and \<open>GetPeer\<close> of \<open>pv_stubs.c\<close>; \<open>byte_file\<close>
is the contract between the loader and the descriptors, interpreted on \<open>Seek\<close> and \<open>Read\<close> of the
disk; \<open>block_reader\<close> (a loop that fetches blocks and delivers bytes, with the file those blocks
make) is the contract of \<open>_xfs_read\<close>, interpreted on the steps of that routine; \<open>terminal\<close> (a device that
shows the characters it is sent, in order) is what \<open>printf\<close> and \<open>putchar\<close> rely on, interpreted on the
serial port as \<open>uart\<close>.

\<^bold>\<open>What the lemmas show.\<close>  For every component an invariant and that the operations keep it (strings
of a list, blocks of the arena, shape of the tree, ranges of the memory map), the functional
behaviour on every branch, and, where the component has an abstract description, a refinement: string
lists against lists of strings, the environment against a finite map, the table of file
systems against an association list, descriptors against a file of bytes, formats against the texts of their fields, the line editor
against a text with a cursor.
Where the code does not do what its comments say, a property states what it does.
The properties of the allocator hold for requests whose size is positive and does not wrap an address (\<open>fits\<close>);
\<open>malloc_size_wraps\<close> in \<open>Malloc\<close> is an example of what happens beyond that.  The buffer of \<open>printf\<close> is a list in
the model, and \<open>fputchar_within_buffer\<close> shows that the array of the code is never overrun.

\<^bold>\<open>Not modelled.\<close>  The patches \<open>Execute\<close> applies to the loaded IRIX kernel (\<open>pv_stubs.c\<close> from line 2156 on):
they are writes of fixed machine words at addresses of one kernel image, and their correctness is
a statement about that kernel.  The start-up and diagnostics (\<open>src/boot\<close>), caches, interrupt
and machine code (\<open>src/lib\<close>, \<open>libsk/ml\<close>, \<open>libsk/graphics\<close>, \<open>libsk/io\<close>, all assembler): device
register sequences without a specification in the repository.  The file system \<open>libsc/iso9660\<close> is not
built.  The commands (\<open>libsc/cmd\<close>) are left for later.  \<open>dw.c\<close>, \<open>lldiv.c\<close>, \<open>llbit.c\<close> and \<open>llshift.c\<close> are not built.
Aliasing of the cached and uncached segments of the address space is not modelled: an address is
what \<open>to_kseg1\<close> makes of it.\<close>

end
